(* ===== verification/Prelude.thy ===== *)
theory Prelude
  imports Complex_Main "HOL-Library.Char_ord" "HOL-Library.List_Lexorder"
    "HOL-Library.Product_Lexorder" "HOL-Library.Code_Target_Nat"
begin

text \<open>
  Shared vocabulary of the development: results with an error side, Rust strings as lists of
  bytes with the string operations the code calls, decimal numerals, and the ordered maps and
  sets of the standard library. A Rust \<open>String\<close> is its UTF-8 byte sequence, a byte is a
  \<open>char\<close>, and the order on \<open>string\<close> is the bytewise lexicographic order of \<open>str\<close>.
\<close>

named_theorems result_simps "how a result is built and taken apart"
named_theorems split_simps "splitting and joining strings"

section \<open>Results\<close>

definition bind_res :: "'e + 'a \<Rightarrow> ('a \<Rightarrow> 'e + 'b) \<Rightarrow> 'e + 'b" where
  "bind_res m f = (case m of Inl e \<Rightarrow> Inl e | Inr x \<Rightarrow> f x)"

definition ok_or :: "'a option \<Rightarrow> 'e \<Rightarrow> 'e + 'a" where
  "ok_or x e = (case x of None \<Rightarrow> Inl e | Some v \<Rightarrow> Inr v)"

definition map_err :: "('e \<Rightarrow> 'f) \<Rightarrow> 'e + 'a \<Rightarrow> 'f + 'a" where
  "map_err f m = (case m of Inl e \<Rightarrow> Inl (f e) | Inr x \<Rightarrow> Inr x)"

definition is_ok :: "'e + 'a \<Rightarrow> bool" where
  "is_ok m = (case m of Inl _ \<Rightarrow> False | Inr _ \<Rightarrow> True)"

definition is_some :: "'a option \<Rightarrow> bool" where
  "is_some x = (case x of None \<Rightarrow> False | Some _ \<Rightarrow> True)"

definition some_and :: "('a \<Rightarrow> bool) \<Rightarrow> 'a option \<Rightarrow> bool" where
  "some_and p x = (case x of None \<Rightarrow> False | Some v \<Rightarrow> p v)"

definition none_or :: "('a \<Rightarrow> bool) \<Rightarrow> 'a option \<Rightarrow> bool" where
  "none_or p x = (case x of None \<Rightarrow> True | Some v \<Rightarrow> p v)"

text \<open>Collecting an iterator of options: the first \<open>None\<close> is the result.\<close>

fun collect_opt :: "('a \<Rightarrow> 'b option) \<Rightarrow> 'a list \<Rightarrow> 'b list option" where
  "collect_opt f [] = Some []"
| "collect_opt f (x # xs) = (case f x of None \<Rightarrow> None
     | Some y \<Rightarrow> (case collect_opt f xs of None \<Rightarrow> None | Some ys \<Rightarrow> Some (y # ys)))"

text \<open>A loop whose body may return early with an error: the first error is the result.\<close>

fun each_ok :: "('a \<Rightarrow> 'e + unit) \<Rightarrow> 'a list \<Rightarrow> 'e + unit" where
  "each_ok f [] = Inr ()"
| "each_ok f (x # xs) = (case f x of Inl e \<Rightarrow> Inl e | Inr _ \<Rightarrow> each_ok f xs)"

fun map_res :: "('a \<Rightarrow> 'e + 'b) \<Rightarrow> 'a list \<Rightarrow> 'e + 'b list" where
  "map_res f [] = Inr []"
| "map_res f (x # xs) = (case f x of Inl e \<Rightarrow> Inl e
     | Inr y \<Rightarrow> (case map_res f xs of Inl e \<Rightarrow> Inl e | Inr ys \<Rightarrow> Inr (y # ys)))"

declare bind_res_def [code_unfold] some_and_def [code_unfold] none_or_def [code_unfold]

lemma bind_res_Inr [simp, result_simps]: "bind_res (Inr x) f = f x"
  by (simp add: bind_res_def)

lemma bind_res_Inl [simp, result_simps]: "bind_res (Inl e) f = Inl e"
  by (simp add: bind_res_def)

lemma bind_res_eq_Inr [result_simps]:
  "bind_res m f = Inr y \<longleftrightarrow> (\<exists>x. m = Inr x \<and> f x = Inr y)"
  by (cases m) auto

lemma bind_res_eq_Inl [result_simps]:
  "bind_res m f = Inl e \<longleftrightarrow> m = Inl e \<or> (\<exists>x. m = Inr x \<and> f x = Inl e)"
  by (cases m) auto

lemma ok_or_simps [simp, result_simps]: "ok_or (Some x) e = Inr x" "ok_or None e = Inl e"
  by (simp_all add: ok_or_def)

lemma ok_or_eq_Inr [simp, result_simps]: "ok_or x e = Inr y \<longleftrightarrow> x = Some y"
  by (cases x) auto

lemma ok_or_eq_Inl [simp, result_simps]: "ok_or x e = Inl e' \<longleftrightarrow> x = None \<and> e = e'"
  by (cases x) auto

lemma map_err_simps [simp, result_simps]: "map_err f (Inr x) = Inr x" "map_err f (Inl e) = Inl (f e)"
  by (simp_all add: map_err_def)

lemma map_err_eq_Inr [simp, result_simps]: "map_err f m = Inr y \<longleftrightarrow> m = Inr y"
  by (cases m) auto

lemma is_ok_simps [simp]: "is_ok (Inr x)" "\<not> is_ok (Inl e)"
  by (simp_all add: is_ok_def)

lemma is_ok_iff: "is_ok m \<longleftrightarrow> (\<exists>x. m = Inr x)"
  by (cases m) auto

lemma is_some_simps [simp]: "is_some (Some x)" "\<not> is_some None"
  by (simp_all add: is_some_def)

lemma some_and_simps [simp]: "some_and p (Some x) = p x" "\<not> some_and p None"
  by (simp_all add: some_and_def)

lemma none_or_simps [simp]: "none_or p (Some x) = p x" "none_or p None"
  by (simp_all add: none_or_def)

lemma if_Inl_eq_Inr [simp, result_simps]:
  "(if b then Inl e else m) = Inr y \<longleftrightarrow> \<not> b \<and> m = Inr y"
  by simp

lemma each_ok_Inr: "each_ok f xs = Inr u \<longleftrightarrow> (\<forall>x \<in> set xs. f x = Inr ())"
  by (induction xs) (auto split: sum.splits)

lemma collect_opt_Some: "collect_opt f xs = Some ys \<longleftrightarrow> list_all2 (\<lambda>x y. f x = Some y) xs ys"
proof (induction xs arbitrary: ys)
  case (Cons x xs)
  show ?case by (cases "f x") (auto simp: list_all2_Cons1 Cons.IH [symmetric] split: option.splits)
qed auto

lemma collect_opt_length: "collect_opt f xs = Some ys \<Longrightarrow> length ys = length xs"
  by (auto simp: collect_opt_Some dest: list_all2_lengthD)

lemma map_res_Inr: "map_res f xs = Inr ys \<longleftrightarrow> list_all2 (\<lambda>x y. f x = Inr y) xs ys"
proof (induction xs arbitrary: ys)
  case (Cons x xs)
  show ?case by (cases "f x") (auto simp: list_all2_Cons1 Cons.IH [symmetric] split: sum.splits)
qed auto

section \<open>Bytes\<close>

definition byte :: "char \<Rightarrow> nat" where
  "byte c = of_char c"

definition is_digit :: "char \<Rightarrow> bool" where
  "is_digit c \<longleftrightarrow> CHR ''0'' \<le> c \<and> c \<le> CHR ''9''"

definition is_lower :: "char \<Rightarrow> bool" where
  "is_lower c \<longleftrightarrow> CHR ''a'' \<le> c \<and> c \<le> CHR ''z''"

definition is_upper :: "char \<Rightarrow> bool" where
  "is_upper c \<longleftrightarrow> CHR ''A'' \<le> c \<and> c \<le> CHR ''Z''"

definition is_alpha :: "char \<Rightarrow> bool" where
  "is_alpha c \<longleftrightarrow> is_lower c \<or> is_upper c"

definition is_alnum :: "char \<Rightarrow> bool" where
  "is_alnum c \<longleftrightarrow> is_alpha c \<or> is_digit c"

definition lower_char :: "char \<Rightarrow> char" where
  "lower_char c = (if is_upper c then char_of (byte c + 32) else c)"

text \<open>\<open>to_ascii_lowercase\<close>\<close>

definition to_lower :: "string \<Rightarrow> string" where
  "to_lower s = map lower_char s"

lemma byte_less: "byte c < 256"
  by (simp add: byte_def nat_of_char_less_256)

lemma byte_char_of: "n < 256 \<Longrightarrow> byte (char_of n) = n"
  by (simp add: byte_def of_char_of)

lemma char_of_byte [simp]: "char_of (byte c) = c"
  by (simp add: byte_def)

lemma byte_inj: "byte c = byte d \<longleftrightarrow> c = d"
  by (simp add: byte_def)

lemma char_le_byte: "c \<le> d \<longleftrightarrow> byte c \<le> byte d"
  by (simp add: less_eq_char_def byte_def)

lemma is_digit_byte: "is_digit c \<longleftrightarrow> 48 \<le> byte c \<and> byte c \<le> 57"
  by (simp add: is_digit_def char_le_byte) (simp add: byte_def)

lemma is_upper_byte: "is_upper c \<longleftrightarrow> 65 \<le> byte c \<and> byte c \<le> 90"
  by (simp add: is_upper_def char_le_byte) (simp add: byte_def)

lemma is_lower_byte: "is_lower c \<longleftrightarrow> 97 \<le> byte c \<and> byte c \<le> 122"
  by (simp add: is_lower_def char_le_byte) (simp add: byte_def)

lemma lower_char_not_upper: "\<not> is_upper (lower_char c)"
  by (auto simp: lower_char_def is_upper_byte byte_char_of)

lemma lower_char_idem [simp]: "lower_char (lower_char c) = lower_char c"
  using lower_char_not_upper [of c] by (simp add: lower_char_def [of "lower_char c"])

lemma to_lower_idem [simp]: "to_lower (to_lower s) = to_lower s"
  by (simp add: to_lower_def)

lemma length_to_lower [simp]: "length (to_lower s) = length s"
  by (simp add: to_lower_def)

lemma is_digit_not_upper: "is_digit c \<Longrightarrow> \<not> is_upper c"
  by (auto simp: is_upper_byte is_digit_byte)

lemma is_lower_not_upper: "is_lower c \<Longrightarrow> \<not> is_upper c"
  by (auto simp: is_upper_byte is_lower_byte)

lemma to_lower_id: "\<forall>c \<in> set s. \<not> is_upper c \<Longrightarrow> to_lower s = s"
  by (induction s) (auto simp: to_lower_def lower_char_def)

text \<open>Equations for the evaluator: tests and comparisons decided bit by bit.\<close>

lemma byte_Char: "byte (Char b0 b1 b2 b3 b4 b5 b6 b7) = (if b0 then 1 else 0) + (if b1 then 2 else 0) + (if b2 then 4 else 0)
   + (if b3 then 8 else 0) + (if b4 then 16 else 0) + (if b5 then 32 else 0) + (if b6 then 64 else 0) + (if b7 then 128 else 0)"
  by (simp add: byte_def of_char_Char)

lemma is_digit_Char [code]: "is_digit (Char b0 b1 b2 b3 b4 b5 b6 b7) = (b4 \<and> b5 \<and> \<not> b6 \<and> \<not> b7 \<and> (b3 \<longrightarrow> \<not> b2 \<and> \<not> b1))"
  unfolding is_digit_byte byte_Char by (cases b0; cases b1; cases b2; cases b3; cases b4; cases b5; cases b6; cases b7) simp_all

lemma is_upper_Char [code]: "is_upper (Char b0 b1 b2 b3 b4 b5 b6 b7) = (b6 \<and> \<not> b5 \<and> \<not> b7 \<and>
    (if b4 then \<not> (b3 \<and> (b2 \<or> b1 \<and> b0)) else b0 \<or> b1 \<or> b2 \<or> b3))"
  unfolding is_upper_byte byte_Char by (cases b0; cases b1; cases b2; cases b3; cases b4; cases b5; cases b6; cases b7) simp_all

lemma is_lower_Char [code]: "is_lower (Char b0 b1 b2 b3 b4 b5 b6 b7) = (b6 \<and> b5 \<and> \<not> b7 \<and>
    (if b4 then \<not> (b3 \<and> (b2 \<or> b1 \<and> b0)) else b0 \<or> b1 \<or> b2 \<or> b3))"
  unfolding is_lower_byte byte_Char by (cases b0; cases b1; cases b2; cases b3; cases b4; cases b5; cases b6; cases b7) simp_all

lemma top_bit: "(x::nat) < t \<Longrightarrow> y < t \<Longrightarrow> x + (if b then t else 0) < y + (if c then t else 0) \<longleftrightarrow> (if b = c then x < y else c)"
  by auto

lemma char_less_code [code]: "Char a0 a1 a2 a3 a4 a5 a6 a7 < Char b0 b1 b2 b3 b4 b5 b6 b7 \<longleftrightarrow>
    (if a7 = b7 then if a6 = b6 then if a5 = b5 then if a4 = b4 then if a3 = b3 then if a2 = b2 then if a1 = b1
       then if a0 = b0 then False else b0 else b1 else b2 else b3 else b4 else b5 else b6 else b7)"
  by (simp only: less_char_def flip: byte_def)
    (simp only: byte_Char, (subst top_bit, simp, simp, intro if_cong refl)+, simp)

lemma char_le_code [code]: "Char a0 a1 a2 a3 a4 a5 a6 a7 \<le> Char b0 b1 b2 b3 b4 b5 b6 b7 \<longleftrightarrow>
    \<not> Char b0 b1 b2 b3 b4 b5 b6 b7 < Char a0 a1 a2 a3 a4 a5 a6 a7"
  by (simp only: not_less)

lemma less_Cons_code [code]:
  "xs < ([]::'a::{equal, order} list) \<longleftrightarrow> False" "[] < (x::'a::{equal, order}) # xs \<longleftrightarrow> True"
  "(x::'a::{equal, order}) # xs < y # ys \<longleftrightarrow> (if x = y then xs < ys else x < y)"
  by auto

section \<open>Splitting and joining strings\<close>

text \<open>\<open>str::split\<close> on one character: always at least one piece.\<close>

fun split_on :: "char \<Rightarrow> string \<Rightarrow> string list" where
  "split_on d [] = [[]]"
| "split_on d (c # cs) = (if c = d then [] # split_on d cs
     else (case split_on d cs of [] \<Rightarrow> [[c]] | p # ps \<Rightarrow> (c # p) # ps))"

fun join_on :: "char \<Rightarrow> string list \<Rightarrow> string" where
  "join_on d [] = []"
| "join_on d [p] = p"
| "join_on d (p # q # ps) = p @ d # join_on d (q # ps)"

text \<open>\<open>str::strip_prefix\<close> with a string pattern, and \<open>str::starts_with\<close>.\<close>

fun strip_prefix :: "string \<Rightarrow> string \<Rightarrow> string option" where
  "strip_prefix [] s = Some s"
| "strip_prefix (p # ps) [] = None"
| "strip_prefix (p # ps) (c # cs) = (if p = c then strip_prefix ps cs else None)"

definition starts_with :: "string \<Rightarrow> string \<Rightarrow> bool" where
  "starts_with p s = is_some (strip_prefix p s)"

text \<open>\<open>str::split_once\<close>: cut at the first occurrence of the pattern.\<close>

fun split_once :: "string \<Rightarrow> string \<Rightarrow> (string \<times> string) option" where
  "split_once p [] = (if p = [] then Some ([], []) else None)"
| "split_once p (c # cs) = (case strip_prefix p (c # cs) of
     Some r \<Rightarrow> Some ([], r)
   | None \<Rightarrow> (case split_once p cs of None \<Rightarrow> None | Some (a, b) \<Rightarrow> Some (c # a, b)))"

lemma split_on_not_Nil [simp]: "split_on d s \<noteq> []"
  by (induction s) (auto split: list.splits)

lemma split_on_cases: obtains p ps where "split_on d s = p # ps"
  using split_on_not_Nil [of d s] by (cases "split_on d s") auto

lemma join_split [split_simps]: "join_on d (split_on d s) = s"
proof (induction s)
  case (Cons c cs)
  obtain p ps where "split_on d cs = p # ps" by (rule split_on_cases)
  with Cons show ?case by (cases ps) auto
qed simp

lemma split_on_no_sep: "p \<in> set (split_on d s) \<Longrightarrow> d \<notin> set p"
proof (induction s arbitrary: p)
  case (Cons c cs)
  obtain q qs where "split_on d cs = q # qs" by (rule split_on_cases)
  with Cons show ?case by (auto split: if_splits)
qed simp

lemma split_on_single: "d \<notin> set s \<Longrightarrow> split_on d s = [s]"
  by (induction s) auto

lemma split_on_append: "d \<notin> set p \<Longrightarrow> split_on d (p @ d # s) = p # split_on d s"
  by (induction p) auto

lemma split_join [split_simps]:
  "ps \<noteq> [] \<Longrightarrow> \<forall>p \<in> set ps. d \<notin> set p \<Longrightarrow> split_on d (join_on d ps) = ps"
  by (induction d ps rule: join_on.induct) (auto simp: split_on_single split_on_append)

lemma set_join_on: "set (join_on d ps) \<subseteq> insert d (\<Union> (set ` set ps))"
  by (induction d ps rule: join_on.induct) auto

lemma set_split_on: "set s = (\<Union>p \<in> set (split_on d s). set p) \<union> (if d \<in> set s then {d} else {})"
proof (induction s)
  case (Cons c cs)
  obtain q qs where "split_on d cs = q # qs" by (rule split_on_cases)
  with Cons show ?case by (auto split: if_splits)
qed simp

lemma strip_prefix_Some [split_simps]: "strip_prefix p s = Some r \<longleftrightarrow> s = p @ r"
  by (induction p s rule: strip_prefix.induct) auto

lemma strip_prefix_append [simp]: "strip_prefix p (p @ r) = Some r"
  by (simp add: strip_prefix_Some)

lemma strip_prefix_None: "strip_prefix p s = None \<longleftrightarrow> (\<forall>r. s \<noteq> p @ r)"
  using strip_prefix_Some [of p s] by (cases "strip_prefix p s") auto

lemma starts_with_iff: "starts_with p s \<longleftrightarrow> (\<exists>r. s = p @ r)"
  unfolding starts_with_def
  by (cases "strip_prefix p s") (use strip_prefix_None [of p s] strip_prefix_Some [of p s] in auto)

lemma split_once_Some: "split_once p s = Some (a, b) \<Longrightarrow> s = a @ p @ b"
  by (induction s arbitrary: a)
    (auto split: option.splits if_splits simp: strip_prefix_Some)

lemma split_once_eq: "split_once [d] (c # cs) =
    (if d = c then Some ([], cs) else map_option (\<lambda>(a, b). (c # a, b)) (split_once [d] cs))"
  by (auto split: option.splits)

lemma split_once_char:
  "split_once [d] s = Some (a, b) \<longleftrightarrow> s = a @ d # b \<and> d \<notin> set a"
proof (induction s arbitrary: a)
  case (Cons c cs)
  note IH = Cons.IH
  show ?case
  proof (cases "d = c")
    case True
    then show ?thesis by (cases a) (auto simp add: split_once_eq simp del: split_once.simps)
  next
    case False
    have "split_once [d] (c # cs) = Some (a, b) \<longleftrightarrow> (\<exists>a'. a = c # a' \<and> split_once [d] cs = Some (a', b))"
      using False by (auto simp add: split_once_eq simp del: split_once.simps)
    also have "\<dots> \<longleftrightarrow> c # cs = a @ d # b \<and> d \<notin> set a"
      using False by (cases a) (auto simp add: IH simp del: split_once.simps)
    finally show ?thesis .
  qed
qed simp

lemma split_once_char_None: "split_once [d] s = None \<longleftrightarrow> d \<notin> set s"
proof (induction s)
  case (Cons c cs)
  then show ?case by (simp add: split_once_eq del: split_once.simps)
qed simp

lemma split_on_snoc: "split_on d (a @ d # b) = split_on d a @ split_on d b"
proof (induction a)
  case (Cons c a)
  obtain p ps where "split_on d a = p # ps" by (rule split_on_cases)
  then show ?case using Cons by (cases "c = d") auto
qed simp

section \<open>Decimal numerals\<close>

definition digit_val :: "char \<Rightarrow> nat" where
  "digit_val c = byte c - 48"

definition digit_char :: "nat \<Rightarrow> char" where
  "digit_char n = char_of (n + 48)"

definition nat_of_digits :: "string \<Rightarrow> nat" where
  "nat_of_digits s = foldl (\<lambda>n c. n * 10 + digit_val c) 0 s"

text \<open>\<open>Display\<close> of an unsigned integer.\<close>

fun show_nat :: "nat \<Rightarrow> string" where
  "show_nat n = (if n < 10 then [digit_char n] else show_nat (n div 10) @ [digit_char (n mod 10)])"

declare show_nat.simps [simp del]

lemma char_of_48: "char_of (48::nat) = CHR ''0''"
  by (simp add: char_of_def bit_0)

lemma digit_val_char: "n < 10 \<Longrightarrow> digit_val (digit_char n) = n"
  by (simp add: digit_val_def digit_char_def byte_char_of)

lemma digit_char_val: "is_digit c \<Longrightarrow> digit_char (digit_val c) = c"
  by (simp add: digit_val_def digit_char_def is_digit_byte)

lemma digit_val_less: "is_digit c \<Longrightarrow> digit_val c < 10"
  by (auto simp: digit_val_def is_digit_byte)

lemma is_digit_char: "n < 10 \<Longrightarrow> is_digit (digit_char n)"
  by (simp add: digit_char_def is_digit_byte byte_char_of)

lemma nat_of_digits_snoc: "nat_of_digits (s @ [c]) = nat_of_digits s * 10 + digit_val c"
  by (simp add: nat_of_digits_def)

lemma show_nat_digits: "c \<in> set (show_nat n) \<Longrightarrow> is_digit c"
  by (induction n rule: show_nat.induct) (subst (asm) show_nat.simps, auto split: if_splits simp: is_digit_char)

lemma show_nat_not_Nil [simp]: "show_nat n \<noteq> []"
  by (subst show_nat.simps) simp

lemma nat_of_show_nat [simp]: "nat_of_digits (show_nat n) = n"
proof (induction n rule: show_nat.induct)
  case (1 n)
  then show ?case
    by (cases "n < 10"; subst show_nat.simps)
      (simp_all add: nat_of_digits_snoc digit_val_char, simp add: nat_of_digits_def digit_val_char)
qed

lemma digit_char_0: "digit_char n = CHR ''0'' \<Longrightarrow> n < 10 \<Longrightarrow> n = 0"
  using digit_val_char [of n] by (simp add: digit_val_def byte_def)

lemma show_nat_leading: "hd (show_nat n) = CHR ''0'' \<Longrightarrow> n = 0"
proof (induction n rule: show_nat.induct)
  case (1 n)
  show ?case
  proof (cases "n < 10")
    case True
    with "1.prems" show ?thesis by (subst (asm) show_nat.simps) (simp add: digit_char_0)
  next
    case False
    with "1.prems" have "hd (show_nat (n div 10)) = CHR ''0''"
      by (subst (asm) show_nat.simps) simp
    with "1.IH" False show ?thesis by simp
  qed
qed

lemma show_nat_canonical: "\<not> (length (show_nat n) > 1 \<and> hd (show_nat n) = CHR ''0'')"
  using show_nat_leading [of n] by (auto simp: show_nat.simps [of 0])

lemma nat_of_digits_0:
  "list_all is_digit s \<Longrightarrow> nat_of_digits s = 0 \<Longrightarrow> s \<noteq> [] \<Longrightarrow> hd s = CHR ''0''"
proof (induction s rule: rev_induct)
  case (snoc c s)
  have "digit_char (digit_val c) = c" using snoc.prems by (simp add: digit_char_val)
  then have c: "digit_val c = 0 \<Longrightarrow> c = CHR ''0''" by (metis digit_char_def add_0 char_of_48)
  have "nat_of_digits s = 0 \<and> digit_val c = 0"
    using snoc.prems by (simp add: nat_of_digits_snoc)
  then show ?case using snoc c by (cases s) auto
qed simp

lemma show_nat_of_digits:
  "list_all is_digit s \<Longrightarrow> s \<noteq> [] \<Longrightarrow> \<not> (length s > 1 \<and> hd s = CHR ''0'') \<Longrightarrow>
    show_nat (nat_of_digits s) = s"
proof (induction s rule: rev_induct)
  case (snoc c s)
  have c: "digit_char (digit_val c) = c" "digit_val c < 10"
    using snoc.prems by (simp_all add: digit_char_val digit_val_less)
  show ?case
  proof (cases "s = []")
    case True
    with c show ?thesis by (subst show_nat.simps) (simp add: nat_of_digits_def)
  next
    case False
    with snoc.prems have "hd s \<noteq> CHR ''0''" and digits: "list_all is_digit s" by auto
    with False have "nat_of_digits s \<noteq> 0" using nat_of_digits_0 by blast
    moreover have "show_nat (nat_of_digits s) = s"
      using snoc.IH digits False \<open>hd s \<noteq> CHR ''0''\<close> by simp
    ultimately show ?thesis using c
      by (subst show_nat.simps) (simp add: nat_of_digits_snoc)
  qed
qed simp

end
