(* ===== verification/BTree.thy ===== *)
theory BTree
  imports Prelude
begin

text \<open>
  The standard library's \<open>BTreeMap\<close>: an association list kept in strictly increasing key
  order, so that iteration is a walk along the list. \<open>ordered_map\<close> is the contract the
  components rely on; the association list meets it.
\<close>

type_synonym ('k, 'v) btree = "('k \<times> 'v) list"

fun bt_insert :: "'k::linorder \<Rightarrow> 'v \<Rightarrow> ('k, 'v) btree \<Rightarrow> ('k, 'v) btree" where
  "bt_insert k v [] = [(k, v)]"
| "bt_insert k v ((a, w) # m) =
     (if k < a then (k, v) # (a, w) # m
      else if k = a then (k, v) # m
      else (a, w) # bt_insert k v m)"

fun bt_remove :: "'k \<Rightarrow> ('k, 'v) btree \<Rightarrow> ('k, 'v) btree" where
  "bt_remove k [] = []"
| "bt_remove k ((a, w) # m) = (if k = a then bt_remove k m else (a, w) # bt_remove k m)"

definition bt_get :: "('k, 'v) btree \<Rightarrow> 'k \<Rightarrow> 'v option" where
  "bt_get m k = map_of m k"

definition bt_has :: "('k, 'v) btree \<Rightarrow> 'k \<Rightarrow> bool" where
  "bt_has m k = is_some (map_of m k)"

definition bt_keys :: "('k, 'v) btree \<Rightarrow> 'k list" where
  "bt_keys m = map fst m"

definition bt_inv :: "('k::linorder, 'v) btree \<Rightarrow> bool" where
  "bt_inv m = sorted_wrt (<) (map fst m)"

definition bt_of_list :: "('k::linorder \<times> 'v) list \<Rightarrow> ('k, 'v) btree" where
  "bt_of_list kvs = fold (\<lambda>(k, v). bt_insert k v) kvs []"

locale ordered_map =
  fixes empty :: "'m"
    and ins :: "'k::linorder \<Rightarrow> 'v \<Rightarrow> 'm \<Rightarrow> 'm"
    and del :: "'k \<Rightarrow> 'm \<Rightarrow> 'm"
    and get :: "'m \<Rightarrow> 'k \<Rightarrow> 'v option"
    and keys :: "'m \<Rightarrow> 'k list"
    and inv :: "'m \<Rightarrow> bool"
  assumes get_empty: "get empty k = None"
    and get_ins: "get (ins k v m) = (get m)(k \<mapsto> v)"
    and get_del: "get (del k m) = (get m)(k := None)"
    and inv_empty: "inv empty"
    and inv_ins: "inv m \<Longrightarrow> inv (ins k v m)"
    and inv_del: "inv m \<Longrightarrow> inv (del k m)"
    and keys_dom: "set (keys m) = dom (get m)"
    and keys_sorted: "inv m \<Longrightarrow> sorted_wrt (<) (keys m)"
begin

text \<open>Two maps with the same bindings are walked in the same order.\<close>

lemma keys_ext: "inv m \<Longrightarrow> inv n \<Longrightarrow> get m = get n \<Longrightarrow> keys m = keys n"
  using keys_dom [of m] keys_dom [of n] keys_sorted [of m] keys_sorted [of n]
  by (simp add: strict_sorted_equal)

lemma get_fold_ins: "get (fold (\<lambda>(k, v). ins k v) kvs m) = get m ++ map_of (rev kvs)"
  by (induction kvs arbitrary: m) (auto simp: get_ins map_add_def fun_eq_iff split: option.splits)

lemma inv_fold_ins: "inv m \<Longrightarrow> inv (fold (\<lambda>(k, v). ins k v) kvs m)"
  by (induction kvs arbitrary: m) (auto simp: inv_ins)

lemma keys_ins: "set (keys (ins k v m)) = insert k (set (keys m))"
  by (auto simp: keys_dom get_ins)

lemma keys_distinct: "inv m \<Longrightarrow> distinct (keys m)"
  using keys_sorted [of m] by (simp add: strict_sorted_iff)

end

lemma bt_get_insert: "bt_get (bt_insert k v m) = (bt_get m)(k \<mapsto> v)"
  by (induction k v m rule: bt_insert.induct) (auto simp: bt_get_def fun_eq_iff)

lemma bt_get_remove: "bt_get (bt_remove k m) = (bt_get m)(k := None)"
  by (induction k m rule: bt_remove.induct) (auto simp: bt_get_def fun_eq_iff)

lemma set_keys_insert: "fst ` set (bt_insert k v m) = insert k (fst ` set m)"
  by (induction k v m rule: bt_insert.induct) auto

lemma bt_inv_Nil [simp]: "bt_inv []"
  by (simp add: bt_inv_def)

lemma bt_inv_Cons: "bt_inv ((a, w) # m) \<longleftrightarrow> (\<forall>x \<in> fst ` set m. a < x) \<and> bt_inv m"
  by (auto simp: bt_inv_def)

lemma bt_inv_insert: "bt_inv m \<Longrightarrow> bt_inv (bt_insert k v m)"
proof (induction m)
  case (Cons p m)
  obtain a w where p: "p = (a, w)" by fastforce
  have m: "bt_inv m" and less: "\<forall>x \<in> fst ` set m. a < x"
    using Cons.prems unfolding p bt_inv_Cons by blast+
  consider "k < a" | "k = a" | "a < k" by (rule linorder_cases)
  then show ?case
  proof cases
    case 1
    then have "\<forall>x \<in> fst ` set m. k < x" using less by (metis less_trans)
    with 1 m less show ?thesis unfolding p by (simp add: bt_inv_Cons)
  next
    case 2
    with m less show ?thesis unfolding p by (simp add: bt_inv_Cons)
  next
    case 3
    have "\<forall>x \<in> fst ` set (bt_insert k v m). a < x"
      using less 3 unfolding set_keys_insert by blast
    moreover have "\<not> k < a" "k \<noteq> a" using 3 by auto
    ultimately show ?thesis using Cons.IH [OF m] unfolding p by (simp add: bt_inv_Cons)
  qed
qed (simp add: bt_inv_def)

lemma bt_remove_filter: "bt_remove k m = filter (\<lambda>p. k \<noteq> fst p) m"
  by (induction k m rule: bt_remove.induct) simp_all

lemma set_bt_remove: "set (bt_remove k m) = {p \<in> set m. k \<noteq> fst p}"
  by (simp add: bt_remove_filter)

lemma bt_inv_remove: "bt_inv m \<Longrightarrow> bt_inv (bt_remove k m)"
proof (induction m)
  case (Cons p m)
  obtain a w where p: "p = (a, w)" by fastforce
  with Cons have "bt_inv (bt_remove k m)" "\<forall>x \<in> fst ` set m. a < x" by (simp_all add: bt_inv_Cons)
  then show ?case unfolding p by (cases "k = a") (simp_all add: bt_inv_Cons set_bt_remove)
qed simp

lemma dom_bt_get: "dom (bt_get m) = fst ` set m"
  unfolding bt_get_def by (rule dom_map_of_conv_image_fst)

interpretation bt: ordered_map "[]" bt_insert bt_remove bt_get bt_keys bt_inv
  by unfold_locales
    (simp_all add: bt_get_insert bt_get_remove bt_inv_insert bt_inv_remove dom_bt_get,
      simp_all add: bt_get_def bt_inv_def bt_keys_def)

lemma bt_has_iff [simp]: "bt_has m k \<longleftrightarrow> k \<in> fst ` set m"
  by (auto simp: bt_has_def is_some_def map_of_eq_None_iff split: option.splits)
    (metis domI dom_map_of_conv_image_fst)

lemma bt_get_in: "bt_get m k = Some v \<Longrightarrow> (k, v) \<in> set m"
  by (simp add: bt_get_def map_of_SomeD)

lemma bt_get_None: "bt_get m k = None \<longleftrightarrow> k \<notin> fst ` set m"
  by (simp add: bt_get_def map_of_eq_None_iff)

lemma bt_inv_distinct: "bt_inv m \<Longrightarrow> distinct (map fst m)"
  using bt.keys_distinct [of m] by (simp add: bt_keys_def)

lemma bt_get_iff: "bt_inv m \<Longrightarrow> bt_get m k = Some v \<longleftrightarrow> (k, v) \<in> set m"
  by (simp add: bt_get_def bt_inv_distinct)

lemma bt_inv_of_list: "bt_inv (bt_of_list kvs)"
  unfolding bt_of_list_def by (rule bt.inv_fold_ins) simp

lemma bt_get_of_list: "bt_get (bt_of_list kvs) = map_of (rev kvs)"
  unfolding bt_of_list_def by (simp add: bt.get_fold_ins) (simp add: bt_get_def fun_eq_iff map_add_def split: option.splits)

lemma bt_has_get: "bt_has m k \<longleftrightarrow> bt_get m k \<noteq> None"
  using bt_get_None [of m k] by simp

end
