(* ===== verification/Semver.thy ===== *)
theory Semver
  imports Prelude
begin

text \<open>
  The catalog's SemVer dialect (\<open>crates/entorhinal-catalog/src/semver.rs\<close>): versions with
  prerelease identifiers and no build metadata, their order, and ranges made of alternatives of
  comparators. \<open>u64\<close> fields are natural numbers; the parser bounds them by
  \<open>MAX_SAFE_INTEGER\<close>, so the increments in \<open>comparator\<close> cannot overflow.
\<close>

definition MAX_SAFE_INTEGER :: nat where
  "MAX_SAFE_INTEGER = 9007199254740991"

datatype version = Version (major: nat) (minor: nat) (patch: nat) (pre: "string list")

datatype version_error = VersionInvalid

datatype ordering = Less | Equal | Greater

definition cmp_of :: "'a::linorder \<Rightarrow> 'a \<Rightarrow> ordering" where
  "cmp_of x y = (if x < y then Less else if x = y then Equal else Greater)"

definition then_with :: "ordering \<Rightarrow> ordering \<Rightarrow> ordering" where
  "then_with a b = (if a = Equal then b else a)"

section \<open>Parsing and printing versions\<close>

definition numeric :: "string \<Rightarrow> nat option" where
  "numeric s =
     (if s = [] \<or> \<not> list_all is_digit s \<or> (length s > 1 \<and> hd s = CHR ''0'') then None
      else let n = nat_of_digits s in if n < 2 ^ 64 \<and> n \<le> MAX_SAFE_INTEGER then Some n else None)"

definition pre_id_ok :: "string \<Rightarrow> bool" where
  "pre_id_ok s \<longleftrightarrow> \<not> (s = [] \<or> \<not> list_all (\<lambda>b. is_alnum b \<or> b = CHR ''-'') s
     \<or> (list_all is_digit s \<and> length s > 1 \<and> hd s = CHR ''0''))"

definition pre_id :: "string \<Rightarrow> string option" where
  "pre_id s = (if pre_id_ok s then Some s else None)"

definition get_or_0 :: "nat list \<Rightarrow> nat \<Rightarrow> nat" where
  "get_or_0 xs i = (if i < length xs then xs ! i else 0)"

text \<open>A version with one to three numbers, and how many it had.\<close>

definition partial :: "string \<Rightarrow> (version \<times> nat) option" where
  "partial s =
    (let (base, pr) = (case split_once ''-'' s of None \<Rightarrow> (s, None) | Some (a, b) \<Rightarrow> (a, Some b)) in
     case collect_opt numeric (split_on CHR ''.'' base) of None \<Rightarrow> None
     | Some nums \<Rightarrow>
        if nums = [] \<or> length nums > 3 \<or> (is_some pr \<and> length nums \<noteq> 3) then None
        else case (case pr of None \<Rightarrow> Some [] | Some p \<Rightarrow> collect_opt pre_id (split_on CHR ''.'' p)) of
            None \<Rightarrow> None
          | Some ids \<Rightarrow> Some (Version (nums ! 0) (get_or_0 nums 1) (get_or_0 nums 2) ids, length nums))"

definition parse_version :: "string \<Rightarrow> version_error + version" where
  "parse_version s = (case partial s of
      Some (v, k) \<Rightarrow> if k = 3 then Inr v else Inl VersionInvalid
    | None \<Rightarrow> Inl VersionInvalid)"

definition show_version :: "version \<Rightarrow> string" where
  "show_version v =
     show_nat (major v) @ ''.'' @ show_nat (minor v) @ ''.'' @ show_nat (patch v)
     @ (if pre v = [] then [] else ''-'' @ join_on CHR ''.'' (pre v))"

text \<open>The values the parser produces.\<close>

definition version_wf :: "version \<Rightarrow> bool" where
  "version_wf v \<longleftrightarrow> major v \<le> MAX_SAFE_INTEGER \<and> minor v \<le> MAX_SAFE_INTEGER
     \<and> patch v \<le> MAX_SAFE_INTEGER \<and> (\<forall>p \<in> set (pre v). pre_id_ok p)"

section \<open>The order on versions\<close>

definition pre_cmp :: "string \<Rightarrow> string \<Rightarrow> ordering" where
  "pre_cmp x y =
    (let xn = list_all is_digit x; yn = list_all is_digit y in
     if xn \<and> yn then then_with (cmp_of (length x) (length y)) (cmp_of x y)
     else if xn \<and> \<not> yn then Less
     else if \<not> xn \<and> yn then Greater
     else cmp_of x y)"

fun zip_cmp :: "(string \<times> string) list \<Rightarrow> ordering" where
  "zip_cmp [] = Equal"
| "zip_cmp ((x, y) # ps) = (let c = pre_cmp x y in if c \<noteq> Equal then c else zip_cmp ps)"

definition version_cmp :: "version \<Rightarrow> version \<Rightarrow> ordering" where
  "version_cmp a b =
    (let core = cmp_of (major a, minor a, patch a) (major b, minor b, patch b) in
     if core \<noteq> Equal then core
     else if pre a = [] \<and> pre b \<noteq> [] then Greater
     else if pre a \<noteq> [] \<and> pre b = [] then Less
     else let c = zip_cmp (zip (pre a) (pre b)) in
       if c \<noteq> Equal then c else cmp_of (length (pre a)) (length (pre b)))"

section \<open>Ranges\<close>

record bound =
  bound_lo :: "version option"
  bound_hi :: "version option"
  lo_inclusive :: bool
  hi_inclusive :: bool
  bound_exact :: "version option"

datatype range_error = RangeInvalid

definition release :: "nat \<Rightarrow> nat \<Rightarrow> nat \<Rightarrow> version" where
  "release a b c = Version a b c []"

definition interval :: "version option \<Rightarrow> bool \<Rightarrow> version option \<Rightarrow> bool \<Rightarrow> bound" where
  "interval lo li hi hi_i =
     \<lparr>bound_lo = lo, bound_hi = hi, lo_inclusive = li, hi_inclusive = hi_i, bound_exact = None\<rparr>"

definition comparator_ops :: "string list" where
  "comparator_ops = [''>='', ''<='', ''^'', ''~'', ''>'', ''<'', ''='']"

definition comparator_op :: "string \<Rightarrow> string" where
  "comparator_op t = (case find (\<lambda>p. starts_with p t) comparator_ops of Some p \<Rightarrow> p | None \<Rightarrow> [])"

text \<open>The bound of an operator applied to a version that was written with \<open>k\<close> numbers.\<close>

definition op_bound :: "string \<Rightarrow> version \<Rightarrow> nat \<Rightarrow> bound" where
  "op_bound opr lo k =
    (let next = (if k = 1 then release (major lo + 1) 0 0 else release (major lo) (minor lo + 1) 0) in
     if opr = [] \<or> opr = ''='' then
       (if k = 3 then (interval None True None False)\<lparr>bound_exact := Some lo\<rparr>
        else interval (Some lo) True (Some next) False)
     else if opr = ''^'' then
       interval (Some lo) True
         (Some (if major lo > 0 \<or> k = 1 then release (major lo + 1) 0 0
                else if minor lo > 0 \<or> k = 2 then release 0 (minor lo + 1) 0
                else release 0 0 (patch lo + 1))) False
     else if opr = ''~'' then interval (Some lo) True (Some next) False
     else if opr = ''>='' then interval (Some lo) True None False
     else if opr = ''>'' then interval (Some (if k = 3 then lo else next)) (k \<noteq> 3) None False
     else if opr = ''<'' then interval None True (Some lo) False
     else interval None True (Some (if k = 3 then lo else next)) (k = 3))"

definition comparator :: "string \<Rightarrow> bound option" where
  "comparator t =
    (if t = ''*'' then Some (interval None True None False)
     else let opr = comparator_op t in
       case partial (drop (length opr) t) of None \<Rightarrow> None
       | Some (lo, k) \<Rightarrow>
           if pre lo \<noteq> [] \<and> opr \<noteq> [] \<and> opr \<noteq> ''='' then None
           else Some (op_bound opr lo k))"

text \<open>
  \<open>split_whitespace\<close>: the Unicode white space characters, as their UTF-8 bytes. Their lead
  bytes are never continuation bytes, so in a valid string a match starts a character.
\<close>

fun ws_len :: "string \<Rightarrow> nat" where
  "ws_len [] = 0"
| "ws_len (a # s) =
    (if (9 \<le> byte a \<and> byte a \<le> 13) \<or> byte a = 32 then 1
     else case s of [] \<Rightarrow> 0
     | b # t \<Rightarrow>
       if byte a = 194 \<and> (byte b = 133 \<or> byte b = 160) then 2
       else case t of [] \<Rightarrow> 0
       | c # _ \<Rightarrow>
         if (byte a = 225 \<and> byte b = 154 \<and> byte c = 128)
           \<or> (byte a = 226 \<and> byte b = 128 \<and> (128 \<le> byte c \<and> byte c \<le> 138 \<or> byte c = 168 \<or> byte c = 169 \<or> byte c = 175))
           \<or> (byte a = 226 \<and> byte b = 129 \<and> byte c = 159)
           \<or> (byte a = 227 \<and> byte b = 128 \<and> byte c = 128) then 3 else 0)"

function split_ws_from :: "string \<Rightarrow> string \<Rightarrow> string list" where
  "split_ws_from cur [] = (if cur = [] then [] else [cur])"
| "split_ws_from cur (c # cs) =
    (if ws_len (c # cs) > 0
     then (if cur = [] then [] else [cur]) @ split_ws_from [] (drop (ws_len (c # cs)) (c # cs))
     else split_ws_from (cur @ [c]) cs)"
  by pat_completeness auto
termination
  by (relation "measure (\<lambda>(cur, s). length s)") auto

definition split_ws :: "string \<Rightarrow> string list" where
  "split_ws s = split_ws_from [] s"

text \<open>\<open>split("||")\<close>\<close>

fun split_bars :: "string \<Rightarrow> string list" where
  "split_bars [] = [[]]"
| "split_bars [c] = [[c]]"
| "split_bars (c # d # cs) =
    (if c = CHR ''|'' \<and> d = CHR ''|'' then [] # split_bars cs
     else (case split_bars (d # cs) of [] \<Rightarrow> [[c]] | p # ps \<Rightarrow> (c # p) # ps))"

definition range_set :: "string \<Rightarrow> range_error + bound list" where
  "range_set s =
    (let parts = split_ws s in
     if parts = [] \<or> (length parts > 1 \<and> ''*'' \<in> set parts) then Inl RangeInvalid
     else case collect_opt comparator parts of None \<Rightarrow> Inl RangeInvalid
       | Some bs \<Rightarrow>
           if length bs > 1 \<and> list_ex (\<lambda>b. some_and (\<lambda>v. pre v \<noteq> []) (bound_exact b)) bs
           then Inl RangeInvalid else Inr bs)"

type_synonym range = "bound list list"

definition parse_range :: "string \<Rightarrow> range_error + range" where
  "parse_range t = map_res range_set (split_bars t)"

section \<open>Versions are linearly ordered\<close>

text \<open>
  Each prerelease identifier has a key in a lexicographic product, and a version the key of its
  numbers, whether it is a release, and its identifiers: the comparison is the order of the keys.
\<close>

definition pre_key :: "string \<Rightarrow> nat \<times> nat \<times> string" where
  "pre_key x = (if list_all is_digit x then (0, length x, x) else (1, 0, x))"

definition version_key :: "version \<Rightarrow> (nat \<times> nat \<times> nat) \<times> nat \<times> (nat \<times> nat \<times> string) list" where
  "version_key v = ((major v, minor v, patch v), if pre v = [] then 1 else 0, map pre_key (pre v))"

lemma cmp_of_eq_iff [simp]:
  "cmp_of x y = Equal \<longleftrightarrow> x = y" "cmp_of x y = Less \<longleftrightarrow> x < y" "cmp_of x y = Greater \<longleftrightarrow> y < x"
  by (auto simp: cmp_of_def)

lemma cmp_of_ne: "cmp_of x y \<noteq> Greater \<longleftrightarrow> x \<le> y"
  by (simp add: not_less)

lemma cmp_of_pair: "cmp_of (a, b) (c, d) = then_with (cmp_of a c) (cmp_of b d)"
  by (auto simp: cmp_of_def then_with_def)

lemma cmp_of_Cons: "cmp_of (x # xs) (y # ys) = then_with (cmp_of x y) (cmp_of xs ys)"
  by (auto simp: cmp_of_def then_with_def)

lemma pre_cmp_key: "pre_cmp x y = cmp_of (pre_key x) (pre_key y)"
  by (auto simp: pre_cmp_def pre_key_def cmp_of_pair Let_def) (auto simp: cmp_of_def then_with_def)

lemma pre_key_inj [simp]: "pre_key x = pre_key y \<longleftrightarrow> x = y"
  by (auto simp: pre_key_def)

lemma cmp_of_Suc: "cmp_of (Suc m) (Suc n) = cmp_of m n"
  by (simp add: cmp_of_def)

lemma zip_cmp_key:
  "then_with (zip_cmp (zip xs ys)) (cmp_of (length xs) (length ys)) = cmp_of (map pre_key xs) (map pre_key ys)"
proof (induction xs ys rule: list_induct2')
  case (4 x xs y ys)
  then show ?case
    by (simp add: cmp_of_Cons 4 [symmetric] pre_cmp_key cmp_of_Suc) (simp add: then_with_def Let_def)
qed (simp_all add: then_with_def, simp_all add: cmp_of_def)

lemma version_cmp_key: "version_cmp a b = cmp_of (version_key a) (version_key b)"
  unfolding version_cmp_def version_key_def cmp_of_pair Let_def
  using zip_cmp_key [of "pre a" "pre b"]
  by (auto simp: then_with_def) (auto simp: cmp_of_def)

lemma version_key_inj [simp]: "version_key a = version_key b \<longleftrightarrow> a = b"
  by (cases a; cases b) (auto simp: version_key_def inj_on_def dest!: map_injective)

instantiation version :: linorder
begin

definition less_eq_version :: "version \<Rightarrow> version \<Rightarrow> bool" where
  "less_eq_version a b \<longleftrightarrow> version_cmp a b \<noteq> Greater"

definition less_version :: "version \<Rightarrow> version \<Rightarrow> bool" where
  "less_version a b \<longleftrightarrow> version_cmp a b = Less"

instance
  by standard
    (simp_all add: less_eq_version_def less_version_def version_cmp_key cmp_of_ne not_less,
      auto simp: not_le dest: order_trans less_imp_le)

end

lemma less_version_key: "a < b \<longleftrightarrow> version_key a < version_key (b :: version)"
  by (simp add: less_version_def version_cmp_key)

lemma version_cmp_cmp_of: "version_cmp a b = cmp_of a b"
  unfolding version_cmp_key by (simp add: cmp_of_def less_version_def version_cmp_key)

lemma release_less: "pre a = [] \<Longrightarrow> pre b = [] \<Longrightarrow>
    a < b \<longleftrightarrow> (major a, minor a, patch a) < (major b, minor b, patch b)"
  by (auto simp: less_version_key version_key_def)

section \<open>Satisfying a range\<close>

definition bound_ok :: "bound \<Rightarrow> version \<Rightarrow> bool" where
  "bound_ok b ver = (case bound_exact b of Some e \<Rightarrow> ver = e
     | None \<Rightarrow> none_or (\<lambda>lo. lo < ver \<or> (lo_inclusive b \<and> ver = lo)) (bound_lo b)
         \<and> none_or (\<lambda>hi. ver < hi \<or> (hi_inclusive b \<and> ver = hi)) (bound_hi b))"

definition satisfies :: "range \<Rightarrow> version \<Rightarrow> bool" where
  "satisfies r ver = list_ex (\<lambda>alt.
     if pre ver \<noteq> [] then length alt = 1 \<and> bound_exact (alt ! 0) = Some ver
     else list_all (\<lambda>b. bound_ok b ver) alt) r"

section \<open>Parsing and printing are inverse\<close>

lemma list_all_map_eq:
  assumes "list_all2 (\<lambda>x y. f x = Some y) xs ys" and f: "\<And>x y. f x = Some y \<longleftrightarrow> P y \<and> x = g y"
  shows "xs = map g ys \<and> (\<forall>y \<in> set ys. P y)"
  using assms(1) by (induction xs ys rule: list_all2_induct) (simp_all add: f)

lemma numeric_iff: "numeric s = Some n \<longleftrightarrow> n \<le> MAX_SAFE_INTEGER \<and> s = show_nat n"
proof
  assume "numeric s = Some n"
  then show "n \<le> MAX_SAFE_INTEGER \<and> s = show_nat n"
    using show_nat_of_digits [of s] by (auto simp: numeric_def Let_def split: if_splits)
next
  assume n: "n \<le> MAX_SAFE_INTEGER \<and> s = show_nat n"
  then have "n < 2 ^ 64" by (simp add: MAX_SAFE_INTEGER_def)
  with n show "numeric s = Some n"
    using show_nat_canonical [of n] by (auto simp: numeric_def Let_def list_all_iff show_nat_digits)
qed

lemma show_nat_no_char: "\<not> is_digit c \<Longrightarrow> c \<notin> set (show_nat n)"
  using show_nat_digits by blast

lemma pre_id_iff: "pre_id s = Some p \<longleftrightarrow> pre_id_ok p \<and> s = p"
  by (auto simp: pre_id_def)

lemma not_digit_sep: "\<not> is_digit CHR ''.''" "\<not> is_digit CHR ''-''"
  by (simp_all add: is_digit_def)

lemma pre_id_no_dot: "pre_id_ok p \<Longrightarrow> CHR ''.'' \<notin> set p"
proof -
  have "\<not> is_alnum CHR ''.''" by (simp add: is_alnum_def is_alpha_def is_lower_def is_upper_def is_digit_def)
  then show "pre_id_ok p \<Longrightarrow> CHR ''.'' \<notin> set p" by (auto simp: pre_id_ok_def list_all_iff)
qed

lemma collect_split_iff:
  assumes f: "\<And>x y. f x = Some y \<longleftrightarrow> P y \<and> x = g y" and nosep: "\<And>y. P y \<Longrightarrow> d \<notin> set (g y)"
  shows "collect_opt f (split_on d s) = Some ys \<longleftrightarrow>
    ys \<noteq> [] \<and> (\<forall>y \<in> set ys. P y) \<and> s = join_on d (map g ys)"
proof
  assume "collect_opt f (split_on d s) = Some ys"
  then have all2: "list_all2 (\<lambda>x y. f x = Some y) (split_on d s) ys" by (simp add: collect_opt_Some)
  from list_all_map_eq [OF this f]
  have eq: "split_on d s = map g ys" and P: "\<forall>y \<in> set ys. P y" by auto
  have "s = join_on d (map g ys)" using join_split [of d s] by (simp add: eq)
  moreover have "ys \<noteq> []" using eq split_on_not_Nil [of d s] by auto
  ultimately show "ys \<noteq> [] \<and> (\<forall>y \<in> set ys. P y) \<and> s = join_on d (map g ys)" using P by blast
next
  assume r: "ys \<noteq> [] \<and> (\<forall>y \<in> set ys. P y) \<and> s = join_on d (map g ys)"
  then have "split_on d s = map g ys" using nosep by (auto simp: split_join)
  then show "collect_opt f (split_on d s) = Some ys"
    using r f by (auto simp: collect_opt_Some list_all2_conv_all_nth)
qed

lemma collect_numeric: "collect_opt numeric (split_on CHR ''.'' s) = Some ns \<longleftrightarrow>
    ns \<noteq> [] \<and> (\<forall>n \<in> set ns. n \<le> MAX_SAFE_INTEGER) \<and> s = join_on CHR ''.'' (map show_nat ns)"
  by (rule collect_split_iff) (auto simp: numeric_iff show_nat_no_char not_digit_sep)

lemma collect_pre_id: "collect_opt pre_id (split_on CHR ''.'' s) = Some ids \<longleftrightarrow>
    ids \<noteq> [] \<and> (\<forall>p \<in> set ids. pre_id_ok p) \<and> s = join_on CHR ''.'' (map (\<lambda>p. p) ids)"
  by (rule collect_split_iff) (auto simp: pre_id_iff pre_id_no_dot)

lemma dash_not_in_core: "CHR ''-'' \<notin> set (join_on CHR ''.'' (map show_nat ns))"
  using set_join_on [of "CHR ''.''" "map show_nat ns"] by (auto simp: show_nat_no_char not_digit_sep)

text \<open>What \<open>partial\<close> accepts, as text: the numbers, then the identifiers when all three are there.\<close>

definition partial_text :: "version \<Rightarrow> nat \<Rightarrow> string" where
  "partial_text v k = join_on CHR ''.'' (map show_nat (take k [major v, minor v, patch v]))
     @ (if pre v = [] then [] else ''-'' @ join_on CHR ''.'' (pre v))"

definition partial_wf :: "version \<Rightarrow> nat \<Rightarrow> bool" where
  "partial_wf v k \<longleftrightarrow> version_wf v \<and> (k = 3 \<or> (k = 2 \<and> patch v = 0 \<and> pre v = [])
     \<or> (k = 1 \<and> minor v = 0 \<and> patch v = 0 \<and> pre v = []))"

lemma partial_text_3: "partial_text v 3 = show_version v"
  by (simp add: partial_text_def show_version_def)

lemma list_1_3: "ns \<noteq> [] \<Longrightarrow> \<not> 3 < length ns \<Longrightarrow> \<exists>a b c. ns = [a] \<or> ns = [a, b] \<or> ns = [a, b, c]"
  by (cases ns; cases "tl ns"; cases "tl (tl ns)"; cases "tl (tl (tl ns))") auto

definition of_nums :: "nat list \<Rightarrow> string list \<Rightarrow> version" where
  "of_nums ns ids = Version (ns ! 0) (get_or_0 ns 1) (get_or_0 ns 2) ids"

lemma of_nums_wf:
  assumes "ns \<noteq> []" "\<not> 3 < length ns" "\<forall>n \<in> set ns. n \<le> MAX_SAFE_INTEGER"
    and "\<forall>p \<in> set ids. pre_id_ok p" "ids = [] \<or> length ns = 3"
  shows "partial_wf (of_nums ns ids) (length ns)
    \<and> take (length ns) [major (of_nums ns ids), minor (of_nums ns ids), patch (of_nums ns ids)] = ns"
  using list_1_3 [OF assms(1,2)] assms(3-5)
  by (auto simp: of_nums_def get_or_0_def partial_wf_def version_wf_def)

lemma of_nums_take:
  "partial_wf v k \<Longrightarrow> of_nums (take k [major v, minor v, patch v]) (pre v) = v"
  by (cases v) (auto simp: of_nums_def get_or_0_def partial_wf_def)

lemma partial_no_pre: "CHR ''-'' \<notin> set s \<Longrightarrow> partial s =
    (case collect_opt numeric (split_on CHR ''.'' s) of None \<Rightarrow> None
     | Some ns \<Rightarrow> if ns = [] \<or> length ns > 3 then None else Some (of_nums ns [], length ns))"
  using split_once_char_None [of "CHR ''-''" s]
  by (simp add: partial_def of_nums_def split: option.split)

lemma partial_pre: "CHR ''-'' \<notin> set b \<Longrightarrow> partial (b @ CHR ''-'' # p) =
    (case collect_opt numeric (split_on CHR ''.'' b) of None \<Rightarrow> None
     | Some ns \<Rightarrow> if length ns \<noteq> 3 then None
         else map_option (\<lambda>ids. (of_nums ns ids, 3)) (collect_opt pre_id (split_on CHR ''.'' p)))"
  using split_once_char [of "CHR ''-''" "b @ CHR ''-'' # p" b p]
  by (simp add: partial_def of_nums_def split: option.split)

lemma partial_Some:
  assumes "partial s = Some (v, k)"
  shows "partial_wf v k \<and> s = partial_text v k"
proof (cases "CHR ''-'' \<in> set s")
  case False
  obtain ns where ns: "collect_opt numeric (split_on CHR ''.'' s) = Some ns"
    using assms by (cases "collect_opt numeric (split_on CHR ''.'' s)") (simp_all add: partial_no_pre [OF False])
  then have len: "ns \<noteq> []" "\<not> 3 < length ns" and v: "v = of_nums ns []" "k = length ns"
    using assms by (simp_all add: partial_no_pre [OF False] split: if_splits)
  have "pre v = []" by (simp add: v of_nums_def)
  then show ?thesis
    using of_nums_wf [of ns "[]"] ns len by (simp add: v collect_numeric partial_text_def)
next
  case True
  then obtain b p where s: "s = b @ CHR ''-'' # p" and b: "CHR ''-'' \<notin> set b"
    using split_list_first by metis
  obtain ns where ns: "collect_opt numeric (split_on CHR ''.'' b) = Some ns" and len: "length ns = 3"
    using assms by (cases "collect_opt numeric (split_on CHR ''.'' b)")
      (simp_all add: s partial_pre [OF b] split: if_splits)
  then obtain ids where ids: "collect_opt pre_id (split_on CHR ''.'' p) = Some ids"
    and v: "v = of_nums ns ids" "k = 3"
    using assms by (auto simp add: s partial_pre [OF b])
  have "pre v = ids" by (simp add: v of_nums_def)
  then show ?thesis
    using of_nums_wf [of ns ids] ns len ids by (simp add: v s collect_numeric collect_pre_id partial_text_def)
qed

lemma partial_iff: "partial s = Some (v, k) \<longleftrightarrow> partial_wf v k \<and> s = partial_text v k"
proof
  assume wf: "partial_wf v k \<and> s = partial_text v k"
  define ns where "ns = take k [major v, minor v, patch v]"
  define b where "b = join_on CHR ''.'' (map show_nat ns)"
  have ns: "collect_opt numeric (split_on CHR ''.'' b) = Some ns"
    using wf by (auto simp: collect_numeric b_def ns_def partial_wf_def version_wf_def)
  have len: "length ns = k" "ns \<noteq> []" "k \<le> 3" using wf by (auto simp: ns_def partial_wf_def)
  have dash: "CHR ''-'' \<notin> set b" unfolding b_def by (rule dash_not_in_core)
  have v: "of_nums ns (pre v) = v" using wf of_nums_take by (simp add: ns_def)
  show "partial s = Some (v, k)"
  proof (cases "pre v = []")
    case True
    then have "s = b" using wf by (simp add: partial_text_def b_def ns_def)
    then show ?thesis using ns len v True by (simp add: partial_no_pre [OF dash])
  next
    case False
    then have s: "s = b @ CHR ''-'' # join_on CHR ''.'' (pre v)" and k: "k = 3"
      using wf by (auto simp: partial_text_def b_def ns_def partial_wf_def)
    have "collect_opt pre_id (split_on CHR ''.'' (join_on CHR ''.'' (pre v))) = Some (pre v)"
      using wf False by (simp add: collect_pre_id partial_wf_def version_wf_def)
    then show ?thesis using ns len v k unfolding s by (simp add: partial_pre [OF dash])
  qed
qed (rule partial_Some)

lemma parse_version_iff: "parse_version s = Inr v \<longleftrightarrow> version_wf v \<and> s = show_version v"
proof -
  have "parse_version s = Inr v \<longleftrightarrow> partial s = Some (v, 3)"
    by (auto simp: parse_version_def split: option.splits if_splits)
  then show ?thesis by (simp add: partial_iff partial_wf_def partial_text_3)
qed

section \<open>What a comparator means\<close>

text \<open>
  The specification of a comparator by the numbers it fixes: \<open>agrees n lo w\<close> says that the
  first \<open>n\<close> numbers of \<open>w\<close> are those of \<open>lo\<close>.
\<close>

definition agrees :: "nat \<Rightarrow> version \<Rightarrow> version \<Rightarrow> bool" where
  "agrees n lo w \<longleftrightarrow> (1 \<le> n \<longrightarrow> major w = major lo) \<and> (2 \<le> n \<longrightarrow> minor w = minor lo)
     \<and> (3 \<le> n \<longrightarrow> patch w = patch lo)"

definition caret_fixed :: "version \<Rightarrow> nat \<Rightarrow> nat" where
  "caret_fixed lo k = (if major lo > 0 \<or> k = 1 then 1 else if minor lo > 0 \<or> k = 2 then 2 else 3)"

definition comparator_means :: "string \<Rightarrow> version \<Rightarrow> nat \<Rightarrow> version \<Rightarrow> bool" where
  "comparator_means opr lo k w \<longleftrightarrow>
    (if opr = ''^'' then lo \<le> w \<and> agrees (caret_fixed lo k) lo w
     else if opr = ''~'' then lo \<le> w \<and> agrees (min k 2) lo w
     else if opr = ''>='' then lo \<le> w
     else if opr = ''>'' then lo < w \<and> \<not> agrees k lo w
     else if opr = ''<'' then w < lo
     else if opr = ''<='' then w \<le> lo \<or> agrees k lo w
     else agrees k lo w)"

lemma release_le: "pre a = [] \<Longrightarrow> pre b = [] \<Longrightarrow>
    a \<le> b \<longleftrightarrow> (major a, minor a, patch a) \<le> (major b, minor b, patch b)"
  using release_less [of b a] by (simp add: not_less [symmetric])

lemma release_eq: "pre a = [] \<Longrightarrow> pre b = [] \<Longrightarrow>
    a = b \<longleftrightarrow> major a = major b \<and> minor a = minor b \<and> patch a = patch b"
  by (cases a; cases b) auto

lemma release_sel [simp]: "major (release a b c) = a" "minor (release a b c) = b"
    "patch (release a b c) = c" "pre (release a b c) = []"
  by (simp_all add: release_def)

lemmas bound_means_defs = op_bound_def bound_ok_def interval_def comparator_means_def Let_def
        release_less release_le release_eq agrees_def caret_fixed_def

lemma op_bound_means:
  assumes wf: "partial_wf lo k" and lo: "pre lo = []" and w: "pre w = []"
    and opr: "opr \<in> set ([] # comparator_ops)"
  shows "bound_ok (op_bound opr lo k) w \<longleftrightarrow> comparator_means opr lo k w"
proof -
  consider "k = 1" "minor lo = 0" "patch lo = 0" | "k = 2" "patch lo = 0" | "k = 3"
    using wf by (auto simp: partial_wf_def)
  then show ?thesis using opr
    by cases (simp add: comparator_ops_def, elim disjE; simp add: lo w bound_means_defs; arith)+
qed

lemma partial_digit: "partial t = Some (v, k) \<Longrightarrow> \<exists>c s. t = c # s \<and> is_digit c"
proof -
  assume "partial t = Some (v, k)"
  then have k: "1 \<le> k" and t: "t = partial_text v k" by (auto simp: partial_iff partial_wf_def)
  obtain c s where c: "show_nat (major v) = c # s" by (meson neq_Nil_conv show_nat_not_Nil)
  then have "is_digit c" using show_nat_digits [of c "major v"] by simp
  moreover obtain s' where "join_on CHR ''.'' (map show_nat (take k [major v, minor v, patch v])) = c # s'"
    using k c by (cases k; cases "k - 1"; cases "k - 2") auto
  ultimately show ?thesis unfolding t partial_text_def by auto
qed

lemma digit_not_op: "is_digit c \<Longrightarrow> c \<notin> set ''>=<^~*'' \<and> (\<forall>d \<in> set ''>=<^~*''. d \<noteq> c)"
  by (auto simp: is_digit_def)

lemma comparator_op_digit:
  assumes "is_digit c" and "opr \<in> set ([] # comparator_ops)"
  shows "comparator_op (opr @ c # s) = opr \<and> opr @ c # s \<noteq> ''*''"
  using assms(2) digit_not_op [OF assms(1)]
  by (simp add: comparator_ops_def) (elim disjE; simp add: comparator_op_def comparator_ops_def starts_with_def)

lemma comparator_opr:
  assumes "partial t = Some (lo, k)" and "opr \<in> set ([] # comparator_ops)"
  shows "comparator (opr @ t) = (if pre lo \<noteq> [] \<and> opr \<noteq> [] \<and> opr \<noteq> ''='' then None else Some (op_bound opr lo k))"
proof -
  obtain c s where t: "t = c # s" "is_digit c" using partial_digit [OF assms(1)] by blast
  then show ?thesis using comparator_op_digit [OF t(2) assms(2), of s] assms(1)
    by (simp add: comparator_def Let_def)
qed

lemma op_bound_exact: "bound_exact (op_bound opr lo k) = Some v \<longleftrightarrow> (opr = [] \<or> opr = ''='') \<and> k = 3 \<and> lo = v"
  by (auto simp: op_bound_def interval_def Let_def)

lemma comparator_op_prefix: "\<exists>s. t = comparator_op t @ s"
proof (cases "find (\<lambda>p. starts_with p t) comparator_ops")
  case (Some p)
  then have "starts_with p t" by (auto simp: find_Some_iff)
  with Some show ?thesis by (auto simp: comparator_op_def starts_with_iff)
qed (simp add: comparator_op_def)

lemma comparator_exact:
  assumes "version_wf v"
  shows "(\<exists>b. comparator t = Some b \<and> bound_exact b = Some v) \<longleftrightarrow> t = show_version v \<or> t = ''='' @ show_version v"
proof
  assume "\<exists>b. comparator t = Some b \<and> bound_exact b = Some v"
  then have "(comparator_op t = [] \<or> comparator_op t = ''='') \<and> partial (drop (length (comparator_op t)) t) = Some (v, 3)"
    by (auto simp: comparator_def Let_def op_bound_exact interval_def split: if_splits option.splits)
  with comparator_op_prefix [of t] show "t = show_version v \<or> t = ''='' @ show_version v"
    by (auto simp: partial_iff partial_text_3)
next
  have p: "partial (show_version v) = Some (v, 3)" using assms by (simp add: partial_iff partial_text_3 partial_wf_def)
  assume "t = show_version v \<or> t = ''='' @ show_version v"
  then obtain opr where t: "t = opr @ show_version v" and opr: "opr = [] \<or> opr = ''=''" by auto
  show "\<exists>b. comparator t = Some b \<and> bound_exact b = Some v"
    using opr comparator_opr [OF p, of opr] by (auto simp: t comparator_ops_def op_bound_exact)
qed

lemma range_set_Inr: "range_set s = Inr bs \<Longrightarrow> list_all2 (\<lambda>t b. comparator t = Some b) (split_ws s) bs \<and> bs \<noteq> []"
  by (auto simp: range_set_def Let_def collect_opt_Some split: if_splits option.splits)

lemma range_set_exact:
  assumes "range_set s = Inr bs" and "version_wf v"
  shows "length bs = 1 \<and> bound_exact (bs ! 0) = Some v \<longleftrightarrow>
    split_ws s = [show_version v] \<or> split_ws s = [''='' @ show_version v]"
proof -
  have bs: "list_all2 (\<lambda>t b. comparator t = Some b) (split_ws s) bs" using range_set_Inr [OF assms(1)] by blast
  show ?thesis
  proof (cases "\<exists>t b. split_ws s = [t] \<and> bs = [b]")
    case True
    then obtain t b where tb: "split_ws s = [t]" "bs = [b]" by blast
    with bs have "comparator t = Some b" by simp
    then show ?thesis using comparator_exact [OF assms(2), of t] by (simp add: tb)
  next
    case False
    have "length (split_ws s) = length bs" using bs by (rule list_all2_lengthD)
    with False have "length bs \<noteq> 1" by (metis One_nat_def length_0_conv length_Suc_conv)
    with \<open>length (split_ws s) = length bs\<close> show ?thesis by auto
  qed
qed

lemma list_all2_ex: "list_all2 P xs ys \<Longrightarrow> (\<And>x y. P x y \<Longrightarrow> Q x \<longleftrightarrow> R y) \<Longrightarrow> (\<exists>x \<in> set xs. Q x) \<longleftrightarrow> (\<exists>y \<in> set ys. R y)"
  by (induction xs ys rule: list_all2_induct) auto

lemma satisfies_pre:
  assumes r: "parse_range t = Inr r" and pre: "pre v \<noteq> []" and wf: "version_wf v"
  shows "satisfies r v \<longleftrightarrow> (\<exists>alt \<in> set (split_bars t).
    split_ws alt = [show_version v] \<or> split_ws alt = [''='' @ show_version v])"
proof -
  have "list_all2 (\<lambda>s bs. range_set s = Inr bs) (split_bars t) r"
    using r by (simp add: parse_range_def map_res_Inr)
  from list_all2_ex [OF this range_set_exact [OF _ wf, symmetric]] show ?thesis
    using pre by (simp add: satisfies_def list_ex_iff)
qed

lemma split_bars_not_Nil: "split_bars s \<noteq> []"
  by (induction s rule: split_bars.induct) (auto split: list.splits)

lemma parse_range_nonempty: "parse_range t = Inr r \<Longrightarrow> r \<noteq> [] \<and> [] \<notin> set r"
proof -
  assume "parse_range t = Inr r"
  then have r: "list_all2 (\<lambda>s bs. range_set s = Inr bs) (split_bars t) r" by (simp add: parse_range_def map_res_Inr)
  then have "length r = length (split_bars t)" by (simp add: list_all2_lengthD)
  moreover have "bs \<noteq> []" if "bs \<in> set r" for bs
  proof -
    obtain s where "range_set s = Inr bs" using r \<open>bs \<in> set r\<close> by (auto simp: list_all2_conv_all_nth in_set_conv_nth)
    then show ?thesis using range_set_Inr by blast
  qed
  ultimately show ?thesis using split_bars_not_Nil [of t] by auto
qed

text \<open>The increments of \<open>comparator\<close> stay far below the range of \<open>u64\<close>.\<close>

lemma op_bound_no_overflow:
  assumes "partial t = Some (lo, k)" and "bound_lo (op_bound opr lo k) = Some v \<or> bound_hi (op_bound opr lo k) = Some v"
  shows "\<forall>n \<in> {major v, minor v, patch v}. n \<le> MAX_SAFE_INTEGER + 1 \<and> n < 2 ^ 64"
proof -
  have "version_wf lo" using assms(1) by (simp add: partial_iff partial_wf_def)
  then have lo: "major lo \<le> MAX_SAFE_INTEGER" "minor lo \<le> MAX_SAFE_INTEGER" "patch lo \<le> MAX_SAFE_INTEGER"
    by (simp_all add: version_wf_def)
  have "v \<in> {lo, release (major lo + 1) 0 0, release (major lo) (minor lo + 1) 0, release 0 (minor lo + 1) 0,
      release 0 0 (patch lo + 1)}"
    using assms(2) by (simp add: op_bound_def interval_def Let_def split: if_splits) blast+
  then have "\<forall>n \<in> {major v, minor v, patch v}. n \<le> MAX_SAFE_INTEGER + 1" using lo by auto
  then show ?thesis by (auto simp: MAX_SAFE_INTEGER_def)
qed

section \<open>Properties\<close>

text \<open>Parsing a version and printing it are inverse to each other: a string parses to
  \<open>v\<close> exactly when \<open>v\<close> is within the bounds of the dialect and the string is what
  \<open>Display\<close> prints for it. So every version has one spelling.\<close>

theorem version_roundtrip: "parse_version s = Inr v \<longleftrightarrow> version_wf v \<and> s = show_version v"
  by (rule parse_version_iff)

text \<open>The precedence of versions is a total order: equal only for equal versions,
  reversed when the arguments are, and transitive.\<close>

theorem version_precedence_total:
  "(version_cmp a b = Equal \<longleftrightarrow> a = b) \<and> (version_cmp a b = Less \<longleftrightarrow> version_cmp b a = Greater)
   \<and> (version_cmp a b \<noteq> Greater \<and> version_cmp b c \<noteq> Greater \<longrightarrow> version_cmp a c \<noteq> Greater)"
  by (auto simp: version_cmp_cmp_of not_less)

text \<open>On releases every comparator accepts exactly the versions its operator promises: a
  caret keeps the numbers up to the first nonzero one, a tilde the major and minor ones, a partial
  version every version it is a prefix of, and the inequalities treat a partial version as that
  whole family.\<close>

theorem comparator_correct:
  assumes "partial t = Some (lo, k)" and "pre lo = []" and "opr \<in> set ([] # comparator_ops)" and "pre w = []"
  shows "some_and (\<lambda>b. bound_ok b w = comparator_means opr lo k w) (comparator (opr @ t))"
  using op_bound_means [of lo k w opr] comparator_opr [OF assms(1,3)] assms by (simp add: partial_iff)

text \<open>A prerelease is accepted only where a range names it: some alternative of the text is
  that version alone, bare or with the equals sign. No interval ever lets one in.\<close>

theorem prerelease_only_if_named:
  assumes "parse_range t = Inr r" and "pre v \<noteq> []" and "version_wf v"
  shows "satisfies r v \<longleftrightarrow> (\<exists>alt \<in> set (split_bars t).
    split_ws alt = [show_version v] \<or> split_ws alt = [''='' @ show_version v])"
  by (rule satisfies_pre [OF assms])

end
