(* ===== verification/Json.thy ===== *)
theory Json
  imports BTree "HOL-Library.Multiset"
begin

text \<open>
  Strict JSON and RFC 8785 canonical text (\<open>crates/entorhinal-catalog/src/jcs.rs\<close>). The
  tokenizer of \<open>serde_json\<close> is outside the repository: \<open>x_parse\<close> gives the tree of
  events it drives the visitor with, in source order and with duplicate keys still in it, and
  \<open>x_quote\<close> its spelling of a string. The visitor that refuses duplicates, the lexical scan
  for signed documents, the emitter and the number formatter are the repository's and modelled.
  A finite binary64 value is the rational it denotes.
\<close>

datatype raw = RNull | RBool bool | RI64 int | RU64 nat | RF64 "rat option" | RStr string
  | RSeq "raw list" | RMap "(string \<times> raw) list"

text \<open>The third-party functions the crate calls: JSON, SHA-256 and Ed25519.\<close>

record ext =
  x_parse :: "string \<Rightarrow> raw option"
  x_quote :: "string \<Rightarrow> string"
  x_sha256 :: "string \<Rightarrow> char list"
  x_key_ok :: "char list \<Rightarrow> bool"
  x_verify :: "char list \<Rightarrow> string \<Rightarrow> char list \<Rightarrow> bool"

datatype jnum = PosInt nat | NegInt int | Float rat

datatype json = JNull | JBool bool | JNum jnum | JStr string | JArr "json list"
  | JObj "(string \<times> json) list"

datatype json_error = InvalidJson | NumberOutOfRange

text \<open>Parameters for the witnesses: a digest of 32 zero bytes, and the JSON parts unused.\<close>

definition zero_ext :: ext where
  "zero_ext = \<lparr>x_parse = (\<lambda>_. None), x_quote = (\<lambda>s. s), x_sha256 = (\<lambda>_. replicate 32 (char_of (0::nat))),
     x_key_ok = (\<lambda>_. True), x_verify = (\<lambda>_ _ _. True)\<rparr>"

section \<open>Access to values\<close>

text \<open>\<open>v[key]\<close>, \<open>v.get(key)\<close> and the \<open>as_\<close> and \<open>is_\<close> methods.\<close>

fun jget :: "json \<Rightarrow> string \<Rightarrow> json option" where
  "jget (JObj m) k = bt_get m k"
| "jget _ k = None"

definition jidx :: "json \<Rightarrow> string \<Rightarrow> json" where
  "jidx v k = (case jget v k of Some x \<Rightarrow> x | None \<Rightarrow> JNull)"

fun as_str :: "json \<Rightarrow> string option" where
  "as_str (JStr s) = Some s"
| "as_str _ = None"

fun as_array :: "json \<Rightarrow> json list option" where
  "as_array (JArr a) = Some a"
| "as_array _ = None"

fun as_object :: "json \<Rightarrow> (string \<times> json) list option" where
  "as_object (JObj m) = Some m"
| "as_object _ = None"

section \<open>Derived deserializers\<close>

text \<open>
  \<open>serde_json::from_value\<close> for the types the crate derives: a required string or integer, an
  optional string whose absence and \<open>null\<close> are \<open>None\<close>, a unit variant named by a string or by
  an object of one member holding \<open>null\<close>, and \<open>deny_unknown_fields\<close>.
\<close>

definition jset :: "json \<Rightarrow> string \<Rightarrow> json \<Rightarrow> json" where
  "jset v k x = (case v of JObj m \<Rightarrow> JObj (bt_insert k x m) | _ \<Rightarrow> v)"

definition str_field :: "json \<Rightarrow> string \<Rightarrow> string option" where
  "str_field v k = (case jget v k of Some (JStr s) \<Rightarrow> Some s | _ \<Rightarrow> None)"

definition opt_str_field :: "json \<Rightarrow> string \<Rightarrow> string option option" where
  "opt_str_field v k = (case jget v k of None \<Rightarrow> Some None | Some JNull \<Rightarrow> Some None
     | Some (JStr s) \<Rightarrow> Some (Some s) | _ \<Rightarrow> None)"

definition u64_field :: "json \<Rightarrow> string \<Rightarrow> nat option" where
  "u64_field v k = (case jget v k of Some (JNum (PosInt n)) \<Rightarrow> Some n | _ \<Rightarrow> None)"

definition known_fields :: "string list \<Rightarrow> json \<Rightarrow> bool" where
  "known_fields ks v = (case v of JObj m \<Rightarrow> list_all (\<lambda>p. fst p \<in> set ks) m | _ \<Rightarrow> False)"

definition of_enum :: "(string \<times> 'a) list \<Rightarrow> json \<Rightarrow> 'a option" where
  "of_enum names v = (case v of JStr s \<Rightarrow> map_of names s | JObj [(s, JNull)] \<Rightarrow> map_of names s | _ \<Rightarrow> None)"

lemma str_field_jidx: "str_field v k = Some x \<longleftrightarrow> jidx v k = JStr x"
  by (auto simp: str_field_def jidx_def split: option.splits json.splits)

lemma str_field_eq: "str_field v k = as_str (jidx v k)"
  by (auto simp: str_field_def jidx_def split: option.splits json.splits)

lemma as_str_Some [simp]: "as_str v = Some x \<longleftrightarrow> v = JStr x"
  by (cases v) auto

section \<open>The strict visitor\<close>

definition num_of_int :: "int \<Rightarrow> jnum" where
  "num_of_int i = (if i < 0 then NegInt i else PosInt (nat i))"

fun strict :: "raw \<Rightarrow> (json \<times> string list) option"
  and strict_seq :: "raw list \<Rightarrow> json list option"
  and strict_map :: "(string \<times> json) list \<Rightarrow> string list \<Rightarrow> (string \<times> raw) list
    \<Rightarrow> ((string \<times> json) list \<times> string list) option"
where
  "strict RNull = Some (JNull, [])"
| "strict (RBool b) = Some (JBool b, [])"
| "strict (RI64 i) = Some (JNum (num_of_int i), [])"
| "strict (RU64 n) = Some (JNum (PosInt n), [])"
| "strict (RF64 f) = (case f of None \<Rightarrow> None | Some x \<Rightarrow> Some (JNum (Float x), []))"
| "strict (RStr s) = Some (JStr s, [])"
| "strict (RSeq rs) = (case strict_seq rs of None \<Rightarrow> None | Some vs \<Rightarrow> Some (JArr vs, []))"
| "strict (RMap kvs) = (case strict_map [] [] kvs of None \<Rightarrow> None | Some (m, ks) \<Rightarrow> Some (JObj m, ks))"
| "strict_seq [] = Some []"
| "strict_seq (r # rs) = (case strict r of None \<Rightarrow> None | Some (v, _) \<Rightarrow>
     (case strict_seq rs of None \<Rightarrow> None | Some vs \<Rightarrow> Some (v # vs)))"
| "strict_map m ks [] = Some (m, ks)"
| "strict_map m ks ((k, r) # kvs) = (if bt_has m k then None
     else case strict r of None \<Rightarrow> None
       | Some (v, _) \<Rightarrow> strict_map (bt_insert k v m) (ks @ [k]) kvs)"

definition from_str :: "ext \<Rightarrow> string \<Rightarrow> (json \<times> string list) option" where
  "from_str E text = (case x_parse E text of None \<Rightarrow> None | Some r \<Rightarrow> strict r)"

definition parse_json :: "ext \<Rightarrow> string \<Rightarrow> json_error + json" where
  "parse_json E text = (case from_str E text of None \<Rightarrow> Inl InvalidJson | Some (v, _) \<Rightarrow> Inr v)"

section \<open>Signed documents: integer tokens only\<close>

fun skip_string :: "string \<Rightarrow> string" where
  "skip_string [] = []"
| "skip_string (c # cs) = (if c = CHR 0x22 then cs
     else if c = CHR 0x5C then skip_string (drop 1 cs) else skip_string cs)"

definition number_byte :: "char \<Rightarrow> bool" where
  "number_byte c \<longleftrightarrow> is_digit c \<or> c \<in> set ''.eE+-''"

lemma skip_string_length: "length (skip_string s) \<le> length s"
  by (induction s rule: skip_string.induct) auto

function integer_number_tokens :: "string \<Rightarrow> bool" where
  "integer_number_tokens [] = True"
| "integer_number_tokens (c # cs) =
    (if c = CHR 0x22 then integer_number_tokens (skip_string cs)
     else if c = CHR ''-'' \<or> is_digit c then
       (let token = c # takeWhile number_byte cs in
        if token = ''-0'' \<or> list_ex (\<lambda>b. b \<in> set ''.eE'') token then False
        else integer_number_tokens (dropWhile number_byte cs))
     else integer_number_tokens cs)"
  by pat_completeness auto
termination
  by (relation "measure length") (auto simp: less_Suc_eq_le skip_string_length length_dropWhile_le)

definition parse_signed_ordered :: "ext \<Rightarrow> string \<Rightarrow> json_error + (json \<times> string list)" where
  "parse_signed_ordered E text =
    (if \<not> integer_number_tokens text then Inl InvalidJson else ok_or (from_str E text) InvalidJson)"

definition parse_signed :: "ext \<Rightarrow> string \<Rightarrow> json_error + json" where
  "parse_signed E text = (case parse_signed_ordered E text of Inl e \<Rightarrow> Inl e | Inr (v, _) \<Rightarrow> Inr v)"

section \<open>Numbers\<close>

text \<open>\<open>as_f64\<close>: an integer is rounded to 53 significant bits, ties to even.\<close>

definition half_even :: "nat \<Rightarrow> nat \<Rightarrow> nat" where
  "half_even a b = (let q = a div b; r = a mod b in if 2 * r > b \<or> (2 * r = b \<and> odd q) then q + 1 else q)"

fun bit_length :: "nat \<Rightarrow> nat" where
  "bit_length n = (if n = 0 then 0 else Suc (bit_length (n div 2)))"

declare bit_length.simps [simp del]

definition f64_of_nat :: "nat \<Rightarrow> rat" where
  "f64_of_nat n = (if bit_length n \<le> 53 then of_nat n
     else let s = bit_length n - 53 in of_nat (half_even n (2 ^ s) * 2 ^ s))"

fun as_f64 :: "jnum \<Rightarrow> rat" where
  "as_f64 (PosInt n) = f64_of_nat n"
| "as_f64 (NegInt i) = - f64_of_nat (nat (- i))"
| "as_f64 (Float x) = x"

text \<open>
  A positive value is \<open>a / b\<close>. \<open>scale10\<close> multiplies by a power of ten. \<open>fmt_exp\<close> is the
  formatter's scientific notation with \<open>p\<close> fractional digits, correctly rounded: the
  \<open>p + 1\<close> digits as a number, and the exponent. \<open>near_f64\<close> is the nearest binary64 value
  of a decimal, as the standard library's parser computes it, or \<open>None\<close> for infinity.
\<close>

definition scale10 :: "nat \<times> nat \<Rightarrow> int \<Rightarrow> nat \<times> nat" where
  "scale10 x s = (if 0 \<le> s then (fst x * 10 ^ nat s, snd x) else (fst x, snd x * 10 ^ nat (- s)))"

definition scale2 :: "nat \<times> nat \<Rightarrow> int \<Rightarrow> nat \<times> nat" where
  "scale2 x s = (if 0 \<le> s then (fst x * 2 ^ nat s, snd x) else (fst x, snd x * 2 ^ nat (- s)))"

definition at_least_1 :: "nat \<times> nat \<Rightarrow> bool" where
  "at_least_1 x \<longleftrightarrow> snd x \<le> fst x"

definition same_frac :: "nat \<times> nat \<Rightarrow> nat \<times> nat \<Rightarrow> bool" where
  "same_frac x y \<longleftrightarrow> fst x * snd y = fst y * snd x"

definition dec_exp :: "nat \<times> nat \<Rightarrow> int" where
  "dec_exp x = (let k = int (length (show_nat (fst x))) - int (length (show_nat (snd x))) in
     if at_least_1 (scale10 x (- k)) then k else k - 1)"

definition bin_exp :: "nat \<times> nat \<Rightarrow> int" where
  "bin_exp x = (let k = int (bit_length (fst x)) - int (bit_length (snd x)) in
     if at_least_1 (scale2 x (- k)) then k else k - 1)"

definition fmt_exp :: "nat \<Rightarrow> nat \<times> nat \<Rightarrow> nat \<times> int" where
  "fmt_exp p x = (let k = dec_exp x; y = scale10 x (int p - k); q = half_even (fst y) (snd y) in
     if q \<ge> 10 ^ (p + 1) then (10 ^ p, k + 1) else (q, k))"

definition near_f64 :: "nat \<times> nat \<Rightarrow> (nat \<times> nat) option" where
  "near_f64 x = (let e = max (bin_exp x - 52) (- 1074); y = scale2 x (- e); q = half_even (fst y) (snd y);
       z = scale2 (q, 1) e in
     if bin_exp z \<ge> 1024 then None else Some z)"

definition round_trips :: "nat \<times> nat \<Rightarrow> nat \<Rightarrow> bool" where
  "round_trips x p = (case fmt_exp p x of (q, k) \<Rightarrow>
     (case near_f64 (scale10 (q, 1) (k - int p)) of None \<Rightarrow> False | Some z \<Rightarrow> same_frac z x))"

definition trim_end :: "char \<Rightarrow> string \<Rightarrow> string" where
  "trim_end c s = rev (dropWhile (\<lambda>d. d = c) (rev s))"

definition show_int :: "int \<Rightarrow> string" where
  "show_int i = (if i < 0 then ''-'' @ show_nat (nat (- i)) else show_nat (nat i))"

text \<open>ECMAScript's layout of the digits \<open>ds\<close> of a number with decimal exponent \<open>e\<close>.\<close>

definition layout :: "string \<Rightarrow> int \<Rightarrow> string" where
  "layout ds e =
    (let k = int (length ds); n = e + 1 in
     if k \<le> n \<and> n \<le> 21 then ds @ replicate (nat (n - k)) CHR ''0''
     else if 0 < n \<and> n \<le> 21 then take (nat n) ds @ ''.'' @ drop (nat n) ds
     else if - 6 < n \<and> n \<le> 0 then ''0.'' @ replicate (nat (- n)) CHR ''0'' @ ds
     else (if k = 1 then ds else take 1 ds @ ''.'' @ drop 1 ds) @ ''e'' @ (if 0 \<le> e then ''+'' else []) @ show_int e)"

definition number :: "rat \<Rightarrow> json_error + string" where
  "number v =
    (if v = 0 then Inr ''0''
     else let x = (nat (fst (quotient_of \<bar>v\<bar>)), nat (snd (quotient_of \<bar>v\<bar>))) in
       case find (round_trips x) [0..<17] of None \<Rightarrow> Inl NumberOutOfRange
       | Some p \<Rightarrow> (case fmt_exp p x of (q, e) \<Rightarrow>
           Inr ((if v < 0 then ''-'' else []) @ layout (trim_end CHR ''0'' (show_nat q)) e)))"

section \<open>Canonical text\<close>

text \<open>\<open>encode_utf16\<close> of valid UTF-8.\<close>

fun utf16 :: "string \<Rightarrow> nat list" where
  "utf16 [] = []"
| "utf16 (a # s) =
    (if byte a < 128 then byte a # utf16 s
     else if byte a < 224 then
       (case s of b # t \<Rightarrow> ((byte a - 192) * 64 + (byte b - 128)) # utf16 t | _ \<Rightarrow> [byte a])
     else if byte a < 240 then
       (case s of b # c # t \<Rightarrow> ((byte a - 224) * 4096 + (byte b - 128) * 64 + (byte c - 128)) # utf16 t
        | _ \<Rightarrow> [byte a])
     else
       (case s of b # c # d # t \<Rightarrow>
          (let u = (byte a - 240) * 262144 + (byte b - 128) * 4096 + (byte c - 128) * 64 + (byte d - 128) - 65536
           in (55296 + u div 1024) # (56320 + u mod 1024) # utf16 t)
        | _ \<Rightarrow> [byte a]))"

definition sorted_members :: "(string \<times> json) list \<Rightarrow> (string \<times> json) list" where
  "sorted_members m = sort_key (\<lambda>p. utf16 (fst p)) m"

lemma size_sorted_members: "size_list f (sorted_members m) = size_list f m"
proof -
  have "mset (map f (sorted_members m)) = mset (map f m)" by (simp add: sorted_members_def mset_map)
  then have "sum_list (map f (sorted_members m)) = sum_list (map f m)" by (metis sum_mset_sum_list)
  then show ?thesis by (simp add: size_list_conv_sum_list sorted_members_def)
qed

function (sequential) emit :: "ext \<Rightarrow> json \<Rightarrow> json_error + string"
  and emit_items :: "ext \<Rightarrow> bool \<Rightarrow> json list \<Rightarrow> json_error + string"
  and emit_members :: "ext \<Rightarrow> bool \<Rightarrow> (string \<times> json) list \<Rightarrow> json_error + string"
where
  "emit E JNull = Inr ''null''"
| "emit E (JBool b) = Inr (if b then ''true'' else ''false'')"
| "emit E (JStr s) = Inr (x_quote E s)"
| "emit E (JNum n) = number (as_f64 n)"
| "emit E (JArr a) = bind_res (emit_items E True a) (\<lambda>t. Inr (''['' @ t @ '']''))"
| "emit E (JObj m) = bind_res (emit_members E True (sorted_members m)) (\<lambda>t. Inr (''{'' @ t @ ''}''))"
| "emit_items E first [] = Inr []"
| "emit_items E first (x # xs) = bind_res (emit E x) (\<lambda>s.
     bind_res (emit_items E False xs) (\<lambda>t. Inr ((if first then [] else '','') @ s @ t)))"
| "emit_members E first [] = Inr []"
| "emit_members E first ((k, v) # ms) = bind_res (emit E v) (\<lambda>s.
     bind_res (emit_members E False ms) (\<lambda>t.
       Inr ((if first then [] else '','') @ x_quote E k @ '':'' @ s @ t)))"
  by pat_completeness auto
termination
  by (relation "measure (\<lambda>x. case x of Inl (_, v) \<Rightarrow> 2 * size v
      | Inr (Inl (_, _, a)) \<Rightarrow> Suc (2 * size_list size a)
      | Inr (Inr (_, _, m)) \<Rightarrow> Suc (2 * size_list (size_prod (\<lambda>_. 0) size) m))")
    (auto simp: size_sorted_members)

definition to_canonical :: "ext \<Rightarrow> json \<Rightarrow> json_error + string" where
  "to_canonical E v = emit E v"

definition canonicalize :: "ext \<Rightarrow> string \<Rightarrow> json_error + string" where
  "canonicalize E text = bind_res (parse_json E text) (to_canonical E)"

section \<open>Rounding to binary64\<close>


lemma bit_length_le: "bit_length n \<le> m \<longleftrightarrow> n < 2 ^ m"
proof (induction n arbitrary: m rule: bit_length.induct)
  case (1 n)
  show ?case
  proof (cases "n = 0")
    case True
    then show ?thesis by (simp add: bit_length.simps)
  next
    case False
    show ?thesis
    proof (cases m)
      case 0
      then show ?thesis using False by (simp add: bit_length.simps [of n])
    next
      case (Suc k)
      have "bit_length n \<le> m \<longleftrightarrow> bit_length (n div 2) \<le> k" using False by (simp add: bit_length.simps [of n] Suc)
      also have "\<dots> \<longleftrightarrow> n div 2 < 2 ^ k" using 1 False by simp
      also have "\<dots> \<longleftrightarrow> n < 2 ^ m" by (auto simp: Suc div_less_iff_less_mult mult.commute)
      finally show ?thesis .
    qed
  qed
qed

lemma half_even_ge: "a div b \<le> half_even a b"
  by (simp add: half_even_def Let_def)

lemma f64_of_nat_exact: "n < 2 ^ 53 \<Longrightarrow> f64_of_nat n = of_nat n"
  by (simp add: f64_of_nat_def bit_length_le)

text \<open>Rounding never brings a large integer below \<open>2 ^ 53\<close>.\<close>

lemma f64_of_nat_large:
  assumes "2 ^ 53 \<le> n"
  shows "2 ^ 53 \<le> f64_of_nat n"
proof -
  define s where "s = bit_length n - 53"
  have big: "\<not> bit_length n \<le> 53" using assms bit_length_le [of n 53] by auto
  then have len: "bit_length n = s + 53" and "0 < s" by (auto simp: s_def)
  have "\<not> n < 2 ^ (s + 52)" using bit_length_le [of n "s + 52"] len by simp
  then have "2 ^ 52 * 2 ^ s \<le> n" by (simp add: power_add mult.commute)
  then have "2 ^ 52 \<le> n div 2 ^ s" by (metis div_le_mono nonzero_mult_div_cancel_right power_not_zero zero_neq_numeral)
  then have "2 ^ 52 \<le> half_even n (2 ^ s)" using half_even_ge order_trans by blast
  moreover have "(2 :: nat) \<le> 2 ^ s" using \<open>0 < s\<close> by (cases s) auto
  ultimately have "2 ^ 52 * 2 \<le> half_even n (2 ^ s) * 2 ^ s" by (rule mult_le_mono)
  then have "(2 :: nat) ^ 53 \<le> half_even n (2 ^ s) * 2 ^ s" by simp
  then have "of_nat (2 ^ 53) \<le> (of_nat (half_even n (2 ^ s) * 2 ^ s) :: rat)" by (rule of_nat_mono)
  then show ?thesis using big by (simp add: f64_of_nat_def s_def Let_def)
qed

section \<open>Integers are spelled in decimal\<close>

lemma show_nat_length: "0 < n \<Longrightarrow> 10 ^ (length (show_nat n) - 1) \<le> n \<and> n < 10 ^ length (show_nat n)"
proof (induction n rule: show_nat.induct)
  case (1 n)
  show ?case
  proof (cases "n < 10")
    case True
    then show ?thesis using 1 by (simp add: show_nat.simps [of n])
  next
    case False
    define l where "l = length (show_nat (n div 10))"
    have l: "0 < l" unfolding l_def by simp
    have "10 ^ (l - 1) \<le> n div 10" "n div 10 < 10 ^ l" using 1 False unfolding l_def by auto
    then have "10 * 10 ^ (l - 1) \<le> n" "n < 10 * 10 ^ l" by auto
    moreover have "10 * 10 ^ (l - 1) = (10 :: nat) ^ l" using l by (cases l) auto
    moreover have "length (show_nat n) = Suc l" using False by (simp add: show_nat.simps [of n] l_def)
    ultimately show ?thesis by simp
  qed
qed

lemma bit_length_bounds: "0 < n \<Longrightarrow> 2 ^ (bit_length n - 1) \<le> n \<and> n < 2 ^ bit_length n \<and> 0 < bit_length n"
  using bit_length_le [of n "bit_length n - 1"] bit_length_le [of n "bit_length n"]
  by (cases "bit_length n") (simp_all add: bit_length.simps [of n] not_less split: if_splits)

lemma bit_length_one: "bit_length (Suc 0) = Suc 0"
  by (simp add: bit_length.simps [of "Suc 0"] bit_length.simps [of 0])

lemma half_even_one: "half_even a (Suc 0) = a"
  by (simp add: half_even_def Let_def)

lemma bin_exp_nat: "0 < m \<Longrightarrow> bin_exp (m, Suc 0) = int (bit_length m) - 1"
  using bit_length_bounds [of m]
  by (simp add: bin_exp_def at_least_1_def scale2_def bit_length_one Let_def nat_diff_distrib)

lemma bin_exp_le: "bin_exp z \<le> int (bit_length (fst z)) - int (bit_length (snd z))"
  by (simp add: bin_exp_def Let_def)

lemma dec_exp_nat: "0 < n \<Longrightarrow> dec_exp (n, Suc 0) = int (length (show_nat n) - 1)"
proof -
  assume n: "0 < n"
  have l: "0 < length (show_nat n)" by simp
  have "length (show_nat (Suc 0)) = 1" by (simp add: show_nat.simps [of "Suc 0"])
  then show ?thesis using show_nat_length [OF n] l n
    by (simp add: dec_exp_def at_least_1_def scale10_def Let_def nat_diff_distrib del: length_greater_0_conv)
qed

lemma near_f64_nat:
  assumes m: "0 < m" and n: "n < 2 ^ 53"
  shows "(case near_f64 (m, Suc 0) of None \<Rightarrow> False | Some z \<Rightarrow> same_frac z (n, Suc 0)) \<longleftrightarrow> m = n"
proof (cases "bit_length m \<le> 53")
  case True
  define t where "t = 53 - bit_length m"
  have e: "max (bin_exp (m, Suc 0) - 52) (- 1074) = - int t"
    using True bit_length_bounds [OF m] by (simp add: bin_exp_nat [OF m] t_def of_nat_diff)
  have z: "scale2 (m * 2 ^ t, 1) (- int t) = (m * 2 ^ t, 2 ^ t)" by (simp add: scale2_def)
  have "m * 2 ^ t < 2 ^ bit_length m * 2 ^ t" using bit_length_bounds [OF m] by simp
  also have "\<dots> = (2 :: nat) ^ 53" using True by (simp add: t_def flip: power_add)
  finally have "bit_length (m * 2 ^ t) \<le> 53" by (simp only: bit_length_le)
  then have "bin_exp (m * 2 ^ t, 2 ^ t) < 1024" using bin_exp_le [of "(m * 2 ^ t, 2 ^ t)"] by simp
  then have "near_f64 (m, Suc 0) = Some (m * 2 ^ t, 2 ^ t)"
    unfolding near_f64_def e Let_def using z by (simp add: scale2_def half_even_one)
  then show ?thesis by (simp add: same_frac_def)
next
  case False
  define s where "s = bit_length m - 53"
  have s: "bit_length m = 53 + s" "0 < s" using False by (simp_all add: s_def)
  have e: "max (bin_exp (m, Suc 0) - 52) (- 1074) = int s" using s by (simp add: bin_exp_nat [OF m])
  define q where "q = half_even m (2 ^ s)"
  have "2 ^ (52 + s) \<le> m" using bit_length_bounds [OF m] s by simp
  then have "2 ^ 52 \<le> m div 2 ^ s" by (simp add: less_eq_div_iff_mult_less_eq power_add)
  then have "2 ^ 52 \<le> q" using half_even_ge [of m "2 ^ s"] unfolding q_def by linarith
  moreover have "(2 :: nat) ^ 1 \<le> 2 ^ s" using s by (intro power_increasing) auto
  ultimately have "2 ^ 52 * 2 ^ 1 \<le> q * 2 ^ s" by (intro mult_mono) auto
  then have "n < q * 2 ^ s" using n by simp
  moreover have "m \<noteq> n" using \<open>2 ^ (52 + s) \<le> m\<close> n s power_increasing [of 53 "52 + s" "2 :: nat"] by auto
  moreover have "near_f64 (m, Suc 0) \<in> {None, Some (q * 2 ^ s, Suc 0)}"
    unfolding near_f64_def e Let_def using s by (simp add: scale2_def q_def)
  ultimately show ?thesis by (auto simp: same_frac_def)
qed

lemma fmt_exp_nat:
  assumes n: "0 < n" and k: "k = length (show_nat n) - 1" and p: "p \<le> k"
  shows "fmt_exp p (n, Suc 0) = (let q = half_even n (10 ^ (k - p)) in if q \<ge> 10 ^ (p + 1) then (10 ^ p, int k + 1) else (q, int k))"
proof -
  have "scale10 (n, Suc 0) (int p - int k) = (n, 10 ^ (k - p))"
    using p by (cases "p = k") (simp_all add: scale10_def nat_diff_distrib)
  then show ?thesis unfolding fmt_exp_def Let_def by (simp add: dec_exp_nat [OF n] k)
qed

lemma round_trips_nat:
  assumes n: "0 < n" "n < 2 ^ 53" and k: "k = length (show_nat n) - 1" and p: "p \<le> k"
  shows "round_trips (n, Suc 0) p \<longleftrightarrow> fst (fmt_exp p (n, Suc 0)) * 10 ^ (k - p) = n \<and> snd (fmt_exp p (n, Suc 0)) = int k"
proof -
  have l: "n < 10 ^ (k + 1)" using show_nat_length [OF n(1)] k by (simp add: Suc_diff_1)
  have s: "scale10 (q, 1) (int j - int p) = (q * 10 ^ (j - p), Suc 0)" if "p \<le> j" for q j
    using that by (simp add: scale10_def nat_diff_distrib)
  show ?thesis
  proof (cases "half_even n (10 ^ (k - p)) \<ge> 10 ^ (p + 1)")
    case True
    then have f: "fmt_exp p (n, Suc 0) = (10 ^ p, int (k + 1))" using fmt_exp_nat [OF n(1) k p] by (simp add: Let_def)
    have "(10 :: nat) ^ p * 10 ^ (k + 1 - p) = 10 ^ (k + 1)" using p by (simp flip: power_add)
    then show ?thesis unfolding round_trips_def f using s [of "k + 1" "10 ^ p"] p l
        near_f64_nat [of "10 ^ (k + 1)" n] n(2) by simp
  next
    case False
    then have f: "fmt_exp p (n, Suc 0) = (half_even n (10 ^ (k - p)), int k)"
      using fmt_exp_nat [OF n(1) k p] by (simp add: Let_def)
    define q where "q = half_even n (10 ^ (k - p))"
    have "10 ^ k \<le> n" using show_nat_length [OF n(1)] k by simp
    then have "10 ^ p * 10 ^ (k - p) \<le> n" using p by (simp flip: power_add)
    then have "10 ^ p \<le> n div 10 ^ (k - p)" by (simp add: less_eq_div_iff_mult_less_eq)
    then have "(0 :: nat) < 10 ^ p \<and> 10 ^ p \<le> q" using half_even_ge [of n "10 ^ (k - p)"] unfolding q_def by simp
    then have "0 < q" by linarith
    then have "0 < q * 10 ^ (k - p)" by simp
    then show ?thesis unfolding round_trips_def f q_def [symmetric] using s [of k q] p n(2)
      near_f64_nat [of "q * 10 ^ (k - p)" n] by simp
  qed
qed

lemma show_nat_times: "0 < q \<Longrightarrow> show_nat (q * 10 ^ j) = show_nat q @ replicate j CHR ''0''"
proof (induction j)
  case (Suc j)
  have "show_nat (q * 10 ^ j * 10) = show_nat (q * 10 ^ j) @ [digit_char 0]"
    using Suc.prems by (subst show_nat.simps) simp
  moreover have "q * 10 ^ Suc j = q * 10 ^ j * 10" by simp
  ultimately show ?case using Suc by (simp only:) (simp add: digit_char_def char_of_48 replicate_append_same)
qed simp

lemma trim_end_replicate: "\<exists>j. s = trim_end c s @ replicate j c"
proof -
  have "rev s = takeWhile (\<lambda>d. d = c) (rev s) @ dropWhile (\<lambda>d. d = c) (rev s)" by simp
  moreover have "takeWhile (\<lambda>d. d = c) (rev s) = replicate (length (takeWhile (\<lambda>d. d = c) (rev s))) c"
    by (rule replicate_eqI) (auto dest: set_takeWhileD)
  ultimately show ?thesis unfolding trim_end_def by (metis rev_append rev_replicate rev_rev_ident)
qed

lemma layout_integer:
  assumes "ds @ replicate j CHR ''0'' = s" and "s \<noteq> []" and "length s \<le> 21"
  shows "layout ds (int (length s - 1)) = s"
proof -
  have l: "length ds + j = length s" using assms(1) by auto
  have p: "0 < length s" using assms(2) by simp
  have e: "int (length s - 1) + 1 = int (length s)" using p by linarith
  show ?thesis unfolding layout_def Let_def e using l assms by (auto simp: nat_diff_distrib)
qed

lemma number_integer:
  assumes "0 < n" and "n \<le> 9007199254740991"
  shows "number (of_nat n) = Inr (show_nat n)"
proof -
  define k where "k = length (show_nat n) - 1"
  have n: "n < 2 ^ 53" using assms(2) by simp
  have b: "10 ^ k \<le> n" "n < 10 ^ (k + 1)" using show_nat_length [OF assms(1)] k_def by (simp_all add: Suc_diff_1)
  have "(10 :: nat) ^ k < 10 ^ 16" using b(1) assms(2) by simp
  then have k: "k < 16" using power_less_imp_less_exp [of "10 :: nat" k 16] by simp
  have "fmt_exp k (n, Suc 0) = (n, int k)" using fmt_exp_nat [OF assms(1) k_def] b by (simp add: half_even_one Let_def)
  then have r: "round_trips (n, Suc 0) k" using round_trips_nat [OF assms(1) n k_def] by simp
  obtain p where p: "find (round_trips (n, Suc 0)) [0..<17] = Some p" "p \<le> k"
  proof (cases "find (round_trips (n, Suc 0)) [0..<17]")
    case None
    then show ?thesis using r k by (auto simp: find_None_iff)
  next
    case (Some p)
    then have "p \<le> k" using r k by (auto simp: find_Some_iff not_less intro: leI)
    then show ?thesis using that Some by blast
  qed
  have "round_trips (n, Suc 0) p" using p(1) by (auto simp: find_Some_iff)
  then obtain q where q: "fmt_exp p (n, Suc 0) = (q, int k)" "q * 10 ^ (k - p) = n"
    using round_trips_nat [OF assms(1) n k_def p(2)] by (cases "fmt_exp p (n, Suc 0)") auto
  obtain j where "show_nat q = trim_end CHR ''0'' (show_nat q) @ replicate j CHR ''0''" using trim_end_replicate by blast
  moreover have "0 < q" using q(2) assms(1) by (cases q) auto
  ultimately have "trim_end CHR ''0'' (show_nat q) @ replicate (j + (k - p)) CHR ''0'' = show_nat n"
    using show_nat_times [of q "k - p"] q(2) by (metis append.assoc replicate_add)
  then have "layout (trim_end CHR ''0'' (show_nat q)) (int k) = show_nat n"
    unfolding k_def using k by (intro layout_integer) (auto simp: k_def)
  moreover have "quotient_of \<bar>of_nat n :: rat\<bar> = (int n, 1)" using quotient_of_int [of "int n"] by simp
  ultimately show ?thesis using assms(1) p(1) q(1) by (simp add: number_def)
qed

lemma number_negative: "0 < v \<Longrightarrow> number v = Inr s \<Longrightarrow> number (- v) = Inr (CHR ''-'' # s)"
  by (auto simp: number_def Let_def split: option.splits prod.splits)

section \<open>What the strict visitor accepts\<close>

definition strict_val :: "raw \<Rightarrow> json option" where
  "strict_val r = map_option fst (strict r)"

fun dup_free :: "raw \<Rightarrow> bool" where
  "dup_free (RF64 f) = is_some f"
| "dup_free (RSeq rs) = list_all dup_free rs"
| "dup_free (RMap kvs) = (distinct (map fst kvs) \<and> list_all (\<lambda>p. dup_free (snd p)) kvs)"
| "dup_free _ = True"

definition member_val :: "string \<times> raw \<Rightarrow> (string \<times> json) option" where
  "member_val p = map_option (Pair (fst p)) (strict_val (snd p))"

lemma collect_opt_eq: "collect_opt f xs = (if \<forall>x \<in> set xs. f x \<noteq> None then Some (map (\<lambda>x. the (f x)) xs) else None)"
  by (induction xs) (auto split: option.splits)

lemma bt_ext: "bt_inv m \<Longrightarrow> bt_inv n \<Longrightarrow> bt_get m = bt_get n \<Longrightarrow> m = n"
proof -
  assume i: "bt_inv m" "bt_inv n" and g: "bt_get m = bt_get n"
  have k: "map fst m = map fst n" using bt.keys_ext [OF i g] by (simp add: bt_keys_def)
  have l: "length m = length n" using arg_cong [OF k, of length] by simp
  show "m = n"
  proof (rule nth_equalityI [OF l])
    fix j assume j: "j < length m"
    have f: "fst (m ! j) = fst (n ! j)" using arg_cong [OF k, of "\<lambda>xs. xs ! j"] j l by simp
    have "bt_get m (fst (m ! j)) = Some (snd (m ! j))" "bt_get n (fst (n ! j)) = Some (snd (n ! j))"
      using i j l by (simp_all add: bt_get_iff)
    then have "snd (m ! j) = snd (n ! j)" using f g by simp
    then show "m ! j = n ! j" using f by (rule prod_eqI [rotated])
  qed
qed

lemma strict_map_eq:
  "strict_map m ks kvs = (if distinct (map fst kvs) \<and> set (map fst kvs) \<inter> fst ` set m = {}
    then map_option (\<lambda>ms. (fold (\<lambda>(k, v). bt_insert k v) ms m, ks @ map fst kvs)) (collect_opt member_val kvs) else None)"
proof (induction kvs arbitrary: m ks)
  case (Cons p kvs)
  obtain k r where p: "p = (k, r)" by (cases p)
  show ?case
  proof (cases "bt_has m k \<or> strict r = None")
    case True
    then show ?thesis by (auto simp: p member_val_def strict_val_def)
  next
    case False
    then obtain v u where v: "strict r = Some (v, u)" by auto
    have "set (map fst kvs) \<inter> fst ` set (bt_insert k v m) = {} \<longleftrightarrow> k \<notin> set (map fst kvs) \<and> set (map fst kvs) \<inter> fst ` set m = {}"
      by (simp only: set_keys_insert) blast
    moreover have "member_val (k, r) = Some (k, v)" by (simp add: member_val_def strict_val_def v)
    ultimately show ?thesis using False Cons.IH [of "bt_insert k v m" "ks @ [k]"]
      by (cases "collect_opt member_val kvs") (auto simp: p v)
  qed
qed simp

lemma strict_RMap: "strict (RMap kvs) = (if distinct (map fst kvs)
    then map_option (\<lambda>ms. (JObj (bt_of_list ms), map fst kvs)) (collect_opt member_val kvs) else None)"
  by (auto simp: strict_map_eq bt_of_list_def split: option.splits)

lemma strict_seq_eq: "strict_seq rs = collect_opt strict_val rs"
  by (induction rs) (auto simp: strict_val_def split: option.splits)

lemma strict_accepts_iff: "strict r \<noteq> None \<longleftrightarrow> dup_free r"
proof (induction r rule: dup_free.induct)
  case (2 rs)
  then show ?case by (auto simp: strict_seq_eq collect_opt_eq strict_val_def list_all_iff)
next
  case (3 kvs)
  then show ?case by (auto simp: strict_RMap collect_opt_eq member_val_def strict_val_def list_all_iff simp del: strict.simps(8))
qed (auto split: option.splits)

lemma strict_order:
  assumes "mset kvs = mset kvs'"
  shows "strict_val (RMap kvs) = strict_val (RMap kvs')"
proof -
  have d: "distinct (map fst kvs) \<longleftrightarrow> distinct (map fst kvs')"
    using assms by (metis distinct_count_atmost_1 mset_map set_mset_mset)
  have s: "set kvs = set kvs'" using assms by (rule mset_eq_setD)
  show ?thesis
  proof (cases "distinct (map fst kvs) \<and> (\<forall>x \<in> set kvs. member_val x \<noteq> None)")
    case True
    define f where "f x = the (member_val x)" for x
    have f: "fst (f x) = fst x" if "x \<in> set kvs" for x
      using True that by (auto simp: f_def member_val_def)
    then have k: "map fst (map f kvs) = map fst kvs" "map fst (map f kvs') = map fst kvs'"
      using s by auto
    have "distinct (map fst (rev (map f kvs)))" "distinct (map fst (rev (map f kvs')))"
      unfolding rev_map [symmetric] distinct_rev k using True d by simp_all
    then have "map_of (rev (map f kvs)) = map_of (rev (map f kvs'))"
      using s by (subst map_of_inject_set) simp_all
    then have "bt_of_list (map f kvs) = bt_of_list (map f kvs')"
      by (intro bt_ext) (simp_all add: bt_inv_of_list bt_get_of_list)
    then show ?thesis using True d s by (simp add: strict_val_def strict_RMap collect_opt_eq del: strict.simps(8) flip: f_def)
  next
    case False
    then show ?thesis using d s by (auto simp: strict_val_def strict_RMap collect_opt_eq simp del: strict.simps(8))
  qed
qed

text \<open>The equation the evaluator uses: integers without the search.\<close>

lemma number_code [code]:
  "number v = (if 0 < v \<and> v \<le> 9007199254740991 \<and> snd (quotient_of v) = 1 then Inr (show_nat (nat (fst (quotient_of v))))
    else if v = 0 then Inr ''0''
    else let x = (nat (fst (quotient_of \<bar>v\<bar>)), nat (snd (quotient_of \<bar>v\<bar>))) in
       case find (round_trips x) [0..<17] of None \<Rightarrow> Inl NumberOutOfRange
       | Some p \<Rightarrow> (case fmt_exp p x of (q, e) \<Rightarrow>
           Inr ((if v < 0 then ''-'' else []) @ layout (trim_end CHR ''0'' (show_nat q)) e)))"
proof (cases "0 < v \<and> v \<le> 9007199254740991 \<and> snd (quotient_of v) = 1")
  case True
  define i where "i = fst (quotient_of v)"
  have "quotient_of v = (i, 1)" using True by (simp add: i_def prod_eq_iff)
  then have v: "v = of_int i" using quotient_of_div by force
  then have "0 < (of_int i :: rat)" "of_int i \<le> (9007199254740991 :: rat)" using True by auto
  then have "0 < i" "i \<le> 9007199254740991" by simp_all
  then have n: "v = of_nat (nat i)" "0 < nat i" "nat i \<le> 9007199254740991" using v by simp_all
  have "number v = Inr (show_nat (nat i))" unfolding n(1) using number_integer [OF n(2,3)] by simp
  then show ?thesis using True by (simp add: i_def)
next
  case False
  show ?thesis unfolding number_def if_not_P [OF False] by (rule refl)
qed

section \<open>What a canonical text spells\<close>

text \<open>A text spells a piece that occurs in it; a member is its quoted key and the text of its value.\<close>

definition spells :: "string \<Rightarrow> string \<Rightarrow> bool" where
  "spells c piece \<longleftrightarrow> (\<exists>a b. c = a @ piece @ b)"

definition member_text :: "ext \<Rightarrow> string \<Rightarrow> string \<Rightarrow> string" where
  "member_text E k t = x_quote E k @ '':'' @ t"

lemma spells_self: "spells c c"
  unfolding spells_def by (intro exI [of _ "[]"]) simp

lemma spells_append: "spells c p \<Longrightarrow> spells (a @ c) p" "spells c p \<Longrightarrow> spells (c @ b) p"
  unfolding spells_def by (metis append.assoc)+

lemma spells_member: "spells (x_quote E k @ '':'' @ s @ t) (member_text E k s)"
  unfolding member_text_def using spells_append(2) [OF spells_self, of "x_quote E k @ '':'' @ s" t] by simp

lemma emit_members_spell:
  "emit_members E first ms = Inr t \<Longrightarrow> (k, v) \<in> set ms \<Longrightarrow> \<exists>s. emit E v = Inr s \<and> spells t (member_text E k s)"
proof (induction ms arbitrary: first t)
  case (Cons kv ms)
  obtain k' v' where kv: "kv = (k', v')" by (cases kv)
  obtain s t' where s: "emit E v' = Inr s" "emit_members E False ms = Inr t'"
      "t = (if first then [] else '','') @ x_quote E k' @ '':'' @ s @ t'"
    using Cons.prems(1) by (auto simp: kv bind_res_eq_Inr)
  show ?case
  proof (cases "(k, v) = kv")
    case True
    then show ?thesis using s kv spells_append(1) [OF spells_member] by auto
  next
    case False
    then obtain u where u: "emit E v = Inr u" "spells t' (member_text E k u)" using Cons.IH [OF s(2)] Cons.prems(2) by auto
    have "t = ((if first then [] else '','') @ x_quote E k' @ '':'' @ s) @ t'" using s(3) by simp
    then have "spells t (member_text E k u)" using spells_append(1) [OF u(2)] by metis
    then show ?thesis using u(1) by blast
  qed
qed simp

text \<open>The canonical text of an object spells each of its members.\<close>

lemma canonical_spells:
  assumes "to_canonical E v = Inr c" and "jget v k = Some x"
  shows "\<exists>s. to_canonical E x = Inr s \<and> spells c (member_text E k s)"
proof -
  obtain m where m: "v = JObj m" using assms(2) by (cases v) auto
  obtain t where t: "emit_members E True (sorted_members m) = Inr t" "c = ''{'' @ t @ ''}''"
    using assms(1) by (auto simp: to_canonical_def m bind_res_eq_Inr)
  have "(k, x) \<in> set m" using assms(2) m by (simp add: bt_get_in)
  then have "(k, x) \<in> set (sorted_members m)" by (simp add: sorted_members_def)
  from emit_members_spell [OF t(1) this] obtain s where "emit E x = Inr s" "spells t (member_text E k s)" by blast
  then show ?thesis using spells_append t(2) by (metis to_canonical_def)
qed

lemma canonical_spells_string:
  assumes "to_canonical E v = Inr c" and "jidx v k = JStr s"
  shows "spells c (member_text E k (x_quote E s))"
proof -
  have "jget v k = Some (JStr s)" using assms(2) by (auto simp: jidx_def split: option.splits)
  from canonical_spells [OF assms(1) this] show ?thesis by (auto simp: to_canonical_def)
qed


section \<open>Properties\<close>

text \<open>The strict reader accepts an event tree exactly when no object in it, at any depth,
  repeats a key and every number is finite; the members of an accepted object are the values of
  its source members, and the key list it returns is the source order.\<close>

theorem strict_exact:
  "(strict r \<noteq> None \<longleftrightarrow> dup_free r)
   \<and> (strict (RMap kvs) = Some (v, ks) \<longrightarrow> ks = map fst kvs \<and> distinct ks
       \<and> (\<forall>k. jget v k = (case map_of kvs k of None \<Rightarrow> None | Some x \<Rightarrow> strict_val x)))"
proof -
  have "ks = map fst kvs \<and> distinct ks \<and> (\<forall>k. jget v k = (case map_of kvs k of None \<Rightarrow> None | Some x \<Rightarrow> strict_val x))"
    if s: "strict (RMap kvs) = Some (v, ks)"
  proof -
    obtain ms where ms: "collect_opt member_val kvs = Some ms" and v: "v = JObj (bt_of_list ms)"
      and d: "distinct (map fst kvs)" "ks = map fst kvs"
      using s by (auto simp: strict_RMap simp del: strict.simps(8) split: if_splits)
    have l: "list_all2 (\<lambda>p q. member_val p = Some q) kvs ms" using ms by (simp add: collect_opt_Some)
    then have k: "map fst ms = map fst kvs"
      by (induction kvs ms rule: list_all2_induct) (auto simp: member_val_def)
    have "map_of (rev ms) = map_of ms" using d k by (subst map_of_inject_set) (simp_all flip: rev_map)
    moreover have "map_of ms j = (case map_of kvs j of None \<Rightarrow> None | Some x \<Rightarrow> strict_val x)" for j
      using l by (induction kvs ms rule: list_all2_induct) (auto simp: member_val_def)
    ultimately show ?thesis using d by (simp add: v bt_get_of_list)
  qed
  then show ?thesis using strict_accepts_iff by blast
qed

text \<open>What a document means, and so its canonical text, does not depend on the order in which
  its source spells the members of an object.\<close>

theorem canonical_order_independent:
  assumes "mset kvs = mset kvs'" and "x_parse E t = Some (RMap kvs)" and "x_parse E t' = Some (RMap kvs')"
  shows "parse_json E t = parse_json E t' \<and> canonicalize E t = canonicalize E t'"
proof -
  have "parse_json E u = (case x_parse E u of None \<Rightarrow> Inl InvalidJson | Some r \<Rightarrow> ok_or (strict_val r) InvalidJson)" for u
    by (auto simp: parse_json_def from_str_def strict_val_def split: option.splits)
  then have "parse_json E t = parse_json E t'"
    using strict_order [OF assms(1)] assms(2,3) by simp
  then show ?thesis by (simp add: canonicalize_def)
qed

text \<open>Every integer a signed document may hold is spelled in plain decimal in its canonical
  text: the search for the shortest decimal and the layout rules never reach an exponent or a
  fraction, and never lose a digit.\<close>

theorem canonical_integer:
  "n \<le> 9007199254740991 \<Longrightarrow> to_canonical E (JNum (PosInt n)) = Inr (show_nat n)
     \<and> (0 < n \<longrightarrow> to_canonical E (JNum (NegInt (- int n))) = Inr (CHR ''-'' # show_nat n))"
proof -
  assume n: "n \<le> 9007199254740991"
  have f: "f64_of_nat n = of_nat n" using n by (simp add: f64_of_nat_exact)
  show ?thesis
  proof (cases "n = 0")
    case True
    then show ?thesis using f by (simp add: to_canonical_def number_def show_nat.simps digit_char_def char_of_48)
  next
    case False
    then have p: "number (of_nat n) = Inr (show_nat n)" using number_integer n by simp
    then have "number (- of_nat n) = Inr (CHR ''-'' # show_nat n)" using number_negative False by simp
    then show ?thesis using f p by (simp add: to_canonical_def)
  qed
qed

end
