(* ===== verification/Catalog.thy ===== *)
theory Catalog
  imports Json Semver
begin

text \<open>
  What every document verifier shares (\<open>crates/entorhinal-catalog/src/lib.rs\<close>): refusal codes
  and refusals, hexadecimal, timestamps, safe positive integers, the signature check and the
  \<open>shape\<close> of a signed document. Signatures and digests are parameters of \<open>ext\<close>.
\<close>

datatype refusal_code =
    NameInvalid | NameNotCanonical | ScopeReserved | IdBound | RecordInvalid | SignatureInvalid
  | KeyUnknown | KeyRevoked | KeyNotValid | RecordMismatch | ArchiveInvalid | ArchiveTooLarge
  | ManifestTooLarge | PathInvalid | PathTooLong | PathNotUstar | ManifestInvalid | BodyRefMissing
  | FilesMismatch | FlowIdMismatch | StatusInvalid | FeedRollback | StatusTerminal
  | FeedAfterUnavailable | StatementInvalid | KeyConflict | KeyReused | StatusSequenceConflict
  | ActionNotAllowed

fun refusal_code_str :: "refusal_code \<Rightarrow> string" where
  "refusal_code_str NameInvalid = ''name_invalid''"
| "refusal_code_str NameNotCanonical = ''name_not_canonical''"
| "refusal_code_str ScopeReserved = ''scope_reserved''"
| "refusal_code_str IdBound = ''id_bound''"
| "refusal_code_str RecordInvalid = ''record_invalid''"
| "refusal_code_str SignatureInvalid = ''signature_invalid''"
| "refusal_code_str KeyUnknown = ''key_unknown''"
| "refusal_code_str KeyRevoked = ''key_revoked''"
| "refusal_code_str KeyNotValid = ''key_not_valid''"
| "refusal_code_str RecordMismatch = ''record_mismatch''"
| "refusal_code_str ArchiveInvalid = ''archive_invalid''"
| "refusal_code_str ArchiveTooLarge = ''archive_too_large''"
| "refusal_code_str ManifestTooLarge = ''manifest_too_large''"
| "refusal_code_str PathInvalid = ''path_invalid''"
| "refusal_code_str PathTooLong = ''path_too_long''"
| "refusal_code_str PathNotUstar = ''path_not_ustar''"
| "refusal_code_str ManifestInvalid = ''manifest_invalid''"
| "refusal_code_str BodyRefMissing = ''body_ref_missing''"
| "refusal_code_str FilesMismatch = ''files_mismatch''"
| "refusal_code_str FlowIdMismatch = ''flow_id_mismatch''"
| "refusal_code_str StatusInvalid = ''status_invalid''"
| "refusal_code_str FeedRollback = ''feed_rollback''"
| "refusal_code_str StatusTerminal = ''status_terminal''"
| "refusal_code_str FeedAfterUnavailable = ''feed_after_unavailable''"
| "refusal_code_str StatementInvalid = ''statement_invalid''"
| "refusal_code_str KeyConflict = ''key_conflict''"
| "refusal_code_str KeyReused = ''key_reused''"
| "refusal_code_str StatusSequenceConflict = ''status_sequence_conflict''"
| "refusal_code_str ActionNotAllowed = ''action_not_allowed''"

datatype rollback_reason = LowerSequence | SameSequenceOtherBytes | ChangedAtRegressed | KeyEpochRegressed

record refusal =
  ref_code :: refusal_code
  ref_field :: "string option"
  ref_reason :: "rollback_reason option"

definition refusal_new :: "refusal_code \<Rightarrow> refusal" where
  "refusal_new c = \<lparr>ref_code = c, ref_field = None, ref_reason = None\<rparr>"

definition refusal_at :: "refusal_code \<Rightarrow> string \<Rightarrow> refusal" where
  "refusal_at c f = (refusal_new c)\<lparr>ref_field := Some f\<rparr>"

definition refusal_rollback :: "rollback_reason \<Rightarrow> refusal" where
  "refusal_rollback r = (refusal_new FeedRollback)\<lparr>ref_reason := Some r\<rparr>"

datatype kind = Persona | Skill | Flow | MemoryProfile

section \<open>Hexadecimal and digests\<close>

definition hex_digit :: "nat \<Rightarrow> char" where
  "hex_digit n = (if n < 10 then char_of (n + 48) else char_of (n + 87))"

definition hex :: "char list \<Rightarrow> string" where
  "hex bs = concat (map (\<lambda>b. [hex_digit (byte b div 16), hex_digit (byte b mod 16)]) bs)"

definition is_hex_digit :: "char \<Rightarrow> bool" where
  "is_hex_digit b \<longleftrightarrow> is_digit b \<or> (CHR ''a'' \<le> b \<and> b \<le> CHR ''f'')"

definition is_hex :: "string \<Rightarrow> nat \<Rightarrow> bool" where
  "is_hex s len \<longleftrightarrow> length s = len \<and> list_all is_hex_digit s"

definition hex_val :: "char \<Rightarrow> nat" where
  "hex_val b = (if b \<le> CHR ''9'' then byte b - 48 else byte b - 97 + 10)"

fun hex_pairs :: "string \<Rightarrow> char list" where
  "hex_pairs (a # b # s) = char_of (hex_val a * 16 + hex_val b) # hex_pairs s"
| "hex_pairs _ = []"

definition decode_hex :: "nat \<Rightarrow> string \<Rightarrow> char list option" where
  "decode_hex n s = (if \<not> is_hex s (n * 2) then None else Some (hex_pairs s))"

definition sha256_hex :: "ext \<Rightarrow> string \<Rightarrow> string" where
  "sha256_hex E bs = hex (x_sha256 E bs)"

definition key_fingerprint :: "ext \<Rightarrow> string \<Rightarrow> string option" where
  "key_fingerprint E pk = map_option (sha256_hex E) (decode_hex 32 pk)"

section \<open>Signatures\<close>

definition signing_input :: "string \<Rightarrow> string \<Rightarrow> string" where
  "signing_input domain canonical = domain @ [CHR 0x00] @ canonical"

definition verify_signature :: "ext \<Rightarrow> string \<Rightarrow> string \<Rightarrow> string \<Rightarrow> string \<Rightarrow> bool" where
  "verify_signature E pk domain canonical signature =
    (case decode_hex 32 pk of None \<Rightarrow> False
     | Some key \<Rightarrow> if \<not> x_key_ok E key then False
         else case decode_hex 64 signature of None \<Rightarrow> False
         | Some sig \<Rightarrow> x_verify E key (signing_input domain canonical) sig)"

section \<open>Values of a document\<close>

definition positive :: "json \<Rightarrow> nat option" where
  "positive v = (case v of JNum num \<Rightarrow>
      (let n = as_f64 num in
       if 1 \<le> n \<and> n \<le> f64_of_nat MAX_SAFE_INTEGER \<and> n = of_int \<lfloor>n\<rfloor> then Some (nat \<lfloor>n\<rfloor>) else None)
    | _ \<Rightarrow> None)"

definition time_byte :: "nat \<Rightarrow> char \<Rightarrow> bool" where
  "time_byte i c = (if i = 4 \<or> i = 7 then c = CHR ''-''
     else if i = 10 then c = CHR ''T''
     else if i = 13 \<or> i = 16 then c = CHR '':''
     else if i = 19 then c = CHR ''Z''
     else is_digit c)"

definition is_time :: "string \<Rightarrow> bool" where
  "is_time s \<longleftrightarrow> length s = 20 \<and> list_all (\<lambda>(i, c). time_byte i c) (enumerate 0 s)"

fun signed_numbers :: "json \<Rightarrow> bool" where
  "signed_numbers (JNum num) = (let n = as_f64 num in n = of_int \<lfloor>n\<rfloor> \<and> \<bar>n\<bar> \<le> f64_of_nat MAX_SAFE_INTEGER)"
| "signed_numbers (JArr a) = list_all signed_numbers a"
| "signed_numbers (JObj m) = list_all (\<lambda>p. signed_numbers (snd p)) m"
| "signed_numbers _ = True"

definition refuse_unless :: "bool \<Rightarrow> refusal \<Rightarrow> refusal + unit" where
  "refuse_unless b r = (if b then Inr () else Inl r)"

definition shape :: "ext \<Rightarrow> string \<Rightarrow> string \<Rightarrow> string list \<Rightarrow> string list \<Rightarrow> refusal_code \<Rightarrow> refusal + json" where
  "shape E text domain required optional code =
    (case parse_signed_ordered E text of Inl _ \<Rightarrow> Inl (refusal_at code ''json'')
     | Inr (v, source_keys) \<Rightarrow>
       (case as_object v of None \<Rightarrow> Inl (refusal_at code ''json'')
        | Some obj \<Rightarrow>
          bind_res (each_ok (\<lambda>k. refuse_unless (k \<in> set required \<or> k \<in> set optional) (refusal_at code k)) source_keys)
          (\<lambda>_. bind_res (each_ok (\<lambda>k. refuse_unless (bt_has obj k) (refusal_at code k)) required)
          (\<lambda>_. if jidx v ''schema'' \<noteq> JStr domain then Inl (refusal_at code ''schema'')
            else bind_res (each_ok (\<lambda>(k, x). refuse_unless (signed_numbers x) (refusal_at code k)) obj)
              (\<lambda>_. Inr v)))))"

section \<open>Facts about accepted documents\<close>

lemma f64_max: "f64_of_nat MAX_SAFE_INTEGER = 9007199254740991"
  by (simp add: f64_of_nat_exact MAX_SAFE_INTEGER_def)

lemma positive_PosInt:
  "positive (JNum (PosInt n)) = (if 1 \<le> n \<and> n \<le> MAX_SAFE_INTEGER then Some n else None)"
proof (cases "n < 2 ^ 53")
  case True
  then show ?thesis by (simp add: positive_def f64_of_nat_exact f64_max MAX_SAFE_INTEGER_def Let_def)
next
  case False
  then have "\<not> f64_of_nat n \<le> 9007199254740991" "\<not> n \<le> MAX_SAFE_INTEGER"
    using f64_of_nat_large [of n] by (auto simp: MAX_SAFE_INTEGER_def)
  then show ?thesis by (simp add: positive_def f64_max Let_def)
qed

lemma signed_numbers_PosInt: "signed_numbers (JNum (PosInt n)) \<longleftrightarrow> n \<le> MAX_SAFE_INTEGER"
proof (cases "n < 2 ^ 53")
  case True
  then show ?thesis by (simp add: f64_of_nat_exact f64_max MAX_SAFE_INTEGER_def Let_def)
next
  case False
  then have "\<not> f64_of_nat n \<le> 9007199254740991" "\<not> n \<le> MAX_SAFE_INTEGER"
    using f64_of_nat_large [of n] by (auto simp: MAX_SAFE_INTEGER_def)
  then show ?thesis by (simp add: f64_max Let_def)
qed

lemma positive_code [code]:
  "positive (JNum (PosInt n)) = (if 1 \<le> n \<and> n \<le> MAX_SAFE_INTEGER then Some n else None)"
  "positive (JNum (NegInt i)) = (let n = as_f64 (NegInt i) in
       if 1 \<le> n \<and> n \<le> f64_of_nat MAX_SAFE_INTEGER \<and> n = of_int \<lfloor>n\<rfloor> then Some (nat \<lfloor>n\<rfloor>) else None)"
  "positive (JNum (Float x)) =
      (if 1 \<le> x \<and> x \<le> f64_of_nat MAX_SAFE_INTEGER \<and> x = of_int \<lfloor>x\<rfloor> then Some (nat \<lfloor>x\<rfloor>) else None)"
  "positive JNull = None" "positive (JBool b) = None" "positive (JStr s) = None" "positive (JArr a) = None"
  "positive (JObj m) = None"
  by (rule positive_PosInt) (simp_all add: positive_def Let_def)

lemma signed_numbers_code [code]:
  "signed_numbers (JNum (PosInt n)) \<longleftrightarrow> n \<le> MAX_SAFE_INTEGER"
  "signed_numbers (JNum (NegInt i)) = (let n = as_f64 (NegInt i) in n = of_int \<lfloor>n\<rfloor> \<and> \<bar>n\<bar> \<le> f64_of_nat MAX_SAFE_INTEGER)"
  "signed_numbers (JNum (Float x)) = (x = of_int \<lfloor>x\<rfloor> \<and> \<bar>x\<bar> \<le> f64_of_nat MAX_SAFE_INTEGER)"
  "signed_numbers (JArr a) = list_all signed_numbers a"
  "signed_numbers (JObj m) = list_all (\<lambda>p. signed_numbers (snd p)) m"
  "signed_numbers JNull = True" "signed_numbers (JBool b) = True" "signed_numbers (JStr s) = True"
  by (rule signed_numbers_PosInt) (simp_all add: Let_def)
lemma positive_bounds: "positive v = Some n \<Longrightarrow> 1 \<le> n \<and> n \<le> MAX_SAFE_INTEGER"
  by (auto simp: positive_def f64_max Let_def split: json.splits if_splits)
    (auto simp: MAX_SAFE_INTEGER_def le_nat_iff le_floor_iff nat_le_iff floor_le_iff)

lemma each_ok_refuse: "each_ok (\<lambda>x. refuse_unless (P x) (r x)) xs = Inr u \<longleftrightarrow> (\<forall>x \<in> set xs. P x)"
  by (auto simp: each_ok_Inr refuse_unless_def split: if_splits)

lemma each_ok_refuse2: "each_ok (\<lambda>(k, x). refuse_unless (P k x) (r k x)) xs = Inr u \<longleftrightarrow> (\<forall>(k, x) \<in> set xs. P k x)"
  by (auto simp: each_ok_Inr refuse_unless_def split: if_splits)

text \<open>What a document of an accepted shape is.\<close>

definition shaped :: "string \<Rightarrow> string list \<Rightarrow> string list \<Rightarrow> json \<Rightarrow> bool" where
  "shaped domain required optional v \<longleftrightarrow> (\<exists>m. v = JObj m \<and> set required \<subseteq> fst ` set m
     \<and> jidx v ''schema'' = JStr domain \<and> (\<forall>(k, x) \<in> set m. signed_numbers x))"

lemma as_object_Some: "as_object v = Some m \<longleftrightarrow> v = JObj m"
  by (cases v) auto

lemma shape_Inr:
  assumes "shape E text domain required optional code = Inr v"
  shows "shaped domain required optional v"
    and "\<exists>ks. parse_signed_ordered E text = Inr (v, ks) \<and> set ks \<subseteq> set required \<union> set optional"
    and "integer_number_tokens text"
proof -
  obtain w ks where p: "parse_signed_ordered E text = Inr (w, ks)"
    using assms by (auto simp: shape_def split: sum.splits)
  obtain m where m: "w = JObj m" using assms by (auto simp: shape_def p as_object_Some split: option.splits)
  have r: "set ks \<subseteq> set required \<union> set optional" "set required \<subseteq> fst ` set m"
      "jidx w ''schema'' = JStr domain" "\<forall>(k, x) \<in> set m. signed_numbers x" "v = w"
    using assms by (auto simp: shape_def p m bind_res_eq_Inr each_ok_refuse each_ok_refuse2)
  then show "shaped domain required optional v" by (auto simp: shaped_def m)
  show "\<exists>ks. parse_signed_ordered E text = Inr (v, ks) \<and> set ks \<subseteq> set required \<union> set optional"
    using p r by auto
  show "integer_number_tokens text" using p by (auto simp: parse_signed_ordered_def split: if_splits)
qed

lemma canonical_spells_positive:
  assumes "to_canonical E v = Inr c" and "positive (jidx v k) = Some n"
  shows "spells c (member_text E k (show_nat n))"
proof -
  obtain num where num: "jidx v k = JNum num" using assms(2) by (auto simp: positive_def split: json.splits)
  then have g: "jget v k = Some (JNum num)" by (auto simp: jidx_def split: option.splits)
  have m: "f64_of_nat MAX_SAFE_INTEGER = of_nat MAX_SAFE_INTEGER" by (rule f64_of_nat_exact) (simp add: MAX_SAFE_INTEGER_def)
  have "1 \<le> as_f64 num" "as_f64 num \<le> of_nat MAX_SAFE_INTEGER" "as_f64 num = of_int \<lfloor>as_f64 num\<rfloor>" "n = nat \<lfloor>as_f64 num\<rfloor>"
    using assms(2) by (auto simp: positive_def num m Let_def split: if_splits)
  moreover from this have "1 \<le> \<lfloor>as_f64 num\<rfloor>" by simp
  ultimately have n: "as_f64 num = of_nat n" "0 < n" by auto
  then have "n \<le> 9007199254740991" using \<open>as_f64 num \<le> of_nat MAX_SAFE_INTEGER\<close> by (simp add: MAX_SAFE_INTEGER_def)
  then have "to_canonical E (JNum num) = Inr (show_nat n)" using number_integer [OF n(2)] by (simp add: to_canonical_def n)
  then show ?thesis using canonical_spells [OF assms(1) g] by auto
qed

text \<open>The document an accepted text is.\<close>

lemma shape_canonicalize:
  assumes "shape E text domain required optional code = Inr v"
  shows "canonicalize E text = to_canonical E v"
proof -
  obtain ks where "parse_signed_ordered E text = Inr (v, ks)" using shape_Inr(2) [OF assms] by blast
  then have "parse_json E text = Inr v" by (auto simp: parse_signed_ordered_def parse_json_def ok_or_def split: if_splits option.splits)
  then show ?thesis by (simp add: canonicalize_def)
qed

section \<open>Hexadecimal round trip\<close>

lemma hex_digit_ok: "n < 16 \<Longrightarrow> is_hex_digit (hex_digit n) \<and> hex_val (hex_digit n) = n"
proof -
  have "\<forall>n \<in> set [0..<16]. is_hex_digit (hex_digit n) \<and> hex_val (hex_digit n) = n" by code_simp
  then show "n < 16 \<Longrightarrow> is_hex_digit (hex_digit n) \<and> hex_val (hex_digit n) = n" by simp
qed

lemma hex_digit_val: "is_hex_digit b \<Longrightarrow> hex_val b < 16 \<and> hex_digit (hex_val b) = b"
proof -
  assume "is_hex_digit b"
  then have "48 \<le> byte b \<and> byte b \<le> 57 \<or> 97 \<le> byte b \<and> byte b \<le> 102"
    by (simp add: is_hex_digit_def is_digit_byte char_le_byte) (simp add: byte_def)
  then show ?thesis
    by (auto simp: hex_val_def hex_digit_def char_le_byte) (auto simp: byte_def)
qed

lemma hex_pairs_hex: "hex_pairs (hex bs) = bs"
proof (induction bs)
  case (Cons b bs)
  have "byte b div 16 < 16" "byte b mod 16 < 16" using byte_less [of b] by auto
  then show ?case using Cons hex_digit_ok by (simp add: hex_def)
qed (simp add: hex_def)

lemma length_hex [simp]: "length (hex bs) = 2 * length bs"
  by (induction bs) (auto simp: hex_def)

lemma is_hex_hex: "is_hex (hex bs) (2 * length bs)"
proof (induction bs)
  case (Cons b bs)
  have "byte b div 16 < 16" "byte b mod 16 < 16" using byte_less [of b] by auto
  then show ?case using Cons hex_digit_ok by (simp add: is_hex_def hex_def)
qed (simp add: is_hex_def hex_def)

lemma hex_hex_pairs: "list_all is_hex_digit s \<Longrightarrow> even (length s) \<Longrightarrow> hex (hex_pairs s) = s \<and> 2 * length (hex_pairs s) = length s"
proof (induction s rule: hex_pairs.induct)
  case (1 a b s)
  then have a: "hex_val a < 16" "hex_digit (hex_val a) = a" and b: "hex_val b < 16" "hex_digit (hex_val b) = b"
    using hex_digit_val by auto
  then have "byte (char_of (hex_val a * 16 + hex_val b)) = hex_val a * 16 + hex_val b"
    by (intro byte_char_of) simp
  with a b 1 show ?case by (simp add: hex_def)
qed (auto simp: hex_def)

lemma decode_hex_iff: "decode_hex n s = Some bs \<longleftrightarrow> length bs = n \<and> s = hex bs"
proof
  assume "decode_hex n s = Some bs"
  then show "length bs = n \<and> s = hex bs"
    using hex_hex_pairs [of s] by (auto simp: decode_hex_def is_hex_def split: if_splits)
next
  assume "length bs = n \<and> s = hex bs"
  then show "decode_hex n s = Some bs"
    using is_hex_hex [of bs] hex_pairs_hex [of bs] by (auto simp: decode_hex_def mult.commute)
qed

end
