(* ===== verification/Names.thy ===== *)
theory Names
  imports Catalog
begin

text \<open>
  Package identity (\<open>crates/entorhinal-catalog/src/names.rs\<close>): names \<open>@scope/name\<close>,
  the id a name is bound to, the check of an authoritative binding table and the claim of a
  scope. A slice of a string is a \<open>take\<close>: the short form is longer than the slice wherever it
  is cut, and a digest prints as 64 characters.
\<close>

definition SCOPE_MAX :: nat where "SCOPE_MAX = 39"
definition PACKAGE_NAME_MAX :: nat where "PACKAGE_NAME_MAX = 64"
definition BASAL_ID_MAX :: nat where "BASAL_ID_MAX = 46"

definition RESERVED_SCOPES :: "string list" where
  "RESERVED_SCOPES = [''cortexkit'', ''ck'', ''catalog'', ''registry'']"

datatype name_part = PartWhole | PartScope | PartName

record name_error =
  ne_code :: refusal_code
  ne_part :: name_part

datatype id_form = Short | Hashed

record mapped_name =
  mn_canonical :: string
  mn_scope :: string
  mn_name :: string
  mn_short :: string
  mn_short_bytes :: nat
  mn_sha256 :: string
  mn_form :: id_form
  mn_id :: string

definition part_byte :: "char \<Rightarrow> bool" where
  "part_byte b \<longleftrightarrow> is_lower b \<or> is_digit b"

definition part :: "string \<Rightarrow> bool" where
  "part s \<longleftrightarrow> s \<noteq> [] \<and> list_all (\<lambda>p. p \<noteq> [] \<and> list_all part_byte p) (split_on CHR ''-'' s)"

definition name_err :: "name_part \<Rightarrow> name_error" where
  "name_err p = \<lparr>ne_code = NameInvalid, ne_part = p\<rparr>"

definition map_name :: "ext \<Rightarrow> string \<Rightarrow> name_error + mapped_name" where
  "map_name E input =
    (let lowered = to_lower input in
     case (case strip_prefix ''@'' lowered of None \<Rightarrow> None | Some s \<Rightarrow> split_once ''/'' s) of
       None \<Rightarrow> Inl (name_err PartWhole)
     | Some (scope, name) \<Rightarrow>
        if CHR ''/'' \<in> set name then Inl (name_err PartWhole)
        else if \<not> part scope \<or> length scope > SCOPE_MAX then Inl (name_err PartScope)
        else if \<not> part name \<or> length name > PACKAGE_NAME_MAX then Inl (name_err PartName)
        else
          (let short = scope @ ''--'' @ name;
               digest = sha256_hex E lowered;
               hashed = length short > BASAL_ID_MAX in
           Inr \<lparr>mn_canonical = lowered, mn_scope = scope, mn_name = name, mn_short = short,
                mn_short_bytes = length short, mn_sha256 = digest,
                mn_form = (if hashed then Hashed else Short),
                mn_id = (if hashed then take 29 short @ ''_'' @ take 16 digest else short)\<rparr>))"

definition canonical :: "ext \<Rightarrow> string \<Rightarrow> bool" where
  "canonical E s = (case map_name E s of Inl _ \<Rightarrow> False | Inr n \<Rightarrow> mn_canonical n = s)"

record binding =
  bd_id :: string
  bd_new :: bool

record bind_error =
  be_code :: refusal_code
  be_id :: "string option"
  be_bound_to :: "string option"

definition bind_err :: "refusal_code \<Rightarrow> bind_error" where
  "bind_err c = \<lparr>be_code = c, be_id = None, be_bound_to = None\<rparr>"

definition bind_name :: "ext \<Rightarrow> (string \<times> string) list \<Rightarrow> string \<Rightarrow> bind_error + binding" where
  "bind_name E table input =
    (case map_name E input of Inl _ \<Rightarrow> Inl (bind_err NameInvalid)
     | Inr n \<Rightarrow>
       if mn_canonical n \<noteq> input then Inl (bind_err NameNotCanonical)
       else
         (case bt_get table (mn_id n) of
            Some bound \<Rightarrow>
              if bound \<noteq> mn_canonical n
              then Inl \<lparr>be_code = IdBound, be_id = Some (mn_id n), be_bound_to = Some bound\<rparr>
              else Inr \<lparr>bd_id = mn_id n, bd_new = \<not> bt_has table (mn_id n)\<rparr>
          | None \<Rightarrow> Inr \<lparr>bd_id = mn_id n, bd_new = \<not> bt_has table (mn_id n)\<rparr>))"

definition claim_scope :: "string \<Rightarrow> refusal + unit" where
  "claim_scope input =
    (let lowered = to_lower input in
     if \<not> part lowered \<or> length lowered > SCOPE_MAX then Inl (refusal_new NameInvalid)
     else if lowered \<in> set RESERVED_SCOPES then Inl (refusal_new ScopeReserved)
     else if lowered \<noteq> input then Inl (refusal_new NameNotCanonical)
     else Inr ())"

section \<open>The shape of names\<close>

definition scope_ok :: "string \<Rightarrow> bool" where
  "scope_ok s \<longleftrightarrow> part s \<and> length s \<le> SCOPE_MAX"

definition name_ok :: "string \<Rightarrow> bool" where
  "name_ok s \<longleftrightarrow> part s \<and> length s \<le> PACKAGE_NAME_MAX"

definition spelled :: "string \<Rightarrow> string \<Rightarrow> string" where
  "spelled scope name = CHR ''@'' # scope @ CHR ''/'' # name"

lemma part_bytes: "part s \<Longrightarrow> c \<in> set s \<Longrightarrow> part_byte c \<or> c = CHR ''-''"
  by (subst (asm) set_split_on [of s "CHR ''-''"]) (auto simp: part_def list_all_iff split: if_splits)

lemma part_byte_not_upper: "part_byte c \<Longrightarrow> \<not> is_upper c"
  by (auto simp: part_byte_def is_digit_not_upper is_lower_not_upper)

lemma part_not_upper: "part s \<Longrightarrow> c \<in> set s \<Longrightarrow> \<not> is_upper c"
  using part_bytes part_byte_not_upper by (fastforce simp: is_upper_def)

lemma part_excludes:
  assumes "part s" shows "CHR ''/'' \<notin> set s" "CHR ''_'' \<notin> set s"
proof -
  have "\<not> part_byte CHR ''/''" "\<not> part_byte CHR ''_''" by code_simp+
  then show "CHR ''/'' \<notin> set s" "CHR ''_'' \<notin> set s" using part_bytes [OF assms] by auto
qed

lemma part_split: "part s \<Longrightarrow> [] \<notin> set (split_on CHR ''-'' s)"
  by (auto simp: part_def list_all_iff)

text \<open>Two dashes cannot come from inside a part, so the short form determines both parts.\<close>

lemma append_sep_unique: "xs @ z # ys = us @ z # vs \<Longrightarrow> z \<notin> set xs \<Longrightarrow> z \<notin> set us \<Longrightarrow> xs = us \<and> ys = vs"
proof (induction xs arbitrary: us)
  case Nil
  then show ?case by (cases us) auto
next
  case (Cons x xs)
  then show ?case by (cases us) auto
qed

lemma short_unique:
  assumes "a @ ''--'' @ b = c @ ''--'' @ d" and "part a" "part c"
  shows "a = c \<and> b = d"
proof -
  have s: "split_on CHR ''-'' (x @ ''--'' @ y) = split_on CHR ''-'' x @ [] # split_on CHR ''-'' y" for x y
    using split_on_snoc [of "CHR ''-''" x "CHR ''-'' # y"] by simp
  have "split_on CHR ''-'' a @ [] # split_on CHR ''-'' b = split_on CHR ''-'' c @ [] # split_on CHR ''-'' d"
    using arg_cong [OF assms(1), of "split_on CHR ''-''"] by (simp only: s)
  from append_sep_unique [OF this part_split [OF assms(2)] part_split [OF assms(3)]]
  show ?thesis by (metis join_split)
qed

definition mapped :: "ext \<Rightarrow> string \<Rightarrow> string \<Rightarrow> mapped_name \<Rightarrow> bool" where
  "mapped E scope name n \<longleftrightarrow> mn_canonical n = spelled scope name \<and> mn_scope n = scope \<and> mn_name n = name
     \<and> mn_short n = scope @ ''--'' @ name \<and> mn_short_bytes n = length (mn_short n)
     \<and> mn_sha256 n = sha256_hex E (spelled scope name)
     \<and> (if length (mn_short n) > BASAL_ID_MAX
        then mn_form n = Hashed \<and> mn_id n = take 29 (mn_short n) @ ''_'' @ take 16 (mn_sha256 n)
        else mn_form n = Short \<and> mn_id n = mn_short n)"

lemma strip_at: "strip_prefix ''@'' s = Some r \<longleftrightarrow> s = CHR ''@'' # r"
  by (simp add: strip_prefix_Some)

lemma name_split_Some:
  "(case strip_prefix ''@'' s of None \<Rightarrow> None | Some r \<Rightarrow> split_once ''/'' r) = Some (a, b)
     \<longleftrightarrow> s = spelled a b \<and> CHR ''/'' \<notin> set a"
proof (cases "strip_prefix ''@'' s")
  case None
  then have "s \<noteq> CHR ''@'' # r" for r by (simp add: strip_prefix_None)
  with None show ?thesis by (simp add: spelled_def)
next
  case (Some r)
  then have "s = CHR ''@'' # r" by (simp add: strip_at)
  with Some show ?thesis by (simp add: split_once_char spelled_def)
qed

lemma map_name_Inr_iff:
  "map_name E input = Inr n \<longleftrightarrow>
    (\<exists>scope name. to_lower input = spelled scope name \<and> scope_ok scope \<and> name_ok name \<and> mapped E scope name n)"
proof
  assume l: "map_name E input = Inr n"
  obtain a b where ab: "(case strip_prefix ''@'' (to_lower input) of None \<Rightarrow> None | Some r \<Rightarrow> split_once ''/'' r) = Some (a, b)"
    using l unfolding map_name_def Let_def by (cases "case strip_prefix ''@'' (to_lower input) of None \<Rightarrow> None | Some r \<Rightarrow> split_once ''/'' r") auto
  then have e: "to_lower input = spelled a b" by (simp only: name_split_Some)
  have "scope_ok a" "name_ok b" "mapped E a b n"
    using l unfolding map_name_def Let_def ab
    by (auto simp: scope_ok_def name_ok_def mapped_def e not_less split: if_splits)
  with e show "\<exists>scope name. to_lower input = spelled scope name \<and> scope_ok scope \<and> name_ok name \<and> mapped E scope name n"
    by blast
next
  assume "\<exists>scope name. to_lower input = spelled scope name \<and> scope_ok scope \<and> name_ok name \<and> mapped E scope name n"
  then obtain a b where e: "to_lower input = spelled a b" and ok: "scope_ok a" "name_ok b" and m: "mapped E a b n" by blast
  have ab: "(case strip_prefix ''@'' (to_lower input) of None \<Rightarrow> None | Some r \<Rightarrow> split_once ''/'' r) = Some (a, b)"
    using e ok part_excludes by (simp only: name_split_Some) (simp add: scope_ok_def)
  have "\<not> (\<not> part a \<or> length a > SCOPE_MAX)" "\<not> (\<not> part b \<or> length b > PACKAGE_NAME_MAX)" "CHR ''/'' \<notin> set b"
    using ok part_excludes by (auto simp: scope_ok_def name_ok_def)
  with m show "map_name E input = Inr n"
    unfolding map_name_def Let_def ab
    by (cases n) (simp add: mapped_def e split: if_splits)
qed

lemma spelled_lower: "scope_ok a \<Longrightarrow> name_ok b \<Longrightarrow> to_lower (spelled a b) = spelled a b"
proof (rule to_lower_id)
  assume "scope_ok a" "name_ok b"
  moreover have "\<not> is_upper CHR ''@''" "\<not> is_upper CHR ''/''" by code_simp+
  ultimately show "\<forall>c \<in> set (spelled a b). \<not> is_upper c"
    using part_not_upper by (auto simp: spelled_def scope_ok_def name_ok_def)
qed

lemma mapped_exists: "\<exists>n. mapped E a b n"
  unfolding mapped_def
  by (rule exI [of _ "\<lparr>mn_canonical = spelled a b, mn_scope = a, mn_name = b, mn_short = a @ ''--'' @ b,
        mn_short_bytes = length (a @ ''--'' @ b), mn_sha256 = sha256_hex E (spelled a b),
        mn_form = (if length (a @ ''--'' @ b) > BASAL_ID_MAX then Hashed else Short),
        mn_id = (if length (a @ ''--'' @ b) > BASAL_ID_MAX
          then take 29 (a @ ''--'' @ b) @ ''_'' @ take 16 (sha256_hex E (spelled a b)) else a @ ''--'' @ b)\<rparr>"]) simp

lemma canonical_iff: "canonical E s \<longleftrightarrow> (\<exists>scope name. s = spelled scope name \<and> scope_ok scope \<and> name_ok name)"
proof
  assume "canonical E s"
  then obtain n where "map_name E s = Inr n" "mn_canonical n = s" by (auto simp: canonical_def split: sum.splits)
  then show "\<exists>scope name. s = spelled scope name \<and> scope_ok scope \<and> name_ok name"
    by (auto simp: map_name_Inr_iff mapped_def)
next
  assume "\<exists>scope name. s = spelled scope name \<and> scope_ok scope \<and> name_ok name"
  then obtain a b where s: "s = spelled a b" "scope_ok a" "name_ok b" by blast
  obtain n where m: "mapped E a b n" using mapped_exists by blast
  have "map_name E s = Inr n" using s m spelled_lower by (auto simp: map_name_Inr_iff)
  then show "canonical E s" using m s by (simp add: canonical_def mapped_def)
qed

section \<open>Ids\<close>

lemma part_no_underscore: "part a \<Longrightarrow> part b \<Longrightarrow> CHR ''_'' \<notin> set (a @ ''--'' @ b)"
  using part_excludes by auto

lemma mapped_form: "mapped E a b n \<Longrightarrow> part a \<Longrightarrow> part b \<Longrightarrow> mn_form n = Hashed \<longleftrightarrow> CHR ''_'' \<in> set (mn_id n)"
  using part_no_underscore [of a b] by (auto simp: mapped_def split: if_splits)

lemma id_identifies_aux:
  assumes "mapped E a b n" "mapped E c d m" and p: "part a" "part b" "part c" "part d" and id: "mn_id n = mn_id m"
  shows "a = c \<and> b = d \<or> mn_form n = Hashed \<and> mn_form m = Hashed \<and> take 29 (mn_short n) = take 29 (mn_short m)
     \<and> take 16 (mn_sha256 n) = take 16 (mn_sha256 m)"
proof (cases "mn_form n = Hashed")
  case True
  then have f: "mn_form m = Hashed" using assms mapped_form [of E a b n] mapped_form [of E c d m] by simp
  have l: "length (mn_short n) > 46" "mn_id n = take 29 (mn_short n) @ ''_'' @ take 16 (mn_sha256 n)"
    using True assms(1) by (simp_all add: mapped_def BASAL_ID_MAX_def split: if_splits)
  have r: "length (mn_short m) > 46" "mn_id m = take 29 (mn_short m) @ ''_'' @ take 16 (mn_sha256 m)"
    using f assms(2) by (simp_all add: mapped_def BASAL_ID_MAX_def split: if_splits)
  show ?thesis using True f l r id by simp
next
  case False
  then have f: "mn_form m \<noteq> Hashed" using assms mapped_form [of E a b n] mapped_form [of E c d m] by simp
  then have "mn_id n = a @ ''--'' @ b" "mn_id m = c @ ''--'' @ d"
    using False assms(1,2) by (simp_all add: mapped_def split: if_splits)
  then have "a @ ''--'' @ b = c @ ''--'' @ d" using id by (simp only:)
  from short_unique [OF this p(1,3)] show ?thesis by (rule disjI1)
qed

section \<open>Properties\<close>

text \<open>A name is canonical exactly when it is \<open>@scope/name\<close> with both parts made of
  nonempty groups of lower-case letters and digits joined by single dashes, within their length
  limits; an accepted spelling of any letter case has a canonical name, which maps to itself.\<close>

theorem map_name_canonicalizes:
  "(canonical E s \<longleftrightarrow> (\<exists>scope name. s = spelled scope name \<and> scope_ok scope \<and> name_ok name))
   \<and> (map_name E s = Inr n \<longrightarrow> canonical E (mn_canonical n) \<and> mn_canonical n = to_lower s
        \<and> map_name E (mn_canonical n) = Inr n)"
proof -
  have "canonical E (mn_canonical n) \<and> mn_canonical n = to_lower s \<and> map_name E (mn_canonical n) = Inr n"
    if "map_name E s = Inr n"
  proof -
    obtain a b where ab: "to_lower s = spelled a b" "scope_ok a" "name_ok b" "mapped E a b n"
      using \<open>map_name E s = Inr n\<close> by (auto simp: map_name_Inr_iff)
    then have c: "mn_canonical n = spelled a b" by (simp add: mapped_def)
    have "map_name E (spelled a b) = Inr n" using ab spelled_lower by (auto simp: map_name_Inr_iff)
    then show ?thesis using ab c by (auto simp: canonical_iff)
  qed
  then show ?thesis using canonical_iff [of E s] by blast
qed

text \<open>A binding id is at most 46 bytes long, and it identifies its name: two names with the
  same id are the same name, unless both ids are hashed and agree in the first 29 bytes of the
  short form and in the first 64 bits of the digest. A short id never meets a hashed one.\<close>

theorem id_identifies:
  assumes "map_name E s = Inr n" and "map_name E t = Inr m" and "mn_id n = mn_id m"
  shows "length (mn_id n) \<le> BASAL_ID_MAX
    \<and> (mn_canonical n = mn_canonical m \<or>
       (mn_form n = Hashed \<and> mn_form m = Hashed \<and> take 29 (mn_short n) = take 29 (mn_short m)
        \<and> take 16 (mn_sha256 n) = take 16 (mn_sha256 m)))"
proof -
  obtain a b c d where m: "mapped E a b n" "mapped E c d m" and ok: "scope_ok a" "name_ok b" "scope_ok c" "name_ok d"
    using assms by (auto simp: map_name_Inr_iff)
  have "length (mn_id n) \<le> BASAL_ID_MAX" using m by (auto simp: mapped_def BASAL_ID_MAX_def split: if_splits)
  then show ?thesis using id_identifies_aux [OF m] ok assms(3) m
    by (auto simp: scope_ok_def name_ok_def mapped_def)
qed

text \<open>A binding is granted exactly for a canonical name whose id is unbound or already bound
  to that name; it is new exactly when the id was unbound. A canonical name whose id is held by
  another name is refused as \<open>id_bound\<close>, and the refusal names the id and its holder.\<close>

theorem bind_name_authoritative:
  "(bind_name E table s = Inr b \<longleftrightarrow>
    (\<exists>n. map_name E s = Inr n \<and> mn_canonical n = s \<and> bd_id b = mn_id n \<and> bd_new b = (bt_get table (mn_id n) = None)
      \<and> bt_get table (mn_id n) \<in> {None, Some s}))
   \<and> (bind_name E table s = Inl \<lparr>be_code = IdBound, be_id = Some i, be_bound_to = Some t\<rparr> \<longleftrightarrow>
    (\<exists>n. map_name E s = Inr n \<and> mn_canonical n = s \<and> mn_id n = i \<and> bt_get table i = Some t \<and> t \<noteq> s))"
proof (cases "map_name E s")
  case (Inl e)
  then show ?thesis by (simp add: bind_name_def bind_err_def)
next
  case (Inr n)
  then show ?thesis
    by (cases "bt_get table (mn_id n)"; cases b)
      (auto simp: bind_name_def bind_err_def bt_has_get simp del: bt_has_iff)
qed

text \<open>A scope can be claimed exactly when it is a well-formed scope in lower case that is not
  reserved, whatever the letter case of the input.\<close>

theorem claim_scope_iff: "claim_scope s = Inr () \<longleftrightarrow> scope_ok s \<and> s \<notin> set RESERVED_SCOPES"
proof (cases "to_lower s = s")
  case True
  then show ?thesis by (auto simp: claim_scope_def scope_ok_def Let_def)
next
  case False
  have "\<not> scope_ok s"
  proof
    assume "scope_ok s"
    then have "\<forall>c \<in> set s. \<not> is_upper c" using part_not_upper by (auto simp: scope_ok_def)
    then show False using to_lower_id False by blast
  qed
  with False show ?thesis by (simp add: claim_scope_def Let_def)
qed

end
