(* ===== verification/Capability.thy ===== *)
theory Capability
  imports Catalog
begin

text \<open>
  Capability tokens and their manifest spelling
  (\<open>crates/entorhinal-catalog/src/resolver.rs\<close>, lines 9 to 111): \<open>cap/area.verb@n\<close> and
  \<open>cap-area-verb/vn\<close>, with an optional verb.
\<close>

definition CAPABILITY_NAME_MAX :: nat where "CAPABILITY_NAME_MAX = 64"

definition cap_byte :: "char \<Rightarrow> bool" where
  "cap_byte b \<longleftrightarrow> is_lower b \<or> is_digit b"

definition capability_part :: "string \<Rightarrow> bool" where
  "capability_part s \<longleftrightarrow> (case s of [] \<Rightarrow> False | b # bs \<Rightarrow> is_lower b \<and> list_all cap_byte bs)"

definition capability_major :: "string \<Rightarrow> bool" where
  "capability_major s \<longleftrightarrow> s \<noteq> [] \<and> \<not> starts_with ''0'' s \<and> list_all is_digit s"

definition capability_token :: "string \<Rightarrow> bool" where
  "capability_token s = (case strip_prefix ''cap/'' s of None \<Rightarrow> False | Some body \<Rightarrow>
     (case split_once ''@'' body of None \<Rightarrow> False | Some (parts, n) \<Rightarrow>
       (case split_on CHR ''.'' parts of [] \<Rightarrow> False | area # rest \<Rightarrow>
          capability_part area \<and> none_or capability_part (case rest of [] \<Rightarrow> None | v # _ \<Rightarrow> Some v)
          \<and> length rest \<le> 1 \<and> capability_major n)))"

datatype capability_error = CapabilityNotAToken | TokenTooLong

definition capability_to_manifest :: "string \<Rightarrow> capability_error + string" where
  "capability_to_manifest token =
    (if \<not> capability_token token then Inl CapabilityNotAToken
     else bind_res (ok_or (strip_prefix ''cap/'' token) CapabilityNotAToken) (\<lambda>body.
       bind_res (ok_or (split_once ''@'' body) CapabilityNotAToken) (\<lambda>(identifier, n).
         let (area, verb) = (case split_once ''.'' identifier of None \<Rightarrow> (identifier, None)
               | Some (area, verb) \<Rightarrow> (area, Some verb));
             name = (case verb of Some v \<Rightarrow> ''cap-'' @ area @ ''-'' @ v | None \<Rightarrow> ''cap-'' @ area) in
         if length name > CAPABILITY_NAME_MAX then Inl TokenTooLong else Inr (name @ ''/v'' @ n))))"

definition manifest_to_capability :: "string \<Rightarrow> capability_error + string" where
  "manifest_to_capability manifest =
    bind_res (ok_or (split_once ''/v'' manifest) CapabilityNotAToken) (\<lambda>(name, n).
    bind_res (ok_or (strip_prefix ''cap-'' name) CapabilityNotAToken) (\<lambda>body.
      (case split_on CHR ''-'' body of [] \<Rightarrow> Inl CapabilityNotAToken | area # rest \<Rightarrow>
        let verb = (case rest of [] \<Rightarrow> None | v # _ \<Rightarrow> Some v) in
        if length rest > 1 \<or> \<not> capability_part area \<or> some_and (\<lambda>p. \<not> capability_part p) verb
           \<or> \<not> capability_major n then Inl CapabilityNotAToken
        else if length name > CAPABILITY_NAME_MAX then Inl TokenTooLong
        else
          (let token = (case verb of Some v \<Rightarrow> ''cap/'' @ area @ ''.'' @ v @ ''@'' @ n
                  | None \<Rightarrow> ''cap/'' @ area @ ''@'' @ n) in
           if capability_to_manifest token \<noteq> Inr manifest then Inl CapabilityNotAToken else Inr token))))"

section \<open>The two spellings\<close>

definition dotted :: "char \<Rightarrow> string \<Rightarrow> string option \<Rightarrow> string" where
  "dotted d area verb = area @ (case verb of None \<Rightarrow> [] | Some v \<Rightarrow> d # v)"

definition token_text :: "string \<Rightarrow> string option \<Rightarrow> string \<Rightarrow> string" where
  "token_text area verb n = ''cap/'' @ dotted CHR ''.'' area verb @ ''@'' @ n"

definition manifest_text :: "string \<Rightarrow> string option \<Rightarrow> string \<Rightarrow> string" where
  "manifest_text area verb n = ''cap-'' @ dotted CHR ''-'' area verb @ ''/v'' @ n"

definition cap_ok :: "string \<Rightarrow> string option \<Rightarrow> string \<Rightarrow> bool" where
  "cap_ok area verb n \<longleftrightarrow> capability_part area \<and> none_or capability_part verb \<and> capability_major n"

lemma cap_part_bytes: "capability_part s \<Longrightarrow> c \<in> set s \<Longrightarrow> is_lower c \<or> is_digit c"
  by (auto simp: capability_part_def cap_byte_def list_all_iff split: list.splits)

lemma cap_part_excludes:
  assumes "capability_part s"
  shows "CHR ''.'' \<notin> set s" "CHR ''@'' \<notin> set s" "CHR ''-'' \<notin> set s" "CHR ''/'' \<notin> set s"
proof -
  have "\<not> (is_lower CHR ''.'' \<or> is_digit CHR ''.'')" "\<not> (is_lower CHR ''@'' \<or> is_digit CHR ''@'')"
    "\<not> (is_lower CHR ''-'' \<or> is_digit CHR ''-'')" "\<not> (is_lower CHR ''/'' \<or> is_digit CHR ''/'')" by code_simp+
  then show "CHR ''.'' \<notin> set s" "CHR ''@'' \<notin> set s" "CHR ''-'' \<notin> set s" "CHR ''/'' \<notin> set s"
    using cap_part_bytes [OF assms] by blast+
qed

lemma split_dotted:
  assumes "d \<notin> set area" "none_or (\<lambda>v. d \<notin> set v) verb"
  shows "split_on d (dotted d area verb) = area # (case verb of None \<Rightarrow> [] | Some v \<Rightarrow> [v])"
  using assms by (cases verb) (simp_all add: dotted_def split_on_single split_on_append)

lemma split_once_dotted:
  assumes "d \<notin> set area"
  shows "split_once [d] (dotted d area verb) = (case verb of None \<Rightarrow> None | Some v \<Rightarrow> Some (area, v))"
  using assms by (cases verb) (simp_all add: dotted_def split_once_char split_once_char_None)

lemma split_once_absent: "hd p \<notin> set a \<Longrightarrow> p \<noteq> [] \<Longrightarrow> split_once p (a @ p @ b) = Some (a, b)"
proof (induction a)
  case Nil
  then show ?case by (cases p) simp_all
next
  case (Cons c a)
  then have "strip_prefix p (c # a @ p @ b) = None" by (cases p) simp_all
  then show ?case using Cons by simp
qed

lemma dotted_split:
  assumes "split_on d s = area # rest" "length rest \<le> 1"
  shows "s = dotted d area (case rest of [] \<Rightarrow> None | v # _ \<Rightarrow> Some v)"
proof -
  have "s = join_on d (area # rest)" using join_split [of d s] assms(1) by simp
  then show ?thesis using assms(2) by (cases rest) (simp_all add: dotted_def)
qed

lemma capability_token_iff: "capability_token s \<longleftrightarrow> (\<exists>area verb n. s = token_text area verb n \<and> cap_ok area verb n)"
proof
  assume t: "capability_token s"
  obtain body where b: "s = ''cap/'' @ body" using t by (auto simp: capability_token_def strip_prefix_Some split: option.splits)
  obtain parts n where p: "body = parts @ CHR ''@'' # n" "split_once ''@'' body = Some (parts, n)"
    using t unfolding b capability_token_def by (auto simp: split_once_char split: option.splits)
  obtain area rest where r: "split_on CHR ''.'' parts = area # rest" by (rule split_on_cases)
  have "capability_part area" "none_or capability_part (case rest of [] \<Rightarrow> None | v # _ \<Rightarrow> Some v)"
      "length rest \<le> 1" "capability_major n"
    using t unfolding b capability_token_def by (simp_all add: p(2) r)
  then show "\<exists>area verb n. s = token_text area verb n \<and> cap_ok area verb n"
    using dotted_split [OF r] b p(1) by (auto simp: token_text_def cap_ok_def)
next
  assume "\<exists>area verb n. s = token_text area verb n \<and> cap_ok area verb n"
  then obtain area verb n where s: "s = token_text area verb n" and ok: "cap_ok area verb n" by blast
  have a: "capability_part area" and v: "none_or capability_part verb" using ok by (simp_all add: cap_ok_def)
  have at: "CHR ''@'' \<notin> set (dotted CHR ''.'' area verb)" using cap_part_excludes [OF a] v cap_part_excludes
    by (cases verb) (simp_all add: dotted_def)
  have "split_on CHR ''.'' (dotted CHR ''.'' area verb) = area # (case verb of None \<Rightarrow> [] | Some v \<Rightarrow> [v])"
    using cap_part_excludes [OF a] v cap_part_excludes by (intro split_dotted) (cases verb, simp_all)+
  moreover have "strip_prefix ''cap/'' s = Some (dotted CHR ''.'' area verb @ ''@'' @ n)"
    unfolding s token_text_def by (rule strip_prefix_append)
  moreover have "split_once ''@'' (dotted CHR ''.'' area verb @ ''@'' @ n) = Some (dotted CHR ''.'' area verb, n)"
    using at by (simp add: split_once_char)
  ultimately show "capability_token s"
    using ok by (cases verb) (simp_all add: capability_token_def cap_ok_def)
qed

lemma to_manifest_token:
  assumes ok: "cap_ok area verb n"
  shows "capability_to_manifest (token_text area verb n) =
    (if length (''cap-'' @ dotted CHR ''-'' area verb) > CAPABILITY_NAME_MAX then Inl TokenTooLong
     else Inr (manifest_text area verb n))"
proof -
  have a: "capability_part area" and v: "none_or capability_part verb" using ok by (simp_all add: cap_ok_def)
  have "capability_token (token_text area verb n)" using ok capability_token_iff by blast
  moreover have "strip_prefix ''cap/'' (token_text area verb n) = Some (dotted CHR ''.'' area verb @ ''@'' @ n)"
    unfolding token_text_def by (rule strip_prefix_append)
  moreover have "CHR ''@'' \<notin> set (dotted CHR ''.'' area verb)" using cap_part_excludes [OF a] v cap_part_excludes
    by (cases verb) (simp_all add: dotted_def)
  then have "split_once ''@'' (dotted CHR ''.'' area verb @ ''@'' @ n) = Some (dotted CHR ''.'' area verb, n)"
    by (simp add: split_once_char)
  moreover have "split_once ''.'' (dotted CHR ''.'' area verb) = (case verb of None \<Rightarrow> None | Some v \<Rightarrow> Some (area, v))"
    using cap_part_excludes [OF a] by (intro split_once_dotted) simp
  ultimately show ?thesis
    by (cases verb) (simp_all add: capability_to_manifest_def manifest_text_def dotted_def Let_def)
qed

lemma of_manifest_text:
  assumes ok: "cap_ok area verb n" and l: "length (''cap-'' @ dotted CHR ''-'' area verb) \<le> CAPABILITY_NAME_MAX"
  shows "manifest_to_capability (manifest_text area verb n) = Inr (token_text area verb n)"
proof -
  have a: "capability_part area" and v: "none_or capability_part verb" using ok by (simp_all add: cap_ok_def)
  have "CHR ''/'' \<notin> set (dotted CHR ''-'' area verb)" using cap_part_excludes [OF a] v cap_part_excludes
    by (cases verb) (simp_all add: dotted_def)
  then have "split_once ''/v'' (manifest_text area verb n) = Some (''cap-'' @ dotted CHR ''-'' area verb, n)"
    using split_once_absent [of "''/v''" "''cap-'' @ dotted CHR ''-'' area verb" n]
    by (simp add: manifest_text_def del: split_once.simps)
  moreover have "strip_prefix ''cap-'' (''cap-'' @ dotted CHR ''-'' area verb) = Some (dotted CHR ''-'' area verb)"
    by (rule strip_prefix_append)
  moreover have "split_on CHR ''-'' (dotted CHR ''-'' area verb) = area # (case verb of None \<Rightarrow> [] | Some v \<Rightarrow> [v])"
    using cap_part_excludes [OF a] v cap_part_excludes by (intro split_dotted) (cases verb, simp_all)+
  moreover have "capability_to_manifest (token_text area verb n) = Inr (manifest_text area verb n)"
    using to_manifest_token [OF ok] l by simp
  ultimately show ?thesis using ok l
    by (cases verb) (simp_all add: manifest_to_capability_def cap_ok_def token_text_def dotted_def)
qed

lemma manifest_checks_back: "manifest_to_capability m = Inr t \<Longrightarrow> capability_to_manifest t = Inr m"
proof -
  assume m: "manifest_to_capability m = Inr t"
  obtain name n where s: "split_once ''/v'' m = Some (name, n)"
    using m by (auto simp: manifest_to_capability_def bind_res_eq_Inr)
  obtain body where b: "strip_prefix ''cap-'' name = Some body"
    using m by (auto simp: manifest_to_capability_def s bind_res_eq_Inr)
  obtain area rest where r: "split_on CHR ''-'' body = area # rest" by (rule split_on_cases)
  show ?thesis using m
    by (simp add: manifest_to_capability_def s b r Let_def del: split_once.simps split: if_splits) (elim conjE, simp only:)
qed

lemma capability_inverse: "capability_to_manifest t = Inr m \<longleftrightarrow> manifest_to_capability m = Inr t"
proof
  assume c: "capability_to_manifest t = Inr m"
  then have "capability_token t" by (auto simp: capability_to_manifest_def split: if_splits)
  then obtain area verb n where t: "t = token_text area verb n" and ok: "cap_ok area verb n"
    by (auto simp: capability_token_iff)
  then have "length (''cap-'' @ dotted CHR ''-'' area verb) \<le> CAPABILITY_NAME_MAX" "m = manifest_text area verb n"
    using c to_manifest_token [OF ok] by (simp_all split: if_splits)
  then show "manifest_to_capability m = Inr t" using of_manifest_text [OF ok] t by simp
qed (rule manifest_checks_back)

section \<open>Properties\<close>

text \<open>The two spellings of a capability are inverse to each other: a token has the manifest
  spelling \<open>m\<close> exactly when \<open>m\<close> reads back as that token.\<close>

theorem capability_roundtrip: "capability_to_manifest t = Inr m \<longleftrightarrow> manifest_to_capability m = Inr t"
  by (rule capability_inverse)

text \<open>A string is a capability token exactly when it is \<open>cap/area@n\<close> or
  \<open>cap/area.verb@n\<close> with well-formed parts and a major version without leading zero, and a
  token is refused a manifest spelling only as too long, exactly beyond the bound on its name.\<close>

theorem capability_token_manifest:
  "(capability_token t \<longleftrightarrow> (\<exists>area verb n. t = token_text area verb n \<and> cap_ok area verb n))
   \<and> (capability_to_manifest t = Inl TokenTooLong \<longleftrightarrow>
       (\<exists>area verb n. t = token_text area verb n \<and> cap_ok area verb n
          \<and> length (dotted CHR ''-'' area verb) + 4 > CAPABILITY_NAME_MAX))"
proof -
  have t: "capability_token t" if "capability_to_manifest t = Inl TokenTooLong"
    using that by (auto simp: capability_to_manifest_def split: if_splits)
  have "capability_to_manifest t = Inl TokenTooLong \<longleftrightarrow> (\<exists>area verb n. t = token_text area verb n \<and> cap_ok area verb n
          \<and> length (dotted CHR ''-'' area verb) + 4 > CAPABILITY_NAME_MAX)" (is "?l \<longleftrightarrow> ?r")
  proof
    assume l: ?l
    then obtain area verb n where "t = token_text area verb n" "cap_ok area verb n"
      using t by (auto simp: capability_token_iff)
    moreover from this have "length (dotted CHR ''-'' area verb) + 4 > CAPABILITY_NAME_MAX"
      using l to_manifest_token [of area verb n] by (simp split: if_splits)
    ultimately show ?r by blast
  next
    assume ?r
    then show ?l using to_manifest_token by auto
  qed
  then show ?thesis using capability_token_iff by blast
qed

end
