(* ===== verification/Status.thy ===== *)
theory Status
  imports Names
begin

text \<open>
  Registry statuses (\<open>crates/entorhinal-catalog/src/status.rs\<close>): the states of a version, the
  verification of a status record against a chain of registry keys, the comparison with the
  record already held, the feed of a client and the selection of a feed by the registry.
\<close>

datatype state = Available | Withdrawn | Tombstoned | Revoked

fun permits :: "state \<Rightarrow> state \<Rightarrow> bool" where
  "permits Available next = True"
| "permits Withdrawn next = True"
| "permits Revoked next = (next = Revoked \<or> next = Tombstoned)"
| "permits Tombstoned next = (next = Tombstoned)"

definition state_names :: "(string \<times> state) list" where
  "state_names = [(''available'', Available), (''withdrawn'', Withdrawn), (''tombstoned'', Tombstoned),
     (''revoked'', Revoked)]"

definition state_of_json :: "json \<Rightarrow> state option" where
  "state_of_json v = of_enum state_names v"

record status_record =
  sr_schema :: string
  sr_registry_key_id :: string
  sr_name :: string
  sr_version :: string
  sr_archive_sha256 :: string
  sr_publisher_key :: string
  sr_sequence :: nat
  sr_state :: state
  sr_reason :: "string option"
  sr_compromise_from :: "string option"
  sr_published_at :: string
  sr_changed_at :: string

record pin =
  pin_name :: string
  pin_version :: string
  pin_archive_sha256 :: string

record status_key =
  sk_key_id :: string
  sk_public_key :: string
  sk_valid_from :: "string option"

record held_status =
  h_record :: status_record
  h_canonical :: string
  h_signer_index :: nat
  h_bundle_attested :: bool

section \<open>Parsing a status record\<close>

definition status_fields :: "string list" where
  "status_fields = [''schema'', ''registry_key_id'', ''name'', ''version'', ''archive_sha256'', ''publisher_key'',
     ''sequence'', ''state'', ''reason'', ''compromise_from'', ''published_at'', ''changed_at'']"

text \<open>The derived deserializer of \<open>StatusRecord\<close>, which denies unknown fields.\<close>

definition status_of_json :: "json \<Rightarrow> status_record option" where
  "status_of_json v =
    (if \<not> known_fields status_fields v then None
     else case (str_field v ''schema'', str_field v ''registry_key_id'', str_field v ''name'', str_field v ''version'',
        str_field v ''archive_sha256'', str_field v ''publisher_key'', u64_field v ''sequence'',
        (case jget v ''state'' of None \<Rightarrow> None | Some x \<Rightarrow> state_of_json x), opt_str_field v ''reason'',
        opt_str_field v ''compromise_from'', str_field v ''published_at'', str_field v ''changed_at'') of
       (Some schema, Some key, Some name, Some version, Some arch, Some pub, Some seq, Some st, Some reason,
        Some compromise, Some published, Some changed) \<Rightarrow>
         Some \<lparr>sr_schema = schema, sr_registry_key_id = key, sr_name = name, sr_version = version,
           sr_archive_sha256 = arch, sr_publisher_key = pub, sr_sequence = seq, sr_state = st, sr_reason = reason,
           sr_compromise_from = compromise, sr_published_at = published, sr_changed_at = changed\<rparr>
     | _ \<Rightarrow> None)"

definition status_invalid :: "string \<Rightarrow> refusal" where
  "status_invalid f = refusal_at StatusInvalid f"

definition reason_bad :: "state \<Rightarrow> json \<Rightarrow> bool" where
  "reason_bad st reason =
    (if st = Available then \<not> (reason = JNull \<or> is_some (as_str reason))
     else \<not> some_and (\<lambda>s. s \<noteq> []) (as_str reason))"

definition compromise_bad :: "state \<Rightarrow> json \<Rightarrow> bool" where
  "compromise_bad st from =
    (if st = Revoked then \<not> some_and is_time (as_str from) else from \<noteq> JNull)"

definition parse_status :: "ext \<Rightarrow> string \<Rightarrow> refusal + (status_record \<times> string)" where
  "parse_status E text =
    bind_res (shape E text ''ck-status/v1'' status_fields [] StatusInvalid) (\<lambda>s.
    bind_res (ok_or (state_of_json (jidx s ''state'')) (status_invalid ''state'')) (\<lambda>st.
    bind_res (ok_or (positive (jidx s ''sequence'')) (status_invalid ''sequence'')) (\<lambda>seq.
      if reason_bad st (jidx s ''reason'') then Inl (status_invalid ''reason'')
      else if compromise_bad st (jidx s ''compromise_from'') then Inl (status_invalid ''compromise_from'')
      else bind_res (each_ok (\<lambda>f. refuse_unless (some_and is_time (as_str (jidx s f))) (status_invalid f))
                [''published_at'', ''changed_at'']) (\<lambda>_.
        if \<not> list_all (\<lambda>f. some_and (\<lambda>x. is_hex x 64) (as_str (jidx s f))) [''archive_sha256'', ''publisher_key'']
        then Inl (status_invalid ''digest'')
        else if \<not> some_and (\<lambda>x. x \<noteq> []) (as_str (jidx s ''registry_key_id'')) then Inl (status_invalid ''registry_key_id'')
        else if \<not> some_and (canonical E) (as_str (jidx s ''name'')) then Inl (status_invalid ''name'')
        else if \<not> some_and (\<lambda>x. is_ok (parse_version x)) (as_str (jidx s ''version'')) then Inl (status_invalid ''version'')
        else bind_res (map_err (\<lambda>_. status_invalid ''json'') (to_canonical E s)) (\<lambda>text'.
          bind_res (ok_or (status_of_json (jset s ''sequence'' (JNum (PosInt seq)))) (status_invalid ''json'')) (\<lambda>r.
            Inr (r, text')))))))"

section \<open>Holding, restoring and applying\<close>

definition from_bundle :: "ext \<Rightarrow> string \<Rightarrow> refusal + held_status" where
  "from_bundle E text = bind_res (parse_status E text) (\<lambda>(r, c).
     Inr \<lparr>h_record = r, h_canonical = c, h_signer_index = 0, h_bundle_attested = True\<rparr>)"

definition restore :: "ext \<Rightarrow> string \<Rightarrow> string \<Rightarrow> status_key list \<Rightarrow> nat \<Rightarrow> refusal + held_status" where
  "restore E text signature chain signer_index =
    bind_res (parse_status E text) (\<lambda>(r, c).
      if \<not> (signer_index < length chain \<and> sk_key_id (chain ! signer_index) = sr_registry_key_id r)
      then Inl (refusal_new KeyUnknown)
      else
        (let k = chain ! signer_index in
         if \<not> verify_signature E (sk_public_key k) ''ck-status/v1'' c signature then Inl (refusal_new SignatureInvalid)
         else if some_and (\<lambda>t0. sr_changed_at r < t0) (sk_valid_from k) then Inl (refusal_new KeyNotValid)
         else Inr \<lparr>h_record = r, h_canonical = c, h_signer_index = signer_index, h_bundle_attested = False\<rparr>))"

datatype apply_kind = Applied | Duplicate

record applied_status =
  ap_result :: apply_kind
  ap_held :: held_status

definition status_compare :: "held_status option \<Rightarrow> held_status \<Rightarrow> refusal + apply_kind" where
  "status_compare held next =
    (case held of None \<Rightarrow> Inr Applied
     | Some prior \<Rightarrow>
       (let s = h_record next; p = h_record prior in
        if sr_sequence s < sr_sequence p then Inl (refusal_rollback LowerSequence)
        else if sr_sequence s = sr_sequence p then
          (if h_canonical next = h_canonical prior then Inr Duplicate
           else Inl (refusal_rollback SameSequenceOtherBytes))
        else if sr_changed_at s < sr_changed_at p then Inl (refusal_rollback ChangedAtRegressed)
        else if h_bundle_attested next then Inl (refusal_rollback KeyEpochRegressed)
        else if \<not> h_bundle_attested prior \<and> h_signer_index next < h_signer_index prior
          then Inl (refusal_rollback KeyEpochRegressed)
        else if \<not> permits (sr_state p) (sr_state s) then Inl (refusal_new StatusTerminal)
        else Inr Applied))"

fun position :: "('a \<Rightarrow> bool) \<Rightarrow> 'a list \<Rightarrow> nat option" where
  "position p [] = None"
| "position p (x # xs) = (if p x then Some 0 else map_option Suc (position p xs))"

text \<open>\<open>Iterator::min\<close>\<close>

definition iter_min :: "string list \<Rightarrow> string option" where
  "iter_min xs = (if xs = [] then None else Some (Min (set xs)))"

definition apply_status ::
  "ext \<Rightarrow> held_status option \<Rightarrow> string \<Rightarrow> string \<Rightarrow> status_key list \<Rightarrow> pin \<Rightarrow> refusal + applied_status" where
  "apply_status E held text sig chain pin =
    bind_res (parse_status E text) (\<lambda>(s, c).
    bind_res (ok_or (position (\<lambda>k. sk_key_id k = sr_registry_key_id s) chain) (refusal_new KeyUnknown)) (\<lambda>index.
      if \<not> verify_signature E (sk_public_key (chain ! index)) ''ck-status/v1'' c sig
      then Inl (refusal_new SignatureInvalid)
      else
        (let retirement = iter_min (List.map_filter sk_valid_from (drop (index + 1) chain)) in
         if some_and (\<lambda>t0. sr_changed_at s < t0) (sk_valid_from (chain ! index)) then Inl (refusal_new KeyNotValid)
         else if some_and (\<lambda>t0. t0 \<le> sr_changed_at s) retirement then Inl (refusal_new KeyNotValid)
         else if sr_name s \<noteq> pin_name pin \<or> sr_version s \<noteq> pin_version pin
             \<or> sr_archive_sha256 s \<noteq> pin_archive_sha256 pin then Inl (refusal_new RecordMismatch)
         else
           (let next = \<lparr>h_record = s, h_canonical = c, h_signer_index = index, h_bundle_attested = False\<rparr> in
            bind_res (status_compare held next) (\<lambda>result.
              Inr \<lparr>ap_result = result,
                ap_held = (if result = Duplicate \<and> some_and (\<lambda>h. \<not> h_bundle_attested h) held
                  then (case held of Some h \<Rightarrow> h | None \<Rightarrow> next) else next)\<rparr>)))))"

definition revoked_at :: "string option \<Rightarrow> string \<Rightarrow> bool" where
  "revoked_at published_at compromise_from = none_or (\<lambda>t0. compromise_from \<le> t0) published_at"

section \<open>The effect of a state\<close>

record status_effect =
  ef_kind :: kind
  ef_state :: state
  ef_user_notice :: string
  ef_resolution :: string
  ef_exact_fetch :: string
  ef_activation :: string
  ef_running :: string
  ef_core_flow_revocation :: bool
  ef_scripts_may_start :: "bool option"

definition effect :: "kind \<Rightarrow> state \<Rightarrow> status_effect" where
  "effect k st =
    (let blocked = (st = Tombstoned \<or> st = Revoked) in
     \<lparr>ef_kind = k, ef_state = st,
      ef_user_notice = (if st = Available then ''none'' else if blocked then ''blocking'' else ''notice''),
      ef_resolution = (if st = Available then ''eligible'' else ''skipped''),
      ef_exact_fetch = (if st = Tombstoned then ''gone'' else ''allowed''),
      ef_activation = (if blocked then ''blocked'' else ''allowed''),
      ef_running = (if \<not> blocked then ''continues'' else if k = Flow then ''runs_stop_at_next_activation''
        else ''sessions_get_blocking_notice''),
      ef_core_flow_revocation = (blocked \<and> k = Flow),
      ef_scripts_may_start = (if k = Skill then Some (\<not> blocked) else None)\<rparr>)"

section \<open>The feed of a client\<close>

record feed_state =
  fs_feed_seq :: "nat option"
  fs_held :: "(string \<times> held_status) list"

datatype feed_mode = Full | After

datatype next_step = FeedDone | FetchFullFeed

record feed_record =
  fr_id :: string
  fr_record_text :: string
  fr_signature :: string

datatype feed_reply = Unavailable | Records nat "feed_record list"

record feed_outcome =
  fo_refusal :: "refusal option"
  fo_records :: "(string \<times> (refusal + apply_kind)) list"
  fo_next_state :: feed_state
  fo_next_step :: next_step

definition feed_fallback :: "feed_mode \<Rightarrow> next_step" where
  "feed_fallback mode = (if mode = After then FetchFullFeed else FeedDone)"

definition version_key :: "string \<Rightarrow> string \<Rightarrow> string" where
  "version_key name version = name @ ''@'' @ version"

text \<open>One record of a feed: the result, and the holds with an accepted record in them.\<close>

definition apply_record ::
  "ext \<Rightarrow> status_key list \<Rightarrow> (string \<times> pin) list \<Rightarrow> (string \<times> held_status) list \<Rightarrow> feed_record
    \<Rightarrow> (refusal + apply_kind) \<times> (string \<times> held_status) list" where
  "apply_record E chain pins held r =
    (case parse_status E (fr_record_text r) of Inl e \<Rightarrow> (Inl e, held)
     | Inr (s, _) \<Rightarrow>
       (let k = version_key (sr_name s) (sr_version s) in
        case bt_get pins k of None \<Rightarrow> (Inl (refusal_new RecordMismatch), held)
        | Some pin \<Rightarrow>
          (case apply_status E (bt_get held k) (fr_record_text r) (fr_signature r) chain pin of
             Inl e \<Rightarrow> (Inl e, held)
           | Inr a \<Rightarrow> (Inr (ap_result a), bt_insert k (ap_held a) held))))"

fun apply_records ::
  "ext \<Rightarrow> status_key list \<Rightarrow> (string \<times> pin) list \<Rightarrow> (string \<times> held_status) list \<Rightarrow> feed_record list
    \<Rightarrow> (string \<times> (refusal + apply_kind)) list \<times> (string \<times> held_status) list" where
  "apply_records E chain pins held [] = ([], held)"
| "apply_records E chain pins held (r # rs) =
    (let (x, held') = apply_record E chain pins held r;
         (xs, held'') = apply_records E chain pins held' rs in ((fr_id r, x) # xs, held''))"

definition is_rollback :: "refusal + apply_kind \<Rightarrow> bool" where
  "is_rollback r = (case r of Inl e \<Rightarrow> ref_code e = FeedRollback | Inr _ \<Rightarrow> False)"

definition apply_feed ::
  "ext \<Rightarrow> feed_state \<Rightarrow> feed_mode \<Rightarrow> feed_reply \<Rightarrow> status_key list \<Rightarrow> (string \<times> pin) list \<Rightarrow> feed_outcome" where
  "apply_feed E st mode reply chain pins =
    (case reply of
       Unavailable \<Rightarrow> \<lparr>fo_refusal = Some (refusal_new FeedAfterUnavailable), fo_records = [],
         fo_next_state = st, fo_next_step = feed_fallback mode\<rparr>
     | Records seq records \<Rightarrow>
       if some_and (\<lambda>n. seq < n) (fs_feed_seq st) then
         \<lparr>fo_refusal = Some (refusal_at FeedRollback ''feed_seq''), fo_records = [],
          fo_next_state = st, fo_next_step = feed_fallback mode\<rparr>
       else
         (let (results, held) = apply_records E chain pins (fs_held st) records;
              next = st\<lparr>fs_held := held\<rparr>;
              rollback = list_ex (\<lambda>p. is_rollback (snd p)) results;
              next' = (if list_all (\<lambda>p. is_ok (snd p)) results then next\<lparr>fs_feed_seq := Some seq\<rparr> else next) in
          \<lparr>fo_refusal = (if rollback then Some (refusal_at FeedRollback ''record'') else None),
           fo_records = results, fo_next_state = next',
           fo_next_step = (if rollback then feed_fallback mode else FeedDone)\<rparr>))"

section \<open>The feed of the registry\<close>

record feed_write =
  fw_feed_seq :: nat
  fw_id :: string
  fw_record :: status_record

record feed_item =
  fi_feed_seq :: nat
  fi_id :: string

record feed_view =
  fv_feed_seq :: nat
  fv_records :: "feed_item list"

definition fw_key :: "feed_write \<Rightarrow> string \<times> string" where
  "fw_key w = (sr_name (fw_record w), sr_version (fw_record w))"

fun latest_writes :: "((string \<times> string) \<times> feed_write) list \<Rightarrow> feed_write list \<Rightarrow> ((string \<times> string) \<times> feed_write) list" where
  "latest_writes m [] = m"
| "latest_writes m (w # ws) =
    latest_writes (if none_or (\<lambda>prior. fw_feed_seq prior < fw_feed_seq w) (bt_get m (fw_key w))
      then bt_insert (fw_key w) w m else m) ws"

definition select_feed :: "feed_write list \<Rightarrow> nat \<Rightarrow> nat option \<Rightarrow> refusal + feed_view" where
  "select_feed wlog oldest after =
    (let current = fold max (map fw_feed_seq wlog) 0 in
     if some_and (\<lambda>n. current < n \<or> n < oldest) after then Inl (refusal_new FeedAfterUnavailable)
     else
       (let latest = latest_writes [] wlog;
            records = map (\<lambda>w. \<lparr>fi_feed_seq = fw_feed_seq w, fi_id = fw_id w\<rparr>)
              (filter (\<lambda>w. (case after of Some n \<Rightarrow> n | None \<Rightarrow> 0) < fw_feed_seq w) (map snd latest)) in
        Inr \<lparr>fv_feed_seq = current, fv_records = sort_key fi_feed_seq records\<rparr>))"

section \<open>What is accepted\<close>

lemma position_Some: "position p xs = Some i \<longleftrightarrow> i < length xs \<and> p (xs ! i) \<and> (\<forall>j < i. \<not> p (xs ! j))"
proof (induction xs arbitrary: i)
  case (Cons x xs)
  show ?case
  proof (cases i)
    case 0
    then show ?thesis by simp
  next
    case (Suc k)
    have "(\<forall>j < Suc k. \<not> p ((x # xs) ! j)) \<longleftrightarrow> \<not> p x \<and> (\<forall>j < k. \<not> p (xs ! j))"
      by (simp add: All_less_Suc2)
    then show ?thesis using Suc Cons.IH [of k] by auto
  qed
qed simp

lemma position_append: "position p xs = Some i \<Longrightarrow> position p (xs @ ys) = Some i"
  by (induction xs arbitrary: i) (auto split: if_splits)

text \<open>What \<open>apply_status\<close> checks of a record, its canonical text and the signing key.\<close>

definition status_signed :: "ext \<Rightarrow> status_record \<Rightarrow> string \<Rightarrow> string \<Rightarrow> status_key \<Rightarrow> bool" where
  "status_signed E s c sig k \<longleftrightarrow> sk_key_id k = sr_registry_key_id s
     \<and> verify_signature E (sk_public_key k) ''ck-status/v1'' c sig \<and> none_or (\<lambda>t0. t0 \<le> sr_changed_at s) (sk_valid_from k)"

definition not_retired :: "status_key list \<Rightarrow> nat \<Rightarrow> string \<Rightarrow> bool" where
  "not_retired chain i at_time \<longleftrightarrow> (\<forall>k \<in> set (drop (i + 1) chain). none_or (\<lambda>t0. at_time < t0) (sk_valid_from k))"

definition matches_pin :: "pin \<Rightarrow> status_record \<Rightarrow> bool" where
  "matches_pin p s \<longleftrightarrow> sr_name s = pin_name p \<and> sr_version s = pin_version p \<and> sr_archive_sha256 s = pin_archive_sha256 p"

lemma retirement_iff:
  "\<not> some_and (\<lambda>t0. t0 \<le> t) (iter_min (List.map_filter f ks)) \<longleftrightarrow> (\<forall>k \<in> set ks. none_or (\<lambda>t0. t < t0) (f k))"
proof -
  have s: "set (List.map_filter f ks) = {x. \<exists>k \<in> set ks. f k = Some x}"
    by (force simp: map_filter_def)
  show ?thesis
  proof (cases "List.map_filter f ks = []")
    case True
    then have e: "{x. \<exists>k \<in> set ks. f k = Some x} = {}" using s by simp
    have "\<forall>k \<in> set ks. f k = None"
    proof
      fix k assume "k \<in> set ks"
      then show "f k = None" using e by (cases "f k") blast+
    qed
    then show ?thesis using True by (simp add: iter_min_def)
  next
    case False
    then have "\<not> Min (set (List.map_filter f ks)) \<le> t \<longleftrightarrow> (\<forall>x \<in> set (List.map_filter f ks). t < x)"
      by (simp add: not_le)
    also have "\<dots> \<longleftrightarrow> (\<forall>k \<in> set ks. none_or (\<lambda>t0. t < t0) (f k))"
      by (auto simp: s none_or_def split: option.splits)
    finally show ?thesis using False by (simp add: iter_min_def)
  qed
qed

lemma not_before_iff: "\<not> some_and (\<lambda>t0. t < t0) x \<longleftrightarrow> none_or (\<lambda>t0. t0 \<le> t) (x :: string option)"
  by (cases x) auto

text \<open>The hold of a newly verified record.\<close>

definition registry_hold :: "status_record \<Rightarrow> string \<Rightarrow> nat \<Rightarrow> held_status" where
  "registry_hold s c i = \<lparr>h_record = s, h_canonical = c, h_signer_index = i, h_bundle_attested = False\<rparr>"

lemma apply_status_Inr:
  "apply_status E held text sig chain p = Inr a \<longleftrightarrow>
    (\<exists>s c i. parse_status E text = Inr (s, c) \<and> position (\<lambda>k. sk_key_id k = sr_registry_key_id s) chain = Some i
      \<and> status_signed E s c sig (chain ! i) \<and> not_retired chain i (sr_changed_at s) \<and> matches_pin p s
      \<and> status_compare held (registry_hold s c i) = Inr (ap_result a)
      \<and> ap_held a = (if ap_result a = Duplicate \<and> some_and (\<lambda>h. \<not> h_bundle_attested h) held
          then the held else registry_hold s c i))" (is "?l = ?r")
proof
  assume l: ?l
  obtain s c where p: "parse_status E text = Inr (s, c)"
    using l by (auto simp: apply_status_def bind_res_eq_Inr)
  obtain i where i: "position (\<lambda>k. sk_key_id k = sr_registry_key_id s) chain = Some i"
    using l by (auto simp: apply_status_def p bind_res_eq_Inr)
  obtain r where r: "status_compare held (registry_hold s c i) = Inr r"
    using l by (auto simp: apply_status_def p i registry_hold_def bind_res_eq_Inr Let_def split: if_splits)
  have k: "sk_key_id (chain ! i) = sr_registry_key_id s" using i by (simp add: position_Some)
  have a: "a = \<lparr>ap_result = r, ap_held = (if r = Duplicate \<and> some_and (\<lambda>h. \<not> h_bundle_attested h) held
       then (case held of Some h \<Rightarrow> h | None \<Rightarrow> registry_hold s c i) else registry_hold s c i)\<rparr>"
    and c: "verify_signature E (sk_public_key (chain ! i)) ''ck-status/v1'' c sig"
      "\<not> some_and (\<lambda>t0. sr_changed_at s < t0) (sk_valid_from (chain ! i))"
      "\<not> some_and (\<lambda>t0. t0 \<le> sr_changed_at s) (iter_min (List.map_filter sk_valid_from (drop (i + 1) chain)))"
      "matches_pin p s"
    using l r unfolding apply_status_def registry_hold_def [symmetric]
    by (auto simp: p i matches_pin_def Let_def split: if_splits)
  have "status_signed E s c sig (chain ! i)" "not_retired chain i (sr_changed_at s)"
    using c k by (simp_all add: status_signed_def not_retired_def not_before_iff retirement_iff)
  then show ?r using p i r a c by (cases held) auto
next
  assume ?r
  then obtain s c i where p: "parse_status E text = Inr (s, c)"
    and i: "position (\<lambda>k. sk_key_id k = sr_registry_key_id s) chain = Some i"
    and c: "status_signed E s c sig (chain ! i)" "not_retired chain i (sr_changed_at s)" "matches_pin p s"
    and r: "status_compare held (registry_hold s c i) = Inr (ap_result a)"
    and h: "ap_held a = (if ap_result a = Duplicate \<and> some_and (\<lambda>h. \<not> h_bundle_attested h) held
          then the held else registry_hold s c i)" by blast
  have "a = \<lparr>ap_result = ap_result a, ap_held = ap_held a\<rparr>" by simp
  moreover have "\<not> some_and (\<lambda>t0. sr_changed_at s < t0) (sk_valid_from (chain ! i))"
      "\<not> some_and (\<lambda>t0. t0 \<le> sr_changed_at s) (iter_min (List.map_filter sk_valid_from (drop (i + 1) chain)))"
    using c by (simp_all add: status_signed_def not_retired_def not_before_iff retirement_iff)
  ultimately show ?l using c r h unfolding apply_status_def
    by (cases held) (simp_all add: p i registry_hold_def matches_pin_def status_signed_def Let_def)
qed

section \<open>The order of holds\<close>

lemma permits_refl: "permits s s"
  by (cases s) auto

lemma permits_trans: "permits a b \<Longrightarrow> permits b c \<Longrightarrow> permits a c"
  by (cases a; cases b) auto

definition hold_le :: "held_status \<Rightarrow> held_status \<Rightarrow> bool" where
  "hold_le h h' \<longleftrightarrow> h' = h \<or> (sr_sequence (h_record h) < sr_sequence (h_record h')
     \<and> sr_changed_at (h_record h) \<le> sr_changed_at (h_record h') \<and> h_signer_index h \<le> h_signer_index h'
     \<and> permits (sr_state (h_record h)) (sr_state (h_record h')) \<and> \<not> h_bundle_attested h')"

lemma hold_le_trans: "hold_le a b \<Longrightarrow> hold_le b c \<Longrightarrow> hold_le a c"
  unfolding hold_le_def using permits_trans by (auto intro: less_trans order_trans)

lemma status_compare_Applied:
  "status_compare (Some h) n = Inr Applied \<longleftrightarrow> sr_sequence (h_record h) < sr_sequence (h_record n)
     \<and> sr_changed_at (h_record h) \<le> sr_changed_at (h_record n) \<and> \<not> h_bundle_attested n
     \<and> (h_bundle_attested h \<or> h_signer_index h \<le> h_signer_index n)
     \<and> permits (sr_state (h_record h)) (sr_state (h_record n))"
  by (auto simp: status_compare_def Let_def not_less)

lemma status_compare_Duplicate:
  "status_compare held n = Inr Duplicate \<longleftrightarrow> (\<exists>h. held = Some h \<and> sr_sequence (h_record h) = sr_sequence (h_record n)
     \<and> h_canonical h = h_canonical n)"
  by (cases held) (auto simp: status_compare_def Let_def)

lemma apply_status_le:
  assumes "apply_status E (Some h) text sig chain p = Inr a" and b: "\<not> h_bundle_attested h"
  shows "hold_le h (ap_held a) \<and> \<not> h_bundle_attested (ap_held a)"
proof -
  obtain s c i where r: "status_compare (Some h) (registry_hold s c i) = Inr (ap_result a)"
    and h: "ap_held a = (if ap_result a = Duplicate \<and> some_and (\<lambda>h. \<not> h_bundle_attested h) (Some h)
          then the (Some h) else registry_hold s c i)" using assms(1) by (auto simp: apply_status_Inr)
  show ?thesis
  proof (cases "ap_result a")
    case Applied
    then show ?thesis using r h b by (simp add: status_compare_Applied hold_le_def registry_hold_def)
  next
    case Duplicate
    then show ?thesis using h b by (simp add: hold_le_def)
  qed
qed

section \<open>Reachable holds\<close>

inductive status_step :: "ext \<Rightarrow> pin \<Rightarrow> held_status \<Rightarrow> held_status \<Rightarrow> bool" for E p where
  call: "apply_status E (Some h) text sig chain p = Inr a \<Longrightarrow> status_step E p h (ap_held a)"

inductive_cases status_stepE: "status_step E p h h'"

lemma status_steps_le:
  "(status_step E p)\<^sup>*\<^sup>* h h' \<Longrightarrow> \<not> h_bundle_attested h \<Longrightarrow> hold_le h h' \<and> \<not> h_bundle_attested h'"
proof (induction rule: rtranclp_induct)
  case base
  then show ?case by (simp add: hold_le_def)
next
  case (step y z)
  then have y: "hold_le h y" "\<not> h_bundle_attested y" by auto
  from step(2) obtain t sig chain a where "apply_status E (Some y) t sig chain p = Inr a" "z = ap_held a"
    by (elim status_stepE)
  then show ?case using apply_status_le y hold_le_trans by metis
qed

section \<open>Feeds\<close>

text \<open>What may follow a hold: itself, a newer record, or, for a hold that only a bundle attested, the same canonical
  text taken from the registry and what follows that.\<close>

definition newer_hold :: "held_status \<Rightarrow> held_status \<Rightarrow> bool" where
  "newer_hold h h' \<longleftrightarrow> sr_sequence (h_record h) < sr_sequence (h_record h')
     \<and> sr_changed_at (h_record h) \<le> sr_changed_at (h_record h') \<and> (h_bundle_attested h \<or> h_signer_index h \<le> h_signer_index h')
     \<and> permits (sr_state (h_record h)) (sr_state (h_record h')) \<and> \<not> h_bundle_attested h'"

definition same_text :: "held_status \<Rightarrow> held_status \<Rightarrow> bool" where
  "same_text h h' \<longleftrightarrow> h_bundle_attested h \<and> h_canonical h' = h_canonical h \<and> sr_sequence (h_record h') = sr_sequence (h_record h)
     \<and> \<not> h_bundle_attested h'"

definition follows_hold :: "held_status \<Rightarrow> held_status \<Rightarrow> bool" where
  "follows_hold h h' \<longleftrightarrow> h' = h \<or> newer_hold h h' \<or> (\<exists>g. same_text h g \<and> (h' = g \<or> newer_hold g h'))"

lemma newer_hold_trans: "newer_hold a b \<Longrightarrow> newer_hold b c \<Longrightarrow> newer_hold a c"
  unfolding newer_hold_def using permits_trans by (auto intro: less_trans order_trans)

lemma follows_hold_trans: "follows_hold a b \<Longrightarrow> follows_hold b c \<Longrightarrow> follows_hold a c"
proof -
  assume ab: "follows_hold a b" and bc: "follows_hold b c"
  have "\<not> h_bundle_attested b" if "b \<noteq> a" using ab that by (auto simp: follows_hold_def newer_hold_def same_text_def)
  then have "b = a \<or> c = b \<or> newer_hold b c" using bc by (auto simp: follows_hold_def same_text_def)
  then show ?thesis
  proof (elim disjE)
    assume "newer_hold b c"
    then show ?thesis using ab newer_hold_trans unfolding follows_hold_def by blast
  qed (use ab bc in simp_all)
qed

lemma apply_status_follows:
  assumes "apply_status E (Some h) text sig chain p = Inr a"
  shows "follows_hold h (ap_held a)"
proof -
  obtain s c i where r: "status_compare (Some h) (registry_hold s c i) = Inr (ap_result a)"
    and h: "ap_held a = (if ap_result a = Duplicate \<and> some_and (\<lambda>h. \<not> h_bundle_attested h) (Some h)
          then the (Some h) else registry_hold s c i)" using assms(1) by (auto simp: apply_status_Inr)
  show ?thesis
  proof (cases "ap_result a")
    case Applied
    then have "newer_hold h (ap_held a)" using r h by (simp add: status_compare_Applied newer_hold_def registry_hold_def)
    then show ?thesis by (simp add: follows_hold_def)
  next
    case Duplicate
    then have "same_text h (registry_hold s c i) \<or> \<not> h_bundle_attested h"
      using r by (auto simp: status_compare_Duplicate same_text_def registry_hold_def)
    then show ?thesis using h Duplicate unfolding follows_hold_def by (auto simp: same_text_def)
  qed
qed

text \<open>Each key that had a hold has one that follows it.\<close>

definition holds_le :: "(string \<times> held_status) list \<Rightarrow> (string \<times> held_status) list \<Rightarrow> bool" where
  "holds_le m m' \<longleftrightarrow> (\<forall>k h. bt_get m k = Some h \<longrightarrow> (\<exists>h'. bt_get m' k = Some h' \<and> follows_hold h h'))"

lemma holds_le_refl: "holds_le m m"
  by (simp add: holds_le_def follows_hold_def)

lemma holds_le_trans: "holds_le a b \<Longrightarrow> holds_le b c \<Longrightarrow> holds_le a c"
  unfolding holds_le_def using follows_hold_trans by meson


text \<open>The holds are an ordered map, filed under the name and version of their record.\<close>

definition holds_inv :: "(string \<times> held_status) list \<Rightarrow> bool" where
  "holds_inv m \<longleftrightarrow> bt_inv m \<and> (\<forall>k h. bt_get m k = Some h \<longrightarrow>
     k = version_key (sr_name (h_record h)) (sr_version (h_record h)))"

lemma apply_held_record:
  assumes "apply_status E held text sig chain p = Inr a" and "parse_status E text = Inr (s, c)"
  shows "held = Some (ap_held a) \<or> h_record (ap_held a) = s"
proof -
  obtain i where h: "ap_held a = (if ap_result a = Duplicate \<and> some_and (\<lambda>h. \<not> h_bundle_attested h) held
      then the held else registry_hold s c i)"
    using assms(1) unfolding apply_status_Inr assms(2) by blast
  show ?thesis
  proof (cases "ap_result a = Duplicate \<and> some_and (\<lambda>h. \<not> h_bundle_attested h) held")
    case True
    then show ?thesis using h by (cases held) simp_all
  next
    case False
    then have "ap_held a = registry_hold s c i" using h by (simp only: if_False)
    then show ?thesis by (simp add: registry_hold_def)
  qed
qed

lemma apply_record_props:
  assumes "apply_record E chain pins m r = (x, m')"
  shows "holds_le m m'" and "holds_inv m \<Longrightarrow> holds_inv m'" and "x = Inl e \<Longrightarrow> m' = m"
proof -
  consider (same) "m' = m"
    | (ok) s c p a where "parse_status E (fr_record_text r) = Inr (s, c)"
        "apply_status E (bt_get m (version_key (sr_name s) (sr_version s))) (fr_record_text r) (fr_signature r) chain p = Inr a"
        "m' = bt_insert (version_key (sr_name s) (sr_version s)) (ap_held a) m" "x = Inr (ap_result a)"
  proof (cases "parse_status E (fr_record_text r)")
    case (Inl e)
    then show ?thesis using assms same by (simp add: apply_record_def)
  next
    case (Inr sc)
    obtain s c where sc: "parse_status E (fr_record_text r) = Inr (s, c)" using Inr by (cases sc) simp
    show ?thesis
    proof (cases "bt_get pins (version_key (sr_name s) (sr_version s))")
      case None
      then show ?thesis using assms same by (simp add: apply_record_def sc)
    next
      case (Some p)
      show ?thesis
      proof (cases "apply_status E (bt_get m (version_key (sr_name s) (sr_version s))) (fr_record_text r) (fr_signature r) chain p")
        case (Inl e)
        then show ?thesis using assms same Some by (simp add: apply_record_def sc)
      next
        case (Inr a)
        then show ?thesis using assms Some by (intro ok [OF sc Inr]) (simp_all add: apply_record_def sc)
      qed
    qed
  qed
  note cases = this
  show "holds_le m m'"
  proof (cases rule: cases)
    case same
    then show ?thesis by (simp add: holds_le_refl)
  next
    case ok
    have "follows_hold h (ap_held a)"
      if "bt_get m (version_key (sr_name s) (sr_version s)) = Some h" for h
      using ok(2) that apply_status_follows by simp
    then show ?thesis unfolding ok(3) holds_le_def bt_get_insert
      by (auto simp: follows_hold_def)
  qed
  show "holds_inv m'" if "holds_inv m"
  proof (cases rule: cases)
    case same
    then show ?thesis using that by simp
  next
    case ok
    have "version_key (sr_name s) (sr_version s)
        = version_key (sr_name (h_record (ap_held a))) (sr_version (h_record (ap_held a)))"
      using apply_held_record [OF ok(2,1)] that by (auto simp: holds_inv_def)
    then show ?thesis using that unfolding ok(3) holds_inv_def bt_get_insert by (auto simp: bt_inv_insert)
  qed
  show "x = Inl e \<Longrightarrow> m' = m" using cases by cases simp_all
qed

lemma apply_records_props:
  "apply_records E chain pins m rs = (xs, m') \<Longrightarrow> holds_le m m' \<and> (holds_inv m \<longrightarrow> holds_inv m') \<and> map fst xs = map fr_id rs"
proof (induction rs arbitrary: m xs m')
  case Nil
  then show ?case by (simp add: holds_le_refl)
next
  case (Cons r rs)
  obtain x m1 where r: "apply_record E chain pins m r = (x, m1)" by (cases "apply_record E chain pins m r")
  obtain ys m2 where rs: "apply_records E chain pins m1 rs = (ys, m2)" by (cases "apply_records E chain pins m1 rs")
  have "m' = m2" "xs = (fr_id r, x) # ys" using Cons.prems by (simp_all add: r rs)
  then show ?case using Cons.IH [OF rs] apply_record_props [OF r] holds_le_trans by auto
qed

lemma apply_feed_records:
  assumes "apply_feed E st mode (Records seq rs) chain pins = out" and "none_or (\<lambda>n. n \<le> seq) (fs_feed_seq st)"
    and "apply_records E chain pins (fs_held st) rs = (xs, m')"
  shows "fs_held (fo_next_state out) = m'" "fo_records out = xs"
    "fs_feed_seq (fo_next_state out) = (if list_all (\<lambda>p. is_ok (snd p)) xs then Some seq else fs_feed_seq st)"
    "fo_refusal out = (if list_ex (\<lambda>p. is_rollback (snd p)) xs then Some (refusal_at FeedRollback ''record'') else None)"
  using assms by (auto simp: apply_feed_def Let_def none_or_def some_and_def split: option.splits)

lemma apply_feed_cases:
  obtains (refused) "fo_next_state (apply_feed E st mode reply chain pins) = st"
      "fo_records (apply_feed E st mode reply chain pins) = []"
      "fo_refusal (apply_feed E st mode reply chain pins) \<noteq> None"
  | (taken) seq rs xs m' where "reply = Records seq rs" "none_or (\<lambda>n. n \<le> seq) (fs_feed_seq st)"
      "apply_records E chain pins (fs_held st) rs = (xs, m')"
proof (cases reply)
  case Unavailable
  then show ?thesis using refused by (simp add: apply_feed_def)
next
  case (Records seq rs)
  obtain xs m' where m: "apply_records E chain pins (fs_held st) rs = (xs, m')" by fastforce
  show ?thesis
  proof (cases "some_and (\<lambda>n. seq < n) (fs_feed_seq st)")
    case True
    then show ?thesis using refused Records by (simp add: apply_feed_def)
  next
    case False
    then have "none_or (\<lambda>n. n \<le> seq) (fs_feed_seq st)" by (cases "fs_feed_seq st") auto
    then show ?thesis using taken Records m by blast
  qed
qed

section \<open>Concrete documents for the witnesses\<close>

definition demo_status :: "nat \<Rightarrow> string \<Rightarrow> raw \<Rightarrow> raw \<Rightarrow> string \<Rightarrow> raw" where
  "demo_status n st reason from changed = RMap
    [(''schema'', RStr ''ck-status/v1''), (''registry_key_id'', RStr ''key-1''), (''name'', RStr ''@acme/notes''),
     (''version'', RStr ''1.0.0''), (''archive_sha256'', RStr (replicate 64 CHR ''a'')),
     (''publisher_key'', RStr (replicate 64 CHR ''b'')), (''sequence'', RU64 n), (''state'', RStr st),
     (''reason'', reason), (''compromise_from'', from), (''published_at'', RStr ''2024-01-01T00:00:00Z''),
     (''changed_at'', RStr changed)]"

definition demo_texts :: "(string \<times> raw) list" where
  "demo_texts = [(''s1'', demo_status 1 ''available'' RNull RNull ''2024-01-01T00:00:00Z''),
     (''s2'', demo_status 2 ''revoked'' (RStr ''stolen key'') (RStr ''2023-12-01T00:00:00Z'') ''2024-02-01T00:00:00Z''),
     (''s3'', demo_status 3 ''available'' RNull RNull ''2024-03-01T00:00:00Z'')]"

definition demo_ext :: ext where
  "demo_ext = zero_ext\<lparr>x_parse := map_of demo_texts\<rparr>"

definition demo_chain :: "status_key list" where
  "demo_chain = [\<lparr>sk_key_id = ''key-1'', sk_public_key = replicate 64 CHR ''c'', sk_valid_from = None\<rparr>]"

definition demo_pin :: pin where
  "demo_pin = \<lparr>pin_name = ''@acme/notes'', pin_version = ''1.0.0'', pin_archive_sha256 = replicate 64 CHR ''a''\<rparr>"

definition demo_sig :: string where "demo_sig = replicate 128 CHR ''d''"

lemma demo_apply:
  "case apply_status demo_ext None ''s1'' demo_sig demo_chain demo_pin of Inl _ \<Rightarrow> False
   | Inr a \<Rightarrow> ap_result a = Applied \<and> sr_state (h_record (ap_held a)) = Available \<and> \<not> h_bundle_attested (ap_held a)
      \<and> (case apply_status demo_ext (Some (ap_held a)) ''s2'' demo_sig demo_chain demo_pin of Inl _ \<Rightarrow> False
         | Inr b \<Rightarrow> ap_result b = Applied \<and> sr_state (h_record (ap_held b)) = Revoked
            \<and> apply_status demo_ext (Some (ap_held b)) ''s3'' demo_sig demo_chain demo_pin = Inl (refusal_new StatusTerminal))"
  by code_simp

lemma demo_obtains:
  obtains a b where "apply_status demo_ext None ''s1'' demo_sig demo_chain demo_pin = Inr a" "ap_result a = Applied"
      "sr_state (h_record (ap_held a)) = Available" "\<not> h_bundle_attested (ap_held a)"
      "apply_status demo_ext (Some (ap_held a)) ''s2'' demo_sig demo_chain demo_pin = Inr b" "ap_result b = Applied"
      "sr_state (h_record (ap_held b)) = Revoked"
      "apply_status demo_ext (Some (ap_held b)) ''s3'' demo_sig demo_chain demo_pin = Inl (refusal_new StatusTerminal)"
  using demo_apply by (auto split: sum.splits)

text \<open>A feed of two records about one version: a revocation, and a later record that would undo it.\<close>

definition demo_key :: string where "demo_key = version_key ''@acme/notes'' ''1.0.0''"

definition demo_feed :: feed_reply where
  "demo_feed = Records 6 [\<lparr>fr_id = ''2'', fr_record_text = ''s2'', fr_signature = demo_sig\<rparr>,
     \<lparr>fr_id = ''3'', fr_record_text = ''s3'', fr_signature = demo_sig\<rparr>]"

lemma demo_parsed:
  "case parse_status demo_ext ''s1'' of Inl _ \<Rightarrow> False | Inr (s, c) \<Rightarrow> sr_name s = ''@acme/notes'' \<and> sr_version s = ''1.0.0''"
  "case parse_status demo_ext ''s2'' of Inl _ \<Rightarrow> False | Inr (s, c) \<Rightarrow> sr_name s = ''@acme/notes'' \<and> sr_version s = ''1.0.0''"
  "case parse_status demo_ext ''s3'' of Inl _ \<Rightarrow> False | Inr (s, c) \<Rightarrow> sr_name s = ''@acme/notes'' \<and> sr_version s = ''1.0.0''"
  by code_simp+

lemma demo_record:
  assumes "apply_status demo_ext (bt_get m demo_key) t sig demo_chain demo_pin = x" "t \<in> {''s2'', ''s3''}"
  shows "apply_record demo_ext demo_chain [(demo_key, demo_pin)] m \<lparr>fr_id = i, fr_record_text = t, fr_signature = sig\<rparr>
    = (case x of Inl e \<Rightarrow> (Inl e, m) | Inr a \<Rightarrow> (Inr (ap_result a), bt_insert demo_key (ap_held a) m))"
proof -
  obtain s c where p: "parse_status demo_ext t = Inr (s, c)" "sr_name s = ''@acme/notes'' \<and> sr_version s = ''1.0.0''"
    using demo_parsed assms(2) by (auto split: sum.splits)
  have "bt_get [(demo_key, demo_pin)] demo_key = Some demo_pin" by (simp add: bt_get_def)
  moreover have "version_key (sr_name s) (sr_version s) = demo_key" using p(2) by (simp add: demo_key_def)
  ultimately show ?thesis using assms(1) p(1) by (simp add: apply_record_def split: sum.split)
qed

lemma demo_feed_run:
  assumes "apply_status demo_ext (Some h) ''s2'' demo_sig demo_chain demo_pin = Inr b"
    and "apply_status demo_ext (Some (ap_held b)) ''s3'' demo_sig demo_chain demo_pin = Inl (refusal_new StatusTerminal)"
  shows "fo_next_state (apply_feed demo_ext \<lparr>fs_feed_seq = Some 5, fs_held = [(demo_key, h)]\<rparr> After demo_feed demo_chain [(demo_key, demo_pin)])
    = \<lparr>fs_feed_seq = Some 5, fs_held = [(demo_key, ap_held b)]\<rparr>"
proof -
  have g: "bt_get [(demo_key, x)] demo_key = Some x" "bt_insert demo_key y [(demo_key, x)] = [(demo_key, y)]" for x y :: held_status
    by (simp_all add: bt_get_def)
  have "apply_record demo_ext demo_chain [(demo_key, demo_pin)] [(demo_key, h)] \<lparr>fr_id = ''2'', fr_record_text = ''s2'', fr_signature = demo_sig\<rparr>
      = (Inr (ap_result b), [(demo_key, ap_held b)])"
    using demo_record [where m = "[(demo_key, h)]" and t = "''s2''" and sig = demo_sig and x = "Inr b"] assms(1) by (simp add: g)
  moreover have "apply_record demo_ext demo_chain [(demo_key, demo_pin)] [(demo_key, ap_held b)] \<lparr>fr_id = ''3'', fr_record_text = ''s3'', fr_signature = demo_sig\<rparr>
      = (Inl (refusal_new StatusTerminal), [(demo_key, ap_held b)])"
    using demo_record [where m = "[(demo_key, ap_held b)]" and t = "''s3''" and sig = demo_sig and x = "Inl (refusal_new StatusTerminal)"] assms(2) by (simp add: g)
  ultimately show ?thesis by (simp add: apply_feed_def demo_feed_def is_ok_def Let_def)
qed

section \<open>Properties\<close>

text \<open>C27. A status is taken only on the word of a registry key whose time it is: the record names
  a key of the chain, carries that key's signature over its canonical text, was changed no earlier
  than the key's start and before the start of every later key, and is about the pinned version.
  What is held afterwards is that record under that key, or the very hold it duplicates.\<close>

theorem apply_status_sound:
  assumes "apply_status E held text sig chain p = Inr a"
  shows "\<exists>s c i. parse_status E text = Inr (s, c) \<and> i < length chain \<and> status_signed E s c sig (chain ! i)
    \<and> not_retired chain i (sr_changed_at s) \<and> matches_pin p s
    \<and> (ap_held a = registry_hold s c i \<or> ap_result a = Duplicate \<and> held = Some (ap_held a))"
proof -
  obtain s c i where p: "parse_status E text = Inr (s, c)"
    and i: "position (\<lambda>k. sk_key_id k = sr_registry_key_id s) chain = Some i"
    and ok: "status_signed E s c sig (chain ! i)" "not_retired chain i (sr_changed_at s)" "matches_pin p s"
    and h: "ap_held a = (if ap_result a = Duplicate \<and> some_and (\<lambda>h. \<not> h_bundle_attested h) held
          then the held else registry_hold s c i)"
    using assms unfolding apply_status_Inr by blast
  have "ap_held a = registry_hold s c i \<or> ap_result a = Duplicate \<and> held = Some (ap_held a)"
    using h by (cases held) (auto split: if_splits)
  then show ?thesis using p i ok position_Some by blast
qed

lemma apply_status_sound_witness:
  "\<exists>a s c. apply_status demo_ext None ''s1'' demo_sig demo_chain demo_pin = Inr a \<and> parse_status demo_ext ''s1'' = Inr (s, c)
     \<and> matches_pin demo_pin s \<and> status_signed demo_ext s c demo_sig (demo_chain ! 0)"
proof -
  obtain a where a: "apply_status demo_ext None ''s1'' demo_sig demo_chain demo_pin = Inr a" by (rule demo_obtains)
  obtain s c i where "parse_status demo_ext ''s1'' = Inr (s, c)" "i < length demo_chain"
      "status_signed demo_ext s c demo_sig (demo_chain ! i)" "matches_pin demo_pin s"
    using apply_status_sound [OF a] by blast
  moreover from this have "i = 0" by (simp add: demo_chain_def)
  ultimately show ?thesis using a by blast
qed

text \<open>C4. However records arrive, under whatever chains, the hold of a pinned version that a record
  made (and not only a bundle attested) only moves forward: its sequence number, time of change and signer never go back, an unchanged sequence
  number means an unchanged hold, a tombstone is final and a revocation is left only for a
  tombstone.\<close>

theorem status_monotone:
  assumes "(status_step E p)\<^sup>*\<^sup>* h h'" and "\<not> h_bundle_attested h"
  shows "(h' = h \<or> sr_sequence (h_record h) < sr_sequence (h_record h'))
    \<and> sr_changed_at (h_record h) \<le> sr_changed_at (h_record h') \<and> h_signer_index h \<le> h_signer_index h'
    \<and> (sr_state (h_record h) = Tombstoned \<longrightarrow> sr_state (h_record h') = Tombstoned)
    \<and> (sr_state (h_record h) = Revoked \<longrightarrow> sr_state (h_record h') \<in> {Revoked, Tombstoned})
    \<and> \<not> h_bundle_attested h'"
  using status_steps_le [OF assms] by (auto simp: hold_le_def)

lemma status_monotone_witness:
  "\<exists>h h'. (status_step demo_ext demo_pin)\<^sup>*\<^sup>* h h' \<and> sr_state (h_record h) = Available \<and> sr_state (h_record h') = Revoked
     \<and> sr_changed_at (h_record h) \<le> sr_changed_at (h_record h')"
proof -
  obtain a b where "apply_status demo_ext None ''s1'' demo_sig demo_chain demo_pin = Inr a" "ap_result a = Applied"
      and a: "sr_state (h_record (ap_held a)) = Available" "\<not> h_bundle_attested (ap_held a)"
      and b: "apply_status demo_ext (Some (ap_held a)) ''s2'' demo_sig demo_chain demo_pin = Inr b" "ap_result b = Applied"
        "sr_state (h_record (ap_held b)) = Revoked"
    by (rule demo_obtains)
  have "(status_step demo_ext demo_pin)\<^sup>*\<^sup>* (ap_held a) (ap_held b)" using b(1) by (blast intro: call)
  then show ?thesis using status_monotone a b(3) by blast
qed

text \<open>A status that was taken can be restored from its saved text, signature and signer index
  under the same chain and under every chain that extends it: later keys retire a signer for new
  records only.\<close>

theorem taken_status_restores:
  assumes "apply_status E held text sig chain p = Inr a" and "ap_result a = Applied"
  shows "restore E text sig (chain @ later) (h_signer_index (ap_held a)) = Inr (ap_held a)"
proof -
  obtain s c i where p: "parse_status E text = Inr (s, c)"
    and i: "position (\<lambda>k. sk_key_id k = sr_registry_key_id s) chain = Some i"
    and ok: "status_signed E s c sig (chain ! i)" and h: "ap_held a = registry_hold s c i"
    using assms unfolding apply_status_Inr by auto
  have "i < length chain" "(chain @ later) ! i = chain ! i" using i by (simp_all add: position_Some nth_append)
  then show ?thesis using ok unfolding restore_def h
    by (simp add: p registry_hold_def status_signed_def not_before_iff Let_def)
qed

text \<open>C31. Applying a feed is safe whatever the feed holds. Every version the client held is still held,
  by the very hold or by a newer one: a later sequence, no earlier time of change, no earlier signer
  and a state the old one permits. A hold that only a bundle attested has no signer to go back from,
  and may also give way to its own canonical text taken from the registry. Holds stay filed under the
  version they are about, the cursor never goes back and moves only if every record was accepted,
  and a feed behind the cursor changes nothing.\<close>

theorem apply_feed_safe:
  assumes "holds_inv (fs_held st)" and "out = apply_feed E st mode reply chain pins"
  shows "holds_le (fs_held st) (fs_held (fo_next_state out)) \<and> holds_inv (fs_held (fo_next_state out))
    \<and> (fs_feed_seq (fo_next_state out) = fs_feed_seq st
       \<or> (\<exists>seq rs. reply = Records seq rs \<and> fs_feed_seq (fo_next_state out) = Some seq
           \<and> none_or (\<lambda>n. n \<le> seq) (fs_feed_seq st) \<and> list_all (\<lambda>p. is_ok (snd p)) (fo_records out)))
    \<and> (fo_records out = [] \<and> fo_refusal out \<noteq> None \<longrightarrow> fo_next_state out = st)"
proof (cases rule: apply_feed_cases [of E st mode reply chain pins])
  case refused
  then show ?thesis using assms by (simp add: holds_le_refl)
next
  case (taken seq rs xs m')
  have o: "apply_feed E st mode (Records seq rs) chain pins = out" using assms(2) taken(1) by simp
  note f = apply_feed_records [OF o taken(2,3)] and r = apply_records_props [OF taken(3)]
  have "fo_refusal out = None" if "fo_records out = []" using f(2,4) that by simp
  then show ?thesis using assms(1) r f taken(1,2) by (cases "list_all (\<lambda>p. is_ok (snd p)) xs") auto
qed

lemma apply_feed_safe_witness:
  "\<exists>h h'. sr_state (h_record h) = Available \<and> sr_state (h_record h') = Revoked \<and> follows_hold h h'
     \<and> fo_next_state (apply_feed demo_ext \<lparr>fs_feed_seq = Some 5, fs_held = [(demo_key, h)]\<rparr> After demo_feed demo_chain [(demo_key, demo_pin)])
       = \<lparr>fs_feed_seq = Some 5, fs_held = [(demo_key, h')]\<rparr>"
proof -
  obtain a b where a: "apply_status demo_ext None ''s1'' demo_sig demo_chain demo_pin = Inr a" "sr_state (h_record (ap_held a)) = Available"
    and b: "apply_status demo_ext (Some (ap_held a)) ''s2'' demo_sig demo_chain demo_pin = Inr b" "sr_state (h_record (ap_held b)) = Revoked"
      "apply_status demo_ext (Some (ap_held b)) ''s3'' demo_sig demo_chain demo_pin = Inl (refusal_new StatusTerminal)"
    by (rule demo_obtains)
  obtain s c where s: "parse_status demo_ext ''s1'' = Inr (s, c)" "sr_name s = ''@acme/notes'' \<and> sr_version s = ''1.0.0''"
    using demo_parsed(1) by (auto split: sum.splits)
  have "h_record (ap_held a) = s" using apply_held_record [OF a(1) s(1)] by simp
  then have i: "holds_inv (fs_held \<lparr>fs_feed_seq = Some 5, fs_held = [(demo_key, ap_held a)]\<rparr>)"
    using s(2) by (simp add: holds_inv_def bt_get_def bt_inv_def demo_key_def)
  note run = demo_feed_run [OF b(1,3)]
  define out where "out = apply_feed demo_ext \<lparr>fs_feed_seq = Some 5, fs_held = [(demo_key, ap_held a)]\<rparr> After demo_feed demo_chain [(demo_key, demo_pin)]"
  have "holds_le [(demo_key, ap_held a)] (fs_held (fo_next_state out))" using apply_feed_safe [OF i out_def] by simp
  then have "holds_le [(demo_key, ap_held a)] [(demo_key, ap_held b)]" using run by (simp add: out_def)
  then have "follows_hold (ap_held a) (ap_held b)" unfolding holds_le_def by (auto simp: bt_get_def dest!: spec [of _ demo_key])
  then show ?thesis using run a(2) b(2) by blast
qed

text \<open>A state blocks activation exactly when the version can never become available again.\<close>

theorem effect_blocks_terminal:
  "(ef_activation (effect k st) = ''blocked'' \<longleftrightarrow> \<not> permits st Available)
   \<and> (ef_resolution (effect k st) = ''eligible'' \<longleftrightarrow> st = Available)
   \<and> (ef_exact_fetch (effect k st) = ''gone'' \<longleftrightarrow> (\<forall>next. permits st next = (next = st)))
   \<and> (ef_core_flow_revocation (effect k st) \<longleftrightarrow> k = Flow \<and> ef_activation (effect k st) = ''blocked'')"
proof -
  have "\<not> (\<forall>next. permits st next = (next = st))" if "st \<noteq> Tombstoned"
    using that by (cases st) (auto intro: exI [of _ Tombstoned])
  then show ?thesis by (cases st; cases k) (auto simp: effect_def Let_def)
qed

section \<open>The feed the registry selects\<close>

text \<open>The latest write of a version, in a log whose feed numbers are distinct.\<close>

definition latest_of :: "feed_write list \<Rightarrow> feed_write \<Rightarrow> bool" where
  "latest_of ws w \<longleftrightarrow> w \<in> set ws \<and> (\<forall>x \<in> set ws. fw_key x = fw_key w \<longrightarrow> fw_feed_seq x \<le> fw_feed_seq w)"

definition later :: "feed_write \<Rightarrow> feed_write option \<Rightarrow> feed_write option" where
  "later w cur = (if none_or (\<lambda>prior. fw_feed_seq prior < fw_feed_seq w) cur then Some w else cur)"

lemma latest_writes_get: "bt_get (latest_writes m ws) k = fold later (filter (\<lambda>w. fw_key w = k) ws) (bt_get m k)"
  by (induction ws arbitrary: m) (auto simp: bt_get_insert later_def)

lemma latest_writes_inv: "bt_inv m \<Longrightarrow> bt_inv (latest_writes m ws)"
  by (induction ws arbitrary: m) (auto simp: bt_inv_insert)

lemma fold_later:
  "fold later ws cur = Some w \<Longrightarrow> (w \<in> set ws \<or> cur = Some w) \<and> (\<forall>x \<in> set ws \<union> set_option cur. fw_feed_seq x \<le> fw_feed_seq w)"
proof (induction ws arbitrary: cur)
  case (Cons y ws)
  have "fold later ws (later y cur) = Some w" using Cons.prems by simp
  from Cons.IH [OF this] show ?case
    by (cases cur) (auto simp: later_def split: if_splits)
qed simp

lemma fold_later_None: "fold later ws cur = None \<longleftrightarrow> ws = [] \<and> cur = None"
  by (induction ws arbitrary: cur) (auto simp: later_def none_or_def split: option.splits)

lemma latest_writes_iff:
  assumes "distinct (map fw_feed_seq ws)"
  shows "bt_get (latest_writes [] ws) k = Some w \<longleftrightarrow> latest_of ws w \<and> fw_key w = k"
proof -
  define f where "f = filter (\<lambda>w. fw_key w = k) ws"
  have g: "bt_get (latest_writes [] ws) k = fold later f None"
    by (simp add: latest_writes_get f_def) (simp add: bt_get_def)
  show ?thesis
  proof
    assume "bt_get (latest_writes [] ws) k = Some w"
    then show "latest_of ws w \<and> fw_key w = k" using fold_later [of f None w] by (auto simp: g f_def latest_of_def)
  next
    assume w: "latest_of ws w \<and> fw_key w = k"
    then have "w \<in> set f" by (simp add: f_def latest_of_def)
    then obtain x where x: "fold later f None = Some x" using fold_later_None [of f None] by fastforce
    then have "x \<in> set f" "fw_feed_seq w \<le> fw_feed_seq x" using fold_later [OF x] \<open>w \<in> set f\<close> by auto
    then have "x \<in> set ws" "fw_feed_seq x = fw_feed_seq w" using w by (auto simp: f_def latest_of_def intro: antisym)
    then have "x = w" using assms w by (auto simp: distinct_map inj_on_def latest_of_def)
    then show "bt_get (latest_writes [] ws) k = Some w" using x g by simp
  qed
qed

definition item_of :: "feed_write \<Rightarrow> feed_item" where
  "item_of w = \<lparr>fi_feed_seq = fw_feed_seq w, fi_id = fw_id w\<rparr>"

lemma select_feed_Inr:
  assumes "select_feed ws oldest aft = Inr v"
  shows "fv_feed_seq v = fold max (map fw_feed_seq ws) 0"
    "fv_records v = sort_key fi_feed_seq (map item_of (filter (\<lambda>w. (case aft of Some n \<Rightarrow> n | None \<Rightarrow> 0) < fw_feed_seq w)
        (map snd (latest_writes [] ws))))"
  using assms by (auto simp: select_feed_def item_of_def [abs_def] Let_def split: if_splits)

text \<open>The registry's feed holds exactly the latest write of every version, in feed order, and
  an incremental feed is the full feed cut at the cursor: a client that follows increments misses
  no version, and is refused only for a cursor outside the log that can be served.\<close>

theorem select_feed_exact:
  assumes "distinct (map fw_feed_seq ws)" and "0 \<notin> set (map fw_feed_seq ws)"
  shows "(\<exists>v. select_feed ws oldest None = Inr v \<and> set (fv_records v) = item_of ` {w. latest_of ws w}
        \<and> sorted (map fi_feed_seq (fv_records v))
        \<and> (\<forall>n. case select_feed ws oldest (Some n) of
              Inr u \<Rightarrow> oldest \<le> n \<and> n \<le> fv_feed_seq v \<and> fv_feed_seq u = fv_feed_seq v
                \<and> fv_records u = filter (\<lambda>i. n < fi_feed_seq i) (fv_records v)
            | Inl e \<Rightarrow> e = refusal_new FeedAfterUnavailable \<and> (n < oldest \<or> fv_feed_seq v < n)))"
proof -
  obtain v where v: "select_feed ws oldest None = Inr v" by (simp add: select_feed_def Let_def)
  note r = select_feed_Inr [OF v]
  have m: "set (map snd (latest_writes [] ws)) = {w. latest_of ws w}"
  proof -
    have i: "bt_inv (latest_writes [] ws)" by (rule latest_writes_inv) simp
    have "w \<in> set (map snd (latest_writes [] ws)) \<longleftrightarrow> (\<exists>k. bt_get (latest_writes [] ws) k = Some w)" for w
      using bt_get_iff [OF i] by force
    then show ?thesis using latest_writes_iff [OF assms(1)] by auto
  qed
  moreover have "0 < fw_feed_seq x" if "x \<in> set ws" for x
    using that assms(2) by (cases "fw_feed_seq x") force+
  ultimately have pos: "filter (\<lambda>w. 0 < fw_feed_seq w) (map snd (latest_writes [] ws)) = map snd (latest_writes [] ws)"
    using assms(2) by (intro filter_True) (auto simp: latest_of_def)
  have "set (fv_records v) = item_of ` {w. latest_of ws w}" using m unfolding r(2) option.case pos set_sort set_map [of item_of] by (simp only:)
  moreover have "sorted (map fi_feed_seq (fv_records v))" by (simp add: r(2))
  moreover have "case select_feed ws oldest (Some n) of
              Inr u \<Rightarrow> oldest \<le> n \<and> n \<le> fv_feed_seq v \<and> fv_feed_seq u = fv_feed_seq v
                \<and> fv_records u = filter (\<lambda>i. n < fi_feed_seq i) (fv_records v)
            | Inl e \<Rightarrow> e = refusal_new FeedAfterUnavailable \<and> (n < oldest \<or> fv_feed_seq v < n)" for n
  proof (cases "select_feed ws oldest (Some n)")
    case (Inl e)
    then show ?thesis using r(1) by (auto simp: select_feed_def Let_def split: if_splits)
  next
    case (Inr u)
    have z: "0 < a \<and> n < a \<longleftrightarrow> n < a" for a :: nat by auto
    have "filter (\<lambda>i. n < fi_feed_seq i) (fv_records v) = fv_records u"
      using r(2) select_feed_Inr(2) [OF Inr] by (simp add: z filter_sort filter_map item_of_def o_def)
    moreover have "oldest \<le> n \<and> n \<le> fv_feed_seq v" using Inr r(1) by (auto simp: select_feed_def Let_def not_less split: if_splits)
    ultimately show ?thesis using Inr r(1) select_feed_Inr(1) [OF Inr] by simp
  qed
  ultimately show ?thesis using v by blast
qed

definition demo_write :: "nat \<Rightarrow> string \<Rightarrow> feed_write" where
  "demo_write n v = \<lparr>fw_feed_seq = n, fw_id = v, fw_record = \<lparr>sr_schema = ''ck-status/v1'', sr_registry_key_id = ''key-1'',
     sr_name = ''@acme/notes'', sr_version = v, sr_archive_sha256 = [], sr_publisher_key = [], sr_sequence = n,
     sr_state = Available, sr_reason = None, sr_compromise_from = None, sr_published_at = [], sr_changed_at = []\<rparr>\<rparr>"

end
