(* ===== verification/Statements.thy ===== *)
theory Statements
  imports Status
begin

text \<open>
  Publisher statements and the chain of registry status keys
  (\<open>crates/entorhinal-catalog/src/statements.rs\<close>): key rotation, root certificates, the
  cross-signed chain, and a publisher's request to withdraw a version or put it back.
\<close>

definition stmt_invalid :: "string \<Rightarrow> refusal" where
  "stmt_invalid f = refusal_at StatementInvalid f"

definition string_of :: "json \<Rightarrow> string \<Rightarrow> refusal + string" where
  "string_of s f = ok_or (as_str (jidx s f)) (stmt_invalid f)"

definition key_of :: "json \<Rightarrow> string \<Rightarrow> refusal + string" where
  "key_of s f = bind_res (string_of s f) (\<lambda>k. if \<not> is_hex k 64 then Inl (stmt_invalid f) else Inr k)"

definition timestamp_of :: "json \<Rightarrow> string \<Rightarrow> refusal + string" where
  "timestamp_of s f = bind_res (string_of s f) (\<lambda>t. if \<not> is_time t then Inl (stmt_invalid f) else Inr t)"

definition canonical_of :: "ext \<Rightarrow> json \<Rightarrow> refusal + string" where
  "canonical_of E s = map_err (\<lambda>_. stmt_invalid ''json'') (to_canonical E s)"

record revocation =
  rv_reason :: string
  rv_compromise_from :: string

record scope_key =
  ky_public_key :: string
  ky_valid_from :: string
  ky_valid_until :: "string option"
  ky_revocation :: "revocation option"

definition window_covers :: "string \<Rightarrow> string option \<Rightarrow> string \<Rightarrow> bool" where
  "window_covers from until t \<longleftrightarrow> from \<le> t \<and> none_or (\<lambda>u. t < u) until"

definition covers :: "scope_key \<Rightarrow> string \<Rightarrow> bool" where
  "covers k t = window_covers (ky_valid_from k) (ky_valid_until k) t"

definition current :: "scope_key list \<Rightarrow> string \<Rightarrow> refusal + unit" where
  "current keys pk = bind_res (ok_or (find (\<lambda>k. ky_public_key k = pk) keys) (refusal_new KeyUnknown)) (\<lambda>k.
     if ky_revocation k \<noteq> None then Inl (refusal_new KeyRevoked)
     else if ky_valid_until k \<noteq> None then Inl (refusal_new KeyNotValid) else Inr ())"

record registry_key =
  rk_key_id :: string
  rk_public_key :: string
  rk_statement :: "string option"

record registry_chain =
  rc_registry :: string
  rc_keys :: "registry_key list"

definition epoch :: "registry_chain \<Rightarrow> string \<Rightarrow> nat option" where
  "epoch c i = position (\<lambda>k. rk_key_id k = i) (rc_keys c)"

definition statement_started :: "ext \<Rightarrow> string \<Rightarrow> string \<Rightarrow> bool" where
  "statement_started E t s = (case parse_json E s of Inl _ \<Rightarrow> False
     | Inr v \<Rightarrow> some_and (\<lambda>x. x \<le> t) (as_str (jidx v ''valid_from'')))"

definition active_epoch :: "ext \<Rightarrow> registry_chain \<Rightarrow> string \<Rightarrow> nat option" where
  "active_epoch E c t = map_option fst
     (find (\<lambda>(i, k). none_or (statement_started E t) (rk_statement k)) (rev (enumerate 0 (rc_keys c))))"

section \<open>Rotation and certificates\<close>

record key_rotation =
  kr_schema :: string
  kr_scope :: string
  kr_old_key :: string
  kr_new_key :: string

definition rotation_of_json :: "json \<Rightarrow> key_rotation option" where
  "rotation_of_json v = (case (str_field v ''schema'', str_field v ''scope'', str_field v ''old_key'', str_field v ''new_key'') of
     (Some a, Some b, Some c, Some d) \<Rightarrow> Some \<lparr>kr_schema = a, kr_scope = b, kr_old_key = c, kr_new_key = d\<rparr> | _ \<Rightarrow> None)"

definition verify_key_rotation ::
  "ext \<Rightarrow> string \<Rightarrow> string \<Rightarrow> string \<Rightarrow> string \<Rightarrow> scope_key list \<Rightarrow> string list \<Rightarrow> refusal + key_rotation" where
  "verify_key_rotation E text old_sig new_sig scope keys ever =
    bind_res (shape E text ''ck-key-rotation/v1'' [''schema'', ''scope'', ''old_key'', ''new_key''] [] StatementInvalid) (\<lambda>s.
    bind_res (string_of s ''scope'') (\<lambda>scoped.
      if \<not> part scoped \<or> length scoped > SCOPE_MAX then Inl (stmt_invalid ''scope'')
      else bind_res (key_of s ''old_key'') (\<lambda>old.
      bind_res (key_of s ''new_key'') (\<lambda>new.
        if new = old then Inl (stmt_invalid ''new_key'')
        else if scoped \<noteq> scope then Inl (refusal_at RecordMismatch ''scope'')
        else bind_res (canonical_of E s) (\<lambda>c.
        bind_res (each_ok (\<lambda>(pk, sig, f). refuse_unless (verify_signature E pk ''ck-key-rotation/v1'' c sig)
            (refusal_at SignatureInvalid f)) [(old, old_sig, ''old_signature''), (new, new_sig, ''new_signature'')]) (\<lambda>_.
        bind_res (current keys old) (\<lambda>_.
          if new \<in> set ever then Inl (refusal_new KeyReused)
          else ok_or (rotation_of_json s) (stmt_invalid ''json''))))))))"

record key_cert =
  kc_schema :: string
  kc_scope :: string
  kc_public_key :: string
  kc_valid_from :: string
  kc_valid_until :: "string option"

definition cert_of_json :: "json \<Rightarrow> key_cert option" where
  "cert_of_json v = (case (str_field v ''schema'', str_field v ''scope'', str_field v ''public_key'', str_field v ''valid_from'',
       opt_str_field v ''valid_until'') of
     (Some a, Some b, Some c, Some d, Some e) \<Rightarrow>
       Some \<lparr>kc_schema = a, kc_scope = b, kc_public_key = c, kc_valid_from = d, kc_valid_until = e\<rparr> | _ \<Rightarrow> None)"

definition verify_key_cert :: "ext \<Rightarrow> string \<Rightarrow> string \<Rightarrow> string \<Rightarrow> refusal + key_cert" where
  "verify_key_cert E text sig root_key =
    bind_res (shape E text ''ck-key-cert/v1'' [''schema'', ''scope'', ''public_key'', ''valid_from'', ''valid_until''] []
        StatementInvalid) (\<lambda>s.
      if jidx s ''scope'' \<noteq> JStr ''cortexkit'' then Inl (stmt_invalid ''scope'')
      else bind_res (key_of s ''public_key'') (\<lambda>_.
      bind_res (timestamp_of s ''valid_from'') (\<lambda>from.
      bind_res (if jidx s ''valid_until'' = JNull then Inr False
          else bind_res (timestamp_of s ''valid_until'') (\<lambda>u. Inr (u \<le> from))) (\<lambda>bad.
        if bad then Inl (stmt_invalid ''valid_until'')
        else bind_res (canonical_of E s) (\<lambda>c.
          if \<not> verify_signature E root_key ''ck-key-cert/v1'' c sig then Inl (refusal_new SignatureInvalid)
          else ok_or (cert_of_json s) (stmt_invalid ''json''))))))"

section \<open>The chain of registry keys\<close>

record registry_key_statement =
  rs_schema :: string
  rs_registry :: string
  rs_key_id :: string
  rs_public_key :: string
  rs_valid_from :: string

definition statement_of_json :: "json \<Rightarrow> registry_key_statement option" where
  "statement_of_json v = (case (str_field v ''schema'', str_field v ''registry'', str_field v ''key_id'',
       str_field v ''public_key'', str_field v ''valid_from'') of
     (Some a, Some b, Some c, Some d, Some e) \<Rightarrow>
       Some \<lparr>rs_schema = a, rs_registry = b, rs_key_id = c, rs_public_key = d, rs_valid_from = e\<rparr> | _ \<Rightarrow> None)"

datatype key_apply = KeyAccepted | KeyDuplicate

text \<open>The chain the caller passes is changed only on acceptance; the result carries it.\<close>

definition apply_registry_key :: "ext \<Rightarrow> registry_chain \<Rightarrow> string \<Rightarrow> string \<Rightarrow> refusal + (key_apply \<times> registry_chain)" where
  "apply_registry_key E pin text sig =
    bind_res (shape E text ''ck-registry-key/v1'' [''schema'', ''registry'', ''key_id'', ''public_key'', ''valid_from''] []
        StatementInvalid) (\<lambda>s.
    bind_res (each_ok (\<lambda>f. bind_res (string_of s f) (\<lambda>x. refuse_unless (x \<noteq> []) (stmt_invalid f)))
        [''registry'', ''key_id'']) (\<lambda>_.
    bind_res (key_of s ''public_key'') (\<lambda>pk.
    bind_res (timestamp_of s ''valid_from'') (\<lambda>_.
      if jidx s ''registry'' \<noteq> JStr (rc_registry pin) then Inl (refusal_at RecordMismatch ''registry'')
      else bind_res (canonical_of E s) (\<lambda>c.
        (case find (\<lambda>k. jidx s ''key_id'' = JStr (rk_key_id k)) (rc_keys pin) of
           Some k \<Rightarrow>
             if rk_statement k = Some c \<or> (rk_statement k = None \<and> rk_public_key k = pk) then Inr (KeyDuplicate, pin)
             else Inl (refusal_at KeyConflict ''key_id'')
         | None \<Rightarrow>
             if list_ex (\<lambda>k. rk_public_key k = pk) (rc_keys pin) then Inl (refusal_at KeyConflict ''public_key'')
             else if rc_keys pin = [] then Inl (refusal_new KeyUnknown)
             else if \<not> verify_signature E (rk_public_key (last (rc_keys pin))) ''ck-registry-key/v1'' c sig
               then Inl (refusal_new SignatureInvalid)
             else bind_res (ok_or (statement_of_json s) (stmt_invalid ''json'')) (\<lambda>st.
               Inr (KeyAccepted, pin\<lparr>rc_keys := rc_keys pin @
                 [\<lparr>rk_key_id = rs_key_id st, rk_public_key = rs_public_key st, rk_statement = Some c\<rparr>]\<rparr>))))))))"

section \<open>A publisher's status request\<close>

datatype action = Withdraw | Unwithdraw

fun action_str :: "action \<Rightarrow> string" where
  "action_str Withdraw = ''withdraw''"
| "action_str Unwithdraw = ''unwithdraw''"

record request_path =
  rp_action :: action
  rp_name :: string
  rp_version :: string

record version_status =
  vs_archive_sha256 :: string
  vs_sequence :: nat
  vs_state :: state

record next_status =
  ns_sequence :: nat
  ns_state :: state

definition request_fields :: "string list" where
  "request_fields = [''schema'', ''action'', ''name'', ''version'', ''archive_sha256'', ''reason'', ''after_sequence'']"

definition apply_status_request ::
  "ext \<Rightarrow> request_path \<Rightarrow> string \<Rightarrow> string \<Rightarrow> string \<Rightarrow> version_status \<Rightarrow> scope_key list \<Rightarrow> string \<Rightarrow> refusal + next_status" where
  "apply_status_request E path text pk sig held keys request_time =
    bind_res (shape E text ''ck-status-request/v1'' request_fields [] StatementInvalid) (\<lambda>s.
    bind_res (string_of s ''action'') (\<lambda>act.
      if act \<noteq> ''withdraw'' \<and> act \<noteq> ''unwithdraw'' then Inl (stmt_invalid ''action'')
      else bind_res (string_of s ''name'') (\<lambda>name.
      if \<not> canonical E name then Inl (stmt_invalid ''name'')
      else bind_res (string_of s ''version'') (\<lambda>version.
      if \<not> is_ok (parse_version version) then Inl (stmt_invalid ''version'')
      else bind_res (key_of s ''archive_sha256'') (\<lambda>_.
      if \<not> some_and (\<lambda>r. r \<noteq> []) (as_str (jidx s ''reason'')) \<and> \<not> (jidx s ''reason'' = JNull \<and> act = ''unwithdraw'')
        then Inl (stmt_invalid ''reason'')
      else bind_res (ok_or (positive (jidx s ''after_sequence'')) (stmt_invalid ''after_sequence'')) (\<lambda>_.
      bind_res (each_ok (\<lambda>(f, v). refuse_unless (jidx s f = v) (refusal_at RecordMismatch f))
          [(''action'', JStr (action_str (rp_action path))), (''name'', JStr (rp_name path)),
           (''version'', JStr (rp_version path))]) (\<lambda>_.
      bind_res (canonical_of E s) (\<lambda>c.
      if \<not> verify_signature E pk ''ck-status-request/v1'' c sig then Inl (refusal_new SignatureInvalid)
      else bind_res (ok_or (find (\<lambda>k. ky_public_key k = pk) keys) (refusal_new KeyUnknown)) (\<lambda>k.
        if ky_revocation k \<noteq> None then Inl (refusal_new KeyRevoked)
        else if \<not> covers k request_time \<or> (\<not> starts_with ''@cortexkit/'' (rp_name path) \<and> ky_valid_until k \<noteq> None)
          then Inl (refusal_new KeyNotValid)
        else if jidx s ''archive_sha256'' \<noteq> JStr (vs_archive_sha256 held)
          then Inl (refusal_at RecordMismatch ''archive_sha256'')
        else if positive (jidx s ''after_sequence'') \<noteq> Some (vs_sequence held) then Inl (refusal_new StatusSequenceConflict)
        else if (act = ''withdraw'' \<and> vs_state held \<noteq> Available) \<or> (act = ''unwithdraw'' \<and> vs_state held \<noteq> Withdrawn)
          then Inl (refusal_new ActionNotAllowed)
        else if \<not> vs_sequence held + 1 \<le> MAX_SAFE_INTEGER then Inl (stmt_invalid ''after_sequence'')
        else Inr \<lparr>ns_sequence = vs_sequence held + 1,
          ns_state = (if act = ''withdraw'' then Withdrawn else Available)\<rparr>)))))))))"

section \<open>The chain only grows\<close>

lemma string_of_Inr: "string_of s f = Inr x \<longleftrightarrow> jidx s f = JStr x"
  by (simp add: string_of_def)

lemma key_of_Inr: "key_of s f = Inr x \<longleftrightarrow> jidx s f = JStr x \<and> is_hex x 64"
  by (auto simp: key_of_def bind_res_eq_Inr string_of_Inr)

lemma timestamp_of_Inr: "timestamp_of s f = Inr x \<longleftrightarrow> jidx s f = JStr x \<and> is_time x"
  by (auto simp: timestamp_of_def bind_res_eq_Inr string_of_Inr)

lemma statement_of_json_Some:
  "statement_of_json v = Some st \<longleftrightarrow> jidx v ''schema'' = JStr (rs_schema st) \<and> jidx v ''registry'' = JStr (rs_registry st)
     \<and> jidx v ''key_id'' = JStr (rs_key_id st) \<and> jidx v ''public_key'' = JStr (rs_public_key st)
     \<and> jidx v ''valid_from'' = JStr (rs_valid_from st)"
  by (cases st) (auto simp: statement_of_json_def str_field_eq split: option.splits)

text \<open>What a text that may extend a chain says, and the key it adds.\<close>

definition chain_statement :: "ext \<Rightarrow> string \<Rightarrow> json \<Rightarrow> string \<Rightarrow> bool" where
  "chain_statement E text s c \<longleftrightarrow> shape E text ''ck-registry-key/v1''
       [''schema'', ''registry'', ''key_id'', ''public_key'', ''valid_from''] [] StatementInvalid = Inr s
     \<and> canonical_of E s = Inr c \<and> (\<exists>t. jidx s ''valid_from'' = JStr t \<and> is_time t)"

lemma apply_registry_key_Inr:
  assumes "apply_registry_key E pin text sig = Inr (r, pin')"
  obtains s c i pk where "chain_statement E text s c" "jidx s ''registry'' = JStr (rc_registry pin)"
      "jidx s ''key_id'' = JStr i" "jidx s ''public_key'' = JStr pk" "is_hex pk 64" "i \<noteq> []"
      "r = KeyDuplicate \<and> pin' = pin \<and> (\<exists>k \<in> set (rc_keys pin). rk_key_id k = i \<and>
          (rk_statement k = Some c \<or> rk_statement k = None \<and> rk_public_key k = pk))
       \<or> r = KeyAccepted \<and> pin' = pin\<lparr>rc_keys := rc_keys pin @ [\<lparr>rk_key_id = i, rk_public_key = pk, rk_statement = Some c\<rparr>]\<rparr>
          \<and> rc_keys pin \<noteq> [] \<and> i \<notin> rk_key_id ` set (rc_keys pin) \<and> pk \<notin> rk_public_key ` set (rc_keys pin)
          \<and> verify_signature E (rk_public_key (last (rc_keys pin))) ''ck-registry-key/v1'' c sig"
proof -
  obtain s where s: "shape E text ''ck-registry-key/v1''
       [''schema'', ''registry'', ''key_id'', ''public_key'', ''valid_from''] [] StatementInvalid = Inr s"
    using assms by (auto simp: apply_registry_key_def bind_res_eq_Inr)
  obtain i pk t c where i: "jidx s ''key_id'' = JStr i" "i \<noteq> []" and pk: "jidx s ''public_key'' = JStr pk" "is_hex pk 64"
    and t: "jidx s ''valid_from'' = JStr t" "is_time t" and g: "jidx s ''registry'' = JStr (rc_registry pin)"
    and c: "canonical_of E s = Inr c"
    using assms by (auto simp: apply_registry_key_def s bind_res_eq_Inr key_of_Inr timestamp_of_Inr string_of_Inr
        each_ok_Inr refuse_unless_def simp del: each_ok.simps split: if_splits)
  have key: "key_of s ''public_key'' = Inr pk" "timestamp_of s ''valid_from'' = Inr t"
    using pk t by (simp_all add: key_of_Inr timestamp_of_Inr)
  have cs: "chain_statement E text s c" using s c t by (simp add: chain_statement_def)
  show ?thesis
  proof (cases "find (\<lambda>k. jidx s ''key_id'' = JStr (rk_key_id k)) (rc_keys pin)")
    case None
    then have n: "i \<notin> rk_key_id ` set (rc_keys pin)" using i by (auto simp: find_None_iff)
    obtain st where st: "statement_of_json s = Some st"
      using assms None by (auto simp: apply_registry_key_def s key c bind_res_eq_Inr split: if_splits)
    then have "rs_key_id st = i" "rs_public_key st = pk" using i pk by (simp_all add: statement_of_json_Some)
    then show ?thesis using assms None n
      by (intro that [OF cs g i(1) pk i(2)])
        (auto simp: apply_registry_key_def s key c st bind_res_eq_Inr list_ex_iff image_iff split: if_splits)
  next
    case (Some k)
    then have k: "k \<in> set (rc_keys pin)" "rk_key_id k = i" using i by (auto simp: find_Some_iff)
    then show ?thesis using assms Some
      by (intro that [OF cs g i(1) pk i(2)])
        (auto simp: apply_registry_key_def s key c bind_res_eq_Inr split: if_splits)
  qed
qed

inductive chain_step :: "ext \<Rightarrow> registry_chain \<Rightarrow> registry_chain \<Rightarrow> bool" for E where
  applied: "apply_registry_key E c t sig = Inr (r, c') \<Longrightarrow> chain_step E c c'"

inductive_cases chain_stepE: "chain_step E c c'"

definition chain_inv :: "registry_chain \<Rightarrow> bool" where
  "chain_inv c \<longleftrightarrow> distinct (map rk_key_id (rc_keys c)) \<and> distinct (map rk_public_key (rc_keys c))"

text \<open>Every key after the first \<open>n\<close> carries a statement signed by the key before it.\<close>

definition cross_signed :: "ext \<Rightarrow> nat \<Rightarrow> registry_key list \<Rightarrow> bool" where
  "cross_signed E n ks \<longleftrightarrow> (\<forall>j. n \<le> j \<and> j < length ks \<longrightarrow> 0 < j \<and> (\<exists>c sig. rk_statement (ks ! j) = Some c
     \<and> verify_signature E (rk_public_key (ks ! (j - 1))) ''ck-registry-key/v1'' c sig))"

lemma cross_signed_snoc:
  assumes "cross_signed E n ks" and "ks \<noteq> []" and "rk_statement k = Some c"
    and "verify_signature E (rk_public_key (last ks)) ''ck-registry-key/v1'' c sig"
  shows "cross_signed E n (ks @ [k])"
  unfolding cross_signed_def
proof (intro allI impI)
  fix j assume j: "n \<le> j \<and> j < length (ks @ [k])"
  show "0 < j \<and> (\<exists>c sig. rk_statement ((ks @ [k]) ! j) = Some c
     \<and> verify_signature E (rk_public_key ((ks @ [k]) ! (j - 1))) ''ck-registry-key/v1'' c sig)"
  proof (cases "j < length ks")
    case True
    then show ?thesis using assms(1) j by (simp add: cross_signed_def nth_append less_imp_diff_less)
  next
    case False
    then have "j = length ks" using j by simp
    then show ?thesis using assms(2-4) by (auto simp: nth_append last_conv_nth)
  qed
qed

lemma chain_step_props:
  assumes "chain_step E c c'" and "chain_inv c"
  shows "chain_inv c' \<and> rc_registry c' = rc_registry c \<and> (\<exists>ks. rc_keys c' = rc_keys c @ ks)
     \<and> (cross_signed E n (rc_keys c) \<longrightarrow> cross_signed E n (rc_keys c'))"
proof -
  obtain t sig r where a: "apply_registry_key E c t sig = Inr (r, c')" using assms(1) by (elim chain_stepE)
  from a show ?thesis
  proof (rule apply_registry_key_Inr)
    fix s d i pk
    let ?k = "\<lparr>rk_key_id = i, rk_public_key = pk, rk_statement = Some d\<rparr>"
    assume "r = KeyDuplicate \<and> c' = c \<and> (\<exists>k \<in> set (rc_keys c). rk_key_id k = i \<and>
          (rk_statement k = Some d \<or> rk_statement k = None \<and> rk_public_key k = pk))
       \<or> r = KeyAccepted \<and> c' = c\<lparr>rc_keys := rc_keys c @ [?k]\<rparr>
          \<and> rc_keys c \<noteq> [] \<and> i \<notin> rk_key_id ` set (rc_keys c) \<and> pk \<notin> rk_public_key ` set (rc_keys c)
          \<and> verify_signature E (rk_public_key (last (rc_keys c))) ''ck-registry-key/v1'' d sig"
    then show ?thesis
    proof (elim disjE conjE)
      assume "c' = c" then show ?thesis using assms(2) by simp
    next
      assume k: "c' = c\<lparr>rc_keys := rc_keys c @ [?k]\<rparr>" "rc_keys c \<noteq> []" "i \<notin> rk_key_id ` set (rc_keys c)"
        "pk \<notin> rk_public_key ` set (rc_keys c)"
        "verify_signature E (rk_public_key (last (rc_keys c))) ''ck-registry-key/v1'' d sig"
      then show ?thesis using assms(2) cross_signed_snoc [of E n "rc_keys c" ?k d sig] by (simp add: chain_inv_def)
    qed
  qed
qed

lemma chain_steps_props:
  assumes "(chain_step E)\<^sup>*\<^sup>* c c'" and "chain_inv c"
  shows "chain_inv c' \<and> rc_registry c' = rc_registry c \<and> (\<exists>ks. rc_keys c' = rc_keys c @ ks)
    \<and> cross_signed E (length (rc_keys c)) (rc_keys c')"
  using assms(1)
proof (induction rule: rtranclp_induct)
  case base
  then show ?case using assms(2) by (auto simp: cross_signed_def)
next
  case (step y z)
  then show ?case using chain_step_props [OF step(2)] by force
qed

lemma find_append_new: "find P xs = None \<Longrightarrow> P x \<Longrightarrow> find P (xs @ [x]) = Some x"
  by (induction xs) auto

lemma chain_reapply:
  assumes a: "apply_registry_key E pin t sig = Inr (KeyAccepted, pin')"
  shows "apply_registry_key E pin' t sig' = Inr (KeyDuplicate, pin')"
  using a
proof (rule apply_registry_key_Inr)
  fix s c i pk
  assume cs: "chain_statement E t s c" and g: "jidx s ''registry'' = JStr (rc_registry pin)"
    and i: "jidx s ''key_id'' = JStr i" and pk: "jidx s ''public_key'' = JStr pk" "is_hex pk 64" and ne: "i \<noteq> []"
    and r: "KeyAccepted = KeyDuplicate \<and> pin' = pin \<and> (\<exists>k \<in> set (rc_keys pin). rk_key_id k = i \<and>
          (rk_statement k = Some c \<or> rk_statement k = None \<and> rk_public_key k = pk))
       \<or> KeyAccepted = KeyAccepted \<and> pin' = pin\<lparr>rc_keys := rc_keys pin @ [\<lparr>rk_key_id = i, rk_public_key = pk, rk_statement = Some c\<rparr>]\<rparr>
          \<and> rc_keys pin \<noteq> [] \<and> i \<notin> rk_key_id ` set (rc_keys pin) \<and> pk \<notin> rk_public_key ` set (rc_keys pin)
          \<and> verify_signature E (rk_public_key (last (rc_keys pin))) ''ck-registry-key/v1'' c sig"
  obtain tm where tm: "timestamp_of s ''valid_from'' = Inr tm" using cs by (auto simp: chain_statement_def timestamp_of_Inr)
  have key: "key_of s ''public_key'' = Inr pk" using pk by (simp add: key_of_Inr)
  have rn: "rc_registry pin \<noteq> []"
    using a cs g by (auto simp: apply_registry_key_def chain_statement_def bind_res_eq_Inr string_of_Inr each_ok_Inr refuse_unless_def simp del: each_ok.simps split: if_splits)
  let ?k = "\<lparr>rk_key_id = i, rk_public_key = pk, rk_statement = Some c\<rparr>"
  have p: "pin' = pin\<lparr>rc_keys := rc_keys pin @ [?k]\<rparr>" "i \<notin> rk_key_id ` set (rc_keys pin)" using r by auto
  have "find (\<lambda>k. jidx s ''key_id'' = JStr (rk_key_id k)) (rc_keys pin') = Some ?k"
    using p i by (simp add: find_append_new find_None_iff) (intro find_append_new, auto simp: find_None_iff)
  then show ?thesis using cs g i ne tm key rn p
    by (simp add: apply_registry_key_def chain_statement_def string_of_def refuse_unless_def)
qed

lemma apply_status_request_Inr:
  assumes "apply_status_request E path t pk sig held keys now = Inr n"
  obtains s c k where "shape E t ''ck-status-request/v1'' request_fields [] StatementInvalid = Inr s"
      "canonical_of E s = Inr c" "verify_signature E pk ''ck-status-request/v1'' c sig"
      "jidx s ''action'' = JStr (action_str (rp_action path))" "jidx s ''name'' = JStr (rp_name path)"
      "jidx s ''version'' = JStr (rp_version path)" "jidx s ''archive_sha256'' = JStr (vs_archive_sha256 held)"
      "positive (jidx s ''after_sequence'') = Some (vs_sequence held)"
      "k \<in> set keys" "ky_public_key k = pk" "ky_revocation k = None" "covers k now"
      "starts_with ''@cortexkit/'' (rp_name path) \<or> ky_valid_until k = None"
      "rp_action path = Withdraw \<and> vs_state held = Available \<and> ns_state n = Withdrawn
        \<or> rp_action path = Unwithdraw \<and> vs_state held = Withdrawn \<and> ns_state n = Available"
      "ns_sequence n = vs_sequence held + 1" "ns_sequence n \<le> MAX_SAFE_INTEGER"
proof -
  obtain s where s: "shape E t ''ck-status-request/v1'' request_fields [] StatementInvalid = Inr s"
    using assms by (auto simp: apply_status_request_def bind_res_eq_Inr)
  obtain nm vn a where nm: "string_of s ''name'' = Inr nm" "canonical E nm" and vn: "string_of s ''version'' = Inr vn" "is_ok (parse_version vn)"
    and a: "key_of s ''archive_sha256'' = Inr a" and act: "string_of s ''action'' = Inr (action_str (rp_action path))"
    using assms by (auto simp: apply_status_request_def s bind_res_eq_Inr string_of_Inr each_ok_Inr refuse_unless_def simp del: each_ok.simps split: if_splits)
  obtain c k where c: "canonical_of E s = Inr c" and k: "find (\<lambda>k. ky_public_key k = pk) keys = Some k"
    using assms by (auto simp: apply_status_request_def s nm vn a act bind_res_eq_Inr split: if_splits)
  have "k \<in> set keys" "ky_public_key k = pk" using k by (auto simp: find_Some_iff)
  then show ?thesis
    using assms that [OF s c]
    by (cases "rp_action path"; cases n)
      (auto simp: apply_status_request_def s nm vn a act c k bind_res_eq_Inr string_of_Inr each_ok_Inr refuse_unless_def
        simp del: each_ok.simps split: if_splits)
qed

section \<open>Properties\<close>

text \<open>C16. A client's chain of registry keys only grows, whatever statements it is offered: its
  keys keep their places, so an epoch once known never changes; ids and public keys stay distinct;
  and every key added after the pinned ones carries a statement signed by the key before it.\<close>

theorem chain_append_only:
  assumes "(chain_step E)\<^sup>*\<^sup>* c c'" and "chain_inv c"
  shows "chain_inv c' \<and> rc_registry c' = rc_registry c \<and> (\<exists>ks. rc_keys c' = rc_keys c @ ks)
    \<and> cross_signed E (length (rc_keys c)) (rc_keys c')
    \<and> (\<forall>i e. epoch c i = Some e \<longrightarrow> epoch c' i = Some e)"
proof -
  have "epoch c' i = Some e" if "epoch c i = Some e" for i e
    using chain_steps_props [OF assms] that position_append by (auto simp: epoch_def)
  then show ?thesis using chain_steps_props [OF assms] by blast
qed

definition demo_key_raw :: raw where
  "demo_key_raw = RMap [(''schema'', RStr ''ck-registry-key/v1''), (''registry'', RStr ''reg''), (''key_id'', RStr ''key-2''),
     (''public_key'', RStr (replicate 64 CHR ''e'')), (''valid_from'', RStr ''2024-05-01T00:00:00Z'')]"

definition demo_reg :: registry_chain where
  "demo_reg = \<lparr>rc_registry = ''reg'', rc_keys = [\<lparr>rk_key_id = ''key-1'', rk_public_key = replicate 64 CHR ''c'', rk_statement = None\<rparr>]\<rparr>"

definition demo_reg_ext :: ext where
  "demo_reg_ext = zero_ext\<lparr>x_parse := map_of [(''k2'', demo_key_raw)]\<rparr>"

lemma demo_reg_apply:
  "case apply_registry_key demo_reg_ext demo_reg ''k2'' demo_sig of Inl _ \<Rightarrow> False
   | Inr (r, c) \<Rightarrow> r = KeyAccepted \<and> map rk_key_id (rc_keys c) = [''key-1'', ''key-2'']"
  by code_simp

lemma chain_append_only_witness:
  "\<exists>c. (chain_step demo_reg_ext)\<^sup>*\<^sup>* demo_reg c \<and> map rk_key_id (rc_keys c) = [''key-1'', ''key-2''] \<and> chain_inv c
     \<and> cross_signed demo_reg_ext 1 (rc_keys c)"
proof -
  obtain c where c: "apply_registry_key demo_reg_ext demo_reg ''k2'' demo_sig = Inr (KeyAccepted, c)"
      "map rk_key_id (rc_keys c) = [''key-1'', ''key-2'']"
    using demo_reg_apply by (auto split: sum.splits)
  have "(chain_step demo_reg_ext)\<^sup>*\<^sup>* demo_reg c" using c(1) by (blast intro: applied)
  moreover have "chain_inv demo_reg" "length (rc_keys demo_reg) = 1" by (simp_all add: chain_inv_def demo_reg_def)
  ultimately show ?thesis using chain_append_only c(2) by metis
qed

text \<open>Offering an accepted key statement again is harmless: it is a duplicate, under any
  signature, and the chain stays as it is.\<close>

theorem registry_key_idempotent:
  assumes "apply_registry_key E pin t sig = Inr (KeyAccepted, pin')"
  shows "apply_registry_key E pin' t sig' = Inr (KeyDuplicate, pin')"
  by (rule chain_reapply [OF assms])

text \<open>C30. A publisher's request is granted only to a key of the scope that is not revoked, covers
  the time of the request and, outside the root scope, has no end; only over a text signed for this
  very version, archive and sequence number; and it only withdraws an available version or puts a
  withdrawn one back, raising the sequence number by one within the safe range. So no publisher
  moves a version out of a revoked or tombstoned state.\<close>

theorem status_request_sound:
  assumes "apply_status_request E path t pk sig held keys now = Inr n"
  shows "(\<exists>k \<in> set keys. ky_public_key k = pk \<and> ky_revocation k = None \<and> covers k now
        \<and> (starts_with ''@cortexkit/'' (rp_name path) \<or> ky_valid_until k = None))
    \<and> (\<exists>s c. shape E t ''ck-status-request/v1'' request_fields [] StatementInvalid = Inr s \<and> canonical_of E s = Inr c
        \<and> verify_signature E pk ''ck-status-request/v1'' c sig \<and> jidx s ''name'' = JStr (rp_name path)
        \<and> jidx s ''version'' = JStr (rp_version path) \<and> jidx s ''archive_sha256'' = JStr (vs_archive_sha256 held)
        \<and> positive (jidx s ''after_sequence'') = Some (vs_sequence held))
    \<and> (rp_action path = Withdraw \<and> vs_state held = Available \<and> ns_state n = Withdrawn
       \<or> rp_action path = Unwithdraw \<and> vs_state held = Withdrawn \<and> ns_state n = Available)
    \<and> ns_sequence n = vs_sequence held + 1 \<and> ns_sequence n \<le> MAX_SAFE_INTEGER"
  using assms by (rule apply_status_request_Inr) blast

definition demo_request_raw :: raw where
  "demo_request_raw = RMap [(''schema'', RStr ''ck-status-request/v1''), (''action'', RStr ''withdraw''), (''name'', RStr ''@acme/notes''),
     (''version'', RStr ''1.0.0''), (''archive_sha256'', RStr (replicate 64 CHR ''a'')), (''reason'', RStr ''broken''),
     (''after_sequence'', RU64 7)]"

definition demo_rotation_raw :: raw where
  "demo_rotation_raw = RMap [(''schema'', RStr ''ck-key-rotation/v1''), (''scope'', RStr ''acme''),
     (''old_key'', RStr (replicate 64 CHR ''c'')), (''new_key'', RStr (replicate 64 CHR ''e''))]"

definition demo_stmt_ext :: ext where
  "demo_stmt_ext = zero_ext\<lparr>x_parse := map_of [(''w'', demo_request_raw), (''r'', demo_rotation_raw)]\<rparr>"

definition demo_keys :: "scope_key list" where
  "demo_keys = [\<lparr>ky_public_key = replicate 64 CHR ''c'', ky_valid_from = ''2024-01-01T00:00:00Z'', ky_valid_until = None,
     ky_revocation = None\<rparr>]"

definition demo_path :: request_path where
  "demo_path = \<lparr>rp_action = Withdraw, rp_name = ''@acme/notes'', rp_version = ''1.0.0''\<rparr>"

definition demo_version :: version_status where
  "demo_version = \<lparr>vs_archive_sha256 = replicate 64 CHR ''a'', vs_sequence = 7, vs_state = Available\<rparr>"

lemma status_request_sound_witness:
  "\<exists>n. apply_status_request demo_stmt_ext demo_path ''w'' (replicate 64 CHR ''c'') demo_sig demo_version demo_keys
       ''2024-06-01T00:00:00Z'' = Inr n \<and> ns_sequence n = 8 \<and> ns_state n = Withdrawn"
proof -
  have "is_ok (apply_status_request demo_stmt_ext demo_path ''w'' (replicate 64 CHR ''c'') demo_sig demo_version demo_keys
       ''2024-06-01T00:00:00Z'')" by code_simp
  then obtain n where n: "apply_status_request demo_stmt_ext demo_path ''w'' (replicate 64 CHR ''c'') demo_sig demo_version demo_keys
       ''2024-06-01T00:00:00Z'' = Inr n" by (auto simp: is_ok_iff)
  from status_request_sound [OF n] show ?thesis using n by (simp add: demo_version_def demo_path_def)
qed

lemma canonical_of_Inr: "canonical_of E s = Inr c \<longleftrightarrow> to_canonical E s = Inr c"
  by (auto simp: canonical_of_def map_err_eq_Inr)

text \<open>C35. A rotation is accepted only from a key of the scope that is current, to another key that was
  never used: both keys signed the canonical text of the document that was given, and that text
  spells the scope, the old key and the new key.\<close>

theorem key_rotation_sound:
  assumes "verify_key_rotation E t old_sig new_sig scope keys ever = Inr r"
  shows "kr_scope r = scope \<and> kr_old_key r \<noteq> kr_new_key r \<and> kr_new_key r \<notin> set ever
    \<and> (\<exists>c. canonicalize E t = Inr c
         \<and> (\<forall>(k, s) \<in> set [(''schema'', ''ck-key-rotation/v1''), (''scope'', scope), (''old_key'', kr_old_key r), (''new_key'', kr_new_key r)].
              spells c (member_text E k (x_quote E s)))
         \<and> verify_signature E (kr_old_key r) ''ck-key-rotation/v1'' c old_sig
         \<and> verify_signature E (kr_new_key r) ''ck-key-rotation/v1'' c new_sig)
    \<and> (\<exists>k \<in> set keys. ky_public_key k = kr_old_key r \<and> ky_revocation k = None \<and> ky_valid_until k = None)"
proof -
  obtain s where sh: "shape E t ''ck-key-rotation/v1'' [''schema'', ''scope'', ''old_key'', ''new_key''] [] StatementInvalid = Inr s"
    using assms by (auto simp: verify_key_rotation_def bind_res_eq_Inr)
  note a = assms [unfolded verify_key_rotation_def sh bind_res_Inr]
  obtain old new c where s: "jidx s ''scope'' = JStr scope" "jidx s ''old_key'' = JStr old" "jidx s ''new_key'' = JStr new"
    and ok: "new \<noteq> old" "new \<notin> set ever" "verify_signature E old ''ck-key-rotation/v1'' c old_sig"
      "verify_signature E new ''ck-key-rotation/v1'' c new_sig" "current keys old = Inr ()" "rotation_of_json s = Some r"
    and c: "to_canonical E s = Inr c"
    using a by (auto simp: bind_res_eq_Inr string_of_Inr key_of_Inr each_ok_Inr refuse_unless_def canonical_of_Inr
        simp del: each_ok.simps split: if_splits)
  have r: "kr_scope r = scope" "kr_old_key r = old" "kr_new_key r = new"
    using ok(6) s by (auto simp: rotation_of_json_def str_field_eq split: option.splits)
  have "jidx s ''schema'' = JStr ''ck-key-rotation/v1''" using shape_Inr(1) [OF sh] by (auto simp: shaped_def)
  then have "\<forall>(k, x) \<in> set [(''schema'', ''ck-key-rotation/v1''), (''scope'', scope), (''old_key'', old), (''new_key'', new)].
      spells c (member_text E k (x_quote E x))" using s canonical_spells_string [OF c] by auto
  moreover have "canonicalize E t = Inr c" using shape_canonicalize [OF sh] c by simp
  moreover have "\<exists>k \<in> set keys. ky_public_key k = old \<and> ky_revocation k = None \<and> ky_valid_until k = None"
    using ok(5) by (auto simp: current_def bind_res_eq_Inr find_Some_iff split: if_splits)
  ultimately show ?thesis using ok unfolding r by blast
qed

lemma key_rotation_sound_witness:
  "\<exists>r. verify_key_rotation demo_stmt_ext ''r'' demo_sig demo_sig ''acme'' demo_keys [replicate 64 CHR ''c''] = Inr r
     \<and> kr_new_key r \<noteq> replicate 64 CHR ''c''"
proof -
  have "is_ok (verify_key_rotation demo_stmt_ext ''r'' demo_sig demo_sig ''acme'' demo_keys [replicate 64 CHR ''c''])" by code_simp
  then obtain r where r: "verify_key_rotation demo_stmt_ext ''r'' demo_sig demo_sig ''acme'' demo_keys [replicate 64 CHR ''c''] = Inr r"
    by (auto simp: is_ok_iff)
  from key_rotation_sound [OF r] show ?thesis using r by auto
qed

end
