(* ===== verification/Archive.thy ===== *)
theory Archive
  imports Statements
begin

text \<open>
  Package archives (\<open>crates/entorhinal-catalog/src/archive.rs\<close>): a strict reader of the ustar
  grammar and a deterministic writer. A byte string is a list of \<open>char\<close>; \<open>usize\<close> is a natural
  number below \<open>2 ^ 64\<close> wherever the code uses checked arithmetic. Slices are \<open>take\<close> and
  \<open>drop\<close>: every index is checked against the length before it is used.
\<close>

definition ARCHIVE_MAX :: nat where "ARCHIVE_MAX = 10485760"
definition MANIFEST_MAX :: nat where "MANIFEST_MAX = 65536"
definition MAX_MEMBERS :: nat where "MAX_MEMBERS = 1000"
definition PATH_MAX :: nat where "PATH_MAX = 255"

datatype archive_rule = HeaderChecksum | Magic | MemberType | SizeEncoding | RulePathInvalid | RulePathTooLong
  | RulePathNotUstar | TooManyMembers | PathDuplicate | PathCollision | Truncated | TerminatorMissing | TrailingData
  | CkJsonMissing | CkJsonNotFirst | MemberUnlisted

record archive_error =
  ae_code :: refusal_code
  ae_rule :: "archive_rule option"
  ae_offset :: "nat option"
  ae_member :: "string option"
  ae_typeflag :: "string option"

definition ae_cap :: "refusal_code \<Rightarrow> archive_error" where
  "ae_cap c = \<lparr>ae_code = c, ae_rule = None, ae_offset = None, ae_member = None, ae_typeflag = None\<rparr>"

definition ae_new :: "archive_rule \<Rightarrow> nat option \<Rightarrow> archive_error" where
  "ae_new r off = \<lparr>ae_code = ArchiveInvalid, ae_rule = Some r, ae_offset = off, ae_member = None, ae_typeflag = None\<rparr>"

definition ae_at :: "archive_rule \<Rightarrow> nat option \<Rightarrow> string \<Rightarrow> archive_error" where
  "ae_at r off path = (ae_new r off)\<lparr>ae_member := Some path\<rparr>"

section \<open>Paths\<close>

definition ustar_split :: "string \<Rightarrow> (string \<times> string) option" where
  "ustar_split path =
    (if length path \<le> 100 then Some ([], path)
     else map_option (\<lambda>i. (take i path, drop (i + 1) path))
       (find (\<lambda>i. path ! i = CHR ''/'') [max (length path - 101) 1 ..< min 155 (length path - 2) + 1]))"

definition path_byte :: "char \<Rightarrow> bool" where
  "path_byte b \<longleftrightarrow> is_alnum b \<or> b \<in> set ''._-''"

definition segment_bad :: "string \<Rightarrow> bool" where
  "segment_bad p \<longleftrightarrow> p = [] \<or> p = ''.'' \<or> p = ''..'' \<or> \<not> list_all path_byte p"

definition check_path :: "string \<Rightarrow> archive_rule + unit" where
  "check_path path =
    (if list_ex segment_bad (split_on CHR ''/'' path) then Inl RulePathInvalid
     else if length path > PATH_MAX then Inl RulePathTooLong
     else if ustar_split path = None then Inl RulePathNotUstar
     else Inr ())"

section \<open>Header fields\<close>

definition is_octal :: "char \<Rightarrow> bool" where
  "is_octal b \<longleftrightarrow> CHR ''0'' \<le> b \<and> b \<le> CHR ''7''"

fun fold_octal :: "nat \<Rightarrow> string \<Rightarrow> nat option" where
  "fold_octal v [] = Some v"
| "fold_octal v (b # bs) = (if v * 8 \<ge> 2 ^ 64 then None
     else if v * 8 + digit_val b \<ge> 2 ^ 64 then None else fold_octal (v * 8 + digit_val b) bs)"

definition octal :: "string \<Rightarrow> nat option" where
  "octal field = (let n = length (takeWhile is_octal field) in
     if n = 0 \<or> n = length field \<or> list_ex (\<lambda>b. b \<noteq> CHR 0x00 \<and> b \<noteq> CHR '' '') (drop n field) then None
     else fold_octal 0 (take n field))"

text \<open>\<open>char::from\<close> of a byte, in UTF-8.\<close>

definition char_utf8 :: "char \<Rightarrow> string" where
  "char_utf8 b = (if byte b < 128 then [b] else [char_of (192 + byte b div 64), char_of (128 + byte b mod 64)])"

definition field_text :: "string \<Rightarrow> string" where
  "field_text field = concat (map char_utf8 (takeWhile (\<lambda>b. b \<noteq> CHR 0x00) field))"

definition slice :: "nat \<Rightarrow> nat \<Rightarrow> 'a list \<Rightarrow> 'a list" where
  "slice i j xs = take (j - i) (drop i xs)"

definition header_sum :: "string \<Rightarrow> nat" where
  "header_sum h = sum_list (map (\<lambda>(i, b). if 148 \<le> i \<and> i < 156 then 32 else byte b) (enumerate 0 h))"

definition all_zero :: "string \<Rightarrow> bool" where
  "all_zero s \<longleftrightarrow> list_all (\<lambda>b. b = CHR 0x00) s"

section \<open>The reader\<close>

record read_member =
  rm_bytes :: string
  rm_offset :: nat

definition header_path :: "string \<Rightarrow> string" where
  "header_path h = (let name = field_text (take 100 h); prefix = field_text (slice 345 500 h) in
     if prefix = [] then name else prefix @ ''/'' @ name)"

text \<open>The checks of one header, up to its size.\<close>

definition header_size :: "nat \<Rightarrow> string \<Rightarrow> archive_error + nat" where
  "header_size pos h =
    (if octal (slice 148 156 h) \<noteq> Some (header_sum h) then Inl (ae_new HeaderChecksum (Some pos))
     else if slice 257 263 h \<noteq> ''ustar'' @ [CHR 0x00] \<or> slice 263 265 h \<noteq> ''00'' then Inl (ae_new Magic (Some pos))
     else if h ! 156 \<noteq> CHR ''0'' \<and> h ! 156 \<noteq> CHR 0x00
       then Inl ((ae_new MemberType (Some pos))\<lparr>ae_typeflag := Some (char_utf8 (h ! 156))\<rparr>)
     else ok_or (octal (slice 124 136 h)) (ae_new SizeEncoding (Some pos)))"

text \<open>The two zero blocks at the end, and nothing but zeros after them.\<close>

definition read_end :: "string \<Rightarrow> nat \<Rightarrow> archive_error + unit" where
  "read_end a pos =
    (if length a - pos < 1024 \<or> \<not> all_zero (slice (pos + 512) (pos + 1024) a)
     then Inl (ae_new TerminatorMissing (Some pos))
     else case position (\<lambda>b. b \<noteq> CHR 0x00) (drop (pos + 1024) a) of
         Some i \<Rightarrow> Inl (ae_new TrailingData (Some (pos + 1024 + i)))
       | None \<Rightarrow> Inr ())"

text \<open>The position of the next header, with the checked arithmetic of the code.\<close>

definition next_header :: "nat \<Rightarrow> nat \<Rightarrow> nat option" where
  "next_header pos sz =
    (if sz + 511 \<ge> 2 ^ 64 then None
     else let n = (sz + 511) div 512 * 512 in
       if n \<ge> 2 ^ 64 \<or> n + (pos + 512) \<ge> 2 ^ 64 then None else Some (n + (pos + 512)))"

type_synonym members = "(string \<times> read_member) list"

text \<open>One member at \<open>pos\<close>: the members with it, the lower-case paths with it, and where to go on.\<close>

definition read_one ::
  "string \<Rightarrow> nat \<Rightarrow> members \<Rightarrow> (string \<times> string) list \<Rightarrow> archive_error + (nat \<times> members \<times> (string \<times> string) list)" where
  "read_one a pos ms lower =
    (let h = slice pos (pos + 512) a in
     bind_res (header_size pos h) (\<lambda>size.
       let path = header_path h; fail = (\<lambda>r. ae_at r (Some pos) path) in
       bind_res (map_err fail (check_path path)) (\<lambda>_.
         if length ms + 1 > MAX_MEMBERS then Inl (fail TooManyMembers)
         else case bt_get lower (to_lower path) of
           Some seen \<Rightarrow> Inl (fail (if seen = path then PathDuplicate else PathCollision))
         | None \<Rightarrow>
             (let lower' = bt_insert (to_lower path) path lower; end = pos + 512 + size in
              if end \<ge> 2 ^ 64 \<or> end > length a then Inl (fail Truncated)
              else if path = ''ck.json'' \<and> size > MANIFEST_MAX then Inl (ae_cap ManifestTooLarge)
              else bind_res (ok_or (next_header pos size) (ae_new Truncated (Some pos))) (\<lambda>pos'.
                Inr (pos', bt_insert path \<lparr>rm_bytes = slice (pos + 512) end a, rm_offset = pos\<rparr> ms, lower'))))))"

lemma next_header_gt: "next_header pos n = Some p \<Longrightarrow> pos < p"
  by (auto simp: next_header_def Let_def split: if_splits)

lemma read_one_gt: "read_one a pos ms lower = Inr (p, ms', lower') \<Longrightarrow> pos < p"
  by (auto simp: read_one_def Let_def bind_res_eq_Inr split: if_splits option.splits dest: next_header_gt)

function read_loop :: "string \<Rightarrow> nat \<Rightarrow> members \<Rightarrow> (string \<times> string) list \<Rightarrow> archive_error + members" where
  "read_loop a pos ms lower =
    (if length a - pos < 512 then Inl (ae_new TerminatorMissing (Some pos))
     else if all_zero (slice pos (pos + 512) a) then bind_res (read_end a pos) (\<lambda>_. Inr ms)
     else case read_one a pos ms lower of Inl e \<Rightarrow> Inl e
       | Inr (pos', ms', lower') \<Rightarrow> read_loop a pos' ms' lower')"
  by pat_completeness auto
termination
  by (relation "measure (\<lambda>(a, pos, _). length a - pos)") (auto dest!: read_one_gt)

declare read_loop.simps [simp del]

definition read_members :: "string \<Rightarrow> archive_error + members" where
  "read_members a = (if length a > ARCHIVE_MAX then Inl (ae_cap ArchiveTooLarge) else read_loop a 0 [] [])"

definition read_archive :: "string \<Rightarrow> archive_error + (string \<times> string) list" where
  "read_archive a = bind_res (read_members a) (\<lambda>ms.
     if \<not> bt_has ms ''ck.json'' then Inl (ae_new CkJsonMissing None)
     else Inr (map (\<lambda>(p, m). (p, rm_bytes m)) ms))"

section \<open>The writer\<close>

datatype member_kind = Regular | Directory | Link | Device | Fifo | Extension

record member =
  mb_path :: string
  mb_bytes :: string
  mb_kind :: member_kind

definition regular :: "string \<Rightarrow> string \<Rightarrow> member" where
  "regular path bs = \<lparr>mb_path = path, mb_bytes = bs, mb_kind = Regular\<rparr>"

fun path_code :: "archive_rule \<Rightarrow> refusal_code" where
  "path_code RulePathInvalid = PathInvalid"
| "path_code RulePathTooLong = PathTooLong"
| "path_code _ = PathNotUstar"

text \<open>The size a member adds, with the checked arithmetic of the code.\<close>

definition add_size :: "nat \<Rightarrow> nat \<Rightarrow> nat option" where
  "add_size acc len =
    (if len + 511 \<ge> 2 ^ 64 then None
     else let s = (len + 511) div 512 * 512 in
       if s \<ge> 2 ^ 64 \<or> s + 512 \<ge> 2 ^ 64 \<or> acc + (s + 512) \<ge> 2 ^ 64 then None
       else if acc + (s + 512) \<le> ARCHIVE_MAX then Some (acc + (s + 512)) else None)"

text \<open>The checks of the members in order: the paths seen, their lower-case forms and the size.\<close>

fun check_members :: "string list \<Rightarrow> string list \<Rightarrow> nat \<Rightarrow> member list \<Rightarrow> archive_error + (string list \<times> nat)" where
  "check_members exact lower acc [] = Inr (exact, acc)"
| "check_members exact lower acc (m # ms) =
    bind_res (map_err (\<lambda>r. (ae_cap (path_code r))\<lparr>ae_member := Some (mb_path m)\<rparr>) (check_path (mb_path m))) (\<lambda>_.
      if mb_kind m \<noteq> Regular then Inl (ae_at MemberType None (mb_path m))
      else if mb_path m \<in> set exact then Inl (ae_at PathDuplicate None (mb_path m))
      else if to_lower (mb_path m) \<in> set lower then Inl (ae_at PathCollision None (mb_path m))
      else if mb_path m = ''ck.json'' \<and> length (mb_bytes m) > MANIFEST_MAX then Inl (ae_cap ManifestTooLarge)
      else bind_res (ok_or (add_size acc (length (mb_bytes m))) (ae_cap ArchiveTooLarge)) (\<lambda>acc'.
        check_members (mb_path m # exact) (to_lower (mb_path m) # lower) acc' ms))"

fun show_octal :: "nat \<Rightarrow> string" where
  "show_octal n = (if n < 8 then [digit_char n] else show_octal (n div 8) @ [digit_char (n mod 8)])"

declare show_octal.simps [simp del]

definition pad0 :: "nat \<Rightarrow> string \<Rightarrow> string" where
  "pad0 w s = replicate (w - length s) CHR ''0'' @ s"

text \<open>\<open>copy_from_slice\<close> into a part of the block.\<close>

definition patch_at :: "nat \<Rightarrow> string \<Rightarrow> string \<Rightarrow> string" where
  "patch_at i s h = take i h @ s @ drop (i + length s) h"

definition zeros :: "nat \<Rightarrow> string" where
  "zeros n = replicate n CHR 0x00"

definition header_blank :: "string \<Rightarrow> string \<Rightarrow> nat \<Rightarrow> string" where
  "header_blank prefix name len =
    (let h = zeros 512;
         h = patch_at 0 name h;
         h = patch_at 345 prefix h;
         h = patch_at 100 (''0000644'' @ [CHR 0x00]) h;
         h = patch_at 108 (''0000000'' @ [CHR 0x00]) h;
         h = patch_at 116 (''0000000'' @ [CHR 0x00]) h;
         h = patch_at 124 (pad0 11 (show_octal len) @ [CHR 0x00]) h;
         h = patch_at 136 (''00000000000'' @ [CHR 0x00]) h;
         h = patch_at 148 (replicate 8 CHR '' '') h;
         h = patch_at 156 ''0'' h;
         h = patch_at 257 (''ustar'' @ [CHR 0x00]) h
     in patch_at 263 ''00'' h)"

definition header :: "string \<Rightarrow> string \<Rightarrow> nat \<Rightarrow> string" where
  "header prefix name len =
    (let h = header_blank prefix name len; s = sum_list (map byte h) in
     patch_at 148 (pad0 6 (show_octal s) @ [CHR 0x00, CHR '' '']) h)"

text \<open>\<open>Vec::resize\<close> to a longer length, filling with zeros.\<close>

definition fill_to :: "nat \<Rightarrow> string \<Rightarrow> string" where
  "fill_to n s = take n s @ zeros (n - length s)"

fun write_members :: "string \<Rightarrow> member list \<Rightarrow> archive_error + string" where
  "write_members out [] = Inr out"
| "write_members out (m # ms) =
    (case ustar_split (mb_path m) of None \<Rightarrow> Inl (ae_at RulePathNotUstar None (mb_path m))
     | Some (prefix, name) \<Rightarrow>
        (let out' = out @ header prefix name (length (mb_bytes m)) @ mb_bytes m in
         write_members (fill_to ((length out' + 511) div 512 * 512) out') ms))"

definition write_archive :: "member list \<Rightarrow> archive_error + string" where
  "write_archive ms =
    (if length ms > MAX_MEMBERS then Inl (ae_new TooManyMembers None)
     else bind_res (check_members [] [] 1024 ms) (\<lambda>(exact, _).
       if ''ck.json'' \<notin> set exact then Inl (ae_new CkJsonMissing None)
       else if (case ms of [] \<Rightarrow> True | m # _ \<Rightarrow> mb_path m \<noteq> ''ck.json'') then Inl (ae_new CkJsonNotFirst None)
       else bind_res (write_members [] ms) (\<lambda>out. Inr (fill_to (length out + 1024) out))))"

section \<open>Octal fields\<close>

definition oct_step :: "nat \<Rightarrow> char \<Rightarrow> nat" where
  "oct_step v b = v * 8 + digit_val b"

lemma foldl_oct_ge: "v \<le> foldl oct_step v s"
proof (induction s arbitrary: v)
  case (Cons b s)
  have "v \<le> oct_step v b" by (simp add: oct_step_def)
  then show ?case using Cons [of "oct_step v b"] by simp
qed simp

lemma fold_octal_Some: "foldl oct_step v s < 2 ^ 64 \<Longrightarrow> fold_octal v s = Some (foldl oct_step v s)"
proof (induction s arbitrary: v)
  case (Cons b s)
  have "oct_step v b < 2 ^ 64" using Cons.prems foldl_oct_ge [of "oct_step v b" s] by simp
  then show ?case using Cons by (simp add: oct_step_def)
qed simp

lemma oct_step_digit: "d < 8 \<Longrightarrow> oct_step v (digit_char d) = v * 8 + d"
  by (simp add: oct_step_def digit_val_char)

lemma show_octal_val: "foldl oct_step 0 (show_octal n) = n"
proof (induction n rule: show_octal.induct)
  case (1 n)
  then show ?case
    by (cases "n < 8"; subst show_octal.simps) (simp_all add: oct_step_digit)
qed

lemma octal_digit: "n < 8 \<Longrightarrow> is_octal (digit_char n)"
proof -
  have "\<forall>n \<in> set [0..<8]. is_octal (digit_char n)" by code_simp
  then show "n < 8 \<Longrightarrow> is_octal (digit_char n)" by simp
qed

lemma show_octal_digits: "c \<in> set (show_octal n) \<Longrightarrow> is_octal c"
  by (induction n rule: show_octal.induct) (subst (asm) show_octal.simps, auto split: if_splits simp: octal_digit)

lemma show_octal_length: "n < 8 ^ w \<Longrightarrow> 0 < w \<Longrightarrow> length (show_octal n) \<le> w"
proof (induction w arbitrary: n)
  case (Suc w)
  show ?case
  proof (cases "n < 8")
    case True
    then show ?thesis by (simp add: show_octal.simps)
  next
    case False
    then have "0 < w" using Suc.prems by (cases w) auto
    moreover have "n div 8 < 8 ^ w" using Suc.prems by (simp add: div_less_iff_less_mult mult.commute)
    ultimately have "length (show_octal (n div 8)) \<le> w" using Suc.IH by blast
    then show ?thesis using False by (simp add: show_octal.simps [of n])
  qed
qed simp

lemma foldl_pad: "foldl oct_step 0 (pad0 w s) = foldl oct_step 0 s"
proof -
  have "foldl oct_step 0 (replicate k CHR ''0'') = 0" for k
    by (induction k) (simp_all add: oct_step_def digit_val_def byte_def)
  then show ?thesis by (simp add: pad0_def)
qed

lemma length_pad: "length s \<le> w \<Longrightarrow> length (pad0 w s) = w"
  by (simp add: pad0_def)

lemma octal_pad:
  assumes "n < 8 ^ w" "0 < w" "n < 2 ^ 64" and "rest \<noteq> []" "set rest \<subseteq> {CHR 0x00, CHR '' ''}"
  shows "octal (pad0 w (show_octal n) @ rest) = Some n"
proof -
  have z: "is_octal CHR ''0''" by code_simp
  have d: "\<forall>c \<in> set (pad0 w (show_octal n)). is_octal c" using z show_octal_digits by (auto simp: pad0_def)
  have "\<not> is_octal CHR 0x00" "\<not> is_octal CHR '' ''" by code_simp+
  then have "\<not> is_octal (hd rest)" using assms(4,5) hd_in_set by fastforce
  then have t: "takeWhile is_octal (pad0 w (show_octal n) @ rest) = pad0 w (show_octal n)"
    using d assms(4) by (cases rest) (simp_all add: takeWhile_append)
  have l: "length (pad0 w (show_octal n)) = w" using length_pad show_octal_length assms by blast
  have "\<not> list_ex (\<lambda>b. b \<noteq> CHR 0x00 \<and> b \<noteq> CHR '' '') rest" using assms(5) by (auto simp: list_ex_iff)
  moreover have "fold_octal 0 (pad0 w (show_octal n)) = Some n"
    using fold_octal_Some [of 0 "pad0 w (show_octal n)"] assms(3) by (simp add: foldl_pad show_octal_val)
  ultimately show ?thesis using assms(2,4) l unfolding octal_def Let_def t by simp
qed

section \<open>The header as a row of fields\<close>

definition padded :: "nat \<Rightarrow> string \<Rightarrow> string" where
  "padded w s = s @ zeros (w - length s)"

definition layout512 :: "string \<Rightarrow> string \<Rightarrow> string \<Rightarrow> string \<Rightarrow> string" where
  "layout512 n sz chk p = n @ (''0000644'' @ [CHR 0x00]) @ (''0000000'' @ [CHR 0x00]) @ (''0000000'' @ [CHR 0x00]) @ sz
     @ (''00000000000'' @ [CHR 0x00]) @ chk @ ''0'' @ zeros 100 @ (''ustar'' @ [CHR 0x00]) @ ''00'' @ zeros 80 @ p @ zeros 12"

lemma length_zeros [simp]: "length (zeros n) = n"
  by (simp add: zeros_def)

lemma zeros_0 [simp]: "zeros 0 = []"
  by (simp add: zeros_def)

lemma take_zeros [simp]: "take i (zeros n) = zeros (min i n)"
  by (simp add: zeros_def)

lemma drop_zeros [simp]: "drop i (zeros n) = zeros (n - i)"
  by (simp add: zeros_def)

lemma header_blank_layout:
  assumes "length prefix \<le> 155" "length name \<le> 100" "length (show_octal len) \<le> 11"
  shows "header_blank prefix name len = layout512 (padded 100 name) (pad0 11 (show_octal len) @ [CHR 0x00])
    (replicate 8 CHR '' '') (padded 155 prefix)"
proof -
  define N where "N = padded 100 name"
  define P where "P = padded 155 prefix"
  define S where "S = pad0 11 (show_octal len) @ [CHR 0x00]"
  have l: "length N = 100" "length P = 155" "length S = 12" using assms by (simp_all add: N_def P_def S_def padded_def length_pad)
  have 1: "patch_at 0 name (zeros 512) = N @ zeros 412" using assms
    by (simp add: patch_at_def N_def padded_def zeros_def flip: replicate_add)
  have 2: "patch_at 345 prefix (N @ zeros 412) = N @ zeros 245 @ P @ zeros 12" using assms l
    by (simp add: patch_at_def P_def padded_def zeros_def flip: replicate_add)
  show ?thesis unfolding header_blank_def Let_def 1 2 S_def [symmetric] N_def [symmetric] P_def [symmetric]
    by (simp add: patch_at_def l layout512_def)
qed

lemma header_layout:
  assumes "length prefix \<le> 155" "length name \<le> 100" "length (show_octal len) \<le> 11"
    and s: "s = sum_list (map byte (header_blank prefix name len))" "length (show_octal s) \<le> 6"
  shows "header prefix name len = layout512 (padded 100 name) (pad0 11 (show_octal len) @ [CHR 0x00])
    (pad0 6 (show_octal s) @ [CHR 0x00, CHR '' '']) (padded 155 prefix)"
proof -
  have l: "length (padded 100 name) = 100" "length (padded 155 prefix) = 155"
    "length (pad0 11 (show_octal len)) = 11" "length (pad0 6 (show_octal s)) = 6"
    using assms by (simp_all add: padded_def length_pad)
  show ?thesis unfolding header_def Let_def s(1) [symmetric]
    unfolding header_blank_layout [OF assms(1-3)]
    by (simp add: patch_at_def l layout512_def)
qed

definition fields_ok :: "string \<Rightarrow> string \<Rightarrow> string \<Rightarrow> string \<Rightarrow> bool" where
  "fields_ok n sz chk p \<longleftrightarrow> length n = 100 \<and> length sz = 12 \<and> length chk = 8 \<and> length p = 155"

lemma layout512_fields:
  assumes "fields_ok n sz chk p"
  shows "length (layout512 n sz chk p) = 512" "take 100 (layout512 n sz chk p) = n"
    "slice 124 136 (layout512 n sz chk p) = sz" "slice 148 156 (layout512 n sz chk p) = chk"
    "layout512 n sz chk p ! 156 = CHR ''0''" "slice 257 263 (layout512 n sz chk p) = ''ustar'' @ [CHR 0x00]"
    "slice 263 265 (layout512 n sz chk p) = ''00''" "slice 345 500 (layout512 n sz chk p) = p"
    "\<not> all_zero (layout512 n sz chk p)"
proof -
  note l = assms [unfolded fields_ok_def]
  show "length (layout512 n sz chk p) = 512" "take 100 (layout512 n sz chk p) = n"
    "slice 124 136 (layout512 n sz chk p) = sz" "slice 148 156 (layout512 n sz chk p) = chk"
    "slice 257 263 (layout512 n sz chk p) = ''ustar'' @ [CHR 0x00]"
    "slice 263 265 (layout512 n sz chk p) = ''00''" "slice 345 500 (layout512 n sz chk p) = p"
    using l by (simp_all add: slice_def layout512_def)
  show "layout512 n sz chk p ! 156 = CHR ''0''" using l by (simp add: layout512_def nth_append)
  show "\<not> all_zero (layout512 n sz chk p)" by (simp add: all_zero_def layout512_def)
qed

lemma sum_outside:
  "(\<And>i. k \<le> i \<Longrightarrow> i < k + length xs \<Longrightarrow> \<not> (148 \<le> i \<and> i < 156)) \<Longrightarrow>
    sum_list (map (\<lambda>(i, b). if 148 \<le> i \<and> i < 156 then 32 else byte b) (enumerate k xs)) = sum_list (map byte xs)"
proof (induction xs arbitrary: k)
  case (Cons x xs)
  have "\<not> (148 \<le> k \<and> k < 156)" using Cons.prems [of k] by simp
  moreover have "\<And>i. Suc k \<le> i \<Longrightarrow> i < Suc k + length xs \<Longrightarrow> \<not> (148 \<le> i \<and> i < 156)" using Cons.prems by simp
  ultimately show ?case using Cons.IH [of "Suc k"] by auto
qed simp

lemma sum_inside:
  "148 \<le> k \<Longrightarrow> k + length xs \<le> 156 \<Longrightarrow>
    sum_list (map (\<lambda>(i, b). if 148 \<le> i \<and> i < 156 then 32 else byte b) (enumerate k xs)) = length xs * 32"
  by (induction xs arbitrary: k) simp_all

lemma header_sum_split:
  assumes "length xs = 148" "length chk = 8"
  shows "header_sum (xs @ chk @ ys) = sum_list (map byte xs) + 256 + sum_list (map byte ys)"
proof -
  have "sum_list (map (\<lambda>(i, b). if 148 \<le> i \<and> i < 156 then 32 else byte b) (enumerate 0 xs)) = sum_list (map byte xs)"
    using assms by (intro sum_outside) simp
  moreover have "sum_list (map (\<lambda>(i, b). if 148 \<le> i \<and> i < 156 then 32 else byte b) (enumerate 156 ys)) = sum_list (map byte ys)"
    by (intro sum_outside) simp
  moreover have "sum_list (map (\<lambda>(i, b). if 148 \<le> i \<and> i < 156 then 32 else byte b) (enumerate 148 chk)) = 256"
    using sum_inside [of 148 chk] assms by simp
  ultimately show ?thesis using assms by (simp add: header_sum_def enumerate_append_eq)
qed

lemma header_sum_layout:
  assumes "fields_ok n sz chk p"
  shows "header_sum (layout512 n sz chk p) = sum_list (map byte (layout512 n sz (replicate 8 CHR '' '') p))"
proof -
  define xs where "xs = n @ (''0000644'' @ [CHR 0x00]) @ (''0000000'' @ [CHR 0x00]) @ (''0000000'' @ [CHR 0x00]) @ sz
     @ (''00000000000'' @ [CHR 0x00])"
  define ys where "ys = ''0'' @ zeros 100 @ (''ustar'' @ [CHR 0x00]) @ ''00'' @ zeros 80 @ p @ zeros 12"
  have s: "layout512 n sz c p = xs @ c @ ys" for c by (simp add: layout512_def xs_def ys_def)
  have "length xs = 148" "length chk = 8" using assms by (simp_all add: fields_ok_def xs_def)
  moreover have "sum_list (map byte (replicate 8 CHR '' '')) = 256" by (simp add: byte_def sum_list_replicate)
  ultimately show ?thesis unfolding s by (subst header_sum_split) simp_all
qed

lemma sum_bytes_le: "sum_list (map byte s) \<le> 255 * length s"
proof (induction s)
  case (Cons c s)
  then show ?case using byte_less [of c] by simp
qed simp

lemma header_size_header:
  assumes "length prefix \<le> 155" "length name \<le> 100" "len < 8 ^ 11"
  obtains n sz chk p where "header prefix name len = layout512 n sz chk p" "fields_ok n sz chk p"
    "n = padded 100 name" "p = padded 155 prefix" "\<And>pos. header_size pos (header prefix name len) = Inr len"
proof -
  define s where "s = sum_list (map byte (header_blank prefix name len))"
  have o: "length (show_octal len) \<le> 11" by (rule show_octal_length) (use assms in simp_all)
  have b: "header_blank prefix name len = layout512 (padded 100 name) (pad0 11 (show_octal len) @ [CHR 0x00])
      (replicate 8 CHR '' '') (padded 155 prefix)" using header_blank_layout [OF assms(1,2) o] .
  have "fields_ok (padded 100 name) (pad0 11 (show_octal len) @ [CHR 0x00]) (replicate 8 CHR '' '') (padded 155 prefix)"
    using assms(1,2) o by (simp add: fields_ok_def padded_def length_pad)
  then have "length (header_blank prefix name len) = 512" using layout512_fields(1) b by simp
  then have s6: "s < 8 ^ 6" using sum_bytes_le [of "header_blank prefix name len"] by (simp add: s_def)
  have so: "length (show_octal s) \<le> 6" by (rule show_octal_length) (use s6 in simp_all)
  let ?n = "padded 100 name" and ?sz = "pad0 11 (show_octal len) @ [CHR 0x00]"
    and ?chk = "pad0 6 (show_octal s) @ [CHR 0x00, CHR '' '']" and ?p = "padded 155 prefix"
  have h: "header prefix name len = layout512 ?n ?sz ?chk ?p" using header_layout [OF assms(1,2) o s_def so] .
  have f: "fields_ok ?n ?sz ?chk ?p" using assms(1,2) o so by (simp add: fields_ok_def padded_def length_pad)
  have "octal ?chk = Some s" using s6 by (intro octal_pad) simp_all
  moreover have "octal ?sz = Some len" using assms(3) by (intro octal_pad) simp_all
  moreover have "header_sum (layout512 ?n ?sz ?chk ?p) = s" using header_sum_layout [OF f] b by (simp add: s_def)
  ultimately have "header_size pos (header prefix name len) = Inr len" for pos
    using layout512_fields [OF f] unfolding h header_size_def by simp
  then show ?thesis using that [OF h f] by simp
qed

section \<open>Paths\<close>

lemma path_byte_ascii: "path_byte b \<Longrightarrow> byte b < 128 \<and> b \<noteq> CHR 0x00 \<and> b \<noteq> CHR ''/''"
proof -
  assume "path_byte b"
  then have "b \<in> {CHR ''.'', CHR ''_'', CHR ''-''} \<or> 97 \<le> byte b \<and> byte b \<le> 122 \<or> 65 \<le> byte b \<and> byte b \<le> 90
      \<or> 48 \<le> byte b \<and> byte b \<le> 57"
    by (auto simp: path_byte_def is_alnum_def is_alpha_def is_lower_byte is_upper_byte is_digit_byte)
  then have "byte b \<in> {46, 95, 45} \<or> 97 \<le> byte b \<and> byte b \<le> 122 \<or> 65 \<le> byte b \<and> byte b \<le> 90
      \<or> 48 \<le> byte b \<and> byte b \<le> 57"
    by (elim disjE) (auto simp: byte_def)
  then have "byte b < 128" "byte b \<noteq> 0" "byte b \<noteq> 47" by auto
  moreover have "byte CHR 0x00 = 0" "byte CHR ''/'' = 47" by (simp_all add: byte_def)
  ultimately show "byte b < 128 \<and> b \<noteq> CHR 0x00 \<and> b \<noteq> CHR ''/''" by metis
qed

lemma check_path_Inr: "check_path p = Inr () \<longleftrightarrow> (\<forall>s \<in> set (split_on CHR ''/'' p). \<not> segment_bad s) \<and> length p \<le> PATH_MAX \<and> ustar_split p \<noteq> None"
  by (auto simp: check_path_def list_ex_iff not_less)

lemma in_split: "c \<in> set p \<Longrightarrow> c = d \<or> (\<exists>q \<in> set (split_on d p). c \<in> set q)"
  using set_join_on [of d "split_on d p"] by (auto simp: join_split)

lemma check_path_bytes:
  assumes "check_path p = Inr ()" and "c \<in> set p"
  shows "byte c < 128" "c \<noteq> CHR 0x00"
proof -
  have "path_byte c \<or> c = CHR ''/''"
  proof (cases "c = CHR ''/''")
    case False
    then obtain q where q: "q \<in> set (split_on CHR ''/'' p)" "c \<in> set q"
      using in_split [OF assms(2), of "CHR ''/''"] by blast
    then have "\<not> segment_bad q" using assms(1) by (simp add: check_path_Inr)
    then show ?thesis using q(2) by (simp add: segment_bad_def list_all_iff)
  qed simp
  moreover have "byte CHR ''/'' < 128" by code_simp
  ultimately show "byte c < 128" "c \<noteq> CHR 0x00" using path_byte_ascii by auto
qed

lemma check_path_nonempty: "check_path p = Inr () \<Longrightarrow> p \<noteq> []"
proof -
  have "check_path [] \<noteq> Inr ()" by (simp add: check_path_def segment_bad_def)
  then show "check_path p = Inr () \<Longrightarrow> p \<noteq> []" by metis
qed

lemma ustar_split_Some:
  assumes "ustar_split p = Some (pf, nm)" and "p \<noteq> []"
  shows "length pf \<le> 155 \<and> length nm \<le> 100 \<and> (pf = [] \<and> nm = p \<or> pf \<noteq> [] \<and> p = pf @ ''/'' @ nm)"
proof (cases "length p \<le> 100")
  case True
  then show ?thesis using assms by (simp add: ustar_split_def)
next
  case False
  then obtain i where i: "find (\<lambda>i. p ! i = CHR ''/'') [max (length p - 101) 1 ..< min 155 (length p - 2) + 1] = Some i"
      "pf = take i p" "nm = drop (i + 1) p" using assms(1) by (auto simp: ustar_split_def)
  then obtain j where j: "j < length [max (length p - 101) 1 ..< min 155 (length p - 2) + 1]"
      "i = [max (length p - 101) 1 ..< min 155 (length p - 2) + 1] ! j" and c: "p ! i = CHR ''/''"
    by (auto simp: find_Some_iff)
  then have "i \<in> set [max (length p - 101) 1 ..< min 155 (length p - 2) + 1]" using nth_mem by blast
  then have b: "length p - 101 \<le> i" "1 \<le> i" "i \<le> 155" "i \<le> length p - 2" by auto
  then have "i < length p" using False by simp
  then have "p = take i p @ ''/'' @ drop (i + 1) p" using id_take_nth_drop [of i p] c by simp
  then show ?thesis using b False i by auto
qed

lemma field_text_padded: "(\<And>c. c \<in> set s \<Longrightarrow> byte c < 128 \<and> c \<noteq> CHR 0x00) \<Longrightarrow> field_text (padded w s) = s"
proof -
  assume a: "\<And>c. c \<in> set s \<Longrightarrow> byte c < 128 \<and> c \<noteq> CHR 0x00"
  have "takeWhile (\<lambda>b. b \<noteq> CHR 0x00) (zeros k) = []" for k by (cases k) (simp_all add: zeros_def)
  then have "takeWhile (\<lambda>b. b \<noteq> CHR 0x00) (padded w s) = s" using a by (simp add: padded_def takeWhile_append2)
  then have "field_text (padded w s) = concat (map char_utf8 s)" by (simp add: field_text_def)
  also have "\<dots> = s" using a by (induction s) (simp_all add: char_utf8_def)
  finally show ?thesis .
qed

lemma header_path_header:
  assumes c: "check_path p = Inr ()" and u: "ustar_split p = Some (pf, nm)" and l: "len < 8 ^ 11"
  shows "header_path (header pf nm len) = p"
proof -
  note s = ustar_split_Some [OF u check_path_nonempty [OF c]]
  have "set nm \<union> set pf \<subseteq> set p" using s by auto
  then have b: "byte x < 128 \<and> x \<noteq> CHR 0x00" if "x \<in> set nm \<union> set pf" for x
    using check_path_bytes [OF c, of x] that by blast
  obtain n sz chk q where h: "header pf nm len = layout512 n sz chk q" "fields_ok n sz chk q" "n = padded 100 nm" "q = padded 155 pf"
    by (rule header_size_header [OF _ _ l, of pf nm]) (use s in simp, use s in simp, blast)
  have "field_text (take 100 (header pf nm len)) = nm" "field_text (slice 345 500 (header pf nm len)) = pf"
    using layout512_fields(2,8) [OF h(2)] field_text_padded b unfolding h(1) unfolding h(3,4) by simp_all
  then show ?thesis using s unfolding header_path_def Let_def by (metis append_Nil)
qed

section \<open>Reading back what was written\<close>

definition rounded :: "nat \<Rightarrow> nat" where
  "rounded n = (n + 511) div 512 * 512"

lemma rounded_ge: "n \<le> rounded n"
proof -
  have "512 * ((n + 511) div 512) + (n + 511) mod 512 = n + 511" by (rule mult_div_mod_eq)
  moreover have "(n + 511) mod 512 < 512" by simp
  ultimately show ?thesis unfolding rounded_def by linarith
qed

lemma rounded_add: "512 dvd k \<Longrightarrow> rounded (k + n) = k + rounded n"
proof -
  assume "512 dvd k"
  then obtain j where k: "k = 512 * j" by (rule dvdE)
  have "(512 * j + n + 511) div 512 = j + (n + 511) div 512"
    using div_mult_self2 [of 512 "n + 511" j] by (simp add: ac_simps)
  then show ?thesis by (simp add: rounded_def k)
qed

lemma rounded_dvd: "512 dvd rounded n"
  by (simp add: rounded_def)

definition member_ok :: "member \<Rightarrow> bool" where
  "member_ok m \<longleftrightarrow> check_path (mb_path m) = Inr () \<and> length (mb_bytes m) \<le> ARCHIVE_MAX
     \<and> (mb_path m = ''ck.json'' \<longrightarrow> length (mb_bytes m) \<le> MANIFEST_MAX)"

definition member_header :: "member \<Rightarrow> string" where
  "member_header m = header (fst (the (ustar_split (mb_path m)))) (snd (the (ustar_split (mb_path m)))) (length (mb_bytes m))"

definition block :: "member \<Rightarrow> string" where
  "block m = member_header m @ mb_bytes m @ zeros (rounded (length (mb_bytes m)) - length (mb_bytes m))"

lemma member_header_props:
  assumes "member_ok m"
  shows "length (member_header m) = 512" "\<not> all_zero (member_header m)" "header_size pos (member_header m) = Inr (length (mb_bytes m))"
    "header_path (member_header m) = mb_path m"
proof -
  have c: "check_path (mb_path m) = Inr ()" and l: "length (mb_bytes m) < 8 ^ 11"
    using assms by (simp_all add: member_ok_def ARCHIVE_MAX_def)
  obtain pf nm where u: "ustar_split (mb_path m) = Some (pf, nm)" using c by (auto simp: check_path_Inr)
  have s: "length pf \<le> 155" "length nm \<le> 100" using ustar_split_Some [OF u check_path_nonempty [OF c]] by auto
  have h: "member_header m = header pf nm (length (mb_bytes m))" by (simp add: member_header_def u)
  obtain n sz chk q where l5: "header pf nm (length (mb_bytes m)) = layout512 n sz chk q" "fields_ok n sz chk q"
    and hs: "\<And>pos. header_size pos (header pf nm (length (mb_bytes m))) = Inr (length (mb_bytes m))"
    by (rule header_size_header [OF s l]) blast
  show "length (member_header m) = 512" "\<not> all_zero (member_header m)"
    using layout512_fields(1,9) [OF l5(2)] by (simp_all add: h l5(1))
  show "header_size pos (member_header m) = Inr (length (mb_bytes m))" by (simp add: h hs)
  show "header_path (member_header m) = mb_path m" using header_path_header [OF c u l] h by simp
qed

lemma length_block: "member_ok m \<Longrightarrow> length (block m) = 512 + rounded (length (mb_bytes m))"
  using rounded_ge [of "length (mb_bytes m)"] by (simp add: block_def member_header_props)

lemma block_dvd: "member_ok m \<Longrightarrow> 512 dvd length (block m)"
  by (simp add: length_block rounded_dvd)

lemma write_members_blocks:
  "512 dvd length out \<Longrightarrow> \<forall>m \<in> set ms. member_ok m \<Longrightarrow> write_members out ms = Inr (out @ concat (map block ms))"
proof (induction ms arbitrary: out)
  case (Cons m ms)
  have ok: "member_ok m" using Cons.prems by simp
  obtain pf nm where u: "ustar_split (mb_path m) = Some (pf, nm)" using ok by (auto simp: member_ok_def check_path_Inr)
  define out' where "out' = out @ member_header m @ mb_bytes m"
  have "length out' = (length out + 512) + length (mb_bytes m)" using ok by (simp add: out'_def member_header_props)
  moreover have "512 dvd length out + 512" using Cons.prems by simp
  ultimately have r: "rounded (length out') = length out + 512 + rounded (length (mb_bytes m))" using rounded_add by simp
  have "fill_to (rounded (length out')) out' = out' @ zeros (rounded (length out') - length out')"
    using rounded_ge by (simp add: fill_to_def)
  also have "\<dots> = out @ block m" using r ok by (simp add: out'_def block_def member_header_props)
  finally have f: "fill_to ((length out' + 511) div 512 * 512) out' = out @ block m" by (simp add: rounded_def)
  have "512 dvd length (out @ block m)" using Cons.prems ok block_dvd by simp
  then have "write_members (out @ block m) ms = Inr ((out @ block m) @ concat (map block ms))"
    using Cons.IH Cons.prems by simp
  then show ?case using f by (simp add: u out'_def member_header_def Let_def)
qed simp

lemma slice_middle: "length xs = i \<Longrightarrow> length ys = j - i \<Longrightarrow> slice i j (xs @ ys @ zs) = ys"
  by (simp add: slice_def)

lemma next_header_rounded: "pos \<le> 2 ^ 32 \<Longrightarrow> n \<le> 2 ^ 32 \<Longrightarrow> next_header pos n = Some (pos + 512 + rounded n)"
proof -
  assume p: "pos \<le> 2 ^ 32" "n \<le> 2 ^ 32"
  have "(n + 511) div 512 * 512 \<le> n + 511" by simp
  moreover have "(n + 511) div 512 \<le> n + 511" by simp
  ultimately show ?thesis using p by (simp add: next_header_def rounded_def Let_def not_le) linarith
qed

lemma read_one_block:
  assumes ok: "member_ok m" and a: "a = out @ block m @ rest" and l: "length a \<le> ARCHIVE_MAX"
    and n: "length ms + 1 \<le> MAX_MEMBERS" and low: "bt_get lower (to_lower (mb_path m)) = None"
  shows "read_one a (length out) ms lower = Inr (length out + length (block m),
    bt_insert (mb_path m) \<lparr>rm_bytes = mb_bytes m, rm_offset = length out\<rparr> ms, bt_insert (to_lower (mb_path m)) (mb_path m) lower)"
proof -
  note h = member_header_props [OF ok]
  have h1: "slice (length out) (length out + 512) a = member_header m"
    unfolding a block_def append_assoc by (rule slice_middle) (simp_all add: h)
  have "slice (length (out @ member_header m)) (length (out @ member_header m) + length (mb_bytes m))
      ((out @ member_header m) @ mb_bytes m @ zeros (rounded (length (mb_bytes m)) - length (mb_bytes m)) @ rest) = mb_bytes m"
    by (rule slice_middle) simp_all
  then have h2: "slice (length out + 512) (length out + 512 + length (mb_bytes m)) a = mb_bytes m"
    by (simp add: a block_def h)
  have e: "length out + 512 + length (mb_bytes m) \<le> length a"
    using length_block [OF ok] rounded_ge [of "length (mb_bytes m)"] by (simp add: a)
  then have b: "length out + 512 + length (mb_bytes m) \<le> 10485760" using l by (simp add: ARCHIVE_MAX_def)
  then have nx: "next_header (length out) (length (mb_bytes m)) = Some (length out + length (block m))"
    using length_block [OF ok] by (simp add: next_header_rounded)
  have "check_path (mb_path m) = Inr ()" "\<not> (mb_path m = ''ck.json'' \<and> MANIFEST_MAX < length (mb_bytes m))"
    using ok by (auto simp: member_ok_def)
  then show ?thesis using n low e b
    unfolding read_one_def Let_def h1 h(3) bind_res_Inr h(4) by (simp add: h2 nx)
qed

fun placed :: "nat \<Rightarrow> member list \<Rightarrow> (string \<times> read_member) list" where
  "placed pos [] = []"
| "placed pos (m # ms) = (mb_path m, \<lparr>rm_bytes = mb_bytes m, rm_offset = pos\<rparr>) # placed (pos + length (block m)) ms"

lemma length_bt_insert: "k \<notin> fst ` set m \<Longrightarrow> length (bt_insert k v m) = Suc (length m)"
  by (induction m) auto

lemma read_loop_end:
  assumes "a = out @ zeros 1024"
  shows "read_loop a (length out) ms lower = Inr ms"
proof -
  have s: "slice (length out) (length out + 512) a = zeros 512" "slice (length out + 512) (length out + 1024) a = zeros 512"
    "drop (length out + 1024) a = []"
    by (simp_all add: assms slice_def)
  have z: "all_zero (zeros k)" for k by (simp add: all_zero_def zeros_def list_all_iff)
  show ?thesis by (subst read_loop.simps) (simp add: read_end_def s z, simp add: assms)
qed

lemma read_loop_blocks:
  assumes "a = out @ concat (map block bs) @ zeros 1024" and "length a \<le> ARCHIVE_MAX" and "\<forall>m \<in> set bs. member_ok m"
    and "length ms + length bs \<le> MAX_MEMBERS" and "distinct (map (\<lambda>m. to_lower (mb_path m)) bs)"
    and "fst ` set lower = to_lower ` fst ` set ms" and "fst ` set lower \<inter> (\<lambda>m. to_lower (mb_path m)) ` set bs = {}"
  shows "read_loop a (length out) ms lower = Inr (fold (\<lambda>(k, v). bt_insert k v) (placed (length out) bs) ms)"
  using assms
proof (induction bs arbitrary: out ms lower)
  case Nil
  then show ?case by (simp add: read_loop_end)
next
  case (Cons m bs)
  have ok: "member_ok m" using Cons.prems by simp
  note h = member_header_props [OF ok]
  have a: "a = out @ block m @ (concat (map block bs) @ zeros 1024)" using Cons.prems by simp
  have low: "bt_get lower (to_lower (mb_path m)) = None" using Cons.prems by (simp add: bt_get_None)
  let ?ms = "bt_insert (mb_path m) \<lparr>rm_bytes = mb_bytes m, rm_offset = length out\<rparr> ms"
  let ?lower = "bt_insert (to_lower (mb_path m)) (mb_path m) lower"
  have one: "read_one a (length out) ms lower = Inr (length out + length (block m), ?ms, ?lower)"
    using read_one_block [OF ok a _ _ low] Cons.prems by simp
  have hd: "slice (length out) (length out + 512) a = member_header m"
    unfolding a block_def append_assoc by (rule slice_middle) (simp_all add: h)
  have "512 \<le> length a - length out" using a length_block [OF ok] by simp
  then have "read_loop a (length out) ms lower = read_loop a (length (out @ block m)) ?ms ?lower"
    by (subst read_loop.simps) (simp add: hd h one)
  moreover have "mb_path m \<notin> fst ` set ms" using Cons.prems by auto
  then have "length ?ms = Suc (length ms)" by (rule length_bt_insert)
  then have "read_loop a (length (out @ block m)) ?ms ?lower
      = Inr (fold (\<lambda>(k, v). bt_insert k v) (placed (length (out @ block m)) bs) ?ms)"
    using Cons.prems by (intro Cons.IH) (auto simp: set_keys_insert)
  ultimately show ?case by simp
qed

lemma add_size_Some: "add_size acc len = Some t \<Longrightarrow> t = acc + 512 + rounded len \<and> t \<le> ARCHIVE_MAX"
  by (auto simp: add_size_def rounded_def Let_def split: if_splits)

lemma check_members_Inr:
  "check_members exact lower acc ms = Inr (ex, t) \<Longrightarrow>
    (\<forall>m \<in> set ms. member_ok m \<and> mb_kind m = Regular) \<and> distinct (map (\<lambda>m. to_lower (mb_path m)) ms)
    \<and> set lower \<inter> (\<lambda>m. to_lower (mb_path m)) ` set ms = {} \<and> set ex = set exact \<union> mb_path ` set ms
    \<and> t = acc + sum_list (map (\<lambda>m. length (block m)) ms) \<and> (ms \<noteq> [] \<longrightarrow> t \<le> ARCHIVE_MAX)"
proof (induction ms arbitrary: exact lower acc)
  case (Cons m ms)
  obtain t1 where c: "check_path (mb_path m) = Inr ()" "mb_kind m = Regular" "to_lower (mb_path m) \<notin> set lower"
      "\<not> (mb_path m = ''ck.json'' \<and> length (mb_bytes m) > MANIFEST_MAX)" "add_size acc (length (mb_bytes m)) = Some t1"
    and r: "check_members (mb_path m # exact) (to_lower (mb_path m) # lower) t1 ms = Inr (ex, t)"
    using Cons.prems by (auto simp: bind_res_eq_Inr split: if_splits)
  note t1 = add_size_Some [OF c(5)]
  have "length (mb_bytes m) \<le> ARCHIVE_MAX" using t1 rounded_ge [of "length (mb_bytes m)"] by linarith
  then have ok: "member_ok m" using c by (auto simp: member_ok_def)
  show ?case using Cons.IH [OF r] ok c(2,3) t1 length_block [OF ok] by (cases ms) (auto simp: image_iff)
qed simp

lemma map_bt_insert: "map (\<lambda>(p, m). (p, f m)) (bt_insert k v ms) = bt_insert k (f v) (map (\<lambda>(p, m). (p, f m)) ms)"
  by (induction ms) auto

lemma placed_bytes:
  "map (\<lambda>(p, m). (p, rm_bytes m)) (fold (\<lambda>(k, v). bt_insert k v) (placed pos bs) ms)
   = fold (\<lambda>(k, v). bt_insert k v) (map (\<lambda>m. (mb_path m, mb_bytes m)) bs) (map (\<lambda>(p, m). (p, rm_bytes m)) ms)"
  by (induction bs arbitrary: pos ms) (simp_all add: map_bt_insert)

lemma write_archive_Inr:
  assumes "write_archive ms = Inr a"
  shows "\<forall>m \<in> set ms. member_ok m \<and> mb_kind m = Regular" "distinct (map (\<lambda>m. to_lower (mb_path m)) ms)"
    "length ms \<le> MAX_MEMBERS" "ms \<noteq> [] \<and> mb_path (hd ms) = ''ck.json''"
    "a = concat (map block ms) @ zeros 1024" "length a \<le> ARCHIVE_MAX"
proof -
  obtain ex t where c: "check_members [] [] 1024 ms = Inr (ex, t)"
    using assms by (auto simp: write_archive_def bind_res_eq_Inr split: if_splits)
  note m = check_members_Inr [OF c]
  have w: "write_members [] ms = Inr (concat (map block ms))" using write_members_blocks [of "[]" ms] m by simp
  show ne: "ms \<noteq> [] \<and> mb_path (hd ms) = ''ck.json''"
    using assms by (cases ms) (auto simp: write_archive_def c bind_res_eq_Inr split: if_splits)
  show a: "a = concat (map block ms) @ zeros 1024"
    using assms by (auto simp: write_archive_def c w fill_to_def split: if_splits)
  show "length ms \<le> MAX_MEMBERS" using assms by (auto simp: write_archive_def split: if_splits)
  show "\<forall>m \<in> set ms. member_ok m \<and> mb_kind m = Regular" "distinct (map (\<lambda>m. to_lower (mb_path m)) ms)" using m by auto
  show "length a \<le> ARCHIVE_MAX" using m ne a by (auto simp: length_concat o_def)
qed

lemma write_read:
  assumes "write_archive ms = Inr a"
  shows "read_archive a = Inr (bt_of_list (map (\<lambda>m. (mb_path m, mb_bytes m)) ms))"
proof -
  note w = write_archive_Inr [OF assms]
  have r: "read_members a = Inr (fold (\<lambda>(k, v). bt_insert k v) (placed 0 ms) [])"
    using read_loop_blocks [of a "[]" ms "[]" "[]"] w by (simp add: read_members_def)
  let ?ms = "fold (\<lambda>(k, v). bt_insert k v) (placed 0 ms) []"
  have b: "map (\<lambda>(p, m). (p, rm_bytes m)) ?ms = bt_of_list (map (\<lambda>m. (mb_path m, mb_bytes m)) ms)"
    using placed_bytes [of 0 ms "[]"] by (simp add: bt_of_list_def)
  have "fst ` set (bt_of_list (map (\<lambda>m. (mb_path m, mb_bytes m)) ms)) = mb_path ` set ms"
  proof -
    have "fst ` set (bt_of_list kvs) = fst ` set kvs" for kvs :: "(string \<times> string) list"
      using dom_bt_get [of "bt_of_list kvs"] by (simp add: bt_get_of_list dom_map_of_conv_image_fst)
    then show ?thesis by (simp add: image_image)
  qed
  moreover have "fst ` set ?ms = fst ` set (map (\<lambda>(p, m). (p, rm_bytes m)) ?ms)"
    by (simp add: image_image case_prod_beta del: map_map)
  ultimately have "fst ` set ?ms = mb_path ` set ms" using b by simp
  moreover have "''ck.json'' \<in> mb_path ` set ms" using w(4) by (cases ms) auto
  ultimately have "bt_has ?ms ''ck.json''" by simp
  then show ?thesis using r b by (simp add: read_archive_def del: bt_has_iff)
qed

section \<open>What the reader accepts is safe\<close>

definition extent :: "read_member \<Rightarrow> nat" where
  "extent m = rm_offset m + 512 + rounded (length (rm_bytes m))"

definition member_safe :: "string \<Rightarrow> string \<Rightarrow> read_member \<Rightarrow> bool" where
  "member_safe a p m \<longleftrightarrow> check_path p = Inr () \<and> 512 dvd rm_offset m
     \<and> rm_offset m + 512 + length (rm_bytes m) \<le> length a
     \<and> rm_bytes m = slice (rm_offset m + 512) (rm_offset m + 512 + length (rm_bytes m)) a
     \<and> (p = ''ck.json'' \<longrightarrow> length (rm_bytes m) \<le> MANIFEST_MAX)"

definition members_safe :: "string \<Rightarrow> members \<Rightarrow> bool" where
  "members_safe a ms \<longleftrightarrow> bt_inv ms \<and> length ms \<le> MAX_MEMBERS \<and> inj_on to_lower (fst ` set ms)
     \<and> (\<forall>p m. bt_get ms p = Some m \<longrightarrow> member_safe a p m)
     \<and> (\<forall>p q m n. bt_get ms p = Some m \<and> bt_get ms q = Some n \<and> p \<noteq> q \<longrightarrow> extent m \<le> rm_offset n \<or> extent n \<le> rm_offset m)"

definition loop_inv :: "string \<Rightarrow> nat \<Rightarrow> members \<Rightarrow> (string \<times> string) list \<Rightarrow> bool" where
  "loop_inv a pos ms lower \<longleftrightarrow> members_safe a ms \<and> 512 dvd pos \<and> (\<forall>p m. bt_get ms p = Some m \<longrightarrow> extent m \<le> pos)
     \<and> fst ` set lower = to_lower ` fst ` set ms"

lemma next_header_Some: "next_header pos n = Some q \<Longrightarrow> q = pos + 512 + rounded n"
  by (auto simp: next_header_def rounded_def Let_def split: if_splits)

lemma read_one_Inr:
  assumes "read_one a pos ms lower = Inr (pos', ms', lower')"
  obtains p n where "check_path p = Inr ()" "length ms + 1 \<le> MAX_MEMBERS" "to_lower p \<notin> fst ` set lower"
    "lower' = bt_insert (to_lower p) p lower" "pos + 512 + n \<le> length a" "p = ''ck.json'' \<longrightarrow> n \<le> MANIFEST_MAX"
    "ms' = bt_insert p \<lparr>rm_bytes = slice (pos + 512) (pos + 512 + n) a, rm_offset = pos\<rparr> ms" "pos' = pos + 512 + rounded n"
proof -
  define h where "h = slice pos (pos + 512) a"
  obtain n where n: "header_size pos h = Inr n" using assms by (auto simp: read_one_def h_def Let_def bind_res_eq_Inr)
  have c: "check_path (header_path h) = Inr ()" using assms by (auto simp: read_one_def h_def [symmetric] n Let_def bind_res_eq_Inr)
  have l: "bt_get lower (to_lower (header_path h)) = None"
    using assms by (auto simp: read_one_def h_def [symmetric] n c Let_def bind_res_eq_Inr split: if_splits option.splits)
  show ?thesis
    by (rule that [of "header_path h" n])
      (use assms l in \<open>auto simp: read_one_def h_def [symmetric] n c Let_def bind_res_eq_Inr bt_get_None not_less
        dest: next_header_Some split: if_splits\<close>)
qed

lemma loop_inv_step:
  assumes i: "loop_inv a pos ms lower" and r: "read_one a pos ms lower = Inr (pos', ms', lower')"
  shows "loop_inv a pos' ms' lower'"
  using r
proof (rule read_one_Inr)
  fix p n
  assume c: "check_path p = Inr ()" and len: "length ms + 1 \<le> MAX_MEMBERS" and low: "to_lower p \<notin> fst ` set lower"
    and l': "lower' = bt_insert (to_lower p) p lower" and e: "pos + 512 + n \<le> length a" and ck: "p = ''ck.json'' \<longrightarrow> n \<le> MANIFEST_MAX"
    and m': "ms' = bt_insert p \<lparr>rm_bytes = slice (pos + 512) (pos + 512 + n) a, rm_offset = pos\<rparr> ms"
    and p': "pos' = pos + 512 + rounded n"
  let ?m = "\<lparr>rm_bytes = slice (pos + 512) (pos + 512 + n) a, rm_offset = pos\<rparr>"
  have n: "length (rm_bytes ?m) = n" using e by (simp add: slice_def)
  have i1: "bt_inv ms" "inj_on to_lower (fst ` set ms)" "512 dvd pos" "fst ` set lower = to_lower ` fst ` set ms"
    "\<And>p m. bt_get ms p = Some m \<Longrightarrow> member_safe a p m" "\<And>p m. bt_get ms p = Some m \<Longrightarrow> extent m \<le> pos"
    "\<And>p q m n. bt_get ms p = Some m \<Longrightarrow> bt_get ms q = Some n \<Longrightarrow> p \<noteq> q \<Longrightarrow> extent m \<le> rm_offset n \<or> extent n \<le> rm_offset m"
    using i by (auto simp: loop_inv_def members_safe_def)
  have np: "p \<notin> fst ` set ms" using low i1(4) by auto
  have g: "bt_get ms' q = (if q = p then Some ?m else bt_get ms q)" for q by (simp add: m' bt_get_insert)
  have safe: "member_safe a p ?m" using c e ck n i1(3) by (simp add: member_safe_def)
  have x: "extent ?m = pos'" using n by (simp add: extent_def p')
  have "inj_on to_lower (fst ` set ms')" using i1(2,4) low np by (simp add: m' set_keys_insert)
  moreover have "length ms' \<le> MAX_MEMBERS" using np len by (simp add: m' length_bt_insert)
  moreover have "bt_inv ms'" using i1(1) by (simp add: m' bt_inv_insert)
  moreover have "\<forall>q m. bt_get ms' q = Some m \<longrightarrow> member_safe a q m" using g safe i1(5) by auto
  moreover have "\<forall>q r m n. bt_get ms' q = Some m \<and> bt_get ms' r = Some n \<and> q \<noteq> r \<longrightarrow> extent m \<le> rm_offset n \<or> extent n \<le> rm_offset m"
  proof (intro allI impI, elim conjE)
    fix q r m k assume a: "bt_get ms' q = Some m" "bt_get ms' r = Some k" "q \<noteq> r"
    show "extent m \<le> rm_offset k \<or> extent k \<le> rm_offset m"
    proof (cases "q = p \<or> r = p")
      case True
      then show ?thesis using a g i1(6) by (auto split: if_splits)
    next
      case False
      then show ?thesis using a g i1(7) [of q m r k] by simp
    qed
  qed
  moreover have "512 dvd pos'" using i1(3) rounded_dvd p' by simp
  moreover have "\<forall>q m. bt_get ms' q = Some m \<longrightarrow> extent m \<le> pos'"
  proof (intro allI impI)
    fix q m assume "bt_get ms' q = Some m"
    then have "m = ?m \<or> extent m \<le> pos" using g i1(6) by (auto split: if_splits)
    then show "extent m \<le> pos'" using x p' by auto
  qed
  moreover have "fst ` set lower' = to_lower ` fst ` set ms'" using i1(4) by (simp add: l' m' set_keys_insert)
  ultimately show ?thesis by (simp add: loop_inv_def members_safe_def)
qed

lemma read_loop_safe: "loop_inv a pos ms lower \<Longrightarrow> read_loop a pos ms lower = Inr ms' \<Longrightarrow> members_safe a ms'"
proof (induction a pos ms lower rule: read_loop.induct)
  case (1 a pos ms lower)
  show ?case
  proof (cases "all_zero (slice pos (pos + 512) a)")
    case True
    then have "ms' = ms" using 1(3) by (subst (asm) read_loop.simps) (auto simp: bind_res_eq_Inr split: if_splits)
    then show ?thesis using 1(2) by (simp add: loop_inv_def)
  next
    case False
    have l: "\<not> length a - pos < 512" using 1(3) by (subst (asm) read_loop.simps) (simp split: if_splits)
    obtain p1 m1 l1 where r: "read_one a pos ms lower = Inr (p1, m1, l1)" and n: "read_loop a p1 m1 l1 = Inr ms'"
      using 1(3) l False by (subst (asm) read_loop.simps) (auto split: sum.splits)
    show ?thesis using 1(1) [OF l False r refl refl] n loop_inv_step [OF 1(2) r] by blast
  qed
qed

lemma read_members_safe: "read_members a = Inr ms \<Longrightarrow> members_safe a ms \<and> length a \<le> ARCHIVE_MAX"
proof -
  have "loop_inv a 0 [] []" by (simp add: loop_inv_def members_safe_def bt_get_def)
  then show "read_members a = Inr ms \<Longrightarrow> members_safe a ms \<and> length a \<le> ARCHIVE_MAX"
    using read_loop_safe by (auto simp: read_members_def split: if_splits)
qed

section \<open>Properties\<close>

text \<open>C11. What the writer produces the reader reads: an archive written from a list of members
  reads back as exactly those members, path for path and byte for byte, within the size limits.
  The header codec, the checksum, the split of long paths and the padding all cancel.\<close>

theorem archive_roundtrip:
  assumes "write_archive ms = Inr a"
  shows "read_archive a = Inr (bt_of_list (map (\<lambda>m. (mb_path m, mb_bytes m)) ms))
    \<and> length a \<le> ARCHIVE_MAX \<and> 512 dvd length a"
proof -
  note w = write_archive_Inr [OF assms]
  have "512 dvd length (concat (map block ms))" using w(1)
    by (induction ms) (simp_all add: block_dvd)
  then show ?thesis using write_read [OF assms] w(5,6) by simp
qed

definition demo_members :: "member list" where
  "demo_members = [regular ''ck.json'' ''{}'', regular ''skills/notes.md'' ''text'']"

lemma archive_roundtrip_witness:
  "\<exists>a. write_archive demo_members = Inr a
     \<and> read_archive a = Inr [(''ck.json'', ''{}''), (''skills/notes.md'', ''text'')]"
proof -
  have c: "check_members [] [] 1024 demo_members = Inr ([''skills/notes.md'', ''ck.json''], 3072)" by code_simp
  then have "\<forall>m \<in> set demo_members. member_ok m" using check_members_Inr [OF c] by blast
  then have "write_members [] demo_members = Inr (concat (map block demo_members))"
    using write_members_blocks [of "[]" demo_members] by simp
  then obtain a where a: "write_archive demo_members = Inr a"
    using c by (auto simp: write_archive_def) (auto simp: demo_members_def regular_def MAX_MEMBERS_def)
  have "bt_of_list (map (\<lambda>m. (mb_path m, mb_bytes m)) demo_members) = [(''ck.json'', ''{}''), (''skills/notes.md'', ''text'')]"
    by code_simp
  then show ?thesis using archive_roundtrip [OF a] a by simp
qed

text \<open>C25. Every archive the reader accepts is safe to unpack, whoever made it: at most
  \<open>MAX_MEMBERS\<close> members, every path made of plain segments (never empty, \<open>.\<close> or \<open>..\<close>), no two
  paths equal up to letter case, every content a slice within the archive at a block boundary,
  no two members overlapping, and a manifest present and within its bound.\<close>

theorem read_archive_safe:
  assumes "read_archive a = Inr fs"
  shows "\<exists>ms. read_members a = Inr ms \<and> members_safe a ms \<and> fs = map (\<lambda>(p, m). (p, rm_bytes m)) ms
    \<and> (\<forall>p \<in> fst ` set fs. \<forall>s \<in> set (split_on CHR ''/'' p). s \<notin> {[], ''.'', ''..''} \<and> list_all path_byte s)
    \<and> (\<exists>b. bt_get fs ''ck.json'' = Some b \<and> length b \<le> MANIFEST_MAX)"
proof -
  obtain ms where ms: "read_members a = Inr ms" and fs: "fs = map (\<lambda>(p, m). (p, rm_bytes m)) ms"
    and ck: "''ck.json'' \<in> fst ` set ms"
    using assms by (auto simp: read_archive_def bind_res_eq_Inr split: if_splits)
  have safe: "members_safe a ms" using read_members_safe [OF ms] by blast
  have "\<forall>p \<in> fst ` set fs. \<forall>s \<in> set (split_on CHR ''/'' p). s \<notin> {[], ''.'', ''..''} \<and> list_all path_byte s"
  proof
    fix p assume "p \<in> fst ` set fs"
    then have "p \<in> fst ` set ms" by (auto simp: fs case_prod_beta image_image)
    then obtain m where "bt_get ms p = Some m" using bt_get_None [of ms p] by fastforce
    then have "check_path p = Inr ()" using safe by (simp add: members_safe_def member_safe_def)
    then show "\<forall>s \<in> set (split_on CHR ''/'' p). s \<notin> {[], ''.'', ''..''} \<and> list_all path_byte s"
      by (simp add: check_path_Inr segment_bad_def)
  qed
  moreover have "\<exists>b. bt_get fs ''ck.json'' = Some b \<and> length b \<le> MANIFEST_MAX"
  proof -
    obtain m where m: "bt_get ms ''ck.json'' = Some m" using ck bt_get_None [of ms "''ck.json''"] by fastforce
    then have "length (rm_bytes m) \<le> MANIFEST_MAX" using safe by (simp add: members_safe_def member_safe_def)
    moreover have "bt_get fs ''ck.json'' = Some (rm_bytes m)"
      using m by (simp add: fs bt_get_def map_of_map)
    ultimately show ?thesis by blast
  qed
  ultimately show ?thesis using ms fs safe by blast
qed

lemma read_archive_safe_witness:
  "\<exists>a. read_archive a = Inr [(''ck.json'', ''{}'')] \<and> (\<exists>ms. read_members a = Inr ms \<and> members_safe a ms)"
proof -
  have c: "check_members [] [] 1024 [regular ''ck.json'' ''{}''] = Inr ([''ck.json''], 2048)" by code_simp
  then have "\<forall>m \<in> set [regular ''ck.json'' ''{}'']. member_ok m" using check_members_Inr [OF c] by blast
  then have "write_members [] [regular ''ck.json'' ''{}''] = Inr (concat (map block [regular ''ck.json'' ''{}'']))"
    using write_members_blocks [of "[]" "[regular ''ck.json'' ''{}'']"] by simp
  then obtain a where a: "write_archive [regular ''ck.json'' ''{}''] = Inr a"
    using c by (auto simp: write_archive_def) (auto simp: regular_def MAX_MEMBERS_def)
  have r: "read_archive a = Inr [(''ck.json'', ''{}'')]" using write_read [OF a] by (simp add: bt_of_list_def regular_def)
  from read_archive_safe [OF r] show ?thesis using r by blast
qed

end
