(* ===== verification/Packages.thy ===== *)
theory Packages
  imports Archive Capability
begin

text \<open>
  Package records and manifests (\<open>crates/entorhinal-catalog/src/record.rs\<close>): the shape and
  trust of a signed record, the verification of a package against it, and the rules of a
  manifest. A derived deserializer takes a struct from an object or from an array of exactly its
  fields; \<open>struct_view\<close> is that choice.
\<close>

section \<open>Data\<close>

record pkg_record =
  pr_schema :: string
  pr_name :: string
  pr_version :: string
  pr_manifest_sha256 :: string
  pr_archive_sha256 :: string
  pr_archive_bytes :: nat
  pr_public_key :: string
  pr_log_head :: json
  pr_flow_version :: "nat option"

record requirements =
  rq_capabilities :: "string list"
  rq_packages :: "(string \<times> string) list"

record file_entry =
  fe_path :: string
  fe_sha256 :: string
  fe_bytes :: nat

record manifest =
  mf_schema :: string
  mf_name :: string
  mf_version :: string
  mf_kind :: kind
  mf_summary :: string
  mf_license :: string
  mf_source :: string
  mf_requires :: requirements
  mf_files :: "file_entry list"
  mf_body :: json

record trust =
  tr_keys :: "scope_key list"
  tr_published_at :: "string option"

record verified_package =
  vp_record :: pkg_record
  vp_manifest :: manifest
  vp_canonical_record :: string

section \<open>Derived deserializers\<close>

definition struct_view :: "string list \<Rightarrow> json \<Rightarrow> json option list option" where
  "struct_view ks v = (case v of
     JObj m \<Rightarrow> if list_all (\<lambda>p. fst p \<in> set ks) m then Some (map (bt_get m) ks) else None
   | JArr a \<Rightarrow> if length a = length ks then Some (map Some a) else None
   | _ \<Rightarrow> None)"

definition string_value :: "json option \<Rightarrow> string option" where
  "string_value v = (case v of Some (JStr s) \<Rightarrow> Some s | _ \<Rightarrow> None)"

definition u64_value :: "json option \<Rightarrow> nat option" where
  "u64_value v = (case v of Some (JNum (PosInt n)) \<Rightarrow> Some n | _ \<Rightarrow> None)"

definition strings_value :: "json option \<Rightarrow> string list option" where
  "strings_value v = (case v of Some (JArr a) \<Rightarrow> collect_opt as_str a | _ \<Rightarrow> None)"

definition string_map_value :: "json option \<Rightarrow> (string \<times> string) list option" where
  "string_map_value v = (case v of
     Some (JObj m) \<Rightarrow> collect_opt (\<lambda>(k, x). map_option (Pair k) (as_str x)) m | _ \<Rightarrow> None)"

definition kind_names :: "(string \<times> kind) list" where
  "kind_names = [(''persona'', Persona), (''skill'', Skill), (''flow'', Flow), (''memory-profile'', MemoryProfile)]"

definition kind_value :: "json option \<Rightarrow> kind option" where
  "kind_value v = (case v of None \<Rightarrow> None | Some x \<Rightarrow> of_enum kind_names x)"

definition requires_of_json :: "json option \<Rightarrow> requirements option" where
  "requires_of_json v = (case v of None \<Rightarrow> None | Some x \<Rightarrow>
     (case struct_view [''capabilities'', ''packages''] x of
        Some [c, p] \<Rightarrow>
          (case (strings_value c, string_map_value p) of
             (Some cs, Some ps) \<Rightarrow> Some \<lparr>rq_capabilities = cs, rq_packages = ps\<rparr> | _ \<Rightarrow> None)
      | _ \<Rightarrow> None))"

definition file_of_json :: "json \<Rightarrow> file_entry option" where
  "file_of_json v = (case struct_view [''path'', ''sha256'', ''bytes''] v of
     Some [p, s, b] \<Rightarrow>
       (case (string_value p, string_value s, u64_value b) of
          (Some p', Some s', Some b') \<Rightarrow> Some \<lparr>fe_path = p', fe_sha256 = s', fe_bytes = b'\<rparr> | _ \<Rightarrow> None)
   | _ \<Rightarrow> None)"

definition files_of_json :: "json option \<Rightarrow> file_entry list option" where
  "files_of_json v = (case v of Some (JArr a) \<Rightarrow> collect_opt file_of_json a | _ \<Rightarrow> None)"

definition manifest_fields :: "string list" where
  "manifest_fields = [''schema'', ''name'', ''version'', ''kind'', ''summary'', ''license'', ''source'', ''requires'',
     ''files'', ''body'']"

definition manifest_of_json :: "json \<Rightarrow> manifest option" where
  "manifest_of_json v = (case struct_view manifest_fields v of
     Some [schema, name, version, kd, summary, license, source, requires, files, body] \<Rightarrow>
       (case (string_value schema, string_value name, string_value version, kind_value kd, string_value summary,
            string_value license, string_value source, requires_of_json requires, files_of_json files, body) of
          (Some a, Some b, Some c, Some d, Some e, Some f, Some g, Some h, Some i, Some j) \<Rightarrow>
            Some \<lparr>mf_schema = a, mf_name = b, mf_version = c, mf_kind = d, mf_summary = e, mf_license = f,
              mf_source = g, mf_requires = h, mf_files = i, mf_body = j\<rparr>
        | _ \<Rightarrow> None)
   | _ \<Rightarrow> None)"

definition record_fields :: "string list" where
  "record_fields = [''schema'', ''name'', ''version'', ''manifest_sha256'', ''archive_sha256'', ''archive_bytes'',
     ''public_key'', ''log_head'']"

definition opt_u64_value :: "json option \<Rightarrow> nat option option" where
  "opt_u64_value v = (case v of None \<Rightarrow> Some None | Some JNull \<Rightarrow> Some None
     | Some (JNum (PosInt n)) \<Rightarrow> Some (Some n) | _ \<Rightarrow> None)"

definition record_of_json :: "json \<Rightarrow> pkg_record option" where
  "record_of_json v =
    (if \<not> known_fields (record_fields @ [''flow_version'']) v then None
     else case (str_field v ''schema'', str_field v ''name'', str_field v ''version'', str_field v ''manifest_sha256'',
         str_field v ''archive_sha256'', u64_field v ''archive_bytes'', str_field v ''public_key'', jget v ''log_head'',
         opt_u64_value (jget v ''flow_version'')) of
       (Some a, Some b, Some c, Some d, Some e, Some f, Some g, Some h, Some i) \<Rightarrow>
         Some \<lparr>pr_schema = a, pr_name = b, pr_version = c, pr_manifest_sha256 = d, pr_archive_sha256 = e,
           pr_archive_bytes = f, pr_public_key = g, pr_log_head = h, pr_flow_version = i\<rparr>
     | _ \<Rightarrow> None)"

section \<open>Trust in a record\<close>

definition record_invalid :: "string \<Rightarrow> refusal" where
  "record_invalid f = refusal_at RecordInvalid f"

definition trusted_record :: "ext \<Rightarrow> string \<Rightarrow> string \<Rightarrow> trust \<Rightarrow> refusal + (json \<times> string \<times> nat \<times> string)" where
  "trusted_record E text sig trust =
    bind_res (shape E text ''ck-record/v1'' record_fields [''flow_version''] RecordInvalid) (\<lambda>r.
    bind_res (case as_str (jidx r ''name'') of Some n \<Rightarrow> if canonical E n then Inr n else Inl (record_invalid ''name'')
        | None \<Rightarrow> Inl (record_invalid ''name'')) (\<lambda>name.
    bind_res (map_err (\<lambda>_. record_invalid ''name'') (map_name E name)) (\<lambda>mapped.
      if \<not> some_and (\<lambda>v. is_ok (parse_version v)) (as_str (jidx r ''version'')) then Inl (record_invalid ''version'')
      else bind_res (each_ok (\<lambda>f. refuse_unless (some_and (\<lambda>s. is_hex s 64) (as_str (jidx r f))) (record_invalid f))
          [''manifest_sha256'', ''archive_sha256'', ''public_key'']) (\<lambda>_.
      bind_res (case positive (jidx r ''archive_bytes'') of
          Some n \<Rightarrow> if n \<le> ARCHIVE_MAX then Inr n else Inl (record_invalid ''archive_bytes'')
        | None \<Rightarrow> Inl (record_invalid ''archive_bytes'')) (\<lambda>len.
      if some_and (\<lambda>v. positive v = None) (jget r ''flow_version'') then Inl (record_invalid ''flow_version'')
      else bind_res (map_err (\<lambda>_. record_invalid ''json'') (to_canonical E r)) (\<lambda>c.
      bind_res (ok_or (as_str (jidx r ''public_key'')) (record_invalid ''public_key'')) (\<lambda>pk.
        if \<not> verify_signature E pk ''ck-record/v1'' c sig then Inl (refusal_new SignatureInvalid)
        else bind_res (ok_or (find (\<lambda>k. ky_public_key k = pk) (tr_keys trust)) (refusal_new KeyUnknown)) (\<lambda>k.
          if some_and (\<lambda>rev. revoked_at (tr_published_at trust) (rv_compromise_from rev)) (ky_revocation k)
          then Inl (refusal_new KeyRevoked)
          else if some_and (\<lambda>t0. \<not> covers k t0) (tr_published_at trust)
              \<or> (tr_published_at trust = None \<and> ky_valid_until k \<noteq> None)
          then Inl (refusal_new KeyNotValid)
          else Inr (r, c, len, mn_id mapped)))))))))"

definition verify_record_trust :: "ext \<Rightarrow> string \<Rightarrow> string \<Rightarrow> trust \<Rightarrow> refusal + pkg_record" where
  "verify_record_trust E text sig trust =
    bind_res (trusted_record E text sig trust) (\<lambda>(r, _, len, _).
      ok_or (record_of_json (jset r ''archive_bytes'' (JNum (PosInt len)))) (record_invalid ''json''))"

section \<open>Manifests\<close>

text \<open>\<open>std::str::from_utf8\<close>\<close>

definition is_cont :: "char \<Rightarrow> bool" where
  "is_cont c \<longleftrightarrow> 128 \<le> byte c \<and> byte c < 192"

fun utf8_valid :: "string \<Rightarrow> bool" where
  "utf8_valid [] = True"
| "utf8_valid (a # s) =
    (if byte a < 128 then utf8_valid s
     else if 194 \<le> byte a \<and> byte a < 224 then
       (case s of b # t \<Rightarrow> is_cont b \<and> utf8_valid t | _ \<Rightarrow> False)
     else if 224 \<le> byte a \<and> byte a < 240 then
       (case s of b # c # t \<Rightarrow> is_cont b \<and> is_cont c \<and> (byte a = 224 \<longrightarrow> 160 \<le> byte b)
            \<and> (byte a = 237 \<longrightarrow> byte b < 160) \<and> utf8_valid t | _ \<Rightarrow> False)
     else if 240 \<le> byte a \<and> byte a < 245 then
       (case s of b # c # d # t \<Rightarrow> is_cont b \<and> is_cont c \<and> is_cont d \<and> (byte a = 240 \<longrightarrow> 144 \<le> byte b)
            \<and> (byte a = 244 \<longrightarrow> byte b < 144) \<and> utf8_valid t | _ \<Rightarrow> False)
     else False)"

definition manifest_invalid :: "string \<Rightarrow> refusal" where
  "manifest_invalid f = refusal_at ManifestInvalid f"

text \<open>The JSON value of some bytes, if they are UTF-8 and strict JSON.\<close>

definition json_of_bytes :: "ext \<Rightarrow> string \<Rightarrow> json option" where
  "json_of_bytes E bs = (if \<not> utf8_valid bs then None
     else case parse_json E bs of Inl _ \<Rightarrow> None | Inr v \<Rightarrow> Some v)"

definition manifest_value :: "ext \<Rightarrow> string \<Rightarrow> refusal + json" where
  "manifest_value E bs = ok_or (json_of_bytes E bs) (manifest_invalid ''json'')"

text \<open>Some character is white space or a control character.\<close>

fun has_space_or_control :: "string \<Rightarrow> bool" where
  "has_space_or_control [] = False"
| "has_space_or_control (a # s) \<longleftrightarrow> ws_len (a # s) > 0 \<or> byte a < 32 \<or> byte a = 127
     \<or> (byte a = 194 \<and> (case s of b # _ \<Rightarrow> 128 \<le> byte b \<and> byte b < 160 | [] \<Rightarrow> False))
     \<or> has_space_or_control s"

definition source_ok :: "string \<Rightarrow> bool" where
  "source_ok s \<longleftrightarrow> (case split_once '':'' s of None \<Rightarrow> False | Some (scheme, rest) \<Rightarrow>
      rest \<noteq> [] \<and> (case scheme of c # _ \<Rightarrow> is_alpha c | [] \<Rightarrow> False)
      \<and> list_all (\<lambda>b. is_alnum b \<or> b \<in> set ''+.-'') scheme) \<and> \<not> has_space_or_control s"

definition contract_id :: "string \<Rightarrow> bool" where
  "contract_id s = (case split_once ''/'' s of None \<Rightarrow> False | Some (owner, rest) \<Rightarrow>
     (case split_once ''@'' rest of None \<Rightarrow> False | Some (name, n) \<Rightarrow>
       owner \<noteq> [] \<and> list_all (\<lambda>b. is_lower b \<or> is_digit b \<or> b = CHR ''-'') owner
       \<and> name \<noteq> [] \<and> list_all (\<lambda>b. is_lower b \<or> is_digit b \<or> b \<in> set ''.-'') name
       \<and> n \<noteq> [] \<and> \<not> starts_with ''0'' n \<and> list_all is_digit n))"

text \<open>The files in order: each path safe, not the manifest's, and new up to letter case.\<close>

fun check_files :: "string list \<Rightarrow> string list \<Rightarrow> file_entry list \<Rightarrow> refusal + string list" where
  "check_files paths lower [] = Inr paths"
| "check_files paths lower (f # fs) =
    (if \<not> is_ok (check_path (fe_path f)) \<or> fe_path f = ''ck.json'' \<or> fe_path f \<in> set paths
        \<or> to_lower (fe_path f) \<in> set lower \<or> \<not> is_hex (fe_sha256 f) 64 \<or> fe_bytes f > ARCHIVE_MAX
     then Inl (manifest_invalid ''files'')
     else check_files (fe_path f # paths) (to_lower (fe_path f) # lower) fs)"

definition check_file :: "string list \<Rightarrow> json \<Rightarrow> refusal + unit" where
  "check_file paths v = bind_res (ok_or (as_str v) (manifest_invalid ''body'')) (\<lambda>p.
     refuse_unless (p \<in> set paths) (manifest_invalid ''body''))"

fun allowed_body :: "kind \<Rightarrow> string list option" where
  "allowed_body Skill = Some [''entry'', ''audience'', ''scripts'']"
| "allowed_body Flow = Some [''manifest'', ''script'']"
| "allowed_body Persona = Some [''prompt'', ''extends'', ''implements'', ''delegates_to'', ''capabilities'', ''routing'',
     ''activation'', ''skills'', ''flows'', ''memory_profile'']"
| "allowed_body MemoryProfile = None"

definition check_script :: "string list \<Rightarrow> json \<Rightarrow> refusal + unit" where
  "check_script paths script = bind_res (check_file paths (jidx script ''path'')) (\<lambda>_.
     if \<not> some_and (\<lambda>s. s \<noteq> []) (as_str (jidx script ''runs_with''))
        \<or> none_or (\<lambda>m. length m \<noteq> 2) (as_object script)
     then Inl (manifest_invalid ''body.scripts'') else Inr ())"

definition check_skill :: "string list \<Rightarrow> json \<Rightarrow> refusal + unit" where
  "check_skill paths body = bind_res (check_file paths (jidx body ''entry'')) (\<lambda>_.
     if jidx body ''audience'' \<noteq> JStr ''user'' \<and> jidx body ''audience'' \<noteq> JStr ''developer''
     then Inl (manifest_invalid ''body.audience'')
     else bind_res (ok_or (as_array (jidx body ''scripts'')) (manifest_invalid ''body.scripts'')) (\<lambda>a.
       each_ok (check_script paths) a))"

definition check_flow :: "string list \<Rightarrow> json \<Rightarrow> refusal + unit" where
  "check_flow paths body = bind_res (check_file paths (jidx body ''manifest'')) (\<lambda>_. check_file paths (jidx body ''script''))"

definition unique_strings :: "json \<Rightarrow> (string \<Rightarrow> bool) \<Rightarrow> bool" where
  "unique_strings v check = (case as_array v of None \<Rightarrow> False | Some a \<Rightarrow>
     list_all (\<lambda>x. some_and check (as_str x)) a \<and> length (remdups (List.map_filter as_str a)) = length a)"

definition check_ref :: "ext \<Rightarrow> requirements \<Rightarrow> json \<Rightarrow> string \<Rightarrow> refusal + unit" where
  "check_ref E req v f = (case as_str v of None \<Rightarrow> Inl (manifest_invalid f) | Some p \<Rightarrow>
     if \<not> canonical E p then Inl (manifest_invalid f)
     else if \<not> bt_has (rq_packages req) p then Inl (refusal_at BodyRefMissing f) else Inr ())"

definition check_persona :: "ext \<Rightarrow> requirements \<Rightarrow> string list \<Rightarrow> json \<Rightarrow> refusal + unit" where
  "check_persona E req paths body =
    bind_res (check_file paths (jidx body ''prompt'')) (\<lambda>_.
      if \<not> unique_strings (jidx body ''implements'') contract_id then Inl (manifest_invalid ''body.implements'')
      else if \<not> unique_strings (jidx body ''skills'') (canonical E) \<or> \<not> unique_strings (jidx body ''flows'') (canonical E)
      then Inl (manifest_invalid ''body.skills/flows'')
      else bind_res (ok_or (as_object (jidx body ''capabilities'')) (manifest_invalid ''body.capabilities'')) (\<lambda>caps.
        if length caps \<noteq> 2 \<or> \<not> unique_strings (jidx (jidx body ''capabilities'') ''required'') capability_token
           \<or> \<not> unique_strings (jidx (jidx body ''capabilities'') ''optional'') capability_token
        then Inl (manifest_invalid ''body.capabilities'')
        else if some_and (\<lambda>v. as_object v = None) (jget body ''routing'')
           \<or> some_and (\<lambda>v. none_or (list_ex (\<lambda>x. as_object x = None)) (as_array v)) (jget body ''activation'')
        then Inl (manifest_invalid ''body.routing/activation'')
        else bind_res (each_ok (\<lambda>f. case jget body f of None \<Rightarrow> Inr () | Some v \<Rightarrow> check_ref E req v f)
            [''extends'', ''memory_profile'']) (\<lambda>_.
        bind_res (each_ok (\<lambda>f. bind_res (ok_or (as_array (jidx body f)) (manifest_invalid f)) (\<lambda>a.
            each_ok (\<lambda>v. check_ref E req v f) a)) [''skills'', ''flows'']) (\<lambda>_.
        bind_res (ok_or (as_object (jidx body ''delegates_to'')) (manifest_invalid ''body.delegates_to'')) (\<lambda>ds.
          each_ok (\<lambda>(i, v). if \<not> contract_id i then Inl (manifest_invalid ''body.delegates_to'')
            else if v = JNull then Inr () else check_ref E req v ''delegates_to'') ds)))))"

definition check_body :: "ext \<Rightarrow> manifest \<Rightarrow> string list \<Rightarrow> refusal + unit" where
  "check_body E m paths =
    bind_res (ok_or (as_object (mf_body m)) (manifest_invalid ''body'')) (\<lambda>body.
      (case allowed_body (mf_kind m) of None \<Rightarrow> Inr ()
       | Some allowed \<Rightarrow>
          if list_ex (\<lambda>p. fst p \<notin> set allowed) body then Inl (manifest_invalid ''body'')
          else (case mf_kind m of
              Skill \<Rightarrow> check_skill paths (mf_body m)
            | Flow \<Rightarrow> check_flow paths (mf_body m)
            | Persona \<Rightarrow> check_persona E (mf_requires m) paths (mf_body m)
            | MemoryProfile \<Rightarrow> Inr ())))"

definition validate_manifest :: "ext \<Rightarrow> json \<Rightarrow> refusal + manifest" where
  "validate_manifest E v =
    bind_res (ok_or (manifest_of_json v) (manifest_invalid ''json'')) (\<lambda>m.
      if mf_summary m = [] \<or> mf_license m = [] then Inl (manifest_invalid ''summary/license'')
      else if \<not> source_ok (mf_source m) then Inl (manifest_invalid ''source'')
      else if length (remdups (rq_capabilities (mf_requires m))) \<noteq> length (rq_capabilities (mf_requires m))
        then Inl (manifest_invalid ''requires.capabilities'')
      else if mf_schema m \<noteq> ''ck-package/v1'' then Inl (manifest_invalid ''schema'')
      else if \<not> canonical E (mf_name m) then Inl (manifest_invalid ''name'')
      else if \<not> is_ok (parse_version (mf_version m)) then Inl (manifest_invalid ''version'')
      else if \<not> list_all capability_token (rq_capabilities (mf_requires m))
        then Inl (manifest_invalid ''requires.capabilities'')
      else bind_res (each_ok (\<lambda>(p, r). refuse_unless (canonical E p \<and> is_ok (parse_range r))
          (manifest_invalid ''requires.packages'')) (rq_packages (mf_requires m))) (\<lambda>_.
        bind_res (check_files [] [] (mf_files m)) (\<lambda>paths.
          bind_res (check_body E m paths) (\<lambda>_. Inr m))))"

definition parse_manifest :: "ext \<Rightarrow> string \<Rightarrow> refusal + manifest" where
  "parse_manifest E bs = bind_res (manifest_value E bs) (validate_manifest E)"

section \<open>A package against its record\<close>

fun archive_rule_str :: "archive_rule \<Rightarrow> string" where
  "archive_rule_str HeaderChecksum = ''header_checksum''"
| "archive_rule_str Magic = ''magic''"
| "archive_rule_str MemberType = ''member_type''"
| "archive_rule_str SizeEncoding = ''size_encoding''"
| "archive_rule_str RulePathInvalid = ''path_invalid''"
| "archive_rule_str RulePathTooLong = ''path_too_long''"
| "archive_rule_str RulePathNotUstar = ''path_not_ustar''"
| "archive_rule_str TooManyMembers = ''too_many_members''"
| "archive_rule_str PathDuplicate = ''path_duplicate''"
| "archive_rule_str PathCollision = ''path_collision''"
| "archive_rule_str Truncated = ''truncated''"
| "archive_rule_str TerminatorMissing = ''terminator_missing''"
| "archive_rule_str TrailingData = ''trailing_data''"
| "archive_rule_str CkJsonMissing = ''ck_json_missing''"
| "archive_rule_str CkJsonNotFirst = ''ck_json_not_first''"
| "archive_rule_str MemberUnlisted = ''member_unlisted''"

definition archive_refusal :: "archive_error \<Rightarrow> refusal" where
  "archive_refusal e = (case ae_rule e of Some r \<Rightarrow> refusal_at (ae_code e) (archive_rule_str r)
     | None \<Rightarrow> refusal_new (ae_code e))"

definition record_mismatch :: "string \<Rightarrow> refusal" where
  "record_mismatch f = refusal_at RecordMismatch f"

text \<open>The identity of a flow against the record.\<close>

definition check_flow_identity :: "ext \<Rightarrow> json \<Rightarrow> json \<Rightarrow> string \<Rightarrow> (string \<times> string) list \<Rightarrow> refusal + unit" where
  "check_flow_identity E m r i members =
    (let path = (case as_str (jidx (jidx m ''body'') ''manifest'') of Some p \<Rightarrow> p | None \<Rightarrow> ''flow.json'');
         f = (case bt_get members path of None \<Rightarrow> None | Some b \<Rightarrow> json_of_bytes E b) in
     if none_or (\<lambda>f. jidx f ''id'' \<noteq> JStr i) f then Inl (record_mismatch ''flow.json id'')
     else if none_or (\<lambda>f. jidx f ''version'' \<noteq> jidx r ''flow_version'') f then Inl (record_mismatch ''flow_version'')
     else Inr ())"

text \<open>Every listed file is a member with its digest and length, and every member is listed.\<close>

definition check_coverage :: "ext \<Rightarrow> file_entry list \<Rightarrow> (string \<times> string) list \<Rightarrow> refusal + unit" where
  "check_coverage E fs members =
    bind_res (each_ok (\<lambda>f. refuse_unless
        (some_and (\<lambda>b. sha256_hex E b = fe_sha256 f \<and> length b = fe_bytes f) (bt_get members (fe_path f)))
        (refusal_at FilesMismatch (fe_path f))) fs) (\<lambda>_.
      each_ok (\<lambda>(path, _). refuse_unless (path = ''ck.json'' \<or> path \<in> fe_path ` set fs)
        (refusal_at FilesMismatch path)) members)"

text \<open>The numbers of an accepted record, as the integers they denote.\<close>

definition with_numbers :: "json \<Rightarrow> nat \<Rightarrow> json" where
  "with_numbers r len = (let r1 = jset r ''archive_bytes'' (JNum (PosInt len)) in
     case jget r1 ''flow_version'' of None \<Rightarrow> r1
     | Some v \<Rightarrow> (case positive v of None \<Rightarrow> r1 | Some n \<Rightarrow> jset r1 ''flow_version'' (JNum (PosInt n))))"

text \<open>The members of the archive against the record.\<close>

definition verify_members ::
  "ext \<Rightarrow> json \<Rightarrow> string \<Rightarrow> nat \<Rightarrow> string \<Rightarrow> string \<Rightarrow> (string \<times> string) list \<Rightarrow> refusal + verified_package" where
  "verify_members E r c len i manifest_bytes members =
    (if bt_get members ''ck.json'' \<noteq> Some manifest_bytes then Inl (record_mismatch ''ck.json'')
     else bind_res (manifest_value E manifest_bytes) (\<lambda>m.
       if jidx m ''name'' \<noteq> jidx r ''name'' then Inl (record_mismatch ''name'')
       else if jidx m ''version'' \<noteq> jidx r ''version'' then Inl (record_mismatch ''version'')
       else (let flow = (jidx m ''kind'' = JStr ''flow'') in
         if flow \<noteq> is_some (jget r ''flow_version'') then Inl (record_mismatch ''flow_version'')
         else bind_res (if flow then check_flow_identity E m r i members else Inr ()) (\<lambda>_.
         bind_res (validate_manifest E m) (\<lambda>manifest.
         bind_res (check_coverage E (mf_files manifest) members) (\<lambda>_.
         bind_res (ok_or (record_of_json (with_numbers r len)) (record_invalid ''json'')) (\<lambda>rec.
           Inr \<lparr>vp_record = rec, vp_manifest = manifest, vp_canonical_record = c\<rparr>)))))))"

definition verify_record ::
  "ext \<Rightarrow> string \<Rightarrow> string \<Rightarrow> string \<Rightarrow> string \<Rightarrow> trust \<Rightarrow> refusal + verified_package" where
  "verify_record E text sig manifest_bytes archive_bytes trust =
    bind_res (trusted_record E text sig trust) (\<lambda>(r, c, len, i).
      if jidx r ''manifest_sha256'' \<noteq> JStr (sha256_hex E manifest_bytes) then Inl (record_mismatch ''manifest_sha256'')
      else if jidx r ''archive_sha256'' \<noteq> JStr (sha256_hex E archive_bytes) then Inl (record_mismatch ''archive_sha256'')
      else if len \<noteq> length archive_bytes then Inl (record_mismatch ''archive_bytes'')
      else bind_res (map_err archive_refusal (read_archive archive_bytes)) (verify_members E r c len i manifest_bytes))"

definition record_fingerprint :: "ext \<Rightarrow> pkg_record \<Rightarrow> string option" where
  "record_fingerprint E rec = key_fingerprint E (pr_public_key rec)"

section \<open>What is accepted\<close>

text \<open>A key of the trust list that still speaks at the time of publication.\<close>

definition speaks :: "trust \<Rightarrow> scope_key \<Rightarrow> bool" where
  "speaks tr k \<longleftrightarrow> none_or (\<lambda>rev. \<not> revoked_at (tr_published_at tr) (rv_compromise_from rev)) (ky_revocation k)
     \<and> (case tr_published_at tr of Some t0 \<Rightarrow> covers k t0 | None \<Rightarrow> ky_valid_until k = None)"

lemma jget_jset: "jget (jset (JObj m) k x) k' = (if k' = k then Some x else jget (JObj m) k')"
  by (simp add: jset_def bt_get_insert)

lemma jidx_jset: "jidx (jset (JObj m) k x) k' = (if k' = k then x else jidx (JObj m) k')"
  by (simp add: jidx_def jget_jset)

lemma jset_JObj: "\<exists>n. jset (JObj m) k x = JObj n"
  by (simp add: jset_def)

lemma find_Some: "find P xs = Some x \<Longrightarrow> x \<in> set xs \<and> P x"
  by (auto simp: find_Some_iff)

lemma trusted_record_Inr:
  assumes "trusted_record E text sig tr = Inr (r, c, len, i)"
  obtains m k pk where "r = JObj m" "to_canonical E r = Inr c" "jidx r ''public_key'' = JStr pk"
    "verify_signature E pk ''ck-record/v1'' c sig" "k \<in> set (tr_keys tr)" "ky_public_key k = pk" "speaks tr k"
    "positive (jidx r ''archive_bytes'') = Some len" "len \<le> ARCHIVE_MAX"
    "\<exists>n mp. jidx r ''name'' = JStr n \<and> canonical E n \<and> map_name E n = Inr mp \<and> i = mn_id mp"
    "\<exists>v. jidx r ''version'' = JStr v \<and> is_ok (parse_version v)"
    "shape E text ''ck-record/v1'' record_fields [''flow_version''] RecordInvalid = Inr r"
proof -
  obtain r' where sh: "shape E text ''ck-record/v1'' record_fields [''flow_version''] RecordInvalid = Inr r'"
    using assms by (auto simp: trusted_record_def bind_res_eq_Inr)
  then obtain m where m: "r' = JObj m" using shape_Inr(1) [OF sh] by (auto simp: shaped_def)
  note a = assms [unfolded trusted_record_def sh bind_res_Inr]
  obtain n where n: "jidx r' ''name'' = JStr n" "canonical E n"
    using a by (cases "as_str (jidx r' ''name'')") (auto split: if_splits)
  obtain mp where mp: "map_name E n = Inr mp" using a n by (cases "map_name E n") auto
  note b = a [simplified n mp map_err_simps as_str.simps option.case if_True bind_res_Inr]
  have "\<exists>k pk. r = r' \<and> to_canonical E r = Inr c \<and> jidx r ''public_key'' = JStr pk
     \<and> verify_signature E pk ''ck-record/v1'' c sig \<and> k \<in> set (tr_keys tr) \<and> ky_public_key k = pk \<and> speaks tr k
     \<and> positive (jidx r ''archive_bytes'') = Some len \<and> len \<le> ARCHIVE_MAX \<and> i = mn_id mp
     \<and> (\<exists>v. jidx r ''version'' = JStr v \<and> is_ok (parse_version v))"
    using b by (auto simp: bind_res_eq_Inr speaks_def some_and_def none_or_def simp del: each_ok.simps
        split: if_splits option.splits dest!: find_Some)
  then show thesis using that m n mp sh by blast
qed

definition file_ok :: "file_entry \<Rightarrow> bool" where
  "file_ok f \<longleftrightarrow> check_path (fe_path f) = Inr () \<and> fe_path f \<noteq> ''ck.json'' \<and> is_hex (fe_sha256 f) 64
     \<and> fe_bytes f \<le> ARCHIVE_MAX"

lemma is_ok_unit: "is_ok (x :: 'e + unit) \<longleftrightarrow> x = Inr ()"
  by (cases x) (auto simp: is_ok_def)

lemma check_files_Inr:
  "check_files paths (map to_lower paths) fs = Inr ps \<Longrightarrow> distinct (map to_lower paths) \<Longrightarrow>
     ps = rev (map fe_path fs) @ paths \<and> distinct (map to_lower ps) \<and> (\<forall>f \<in> set fs. file_ok f)"
proof (induction fs arbitrary: paths)
  case Nil
  then show ?case by simp
next
  case (Cons f fs)
  have c: "file_ok f" "to_lower (fe_path f) \<notin> to_lower ` set paths"
      "check_files (fe_path f # paths) (map to_lower (fe_path f # paths)) fs = Inr ps"
    using Cons.prems(1) by (auto simp: file_ok_def is_ok_unit not_less split: if_splits)
  then have "distinct (map to_lower (fe_path f # paths))" using Cons.prems(2) by simp
  from Cons.IH [OF c(3) this] have "ps = rev (map fe_path fs) @ fe_path f # paths" "distinct (map to_lower ps)"
      "\<forall>f \<in> set fs. file_ok f" by blast+
  moreover from this(1) have "ps = rev (map fe_path (f # fs)) @ paths" by simp
  ultimately show ?case using c(1) by (metis set_ConsD)
qed

lemma length_remdups_distinct: "length (remdups xs) = length xs \<longleftrightarrow> distinct xs"
  by (metis distinct_remdups length_remdups_eq remdups_id_iff_distinct)

text \<open>The rules of a manifest that do not depend on its kind.\<close>

definition manifest_ok :: "ext \<Rightarrow> manifest \<Rightarrow> bool" where
  "manifest_ok E m \<longleftrightarrow> mf_schema m = ''ck-package/v1'' \<and> canonical E (mf_name m)
     \<and> (\<exists>v. parse_version (mf_version m) = Inr v) \<and> mf_summary m \<noteq> [] \<and> mf_license m \<noteq> [] \<and> source_ok (mf_source m)
     \<and> distinct (rq_capabilities (mf_requires m)) \<and> list_all capability_token (rq_capabilities (mf_requires m))
     \<and> (\<forall>(p, r) \<in> set (rq_packages (mf_requires m)). canonical E p \<and> is_ok (parse_range r))
     \<and> distinct (map (to_lower \<circ> fe_path) (mf_files m)) \<and> list_all file_ok (mf_files m)"

lemma validate_manifest_Inr:
  assumes "validate_manifest E v = Inr m"
  shows "manifest_of_json v = Some m" and "manifest_ok E m" and "check_body E m (rev (map fe_path (mf_files m))) = Inr ()"
proof -
  obtain ps where d: "manifest_of_json v = Some m"
    and c: "check_files [] [] (mf_files m) = Inr ps" and b: "check_body E m ps = Inr ()"
    and r: "mf_summary m \<noteq> []" "mf_license m \<noteq> []" "source_ok (mf_source m)" "mf_schema m = ''ck-package/v1''"
      "length (remdups (rq_capabilities (mf_requires m))) = length (rq_capabilities (mf_requires m))"
      "canonical E (mf_name m)" "is_ok (parse_version (mf_version m))" "list_all capability_token (rq_capabilities (mf_requires m))"
      "\<forall>(p, r) \<in> set (rq_packages (mf_requires m)). canonical E p \<and> is_ok (parse_range r)"
    using assms unfolding validate_manifest_def bind_res_eq_Inr ok_or_eq_Inr if_Inl_eq_Inr not_not each_ok_refuse2
    by (auto simp del: each_ok.simps length_remdups_eq)
  have f: "ps = rev (map fe_path (mf_files m))" "distinct (map to_lower ps)" "\<forall>f \<in> set (mf_files m). file_ok f"
    using check_files_Inr [of "[]" "mf_files m" ps, unfolded list.map append_Nil2, OF c distinct.simps(1) [THEN iffD2, OF TrueI]] by blast+
  show "manifest_of_json v = Some m" by (rule d)
  show "check_body E m (rev (map fe_path (mf_files m))) = Inr ()" using b f by simp
  have "distinct (map (to_lower \<circ> fe_path) (mf_files m))" using f(1,2) by (metis distinct_rev list.map_comp rev_map)
  then show "manifest_ok E m"
    using r f(3) by (simp add: manifest_ok_def length_remdups_distinct is_ok_iff list_all_iff del: length_remdups_eq)
qed

lemma case_option_Some:
  "(case x of None \<Rightarrow> None | Some a \<Rightarrow> f a) = Some y \<longleftrightarrow> (\<exists>a. x = Some a \<and> f a = Some y)"
  by (cases x) auto

lemma string_value_Some [simp]: "string_value x = Some s \<longleftrightarrow> x = Some (JStr s)"
  by (auto simp: string_value_def split: option.splits json.splits)

lemma manifest_of_object:
  assumes "manifest_of_json v = Some m" and "jidx v ''name'' = JStr n"
  shows "mf_name m = n" and "jidx v ''version'' = JStr (mf_version m)" and "jidx v ''body'' = mf_body m"
    and "kind_value (jget v ''kind'') = Some (mf_kind m)"
proof -
  obtain ms where v: "v = JObj ms" using assms(2) by (cases v) (auto simp: jidx_def)
  have "mf_name m = n \<and> jidx v ''version'' = JStr (mf_version m) \<and> jidx v ''body'' = mf_body m
      \<and> kind_value (jget v ''kind'') = Some (mf_kind m)"
    using assms unfolding manifest_of_json_def struct_view_def manifest_fields_def v json.case list.map jget.simps jidx_def
    by (auto simp: case_option_Some split: if_split_asm)
  then show "mf_name m = n" and "jidx v ''version'' = JStr (mf_version m)" and "jidx v ''body'' = mf_body m"
    and "kind_value (jget v ''kind'') = Some (mf_kind m)" by simp_all
qed

lemma record_of_json_Some:
  assumes "record_of_json v = Some rec"
  shows "jidx v ''schema'' = JStr (pr_schema rec)" "jidx v ''name'' = JStr (pr_name rec)"
    "jidx v ''version'' = JStr (pr_version rec)" "jidx v ''manifest_sha256'' = JStr (pr_manifest_sha256 rec)"
    "jidx v ''archive_sha256'' = JStr (pr_archive_sha256 rec)" "u64_field v ''archive_bytes'' = Some (pr_archive_bytes rec)"
    "jidx v ''public_key'' = JStr (pr_public_key rec)" "opt_u64_value (jget v ''flow_version'') = Some (pr_flow_version rec)"
proof -
  have "str_field v ''schema'' = Some (pr_schema rec) \<and> str_field v ''name'' = Some (pr_name rec)
    \<and> str_field v ''version'' = Some (pr_version rec) \<and> str_field v ''manifest_sha256'' = Some (pr_manifest_sha256 rec)
    \<and> str_field v ''archive_sha256'' = Some (pr_archive_sha256 rec) \<and> u64_field v ''archive_bytes'' = Some (pr_archive_bytes rec)
    \<and> str_field v ''public_key'' = Some (pr_public_key rec) \<and> opt_u64_value (jget v ''flow_version'') = Some (pr_flow_version rec)"
    using assms by (auto simp: record_of_json_def split: if_splits option.split_asm)
  then show "jidx v ''schema'' = JStr (pr_schema rec)" "jidx v ''name'' = JStr (pr_name rec)"
    "jidx v ''version'' = JStr (pr_version rec)" "jidx v ''manifest_sha256'' = JStr (pr_manifest_sha256 rec)"
    "jidx v ''archive_sha256'' = JStr (pr_archive_sha256 rec)" "u64_field v ''archive_bytes'' = Some (pr_archive_bytes rec)"
    "jidx v ''public_key'' = JStr (pr_public_key rec)" "opt_u64_value (jget v ''flow_version'') = Some (pr_flow_version rec)"
    by (simp_all add: str_field_jidx)
qed

text \<open>What the accepted record, the accepted manifest and the members of the archive agree on.\<close>

definition package_ok :: "ext \<Rightarrow> string \<Rightarrow> string \<Rightarrow> (string \<times> string) list \<Rightarrow> pkg_record \<Rightarrow> manifest \<Rightarrow> bool" where
  "package_ok E mb ab members rec m \<longleftrightarrow>
     pr_manifest_sha256 rec = sha256_hex E mb \<and> pr_archive_sha256 rec = sha256_hex E ab \<and> pr_archive_bytes rec = length ab
     \<and> bt_get members ''ck.json'' = Some mb \<and> mf_name m = pr_name rec \<and> mf_version m = pr_version rec
     \<and> fst ` set members = insert ''ck.json'' (fe_path ` set (mf_files m))
     \<and> (\<forall>f \<in> set (mf_files m). \<exists>b. bt_get members (fe_path f) = Some b \<and> sha256_hex E b = fe_sha256 f \<and> length b = fe_bytes f)"

lemma check_coverage_Inr:
  assumes "check_coverage E fs members = Inr ()" and "bt_get members ''ck.json'' \<noteq> None"
  shows "fst ` set members = insert ''ck.json'' (fe_path ` set fs)"
    and "f \<in> set fs \<Longrightarrow> \<exists>b. bt_get members (fe_path f) = Some b \<and> sha256_hex E b = fe_sha256 f \<and> length b = fe_bytes f"
proof -
  have l: "\<forall>f \<in> set fs. some_and (\<lambda>b. sha256_hex E b = fe_sha256 f \<and> length b = fe_bytes f) (bt_get members (fe_path f))"
    and c: "\<forall>(p, _) \<in> set members. p = ''ck.json'' \<or> p \<in> fe_path ` set fs"
    using assms(1) by (auto simp: check_coverage_def bind_res_eq_Inr each_ok_refuse each_ok_refuse2 simp del: each_ok.simps)
  have "fe_path ` set fs \<subseteq> fst ` set members"
  proof
    fix p assume "p \<in> fe_path ` set fs"
    then have "bt_get members p \<noteq> None" using l by (auto simp: some_and_def split: option.splits)
    then show "p \<in> fst ` set members" by (simp add: bt_get_None)
  qed
  then show "fst ` set members = insert ''ck.json'' (fe_path ` set fs)"
    using c assms(2) by (auto simp: bt_get_None)
  show "f \<in> set fs \<Longrightarrow> \<exists>b. bt_get members (fe_path f) = Some b \<and> sha256_hex E b = fe_sha256 f \<and> length b = fe_bytes f"
    using l by (auto simp: some_and_def split: option.splits)
qed

lemma with_numbers_jidx:
  "r = JObj m \<Longrightarrow> k \<noteq> ''archive_bytes'' \<Longrightarrow> k \<noteq> ''flow_version'' \<Longrightarrow> jidx (with_numbers r len) k = jidx r k"
  by (auto simp: with_numbers_def Let_def jidx_def jset_def bt_get_insert split: option.splits)

lemma with_numbers_bytes: "r = JObj m \<Longrightarrow> u64_field (with_numbers r len) ''archive_bytes'' = Some len"
  by (auto simp: with_numbers_def Let_def u64_field_def jset_def bt_get_insert split: option.splits)

lemma verify_record_Inr:
  assumes "verify_record E text sig mb ab tr = Inr p"
  obtains r len i members m where "trusted_record E text sig tr = Inr (r, vp_canonical_record p, len, i)"
    "jidx r ''manifest_sha256'' = JStr (sha256_hex E mb)" "jidx r ''archive_sha256'' = JStr (sha256_hex E ab)"
    "len = length ab" "read_archive ab = Inr members" "bt_get members ''ck.json'' = Some mb"
    "manifest_value E mb = Inr m" "jidx m ''name'' = jidx r ''name''" "jidx m ''version'' = jidx r ''version''"
    "(jidx m ''kind'' = JStr ''flow'') = is_some (jget r ''flow_version'')"
    "jidx m ''kind'' = JStr ''flow'' \<longrightarrow> check_flow_identity E m r i members = Inr ()"
    "validate_manifest E m = Inr (vp_manifest p)" "check_coverage E (mf_files (vp_manifest p)) members = Inr ()"
    "record_of_json (with_numbers r len) = Some (vp_record p)"
proof -
  have "\<exists>r c len i members m rec man. trusted_record E text sig tr = Inr (r, c, len, i)
    \<and> jidx r ''manifest_sha256'' = JStr (sha256_hex E mb) \<and> jidx r ''archive_sha256'' = JStr (sha256_hex E ab)
    \<and> len = length ab \<and> read_archive ab = Inr members \<and> bt_get members ''ck.json'' = Some mb
    \<and> manifest_value E mb = Inr m \<and> jidx m ''name'' = jidx r ''name'' \<and> jidx m ''version'' = jidx r ''version''
    \<and> (jidx m ''kind'' = JStr ''flow'') = is_some (jget r ''flow_version'')
    \<and> (if jidx m ''kind'' = JStr ''flow'' then check_flow_identity E m r i members else Inr ()) = Inr ()
    \<and> validate_manifest E m = Inr man \<and> check_coverage E (mf_files man) members = Inr ()
    \<and> record_of_json (with_numbers r len) = Some rec
    \<and> p = \<lparr>vp_record = rec, vp_manifest = man, vp_canonical_record = c\<rparr>"
    using assms unfolding verify_record_def verify_members_def bind_res_eq_Inr if_Inl_eq_Inr ok_or_eq_Inr map_err_eq_Inr
      split_paired_Ex prod.case Let_def not_not old.unit.exhaust
    by (elim exE conjE) (intro exI conjI; (assumption | (simp; fail) | (rule sym, simp)))
  then show thesis by (elim exE conjE) (rule that; simp split: if_splits)
qed

lemma verify_record_parts:
  assumes "verify_record E text sig mb ab tr = Inr p"
  shows "\<exists>members. read_archive ab = Inr members \<and> parse_manifest E mb = Inr (vp_manifest p)
      \<and> package_ok E mb ab members (vp_record p) (vp_manifest p)"
    and "\<exists>k \<in> set (tr_keys tr). ky_public_key k = pr_public_key (vp_record p) \<and> speaks tr k"
    and "verify_signature E (pr_public_key (vp_record p)) ''ck-record/v1'' (vp_canonical_record p) sig"
proof -
  from assms obtain r len i members m where t: "trusted_record E text sig tr = Inr (r, vp_canonical_record p, len, i)"
    and h: "jidx r ''manifest_sha256'' = JStr (sha256_hex E mb)" "jidx r ''archive_sha256'' = JStr (sha256_hex E ab)"
      "len = length ab" "read_archive ab = Inr members" "bt_get members ''ck.json'' = Some mb"
    and m: "manifest_value E mb = Inr m" "jidx m ''name'' = jidx r ''name''" "jidx m ''version'' = jidx r ''version''"
      "validate_manifest E m = Inr (vp_manifest p)" "check_coverage E (mf_files (vp_manifest p)) members = Inr ()"
    and rec: "record_of_json (with_numbers r len) = Some (vp_record p)"
    by (rule verify_record_Inr)
  from t obtain ms k pk where r: "r = JObj ms" and pk: "jidx r ''public_key'' = JStr pk"
    and k: "verify_signature E pk ''ck-record/v1'' (vp_canonical_record p) sig" "k \<in> set (tr_keys tr)"
      "ky_public_key k = pk" "speaks tr k"
    by (rule trusted_record_Inr)
  note f = record_of_json_Some [OF rec, unfolded with_numbers_jidx [OF r] with_numbers_bytes [OF r]]
  have rf: "jidx r ''name'' = JStr (pr_name (vp_record p))" "jidx r ''version'' = JStr (pr_version (vp_record p))"
      "jidx r ''manifest_sha256'' = JStr (pr_manifest_sha256 (vp_record p))"
      "jidx r ''archive_sha256'' = JStr (pr_archive_sha256 (vp_record p))"
      "jidx r ''public_key'' = JStr (pr_public_key (vp_record p))" "pr_archive_bytes (vp_record p) = len"
    using f by (simp_all add: with_numbers_jidx [OF r])
  have mf: "mf_name (vp_manifest p) = pr_name (vp_record p)" "mf_version (vp_manifest p) = pr_version (vp_record p)"
    using manifest_of_object [OF validate_manifest_Inr(1) [OF m(4)], of "pr_name (vp_record p)"] m(2,3) rf by simp_all
  have "package_ok E mb ab members (vp_record p) (vp_manifest p)"
    using h rf mf check_coverage_Inr [OF m(5)] by (simp add: package_ok_def)
  moreover have "parse_manifest E mb = Inr (vp_manifest p)" using m by (simp add: parse_manifest_def)
  ultimately show "\<exists>members. read_archive ab = Inr members \<and> parse_manifest E mb = Inr (vp_manifest p)
      \<and> package_ok E mb ab members (vp_record p) (vp_manifest p)" using h by blast
  have "pk = pr_public_key (vp_record p)" using pk rf by simp
  then show "\<exists>k \<in> set (tr_keys tr). ky_public_key k = pr_public_key (vp_record p) \<and> speaks tr k"
    and "verify_signature E (pr_public_key (vp_record p)) ''ck-record/v1'' (vp_canonical_record p) sig"
    using k by auto
qed

section \<open>What was signed\<close>

text \<open>What the signed text of a record spells: every field of the accepted record.\<close>

definition record_signed :: "ext \<Rightarrow> string \<Rightarrow> pkg_record \<Rightarrow> bool" where
  "record_signed E c rec \<longleftrightarrow>
     (\<forall>(k, s) \<in> set [(''schema'', pr_schema rec), (''name'', pr_name rec), (''version'', pr_version rec),
        (''manifest_sha256'', pr_manifest_sha256 rec), (''archive_sha256'', pr_archive_sha256 rec), (''public_key'', pr_public_key rec)].
        spells c (member_text E k (x_quote E s)))
     \<and> spells c (member_text E ''archive_bytes'' (show_nat (pr_archive_bytes rec)))
     \<and> (\<forall>n. pr_flow_version rec = Some n \<longrightarrow> spells c (member_text E ''flow_version'' (show_nat n)))
     \<and> (\<exists>t. to_canonical E (pr_log_head rec) = Inr t \<and> spells c (member_text E ''log_head'' t))"


lemma with_numbers_jget:
  "r = JObj m \<Longrightarrow> k \<noteq> ''archive_bytes'' \<Longrightarrow> k \<noteq> ''flow_version'' \<Longrightarrow> jget (with_numbers r len) k = jget r k"
  by (auto simp: with_numbers_def Let_def jset_def bt_get_insert split: option.splits)

lemma trusted_record_signed:
  assumes "trusted_record E text sig tr = Inr (r, c, len, i)" and "record_of_json (with_numbers r len) = Some rec"
  shows "canonicalize E text = Inr c" and "record_signed E c rec"
proof -
  obtain m where r: "r = JObj m" and c: "to_canonical E r = Inr c" and len: "positive (jidx r ''archive_bytes'') = Some len"
    and sh: "shape E text ''ck-record/v1'' record_fields [''flow_version''] RecordInvalid = Inr r"
    using trusted_record_Inr [OF assms(1)] by metis
  show "canonicalize E text = Inr c" using shape_canonicalize [OF sh] c by simp
  note f = record_of_json_Some [OF assms(2), unfolded with_numbers_jidx [OF r] with_numbers_bytes [OF r]]
  have strs: "\<forall>(k, s) \<in> set [(''schema'', pr_schema rec), (''name'', pr_name rec), (''version'', pr_version rec),
      (''manifest_sha256'', pr_manifest_sha256 rec), (''archive_sha256'', pr_archive_sha256 rec), (''public_key'', pr_public_key rec)].
      jidx r k = JStr s" using f by (simp add: with_numbers_jidx [OF r])
  have "pr_archive_bytes rec = len" using f(6) by simp
  then have bytes: "spells c (member_text E ''archive_bytes'' (show_nat (pr_archive_bytes rec)))"
    using canonical_spells_positive [OF c len] by simp
  have "spells c (member_text E ''flow_version'' (show_nat n))" if n: "pr_flow_version rec = Some n" for n
  proof -
    obtain x where x: "jget r ''flow_version'' = Some x"
      using f(8) n by (cases "jget r ''flow_version''") (auto simp: opt_u64_value_def with_numbers_def Let_def r jset_def bt_get_insert)
    have "\<not> some_and (\<lambda>v. positive v = None) (jget r ''flow_version'')"
      using assms(1) unfolding trusted_record_def sh bind_res_Inr bind_res_eq_Inr if_Inl_eq_Inr by blast
    then obtain k where k: "positive x = Some k" using x by auto
    then have "jget (with_numbers r len) ''flow_version'' = Some (JNum (PosInt k))"
      using x by (auto simp: with_numbers_def Let_def r jset_def bt_get_insert)
    then have "k = n" using f(8) n by (simp add: opt_u64_value_def)
    then show ?thesis using canonical_spells_positive [OF c, of "''flow_version''"] x k by (simp add: jidx_def)
  qed
  moreover have "jget r ''log_head'' = Some (pr_log_head rec)"
    using assms(2) with_numbers_jget [OF r, of "''log_head''" len] by (auto simp: record_of_json_def split: if_splits option.split_asm)
  from canonical_spells [OF c this] have "\<exists>t. to_canonical E (pr_log_head rec) = Inr t \<and> spells c (member_text E ''log_head'' t)" .
  moreover have "\<forall>(k, s) \<in> set [(''schema'', pr_schema rec), (''name'', pr_name rec), (''version'', pr_version rec),
      (''manifest_sha256'', pr_manifest_sha256 rec), (''archive_sha256'', pr_archive_sha256 rec), (''public_key'', pr_public_key rec)].
      spells c (member_text E k (x_quote E s))" using strs canonical_spells_string [OF c] by auto
  ultimately show "record_signed E c rec" using bytes unfolding record_signed_def by blast
qed

section \<open>What a body may name\<close>

definition declared :: "ext \<Rightarrow> manifest \<Rightarrow> json \<Rightarrow> bool" where
  "declared E m v \<longleftrightarrow> (\<exists>p. v = JStr p \<and> canonical E p \<and> p \<in> fst ` set (rq_packages (mf_requires m)))"

definition listed :: "manifest \<Rightarrow> json \<Rightarrow> bool" where
  "listed m v \<longleftrightarrow> (\<exists>p. v = JStr p \<and> p \<in> fe_path ` set (mf_files m))"

definition body_ok :: "ext \<Rightarrow> manifest \<Rightarrow> bool" where
  "body_ok E m \<longleftrightarrow> (case mf_kind m of
     Skill \<Rightarrow> listed m (jidx (mf_body m) ''entry'')
       \<and> (\<exists>a. jidx (mf_body m) ''scripts'' = JArr a \<and> (\<forall>s \<in> set a. listed m (jidx s ''path'')))
   | Flow \<Rightarrow> listed m (jidx (mf_body m) ''manifest'') \<and> listed m (jidx (mf_body m) ''script'')
   | Persona \<Rightarrow> listed m (jidx (mf_body m) ''prompt'')
       \<and> (\<forall>f \<in> {''extends'', ''memory_profile''}. \<forall>v. jget (mf_body m) f = Some v \<longrightarrow> declared E m v)
       \<and> (\<forall>f \<in> {''skills'', ''flows''}. \<exists>a. jidx (mf_body m) f = JArr a \<and> (\<forall>v \<in> set a. declared E m v))
       \<and> (\<exists>ds. jidx (mf_body m) ''delegates_to'' = JObj ds \<and> (\<forall>(i, v) \<in> set ds. contract_id i \<and> (v = JNull \<or> declared E m v)))
   | MemoryProfile \<Rightarrow> True)"

lemma check_file_Inr: "check_file (rev (map fe_path (mf_files m))) v = Inr () \<longleftrightarrow> listed m v"
  by (auto simp: check_file_def listed_def bind_res_eq_Inr refuse_unless_def)

lemma check_ref_Inr: "check_ref E (mf_requires m) v f = Inr () \<longleftrightarrow> declared E m v"
  by (auto simp: check_ref_def declared_def split: option.splits)

lemma as_array_Some: "as_array v = Some a \<longleftrightarrow> v = JArr a"
  by (cases v) auto

lemma check_skill_Inr: "check_skill (rev (map fe_path (mf_files m))) b = Inr () \<Longrightarrow>
    listed m (jidx b ''entry'') \<and> (\<exists>a. jidx b ''scripts'' = JArr a \<and> (\<forall>s \<in> set a. listed m (jidx s ''path'')))"
  by (auto simp: check_skill_def check_script_def bind_res_eq_Inr check_file_Inr each_ok_Inr as_array_Some)

lemma check_persona_Inr:
  assumes "check_persona E (mf_requires m) (rev (map fe_path (mf_files m))) b = Inr ()"
  shows "listed m (jidx b ''prompt'')"
    and "f \<in> {''extends'', ''memory_profile''} \<Longrightarrow> jget b f = Some v \<Longrightarrow> declared E m v"
    and "f \<in> {''skills'', ''flows''} \<Longrightarrow> \<exists>a. jidx b f = JArr a \<and> (\<forall>v \<in> set a. declared E m v)"
    and "\<exists>ds. jidx b ''delegates_to'' = JObj ds \<and> (\<forall>(i, v) \<in> set ds. contract_id i \<and> (v = JNull \<or> declared E m v))"
proof -
  note c = assms [unfolded check_persona_def bind_res_eq_Inr if_Inl_eq_Inr ok_or_eq_Inr each_ok_Inr check_file_Inr]
  show "listed m (jidx b ''prompt'')" using c by (elim exE conjE) (simp add: check_file_Inr)
  have r: "\<forall>f \<in> set [''extends'', ''memory_profile'']. (case jget b f of None \<Rightarrow> Inr () | Some v \<Rightarrow> check_ref E (mf_requires m) v f) = Inr ()"
    using c by blast
  show "f \<in> {''extends'', ''memory_profile''} \<Longrightarrow> jget b f = Some v \<Longrightarrow> declared E m v"
    using bspec [OF r, of f] by (simp add: check_ref_Inr)
  have s: "\<forall>f \<in> set [''skills'', ''flows'']. \<exists>a. as_array (jidx b f) = Some a \<and> (\<forall>v \<in> set a. check_ref E (mf_requires m) v f = Inr ())"
    using c by blast
  show "f \<in> {''skills'', ''flows''} \<Longrightarrow> \<exists>a. jidx b f = JArr a \<and> (\<forall>v \<in> set a. declared E m v)"
    using bspec [OF s, of f] by (simp add: check_ref_Inr as_array_Some)
  obtain ds where ds: "as_object (jidx b ''delegates_to'') = Some ds"
    "\<forall>x \<in> set ds. (\<lambda>(i, v). if \<not> contract_id i then Inl (manifest_invalid ''body.delegates_to'')
        else if v = JNull then Inr () else check_ref E (mf_requires m) v ''delegates_to'') x = Inr ()"
    using c by blast
  have "\<forall>(i, v) \<in> set ds. contract_id i \<and> (v = JNull \<or> declared E m v)"
    using ds(2) by (fastforce simp: check_ref_Inr split: if_splits)
  then show "\<exists>ds. jidx b ''delegates_to'' = JObj ds \<and> (\<forall>(i, v) \<in> set ds. contract_id i \<and> (v = JNull \<or> declared E m v))"
    using ds(1) by (simp add: as_object_Some)
qed

lemma check_body_Inr:
  assumes "check_body E m (rev (map fe_path (mf_files m))) = Inr ()"
  shows "body_ok E m"
proof (cases "mf_kind m")
  case Persona
  then have "check_persona E (mf_requires m) (rev (map fe_path (mf_files m))) (mf_body m) = Inr ()"
    using assms by (auto simp: check_body_def bind_res_eq_Inr)
  from check_persona_Inr [OF this] show ?thesis unfolding body_ok_def Persona kind.case by blast
next
  case Skill
  then show ?thesis using assms check_skill_Inr [of m "mf_body m"] by (auto simp: body_ok_def check_body_def bind_res_eq_Inr)
next
  case Flow
  then show ?thesis using assms by (auto simp: body_ok_def check_body_def check_flow_def bind_res_eq_Inr check_file_Inr)
qed (simp add: body_ok_def)

section \<open>Concrete packages for the witnesses\<close>

text \<open>A flow package of two members. The documents are named by one letter; every digest is zero,
  as \<open>zero_ext\<close> has it. The manifest \<open>q\<close> names its kind by a string, \<open>n\<close> by an object.\<close>

definition demo_zeros :: string where "demo_zeros = replicate 64 CHR ''0''"

definition demo_record :: "(string \<times> raw) list \<Rightarrow> raw" where
  "demo_record extra = RMap ([(''schema'', RStr ''ck-record/v1''), (''name'', RStr ''@acme/notes''), (''version'', RStr ''1.0.0''),
     (''manifest_sha256'', RStr demo_zeros), (''archive_sha256'', RStr demo_zeros), (''archive_bytes'', RU64 3072),
     (''public_key'', RStr (replicate 64 CHR ''c'')), (''log_head'', RNull)] @ extra)"

definition demo_manifest :: "raw \<Rightarrow> raw" where
  "demo_manifest kd = RMap [(''schema'', RStr ''ck-package/v1''), (''name'', RStr ''@acme/notes''), (''version'', RStr ''1.0.0''),
     (''kind'', kd), (''summary'', RStr ''Notes''), (''license'', RStr ''MIT''), (''source'', RStr ''https:x''),
     (''requires'', RMap [(''capabilities'', RSeq []), (''packages'', RMap [])]),
     (''files'', RSeq [RMap [(''path'', RStr ''f''), (''sha256'', RStr demo_zeros), (''bytes'', RU64 1)]]),
     (''body'', RMap [(''manifest'', RStr ''f''), (''script'', RStr ''f'')])]"

definition demo_package_ext :: ext where
  "demo_package_ext = zero_ext\<lparr>x_parse := map_of
     [(''r'', demo_record [(''flow_version'', RU64 7)]), (''s'', demo_record []),
      (''q'', demo_manifest (RStr ''flow'')), (''n'', demo_manifest (RMap [(''flow'', RNull)])),
      (''x'', RMap [(''id'', RStr ''acme--notes''), (''version'', RU64 7)]),
      (''y'', RMap [(''id'', RStr ''other''), (''version'', RU64 1)])]\<rparr>"

definition demo_trust :: trust where
  "demo_trust = \<lparr>tr_keys = [\<lparr>ky_public_key = replicate 64 CHR ''c'', ky_valid_from = ''2024-01-01T00:00:00Z'',
     ky_valid_until = None, ky_revocation = None\<rparr>], tr_published_at = None\<rparr>"

definition demo_package :: "string \<Rightarrow> string \<Rightarrow> member list" where
  "demo_package ck f = [regular ''ck.json'' ck, regular ''f'' f]"

lemma demo_archive:
  assumes "length ck = 1" and "length f = 1"
  obtains a where "write_archive (demo_package ck f) = Inr a" "read_archive a = Inr [(''ck.json'', ck), (''f'', f)]" "length a = 3072"
proof -
  obtain x y where xy: "ck = [x]" "f = [y]" using assms by (auto simp: length_Suc_conv)
  have c: "check_members [] [] 1024 (demo_package ck f) = Inr ([''f'', ''ck.json''], 3072)"
    unfolding xy by code_simp
  then have m: "\<forall>m \<in> set (demo_package ck f). member_ok m" using check_members_Inr [OF c] by blast
  then have "write_members [] (demo_package ck f) = Inr (concat (map block (demo_package ck f)))"
    using write_members_blocks [of "[]" "demo_package ck f"] by simp
  then obtain a where a: "write_archive (demo_package ck f) = Inr a"
    using c by (auto simp: write_archive_def) (auto simp: demo_package_def regular_def MAX_MEMBERS_def)
  have "length a = 3072"
    using write_archive_Inr(5) [OF a] m assms
    by (simp add: demo_package_def length_block regular_def rounded_def zeros_def)
  moreover have "read_archive a = Inr [(''ck.json'', ck), (''f'', f)]"
    using write_read [OF a] by (simp add: bt_of_list_def demo_package_def regular_def)
  ultimately show thesis using that a by blast
qed

lemma demo_trusted_r: "case trusted_record demo_package_ext ''r'' demo_sig demo_trust of Inl _ \<Rightarrow> False | Inr (r, c, len, i) \<Rightarrow>
     jidx r ''manifest_sha256'' = JStr demo_zeros \<and> jidx r ''archive_sha256'' = JStr demo_zeros \<and> len = 3072
     \<and> (case verify_members demo_package_ext r c len i ''q'' [(''ck.json'', ''q''), (''f'', ''x'')] of Inl _ \<Rightarrow> False
       | Inr p \<Rightarrow> mf_kind (vp_manifest p) = Flow \<and> pr_flow_version (vp_record p) = Some 7)"
  by code_simp

lemma demo_trusted_s: "case trusted_record demo_package_ext ''s'' demo_sig demo_trust of Inl _ \<Rightarrow> False | Inr (r, c, len, i) \<Rightarrow>
     jidx r ''manifest_sha256'' = JStr demo_zeros \<and> jidx r ''archive_sha256'' = JStr demo_zeros \<and> len = 3072
     \<and> (case verify_members demo_package_ext r c len i ''n'' [(''ck.json'', ''n''), (''f'', ''y'')] of Inl _ \<Rightarrow> False
       | Inr p \<Rightarrow> mf_kind (vp_manifest p) = Flow \<and> pr_flow_version (vp_record p) = None)"
  by code_simp

lemma verify_record_run:
  assumes "case trusted_record demo_package_ext t demo_sig demo_trust of Inl _ \<Rightarrow> False | Inr (r, c, len, i) \<Rightarrow>
     jidx r ''manifest_sha256'' = JStr demo_zeros \<and> jidx r ''archive_sha256'' = JStr demo_zeros \<and> len = 3072
     \<and> (case verify_members demo_package_ext r c len i ck [(''ck.json'', ck), (''f'', f)] of Inl _ \<Rightarrow> False | Inr p \<Rightarrow> P p)"
    and "length ck = 1" "length f = 1"
  shows "\<exists>a p. write_archive (demo_package ck f) = Inr a \<and> verify_record demo_package_ext t demo_sig ck a demo_trust = Inr p \<and> P p"
proof -
  have z: "sha256_hex demo_package_ext b = demo_zeros" for b
    by (simp add: sha256_hex_def demo_package_ext_def zero_ext_def) code_simp
  obtain a where a: "write_archive (demo_package ck f) = Inr a" "read_archive a = Inr [(''ck.json'', ck), (''f'', f)]"
      "length a = 3072"
    using demo_archive [OF assms(2,3)] by metis
  obtain r c i p where t: "trusted_record demo_package_ext t demo_sig demo_trust = Inr (r, c, 3072, i)"
    and d: "jidx r ''manifest_sha256'' = JStr demo_zeros" "jidx r ''archive_sha256'' = JStr demo_zeros"
    and m: "verify_members demo_package_ext r c 3072 i ck [(''ck.json'', ck), (''f'', f)] = Inr p" "P p"
  proof (cases "trusted_record demo_package_ext t demo_sig demo_trust")
    case (Inr x)
    obtain r c len i where x: "x = (r, c, len, i)" by (cases x)
    note h = assms(1) [unfolded Inr x sum.case prod.case]
    then obtain p where "verify_members demo_package_ext r c len i ck [(''ck.json'', ck), (''f'', f)] = Inr p" "P p"
      by (cases "verify_members demo_package_ext r c len i ck [(''ck.json'', ck), (''f'', f)]") simp_all
    then show thesis using h that Inr x by blast
  qed (use assms(1) in simp)
  have "verify_record demo_package_ext t demo_sig ck a demo_trust = Inr p"
    unfolding verify_record_def t bind_res_Inr prod.case z d a(2,3) map_err_simps by (simp only: simp_thms if_False m(1))
  then show ?thesis using a m(2) by blast
qed

section \<open>Properties\<close>

text \<open>C10. A package that verification accepts is the package its publisher signed. The signature of a
  listed key that still speaks for the scope is over the canonical text of the record, and that text
  spells every field of the accepted record: its name, version, digests, length, key, log head and
  flow version. The manifest and the archive have the digests and the length the record states, the
  archive is well formed and its members are the manifest and exactly the files the manifest lists,
  with their digests and lengths, and the manifest is valid and names the package and version of the
  record.\<close>

theorem verify_record_sound:
  assumes "verify_record E text sig mb ab tr = Inr p"
  shows "verify_signature E (pr_public_key (vp_record p)) ''ck-record/v1'' (vp_canonical_record p) sig
    \<and> canonicalize E text = Inr (vp_canonical_record p) \<and> record_signed E (vp_canonical_record p) (vp_record p)
    \<and> (\<exists>k \<in> set (tr_keys tr). ky_public_key k = pr_public_key (vp_record p) \<and> speaks tr k)
    \<and> parse_manifest E mb = Inr (vp_manifest p)
    \<and> (\<exists>members. read_archive ab = Inr members \<and> package_ok E mb ab members (vp_record p) (vp_manifest p))"
proof -
  obtain r len i where "trusted_record E text sig tr = Inr (r, vp_canonical_record p, len, i)"
    "record_of_json (with_numbers r len) = Some (vp_record p)" using verify_record_Inr [OF assms] by metis
  from trusted_record_signed [OF this] show ?thesis using verify_record_parts [OF assms] by blast
qed

lemma verify_record_sound_witness:
  "\<exists>a p. verify_record demo_package_ext ''r'' demo_sig ''q'' a demo_trust = Inr p \<and> mf_kind (vp_manifest p) = Flow
     \<and> pr_manifest_sha256 (vp_record p) = sha256_hex demo_package_ext ''q'' \<and> pr_archive_bytes (vp_record p) = length a"
proof -
  obtain a p where p: "verify_record demo_package_ext ''r'' demo_sig ''q'' a demo_trust = Inr p" "mf_kind (vp_manifest p) = Flow"
    using verify_record_run [OF demo_trusted_r] by auto
  from verify_record_sound [OF p(1)] show ?thesis using p by (auto simp: package_ok_def)
qed

text \<open>C34. A manifest that is accepted is well formed: its name, version, capabilities and required
  packages parse, its files have safe paths that differ even when letter case is ignored, and its
  body names only listed files and required packages.\<close>

theorem parse_manifest_sound:
  assumes "parse_manifest E bs = Inr m"
  shows "manifest_ok E m \<and> body_ok E m"
proof -
  obtain v where "validate_manifest E v = Inr m" using assms by (auto simp: parse_manifest_def bind_res_eq_Inr)
  from validate_manifest_Inr [OF this] check_body_Inr show ?thesis by blast
qed

lemma parse_manifest_sound_witness:
  "\<exists>m. parse_manifest demo_package_ext ''q'' = Inr m \<and> mf_kind m = Flow \<and> manifest_ok demo_package_ext m \<and> body_ok demo_package_ext m"
proof -
  have "case parse_manifest demo_package_ext ''q'' of Inl _ \<Rightarrow> False | Inr m \<Rightarrow> mf_kind m = Flow" by code_simp
  then obtain m where "parse_manifest demo_package_ext ''q'' = Inr m" "mf_kind m = Flow" by (auto split: sum.splits)
  then show ?thesis using parse_manifest_sound by blast
qed

text \<open>The identity of a flow is compared only when the manifest spells its kind as a string. The
  derived deserializer also takes an object of one member, so a package of kind flow is accepted
  whose record has no flow version and whose flow is not the package's.\<close>

theorem flow_identity_bypassed:
  "\<exists>a p flow. verify_record demo_package_ext ''s'' demo_sig ''n'' a demo_trust = Inr p \<and> mf_kind (vp_manifest p) = Flow
     \<and> pr_flow_version (vp_record p) = None \<and> read_archive a = Inr [(''ck.json'', ''n''), (''f'', ''y'')]
     \<and> json_of_bytes demo_package_ext ''y'' = Some flow \<and> jidx flow ''id'' = JStr ''other''
     \<and> check_flow_identity demo_package_ext (JObj [(''body'', mf_body (vp_manifest p))]) (JObj []) ''acme--notes''
          [(''ck.json'', ''n''), (''f'', ''y'')] = Inl (record_mismatch ''flow.json id'')"
proof -
  obtain a p where w: "write_archive (demo_package ''n'' ''y'') = Inr a"
    and p: "verify_record demo_package_ext ''s'' demo_sig ''n'' a demo_trust = Inr p"
      "mf_kind (vp_manifest p) = Flow" "pr_flow_version (vp_record p) = None"
    using verify_record_run [OF demo_trusted_s] by auto
  have r: "read_archive a = Inr [(''ck.json'', ''n''), (''f'', ''y'')]" using demo_archive [of "''n''" "''y''"] w by auto
  have f: "case json_of_bytes demo_package_ext ''y'' of None \<Rightarrow> False | Some f \<Rightarrow> jidx f ''id'' = JStr ''other''" by code_simp
  have "case parse_manifest demo_package_ext ''n'' of Inl _ \<Rightarrow> False | Inr m \<Rightarrow>
      check_flow_identity demo_package_ext (JObj [(''body'', mf_body m)]) (JObj []) ''acme--notes''
          [(''ck.json'', ''n''), (''f'', ''y'')] = Inl (record_mismatch ''flow.json id'')" by code_simp
  moreover have "parse_manifest demo_package_ext ''n'' = Inr (vp_manifest p)" using verify_record_parts [OF p(1)] by blast
  ultimately show ?thesis using p r f by (auto split: option.splits)
qed

end
