(* ===== verification/Resolver.thy ===== *)
theory Resolver
  imports Packages
begin

text \<open>
  Closure resolution (\<open>crates/entorhinal-catalog/src/resolver.rs\<close>). A round picks versions from the
  root outwards and records the ranges the picks ask for; rounds repeat until nothing new is
  recorded. The loops that the code leaves unbounded are partial functions, whose \<open>None\<close> is
  not returning.
\<close>

section \<open>Data\<close>

datatype ref_field = RefExtends | RefSkills | RefFlows | RefMemoryProfile | RefDelegatesTo

fun ref_kind :: "ref_field \<Rightarrow> kind" where
  "ref_kind RefExtends = Persona"
| "ref_kind RefDelegatesTo = Persona"
| "ref_kind RefSkills = Skill"
| "ref_kind RefFlows = Flow"
| "ref_kind RefMemoryProfile = MemoryProfile"

record body_ref =
  br_field :: ref_field
  br_package :: string

record registry_version =
  rg_version :: string
  rg_kind :: kind
  rg_status :: state
  rg_requires :: requirements
  rg_refs :: "body_ref list"

type_synonym registry = "(string, registry_version list) btree"
type_synonym asked = "(string, string) btree"
type_synonym picks = "(string, registry_version) btree"

record resolve_root =
  rt_package :: string
  rt_range :: string

record asked_range =
  ar_requested_by :: string
  ar_range :: string

datatype resolve_error =
    ResPinConflict (pc_package: string) (pc_pinned: string) (pc_range: string) (pc_by: string)
  | ResPackageNotFound string
  | ResRangeInvalid string string string
  | ResVersionInvalid string string
  | ResNoMatchingVersion string "asked_range list"
  | ResRangeConflict string "asked_range list"
  | ResDependencyCycle "string list"
  | ResBodyRefMissing string ref_field string
  | ResKindMismatch string ref_field string kind kind
  | ResDelegateMissing string
  | ResDelegateAmbiguous string "string list"

datatype direction = Added | Removed | Down | Same | Up

record move =
  mv_from :: "string option"
  mv_to :: "string option"
  mv_direction :: direction

record resolution =
  rs_picks :: "(string, string) btree"
  rs_moves :: "(string, move) btree option"

section \<open>One pick\<close>

text \<open>\<open>sort_by\<close>, which is stable.\<close>

fun insert_by :: "('a \<Rightarrow> 'a \<Rightarrow> bool) \<Rightarrow> 'a \<Rightarrow> 'a list \<Rightarrow> 'a list" where
  "insert_by le x [] = [x]"
| "insert_by le x (y # ys) = (if le x y then x # y # ys else y # insert_by le x ys)"

definition sort_by :: "('a \<Rightarrow> 'a \<Rightarrow> bool) \<Rightarrow> 'a list \<Rightarrow> 'a list" where
  "sort_by le xs = foldr (insert_by le) xs []"

definition before :: "registry_version \<times> version \<Rightarrow> registry_version \<times> version \<Rightarrow> bool" where
  "before a b \<longleftrightarrow> then_with (version_cmp (snd b) (snd a)) (cmp_of (rg_version (fst a)) (rg_version (fst b))) \<noteq> Greater"

definition offered :: "string list \<Rightarrow> registry_version \<Rightarrow> bool" where
  "offered caps rv \<longleftrightarrow> rg_status rv = Available \<and> list_all (\<lambda>t. t \<in> set caps) (rq_capabilities (rg_requires rv))"

definition parse_asked :: "string \<Rightarrow> asked \<Rightarrow> resolve_error + range list" where
  "parse_asked pkg a = map_res (\<lambda>(by, t). map_err (\<lambda>_. ResRangeInvalid pkg t by) (parse_range t)) a"

definition usable_versions :: "string list \<Rightarrow> string \<Rightarrow> registry_version list \<Rightarrow> resolve_error + (registry_version \<times> version) list" where
  "usable_versions caps pkg rvs = map_res (\<lambda>rv. bind_res
     (map_err (\<lambda>_. ResVersionInvalid pkg (rg_version rv)) (parse_version (rg_version rv))) (\<lambda>v. Inr (rv, v)))
     (filter (offered caps) rvs)"

definition asked_of :: "(string, asked) btree \<Rightarrow> string \<Rightarrow> asked" where
  "asked_of ranges pkg = (case bt_get ranges pkg of None \<Rightarrow> [] | Some a \<Rightarrow> a)"

definition no_candidate :: "string \<Rightarrow> asked \<Rightarrow> range list \<Rightarrow> (registry_version \<times> version) list \<Rightarrow> resolve_error" where
  "no_candidate pkg a parsed usable =
    (let detail = map (\<lambda>(by, t). \<lparr>ar_requested_by = by, ar_range = t\<rparr>) a in
     if length parsed > 1 \<and> list_all (\<lambda>r. list_ex (\<lambda>(_, v). satisfies r v) usable) parsed
     then ResRangeConflict pkg detail else ResNoMatchingVersion pkg detail)"

definition pick_for :: "registry \<Rightarrow> string list \<Rightarrow> asked \<Rightarrow> string \<Rightarrow> resolve_error + registry_version" where
  "pick_for reg caps a pkg =
    bind_res (ok_or (bt_get reg pkg) (ResPackageNotFound pkg)) (\<lambda>rvs.
    bind_res (parse_asked pkg a) (\<lambda>parsed.
    bind_res (usable_versions caps pkg rvs) (\<lambda>usable.
      (case sort_by before (filter (\<lambda>(_, v). list_all (\<lambda>r. satisfies r v) parsed) usable) of
         [] \<Rightarrow> Inl (no_candidate pkg a parsed usable)
       | c # _ \<Rightarrow> Inr (fst c)))))"

section \<open>Rounds\<close>

definition pick_name :: "string \<Rightarrow> registry_version \<Rightarrow> string" where
  "pick_name pkg rv = pkg @ ''@'' @ rg_version rv"

definition record_range :: "string \<Rightarrow> string \<times> string \<Rightarrow> (string, asked) btree \<times> bool \<Rightarrow> (string, asked) btree \<times> bool" where
  "record_range by dt st = (let recorded = asked_of (fst st) (fst dt) in
     if bt_has recorded by then (bt_insert (fst dt) recorded (fst st), snd st)
     else (bt_insert (fst dt) (bt_insert by (snd dt) recorded) (fst st), True))"

definition unpicked :: "registry \<Rightarrow> picks \<Rightarrow> nat" where
  "unpicked reg ps = length (filter (\<lambda>k. \<not> bt_has ps k) (map fst reg))"

lemma unpicked_insert: "bt_get reg p \<noteq> None \<Longrightarrow> \<not> bt_has ps p \<Longrightarrow> unpicked reg (bt_insert p rv ps) < unpicked reg ps"
  unfolding unpicked_def
proof (induction reg)
  case (Cons kv reg)
  obtain k v where kv: "kv = (k, v)" by (cases kv)
  have "length (filter (\<lambda>k. \<not> bt_has (bt_insert p rv ps) k) (map fst reg)) \<le> length (filter (\<lambda>k. \<not> bt_has ps k) (map fst reg))"
    by (induction reg) (auto simp: set_keys_insert)
  then show ?case using Cons by (auto simp: kv bt_get_def set_keys_insert split: if_splits)
qed (simp add: bt_get_def)

lemma pick_for_found: "pick_for reg caps a pkg = Inr rv \<Longrightarrow> bt_get reg pkg \<noteq> None"
  by (auto simp: pick_for_def bind_res_eq_Inr)

function round_loop :: "registry \<Rightarrow> string list \<Rightarrow> picks \<Rightarrow> (string, asked) btree \<Rightarrow> bool \<Rightarrow> string list
    \<Rightarrow> resolve_error + (picks \<times> (string, asked) btree \<times> bool)" where
  "round_loop reg caps ps ranges new [] = Inr (ps, ranges, new)"
| "round_loop reg caps ps ranges new (pkg # queue) =
    (if bt_has ps pkg then round_loop reg caps ps ranges new queue
     else (case pick_for reg caps (asked_of ranges pkg) pkg of Inl e \<Rightarrow> Inl e
       | Inr rv \<Rightarrow> (let st = fold (record_range (pick_name pkg rv)) (rq_packages (rg_requires rv)) (ranges, new) in
           round_loop reg caps (bt_insert pkg rv ps) (fst st) (snd st) (queue @ map fst (rq_packages (rg_requires rv))))))"
  by pat_completeness auto
termination
  by (relation "measures [\<lambda>(reg, caps, ps, ranges, new, queue). unpicked reg ps,
      \<lambda>(reg, caps, ps, ranges, new, queue). length queue]")
    (auto dest!: pick_for_found simp del: bt_has_iff intro: unpicked_insert)

partial_function (option) rounds :: "registry \<Rightarrow> string list \<Rightarrow> string \<Rightarrow> (string, asked) btree \<Rightarrow> (resolve_error + picks) option" where
  "rounds reg caps root_pkg ranges = (case round_loop reg caps [] ranges False [root_pkg] of
     Inl e \<Rightarrow> Some (Inl e)
   | Inr (ps, ranges', new) \<Rightarrow> (if new then rounds reg caps root_pkg ranges' else Some (Inr ps)))"

section \<open>Cycles\<close>

definition deps :: "picks \<Rightarrow> string \<Rightarrow> string list" where
  "deps ps pkg = (case bt_get ps pkg of None \<Rightarrow> [] | Some rv \<Rightarrow> map fst (rq_packages (rg_requires rv)))"

text \<open>The top of the stack is the head of the list; the path grows at its end.\<close>

partial_function (option) dfs :: "picks \<Rightarrow> (string \<times> bool) list \<Rightarrow> string list \<Rightarrow> string list \<Rightarrow> (resolve_error + unit) option" where
  "dfs ps stack path visited = (case stack of
     [] \<Rightarrow> Some (Inr ())
   | (pkg, leave) # rest \<Rightarrow>
      (if leave then dfs ps rest (butlast path) (pkg # visited)
       else (case position (\<lambda>p. p = pkg) path of
          Some i \<Rightarrow> Some (Inl (ResDependencyCycle (drop i path @ [pkg])))
        | None \<Rightarrow> (if pkg \<in> set visited then dfs ps rest path visited
            else dfs ps (map (\<lambda>d. (d, False)) (deps ps pkg) @ (pkg, True) # rest) (path @ [pkg]) visited))))"

declare rounds.simps [code] dfs.simps [code]

section \<open>Body references and moves\<close>

definition check_refs :: "picks \<Rightarrow> resolve_error + unit" where
  "check_refs ps = bind_res
    (each_ok (\<lambda>(pkg, rv). each_ok (\<lambda>r. if bt_has (rq_packages (rg_requires rv)) (br_package r) then Inr ()
        else Inl (ResBodyRefMissing pkg (br_field r) (br_package r))) (rg_refs rv)) ps) (\<lambda>_.
     each_ok (\<lambda>(pkg, rv). each_ok (\<lambda>r.
        bind_res (ok_or (map_option rg_kind (bt_get ps (br_package r))) (ResPackageNotFound (br_package r))) (\<lambda>found.
          if found \<noteq> ref_kind (br_field r)
          then Inl (ResKindMismatch pkg (br_field r) (br_package r) (ref_kind (br_field r)) found) else Inr ()))
        (rg_refs rv)) ps)"

definition direction_of :: "string \<Rightarrow> string option \<Rightarrow> string option \<Rightarrow> resolve_error + direction" where
  "direction_of pkg from to = (case (from, to) of
     (None, _) \<Rightarrow> Inr Added
   | (_, None) \<Rightarrow> Inr Removed
   | (Some a, Some b) \<Rightarrow>
       bind_res (map_err (\<lambda>_. ResVersionInvalid pkg b) (parse_version b)) (\<lambda>vb.
       bind_res (map_err (\<lambda>_. ResVersionInvalid pkg a) (parse_version a)) (\<lambda>va.
         Inr (case version_cmp vb va of Less \<Rightarrow> Down | Equal \<Rightarrow> Same | Greater \<Rightarrow> Up))))"

definition moves_of :: "(string, string) btree \<Rightarrow> (string, string) btree \<Rightarrow> resolve_error + (string, move) btree" where
  "moves_of pins out =
    bind_res (map_res (\<lambda>pkg. bind_res (direction_of pkg (bt_get pins pkg) (bt_get out pkg)) (\<lambda>d.
        Inr (pkg, \<lparr>mv_from = bt_get pins pkg, mv_to = bt_get out pkg, mv_direction = d\<rparr>)))
      (bt_keys (bt_of_list (map (\<lambda>p. (fst p, ())) (pins @ out))))) (\<lambda>ms. Inr (bt_of_list ms))"

definition resolve :: "registry \<Rightarrow> resolve_root \<Rightarrow> string list \<Rightarrow> (string, string) btree option
    \<Rightarrow> (resolve_error + resolution) option" where
  "resolve reg root_req caps pins =
    (case rounds reg caps (rt_package root_req) [(rt_package root_req, [(''(root)'', rt_range root_req)])] of
       None \<Rightarrow> None
     | Some (Inl e) \<Rightarrow> Some (Inl e)
     | Some (Inr ps) \<Rightarrow> (case dfs ps [(rt_package root_req, False)] [] [] of
          None \<Rightarrow> None
        | Some (Inl e) \<Rightarrow> Some (Inl e)
        | Some (Inr _) \<Rightarrow> Some (bind_res (check_refs ps) (\<lambda>_.
            let out = map (\<lambda>(p, rv). (p, rg_version rv)) ps in
            (case pins of None \<Rightarrow> Inr \<lparr>rs_picks = out, rs_moves = None\<rparr>
             | Some pins' \<Rightarrow> bind_res (moves_of pins' out) (\<lambda>ms. Inr \<lparr>rs_picks = out, rs_moves = Some ms\<rparr>))))))"

definition worker_provider :: "string \<Rightarrow> (string, string list) btree \<Rightarrow> resolve_error + string" where
  "worker_provider contract impls =
    (case map fst (filter (\<lambda>(_, ids). list_ex (\<lambda>i. i = contract) ids) impls) of
       [] \<Rightarrow> Inl (ResDelegateMissing contract)
     | [p] \<Rightarrow> Inr p
     | ps \<Rightarrow> Inl (ResDelegateAmbiguous contract ps))"

section \<open>Several roots\<close>

definition pinned_deps :: "registry \<Rightarrow> (string, string) btree \<Rightarrow> string \<Rightarrow> string list" where
  "pinned_deps reg pins p = (case bt_get pins p of None \<Rightarrow> [] | Some v \<Rightarrow>
     (case bt_get reg p of None \<Rightarrow> [] | Some rvs \<Rightarrow>
       (case find (\<lambda>r. rg_version r = v) rvs of None \<Rightarrow> [] | Some rv \<Rightarrow>
         filter (bt_has pins) (map fst (rq_packages (rg_requires rv))))))"

definition unseen :: "(string, string) btree \<Rightarrow> string list \<Rightarrow> nat" where
  "unseen pins seen = length (filter (\<lambda>k. k \<notin> set seen) (map fst pins))"

lemma unseen_less: "bt_get pins p \<noteq> None \<Longrightarrow> p \<notin> set seen \<Longrightarrow> unseen pins (p # seen) < unseen pins seen"
  unfolding unseen_def
proof (induction pins)
  case (Cons kv pins)
  have "length (filter (\<lambda>k. k \<notin> set (p # seen)) (map fst pins)) \<le> length (filter (\<lambda>k. k \<notin> set seen) (map fst pins))"
    by (induction pins) auto
  then show ?case using Cons by (cases kv) (auto simp: bt_get_def split: if_splits)
qed (simp add: bt_get_def)

lemma unseen_same: "bt_get pins p = None \<Longrightarrow> unseen pins (p # seen) = unseen pins seen"
  unfolding unseen_def bt_get_None by (rule arg_cong [where f = length], rule filter_cong) auto

function reach_loop :: "registry \<Rightarrow> (string, string) btree \<Rightarrow> string list \<Rightarrow> string list \<Rightarrow> string list" where
  "reach_loop reg pins seen [] = seen"
| "reach_loop reg pins seen (p # queue) =
    (if p \<in> set seen then reach_loop reg pins seen queue
     else reach_loop reg pins (p # seen) (queue @ pinned_deps reg pins p))"
  by pat_completeness auto
termination
proof (relation "measures [\<lambda>(reg, pins, seen, queue). unseen pins seen, \<lambda>(reg, pins, seen, queue). length queue]", goal_cases)
  case (3 reg pins seen p queue)
  show ?case
  proof (cases "bt_get pins p")
    case None
    then show ?thesis by (simp add: unseen_same pinned_deps_def)
  next
    case (Some v)
    then show ?thesis using unseen_less [of pins p seen] 3 by simp
  qed
qed auto

definition synthetic_root_ranges :: "registry \<Rightarrow> (string, string) btree \<Rightarrow> string list \<Rightarrow> (string, string) btree
    \<Rightarrow> resolve_error + (string, string) btree" where
  "synthetic_root_ranges reg rts subjects pins =
    (case find (\<lambda>s. \<not> bt_has rts s) (sort (remdups subjects)) of
       Some s \<Rightarrow> Inl (ResPackageNotFound s)
     | None \<Rightarrow>
        (let reachable = reach_loop reg pins [] (filter (\<lambda>r. r \<notin> set subjects) (map fst rts));
             free = (\<lambda>p. p \<in> set subjects \<or> (\<not> bt_has rts p \<and> p \<notin> set reachable)) in
         bind_res (map_res (\<lambda>(r, range). if r \<in> set subjects then Inr (r, range)
             else bind_res (ok_or (bt_get pins r) (ResPackageNotFound r)) (\<lambda>v. Inr (r, ''='' @ v))) rts) (\<lambda>base.
           Inr (fold (\<lambda>(p, v) m. if free p then m else bt_insert p (''='' @ v) m) pins (bt_of_list base)))))"

definition SYNTHETIC :: string where
  "SYNTHETIC = CHR 0x00 # ''catalog-roots''"

definition synthetic_version :: "(string, string) btree \<Rightarrow> registry_version" where
  "synthetic_version ranges = \<lparr>rg_version = ''0.0.0'', rg_kind = Skill, rg_status = Available,
     rg_requires = \<lparr>rq_capabilities = [], rq_packages = ranges\<rparr>, rg_refs = []\<rparr>"

text \<open>The constraints of the artificial package are the root's.\<close>

definition by_root :: "string \<Rightarrow> string" where
  "by_root b = (if b = SYNTHETIC @ ''@0.0.0'' then ''(root)'' else b)"

fun rename_error :: "resolve_error \<Rightarrow> resolve_error" where
  "rename_error (ResRangeConflict p a) = ResRangeConflict p (map (\<lambda>c. c\<lparr>ar_requested_by := by_root (ar_requested_by c)\<rparr>) a)"
| "rename_error (ResNoMatchingVersion p a) = ResNoMatchingVersion p (map (\<lambda>c. c\<lparr>ar_requested_by := by_root (ar_requested_by c)\<rparr>) a)"
| "rename_error (ResRangeInvalid p r b) = ResRangeInvalid p r (by_root b)"
| "rename_error e = e"

definition pin_conflict :: "(string, string) btree \<Rightarrow> (string, string) btree \<Rightarrow> string \<Rightarrow> asked_range list \<Rightarrow> resolve_error option" where
  "pin_conflict pins ranges pkg a =
    (case bt_get pins pkg of None \<Rightarrow> None | Some v \<Rightarrow>
      if bt_get ranges pkg \<noteq> Some (''='' @ v) then None
      else (case parse_version v of Inl _ \<Rightarrow> None | Inr pinned \<Rightarrow>
        map_option (\<lambda>c. ResPinConflict pkg v (ar_range c) (ar_requested_by c))
          (find (\<lambda>c. \<not> (ar_requested_by c = ''(root)'' \<and> ar_range c = ''='' @ v)
             \<and> (case parse_range (ar_range c) of Inl _ \<Rightarrow> False | Inr r \<Rightarrow> \<not> satisfies r pinned)) a)))"

definition roots_error :: "(string, string) btree \<Rightarrow> (string, string) btree \<Rightarrow> resolve_error \<Rightarrow> resolve_error" where
  "roots_error pins ranges e = (let e' = rename_error e in
     case (case e' of ResRangeConflict p a \<Rightarrow> pin_conflict pins ranges p a
         | ResNoMatchingVersion p a \<Rightarrow> pin_conflict pins ranges p a | _ \<Rightarrow> None) of
       None \<Rightarrow> e' | Some c \<Rightarrow> c)"

definition resolve_roots :: "registry \<Rightarrow> (string, string) btree \<Rightarrow> string list \<Rightarrow> (string, string) btree \<Rightarrow> string list
    \<Rightarrow> (resolve_error + resolution) option" where
  "resolve_roots reg rts subjects pins caps =
    (case synthetic_root_ranges reg rts subjects pins of Inl e \<Rightarrow> Some (Inl e)
     | Inr ranges \<Rightarrow>
        (case resolve (bt_insert SYNTHETIC [synthetic_version ranges] reg) \<lparr>rt_package = SYNTHETIC, rt_range = ''*''\<rparr> caps (Some pins) of
           None \<Rightarrow> None
         | Some (Inl e) \<Rightarrow> Some (Inl (roots_error pins ranges e))
         | Some (Inr res) \<Rightarrow> Some (Inr \<lparr>rs_picks = bt_remove SYNTHETIC (rs_picks res),
               rs_moves = map_option (bt_remove SYNTHETIC) (rs_moves res)\<rparr>)))"

section \<open>The pick\<close>

lemma insert_by_Cons: "\<exists>ys. insert_by le x xs = (if xs = [] \<or> le x (hd xs) then x else hd xs) # ys"
  by (cases xs) auto

lemma sort_by_first:
  assumes "\<And>x y. le x y \<or> le y x" and "\<And>x y z. le x y \<Longrightarrow> le y z \<Longrightarrow> le x z" and "xs \<noteq> []"
  shows "\<exists>h t us vs. sort_by le xs = h # t \<and> xs = us @ h # vs \<and> (\<forall>u \<in> set us. \<not> le u h) \<and> (\<forall>x \<in> set xs. le h x)"
  using assms(3)
proof (induction xs)
  case (Cons x xs)
  have refl: "le x x" using assms(1) [of x x] by blast
  show ?case
  proof (cases "xs = []")
    case True
    then show ?thesis using refl by (intro exI [of _ x] exI [of _ "[]"]) (simp add: sort_by_def)
  next
    case False
    then obtain h t us vs where ih: "sort_by le xs = h # t" "xs = us @ h # vs" "\<forall>u \<in> set us. \<not> le u h" "\<forall>x \<in> set xs. le h x"
      using Cons.IH by blast
    have s: "sort_by le (x # xs) = insert_by le x (h # t)" using ih(1) by (simp add: sort_by_def)
    show ?thesis
    proof (cases "le x h")
      case True
      then have "\<forall>y \<in> set (x # xs). le x y" using ih(4) refl assms(2) by (metis set_ConsD)
      then show ?thesis using s True by (intro exI [of _ x] exI [of _ "h # t"] exI [of _ "[]"] exI [of _ xs]) simp
    next
      case f: False
      then have "le h x" using assms(1) by blast
      then show ?thesis using s f ih
        by (intro exI [of _ h] exI [of _ "insert_by le x t"] exI [of _ "x # us"] exI [of _ vs]) simp
    qed
  qed
qed simp

lemma before_iff: "before a b \<longleftrightarrow> snd b < snd a \<or> snd b = snd a \<and> rg_version (fst a) \<le> rg_version (fst b)"
  by (auto simp: before_def version_cmp_cmp_of then_with_def cmp_of_def)

lemma before_first:
  assumes "xs \<noteq> []"
  shows "\<exists>h t us vs. sort_by before xs = h # t \<and> xs = us @ h # vs \<and> (\<forall>u \<in> set us. \<not> before u h) \<and> (\<forall>x \<in> set xs. before h x)"
proof (rule sort_by_first [OF _ _ assms])
  show "before x y \<or> before y x" for x y unfolding before_iff using linorder_less_linear [of "snd x" "snd y"] by auto
  show "before x y \<Longrightarrow> before y z \<Longrightarrow> before x z" for x y z unfolding before_iff by (metis order.strict_trans order.trans)
qed

lemma find_filter: "find Q (filter P xs) = find (\<lambda>x. P x \<and> Q x) xs"
  by (induction xs) auto

lemma find_append_first: "(\<forall>u \<in> set us. \<not> Q u) \<Longrightarrow> Q h \<Longrightarrow> find Q (us @ h # vs) = Some h"
  by (induction us) auto

text \<open>A version that every asked range admits.\<close>

definition admits :: "string \<Rightarrow> version \<Rightarrow> bool" where
  "admits t v \<longleftrightarrow> (\<exists>r. parse_range t = Inr r \<and> satisfies r v)"

definition admitted :: "asked \<Rightarrow> version \<Rightarrow> bool" where
  "admitted a v \<longleftrightarrow> (\<forall>(b, t) \<in> set a. admits t v)"

lemma parse_asked_Inr:
  assumes "parse_asked pkg a = Inr parsed"
  shows "list_all (\<lambda>r. satisfies r v) parsed \<longleftrightarrow> admitted a v"
proof -
  have "list_all2 (\<lambda>x r. parse_range (snd x) = Inr r) a parsed"
    using assms by (simp add: parse_asked_def map_res_Inr case_prod_beta)
  then show ?thesis
    by (induction rule: list_all2_induct) (auto simp: admitted_def admits_def)
qed

definition version_of :: "registry_version \<Rightarrow> version" where
  "version_of rv = (case parse_version (rg_version rv) of Inl _ \<Rightarrow> release 0 0 0 | Inr v \<Rightarrow> v)"

lemma usable_versions_Inr:
  assumes "usable_versions caps pkg rvs = Inr us"
  shows "us = map (\<lambda>rv. (rv, version_of rv)) (filter (offered caps) rvs)"
    and "\<forall>rv \<in> set rvs. offered caps rv \<longrightarrow> parse_version (rg_version rv) = Inr (version_of rv)"
proof -
  have "list_all2 (\<lambda>rv u. \<exists>v. parse_version (rg_version rv) = Inr v \<and> (rv, v) = u) (filter (offered caps) rvs) us"
    using assms by (simp add: usable_versions_def map_res_Inr bind_res_eq_Inr)
  then have "us = map (\<lambda>rv. (rv, version_of rv)) (filter (offered caps) rvs)
      \<and> (\<forall>rv \<in> set (filter (offered caps) rvs). parse_version (rg_version rv) = Inr (version_of rv))"
    by (induction rule: list_all2_induct) (auto simp: version_of_def)
  then show "us = map (\<lambda>rv. (rv, version_of rv)) (filter (offered caps) rvs)"
    and "\<forall>rv \<in> set rvs. offered caps rv \<longrightarrow> parse_version (rg_version rv) = Inr (version_of rv)" by auto
qed

text \<open>The entry that represents a version text: the first usable one.\<close>

definition entry_of :: "registry \<Rightarrow> string list \<Rightarrow> string \<Rightarrow> string \<Rightarrow> registry_version option" where
  "entry_of reg caps pkg t = (case bt_get reg pkg of None \<Rightarrow> None
     | Some rvs \<Rightarrow> find (\<lambda>rv. offered caps rv \<and> rg_version rv = t) rvs)"

lemma find_map: "find Q (map f xs) = map_option f (find (\<lambda>x. Q (f x)) xs)"
  by (induction xs) auto

lemma pick_for_Inr:
  assumes "pick_for reg caps a pkg = Inr rv"
  shows "\<exists>rvs. bt_get reg pkg = Some rvs \<and> rv \<in> set rvs \<and> offered caps rv
      \<and> parse_version (rg_version rv) = Inr (version_of rv) \<and> admitted a (version_of rv)
      \<and> (\<forall>x \<in> set rvs. offered caps x \<longrightarrow> parse_version (rg_version x) = Inr (version_of x)
           \<and> (admitted a (version_of x) \<longrightarrow> version_of x \<le> version_of rv))"
    and "entry_of reg caps pkg (rg_version rv) = Some rv"
proof -
  obtain rvs parsed us where g: "bt_get reg pkg = Some rvs" and p: "parse_asked pkg a = Inr parsed"
    and u: "usable_versions caps pkg rvs = Inr us"
    using assms by (auto simp: pick_for_def bind_res_eq_Inr)
  note pa = parse_asked_Inr [OF p] and uv = usable_versions_Inr [OF u]
  let ?c = "filter (\<lambda>(_, v). admitted a v) us"
  have s: "(case sort_by before ?c of [] \<Rightarrow> Inl (no_candidate pkg a parsed us) | c # _ \<Rightarrow> Inr (fst c)) = Inr rv"
    using assms by (simp add: pick_for_def g p u pa)
  then have "?c \<noteq> []" by (auto simp: sort_by_def)
  from before_first [OF this] obtain h t us1 vs where h: "sort_by before ?c = h # t" "?c = us1 @ h # vs"
      "\<forall>u \<in> set us1. \<not> before u h" "\<forall>x \<in> set ?c. before h x" by blast
  have rv: "fst h = rv" using s h(1) by simp
  have "h \<in> set ?c" using h(2) by (metis in_set_conv_decomp)
  then have hv: "h = (rv, version_of rv)" "rv \<in> set rvs" "offered caps rv" "admitted a (version_of rv)"
    using rv uv(1) by auto
  have best: "version_of x \<le> version_of rv" if "x \<in> set rvs" "offered caps x" "admitted a (version_of x)" for x
  proof -
    have "(x, version_of x) \<in> set ?c" using that uv(1) by auto
    then show ?thesis using h(4) hv(1) by (force simp: before_iff)
  qed
  show "\<exists>rvs. bt_get reg pkg = Some rvs \<and> rv \<in> set rvs \<and> offered caps rv
      \<and> parse_version (rg_version rv) = Inr (version_of rv) \<and> admitted a (version_of rv)
      \<and> (\<forall>x \<in> set rvs. offered caps x \<longrightarrow> parse_version (rg_version x) = Inr (version_of x)
           \<and> (admitted a (version_of x) \<longrightarrow> version_of x \<le> version_of rv))"
    using g hv uv(2) best by blast
  have same: "version_of x = version_of rv" if "rg_version x = rg_version rv" for x using that by (simp add: version_of_def)
  have us1: "\<forall>u \<in> set us1. \<exists>x. u = (x, version_of x)"
  proof
    fix u assume "u \<in> set us1"
    then have "u \<in> set ?c" using h(2) by (metis Un_iff set_append)
    then show "\<exists>x. u = (x, version_of x)" using uv(1) by auto
  qed
  let ?f = "find (\<lambda>rv'. offered caps rv' \<and> admitted a (version_of rv') \<and> rg_version rv' = rg_version rv) rvs"
  have "\<forall>u \<in> set us1. rg_version (fst u) \<noteq> rg_version rv"
  proof
    fix u assume u: "u \<in> set us1"
    obtain x where x: "u = (x, version_of x)" using us1 u by blast
    have "\<not> before u h" using h(3) u by blast
    then show "rg_version (fst u) \<noteq> rg_version rv" using same [of x] by (auto simp: before_iff x hv(1))
  qed
  then have "find (\<lambda>u. rg_version (fst u) = rg_version rv) ?c = Some h"
    unfolding h(2) by (rule find_append_first) (simp add: hv(1))
  moreover have "find (\<lambda>u. rg_version (fst u) = rg_version rv) ?c = map_option (\<lambda>rv. (rv, version_of rv)) ?f"
    unfolding uv(1) find_filter find_map by simp
  ultimately have "map_option (\<lambda>rv. (rv, version_of rv)) ?f = Some h" by (rule trans [OF sym, rotated])
  then have "?f = Some rv" unfolding hv(1) by (cases ?f) simp_all
  moreover have "(\<lambda>rv'. offered caps rv' \<and> admitted a (version_of rv') \<and> rg_version rv' = rg_version rv)
      = (\<lambda>rv'. offered caps rv' \<and> rg_version rv' = rg_version rv)"
    using hv(4) by (intro ext) (metis same)
  ultimately show "entry_of reg caps pkg (rg_version rv) = Some rv" by (simp add: entry_of_def g)
qed

section \<open>Recorded ranges\<close>

definition told :: "(string, asked) btree \<Rightarrow> string \<Rightarrow> string \<Rightarrow> string option" where
  "told ranges d b = bt_get (asked_of ranges d) b"

lemma asked_of_insert: "asked_of (bt_insert d a ranges) d' = (if d' = d then a else asked_of ranges d')"
  by (simp add: asked_of_def bt_get_insert)

lemma record_range_told:
  "told (fst (record_range b (d, t) st)) d' b' =
     (if d' = d \<and> b' = b \<and> told (fst st) d b = None then Some t else told (fst st) d' b')"
  by (auto simp: record_range_def Let_def told_def asked_of_insert bt_get_insert bt_has_get simp del: bt_has_iff)

lemma record_range_new: "snd (record_range b (d, t) st) = (snd st \<or> told (fst st) d b = None)"
  by (auto simp: record_range_def Let_def told_def bt_has_get simp del: bt_has_iff)

lemma record_range_same: "told (fst st) d b \<noteq> None \<Longrightarrow> asked_of (fst (record_range b (d, t) st)) = asked_of (fst st)"
  by (auto simp: record_range_def Let_def told_def bt_has_get asked_of_insert simp del: bt_has_iff)

lemma record_all_told:
  "told (fst (fold (record_range b) ds st)) d b' =
     (case told (fst st) d b' of Some t \<Rightarrow> Some t | None \<Rightarrow> if b' = b then map_of ds d else None)"
proof (induction ds arbitrary: st)
  case (Cons dt ds)
  then show ?case by (cases dt) (auto simp: record_range_told split: option.split)
qed (simp split: option.split)

lemma record_all_new: "snd (fold (record_range b) ds st) \<longleftrightarrow> snd st \<or> (\<exists>d \<in> fst ` set ds. told (fst st) d b = None)"
proof (induction ds arbitrary: st)
  case (Cons dt ds)
  then show ?case by (cases dt) (auto simp: record_range_told record_range_new)
qed simp

lemma record_all_same:
  "\<forall>d \<in> fst ` set ds. told (fst st) d b \<noteq> None \<Longrightarrow> asked_of (fst (fold (record_range b) ds st)) = asked_of (fst st)"
proof (induction ds arbitrary: st)
  case (Cons dt ds)
  obtain d t where dt: "dt = (d, t)" by (cases dt)
  have s: "asked_of (fst (record_range b (d, t) st)) = asked_of (fst st)"
    using Cons.prems by (intro record_range_same) (simp add: dt)
  have "asked_of (fst (fold (record_range b) ds (record_range b (d, t) st))) = asked_of (fst (record_range b (d, t) st))"
    using Cons.prems by (intro Cons.IH) (auto simp: dt record_range_told)
  then show ?case by (simp add: dt s)
qed simp

lemma set_bt_insert: "set (bt_insert k v m) \<subseteq> insert (k, v) (set m)"
  by (induction k v m rule: bt_insert.induct) (auto split: if_splits)

lemma record_range_asked:
  assumes "(b', t') \<in> set (asked_of (fst (record_range b (d0, t0) st)) d)"
  shows "(b', t') \<in> set (asked_of (fst st) d) \<or> b' = b \<and> d = d0 \<and> t' = t0 \<and> told (fst st) d b = None"
  using assms set_bt_insert [of b t0 "asked_of (fst st) d0"]
  by (auto simp: record_range_def Let_def asked_of_insert told_def bt_has_get simp del: bt_has_iff split: if_splits)

lemma record_all_asked:
  "(b', t') \<in> set (asked_of (fst (fold (record_range b) ds st)) d) \<Longrightarrow>
     (b', t') \<in> set (asked_of (fst st) d) \<or> b' = b \<and> told (fst st) d b = None \<and> map_of ds d = Some t'"
proof (induction ds arbitrary: st)
  case (Cons dt ds)
  obtain d0 t0 where dt: "dt = (d0, t0)" by (cases dt)
  from Cons.prems Cons.IH [of "record_range b dt st"]
  consider "(b', t') \<in> set (asked_of (fst (record_range b (d0, t0) st)) d)"
    | "b' = b" "told (fst (record_range b (d0, t0) st)) d b = None" "map_of ds d = Some t'"
    by (auto simp: dt)
  then show ?case
  proof cases
    case 1
    then show ?thesis using record_range_asked [OF 1] by (auto simp: dt)
  next
    case 2
    then show ?thesis by (auto simp: dt record_range_told split: if_splits)
  qed
qed simp

section \<open>One round\<close>

definition edges :: "picks \<Rightarrow> (string \<times> string) set" where
  "edges ps = {(p, d). d \<in> set (deps ps p)}"

text \<open>Every range that can be recorded, and a range recorded by an entry of the registry.\<close>

definition recordable :: "registry \<Rightarrow> (string \<times> string) set" where
  "recordable reg = {(d, pick_name p rv) | d p rv rvs. bt_get reg p = Some rvs \<and> rv \<in> set rvs \<and> d \<in> fst ` set (rq_packages (rg_requires rv))}"

definition told_by :: "registry \<Rightarrow> string list \<Rightarrow> resolve_root \<Rightarrow> string \<Rightarrow> string \<Rightarrow> string \<Rightarrow> bool" where
  "told_by reg caps rt d b t \<longleftrightarrow> d = rt_package rt \<and> b = ''(root)'' \<and> t = rt_range rt
     \<or> (\<exists>p rv. b = pick_name p rv \<and> entry_of reg caps p (rg_version rv) = Some rv
           \<and> parse_version (rg_version rv) = Inr (version_of rv) \<and> map_of (rq_packages (rg_requires rv)) d = Some t)"

definition told_ok :: "registry \<Rightarrow> string list \<Rightarrow> resolve_root \<Rightarrow> (string, asked) btree \<Rightarrow> bool" where
  "told_ok reg caps rt ranges \<longleftrightarrow> (\<forall>d b t. (b, t) \<in> set (asked_of ranges d) \<longrightarrow> told_by reg caps rt d b t)"

definition round_ok :: "registry \<Rightarrow> string list \<Rightarrow> picks \<Rightarrow> (string, asked) btree \<Rightarrow> bool \<Rightarrow> string list
    \<Rightarrow> picks \<Rightarrow> (string, asked) btree \<Rightarrow> bool \<Rightarrow> bool" where
  "round_ok reg caps ps ranges new queue ps' ranges' new' \<longleftrightarrow>
     bt_get ps \<subseteq>\<^sub>m bt_get ps' \<and> (\<forall>d. told ranges d \<subseteq>\<^sub>m told ranges' d)
     \<and> (\<forall>rt. told_ok reg caps rt ranges \<longrightarrow> told_ok reg caps rt ranges')
     \<and> (\<not> new' \<longrightarrow> \<not> new \<and> asked_of ranges' = asked_of ranges
          \<and> (\<forall>p rv. bt_get ps' p = Some rv \<longrightarrow> bt_get ps p = Some rv \<or> pick_for reg caps (asked_of ranges p) p = Inr rv))
     \<and> (\<forall>p rv. bt_get ps' p = Some rv \<longrightarrow> bt_get ps p = Some rv
          \<or> set (deps ps' p) \<subseteq> dom (bt_get ps') \<and> (\<forall>d \<in> set (deps ps' p). told ranges' d (pick_name p rv) \<noteq> None))
     \<and> set queue \<subseteq> dom (bt_get ps')
     \<and> dom (bt_get ps') \<subseteq> dom (bt_get ps) \<union> (edges ps')\<^sup>* `` set queue
     \<and> (new' \<longrightarrow> new \<or> (\<exists>(d, b) \<in> recordable reg. told ranges d b = None \<and> told ranges' d b \<noteq> None))"

lemma deps_insert: "bt_get ps' p = Some rv \<Longrightarrow> deps ps' p = map fst (rq_packages (rg_requires rv))"
  by (simp add: deps_def)

lemma round_ok_skip:
  assumes "round_ok reg caps ps ranges new queue ps' ranges' new'" and "bt_has ps pkg"
  shows "round_ok reg caps ps ranges new (pkg # queue) ps' ranges' new'"
proof -
  have "pkg \<in> dom (bt_get ps)" using assms(2) by (auto simp: bt_has_get simp del: bt_has_iff)
  moreover have "bt_get ps \<subseteq>\<^sub>m bt_get ps'" using assms(1) by (simp add: round_ok_def)
  ultimately have "pkg \<in> dom (bt_get ps')" by (auto simp: map_le_def dom_def)
  moreover have "(edges ps')\<^sup>* `` set queue \<subseteq> (edges ps')\<^sup>* `` set (pkg # queue)" by auto
  ultimately show ?thesis using assms(1) unfolding round_ok_def list.set by blast
qed

lemma round_ok_pick:
  assumes pk: "pick_for reg caps (asked_of ranges pkg) pkg = Inr rv" and fresh: "\<not> bt_has ps pkg"
    and st: "st = fold (record_range (pick_name pkg rv)) (rq_packages (rg_requires rv)) (ranges, new)"
    and ih: "round_ok reg caps (bt_insert pkg rv ps) (fst st) (snd st) (queue @ map fst (rq_packages (rg_requires rv))) ps' ranges' new'"
  shows "round_ok reg caps ps ranges new (pkg # queue) ps' ranges' new'"
proof -
  let ?ds = "rq_packages (rg_requires rv)" and ?b = "pick_name pkg rv"
  have t1: "told (fst st) d b = (case told ranges d b of Some t \<Rightarrow> Some t | None \<Rightarrow> if b = ?b then map_of ?ds d else None)" for d b
    by (simp add: st record_all_told)
  have n1: "snd st \<longleftrightarrow> new \<or> (\<exists>d \<in> fst ` set ?ds. told ranges d ?b = None)" by (simp add: st record_all_new)
  have none: "bt_get ps pkg = None" using fresh by (simp add: bt_has_get del: bt_has_iff)
  note i = ih [unfolded round_ok_def]
  have le: "bt_get (bt_insert pkg rv ps) \<subseteq>\<^sub>m bt_get ps'" "\<And>d. told (fst st) d \<subseteq>\<^sub>m told ranges' d" using i by blast+
  have p: "bt_get ps' pkg = Some rv" using le(1) by (auto simp: map_le_def bt_get_insert)
  have d: "deps ps' pkg = map fst ?ds" by (rule deps_insert [OF p])
  have a: "bt_get ps \<subseteq>\<^sub>m bt_get ps'" using le(1) none by (auto simp: map_le_def bt_get_insert dom_def split: if_splits)
  have told: "told ranges d \<subseteq>\<^sub>m told (fst st) d" for d by (auto simp: map_le_def t1 dom_def)
  then have b: "told ranges d \<subseteq>\<^sub>m told ranges' d" for d using le(2) map_le_trans by blast
  obtain rvs where rvs: "bt_get reg pkg = Some rvs" "rv \<in> set rvs" using pick_for_Inr(1) [OF pk] by blast
  have e: "entry_of reg caps pkg (rg_version rv) = Some rv" "parse_version (rg_version rv) = Inr (version_of rv)"
    using pick_for_Inr [OF pk] by blast+
  have c: "told_ok reg caps rt ranges \<longrightarrow> told_ok reg caps rt ranges'" for rt
  proof
    assume "told_ok reg caps rt ranges"
    then have "told_ok reg caps rt (fst st)"
      unfolding told_ok_def st using e record_all_asked [of _ _ ?b ?ds "(ranges, new)"] unfolding told_by_def fst_conv by blast
    then show "told_ok reg caps rt ranges'" using i by blast
  qed
  have f: "\<not> new' \<longrightarrow> \<not> new \<and> asked_of ranges' = asked_of ranges
      \<and> (\<forall>q x. bt_get ps' q = Some x \<longrightarrow> bt_get ps q = Some x \<or> pick_for reg caps (asked_of ranges q) q = Inr x)"
  proof
    assume "\<not> new'"
    then have h: "\<not> snd st" "asked_of ranges' = asked_of (fst st)"
      "\<forall>q x. bt_get ps' q = Some x \<longrightarrow> bt_get (bt_insert pkg rv ps) q = Some x \<or> pick_for reg caps (asked_of (fst st) q) q = Inr x"
      using i by blast+
    have "\<forall>d \<in> fst ` set ?ds. told (fst (ranges, new)) d ?b \<noteq> None" using h(1) n1 by auto
    then have s: "asked_of (fst st) = asked_of ranges" unfolding st by (simp only: record_all_same) simp
    show "\<not> new \<and> asked_of ranges' = asked_of ranges
      \<and> (\<forall>q x. bt_get ps' q = Some x \<longrightarrow> bt_get ps q = Some x \<or> pick_for reg caps (asked_of ranges q) q = Inr x)"
      using h n1 s pk by (auto simp: bt_get_insert split: if_splits)
  qed
  have q: "set queue \<subseteq> dom (bt_get ps')" "fst ` set ?ds \<subseteq> dom (bt_get ps')" using i by auto
  have g: "bt_get ps' q = Some x \<longrightarrow> bt_get ps q = Some x
      \<or> set (deps ps' q) \<subseteq> dom (bt_get ps') \<and> (\<forall>d \<in> set (deps ps' q). told ranges' d (pick_name q x) \<noteq> None)" for q x
  proof
    assume x: "bt_get ps' q = Some x"
    show "bt_get ps q = Some x \<or> set (deps ps' q) \<subseteq> dom (bt_get ps') \<and> (\<forall>d \<in> set (deps ps' q). told ranges' d (pick_name q x) \<noteq> None)"
    proof (cases "q = pkg")
      case True
      then have x: "x = rv" using x p by simp
      have "told (fst st) d ?b \<noteq> None" if "d \<in> fst ` set ?ds" for d
        using that by (auto simp: t1 dest: weak_map_of_SomeI split: option.splits)
      then have "told ranges' d ?b \<noteq> None" if "d \<in> fst ` set ?ds" for d
        using that le(2) [of d] by (auto simp: map_le_def dom_def)
      then show ?thesis using q(2) by (auto simp: True x d)
    next
      case False
      have "bt_get (bt_insert pkg rv ps) q = Some x
          \<or> set (deps ps' q) \<subseteq> dom (bt_get ps') \<and> (\<forall>d \<in> set (deps ps' q). told ranges' d (pick_name q x) \<noteq> None)"
        using i x by blast
      then show ?thesis using False by (simp add: bt_get_insert)
    qed
  qed
  have r: "dom (bt_get ps') \<subseteq> dom (bt_get ps) \<union> (edges ps')\<^sup>* `` set (pkg # queue)"
  proof
    fix z assume "z \<in> dom (bt_get ps')"
    moreover have "dom (bt_get ps') \<subseteq> dom (bt_get (bt_insert pkg rv ps)) \<union> (edges ps')\<^sup>* `` set (queue @ map fst ?ds)"
      using i by blast
    ultimately consider "z \<in> dom (bt_get ps)" | "z = pkg" | y where "y \<in> set queue" "(y, z) \<in> (edges ps')\<^sup>*"
      | y where "y \<in> fst ` set ?ds" "(y, z) \<in> (edges ps')\<^sup>*"
      unfolding bt_get_insert dom_fun_upd set_append set_map by (simp only: option.simps if_False) blast
    then show "z \<in> dom (bt_get ps) \<union> (edges ps')\<^sup>* `` set (pkg # queue)"
    proof cases
      case (4 y)
      then have "(pkg, y) \<in> edges ps'" by (simp add: edges_def d)
      then show ?thesis using 4 by (auto intro: converse_rtrancl_into_rtrancl)
    qed auto
  qed
  have n: "new' \<longrightarrow> new \<or> (\<exists>(d, b) \<in> recordable reg. told ranges d b = None \<and> told ranges' d b \<noteq> None)"
  proof
    assume "new'"
    then consider "snd st" | d b' where "(d, b') \<in> recordable reg" "told (fst st) d b' = None" "told ranges' d b' \<noteq> None"
      using i by blast
    then show "new \<or> (\<exists>(d, b) \<in> recordable reg. told ranges d b = None \<and> told ranges' d b \<noteq> None)"
    proof cases
      case 1
      then show ?thesis
      proof (cases new)
        case False
        then obtain d where d: "d \<in> fst ` set ?ds" "told ranges d ?b = None" using 1 n1 by blast
        have "(d, ?b) \<in> recordable reg" using d(1) rvs unfolding recordable_def by blast
        moreover have "told (fst st) d ?b \<noteq> None" using d by (auto simp: t1 dest: weak_map_of_SomeI)
        then have "told ranges' d ?b \<noteq> None" using le(2) [of d] by (auto simp: map_le_def dom_def)
        ultimately show ?thesis using d(2) by blast
      qed simp
    next
      case (2 d b')
      then have "told ranges d b' = None" using told [of d] by (auto simp: map_le_def dom_def)
      then show ?thesis using 2 by blast
    qed
  qed
  have "set (pkg # queue) \<subseteq> dom (bt_get ps')" using q(1) p by auto
  then show ?thesis unfolding round_ok_def using a b c f g r n by blast
qed

lemma round_loop_ok:
  "round_loop reg caps ps ranges new queue = Inr (ps', ranges', new') \<Longrightarrow> round_ok reg caps ps ranges new queue ps' ranges' new'"
proof (induction reg caps ps ranges new queue rule: round_loop.induct)
  case (1 reg caps ps ranges new)
  then show ?case by (auto simp: round_ok_def)
next
  case (2 reg caps ps ranges new pkg queue)
  show ?case
  proof (cases "bt_has ps pkg")
    case True
    then show ?thesis using 2 by (intro round_ok_skip) (simp_all del: bt_has_iff)
  next
    case False
    then obtain rv where rv: "pick_for reg caps (asked_of ranges pkg) pkg = Inr rv"
      using 2(3) by (auto simp del: bt_has_iff split: sum.splits)
    show ?thesis by (rule round_ok_pick [OF rv False refl 2(2) [OF False rv refl]]) (use 2(3) False rv in \<open>simp add: Let_def del: bt_has_iff\<close>)
  qed
qed

section \<open>All rounds\<close>

declare round_loop.simps [simp del]

lemma finite_recordable: "finite (recordable reg)"
proof -
  have "recordable reg \<subseteq> (\<lambda>(p, rv, d). (d, pick_name p rv)) `
      (SIGMA p:fst ` set reg. SIGMA rv:(\<Union>rvs \<in> snd ` set reg. set rvs). fst ` set (rq_packages (rg_requires rv)))"
    by (force simp: recordable_def dest: bt_get_in)
  moreover have "finite (SIGMA p:fst ` set reg. SIGMA rv:(\<Union>rvs \<in> snd ` set reg. set rvs). fst ` set (rq_packages (rg_requires rv)))"
    by (intro finite_SigmaI) auto
  ultimately show ?thesis by (metis finite_imageI finite_subset)
qed

definition untold :: "registry \<Rightarrow> (string, asked) btree \<Rightarrow> nat" where
  "untold reg ranges = card {(d, b) \<in> recordable reg. told ranges d b = None}"

lemma untold_less:
  assumes "round_ok reg caps ps ranges False queue ps' ranges' True"
  shows "untold reg ranges' < untold reg ranges"
proof -
  have le: "\<And>d. told ranges d \<subseteq>\<^sub>m told ranges' d"
    and ex: "\<exists>(d, b) \<in> recordable reg. told ranges d b = None \<and> told ranges' d b \<noteq> None"
    using assms unfolding round_ok_def by blast+
  have "{(d, b) \<in> recordable reg. told ranges' d b = None} \<subseteq> {(d, b) \<in> recordable reg. told ranges d b = None}"
    using le by (auto simp: map_le_def dom_def) (metis option.exhaust)
  moreover obtain d b where "(d, b) \<in> recordable reg" "told ranges d b = None" "told ranges' d b \<noteq> None" using ex by blast
  then have "(d, b) \<in> {(d, b) \<in> recordable reg. told ranges d b = None}" "(d, b) \<notin> {(d, b) \<in> recordable reg. told ranges' d b = None}"
    by auto
  ultimately have "{(d, b) \<in> recordable reg. told ranges' d b = None} \<subset> {(d, b) \<in> recordable reg. told ranges d b = None}"
    by blast
  moreover have "finite {(d, b) \<in> recordable reg. told ranges d b = None}"
    using finite_recordable by (rule rev_finite_subset) auto
  ultimately show ?thesis unfolding untold_def by (rule psubset_card_mono [rotated])
qed

definition start_told :: "resolve_root \<Rightarrow> (string, asked) btree \<Rightarrow> bool" where
  "start_told rt ranges \<longleftrightarrow> told ranges (rt_package rt) ''(root)'' = Some (rt_range rt)"

lemma rounds_total:
  assumes "told_ok reg caps rt ranges" and "start_told rt ranges"
  shows "\<exists>res. rounds reg caps (rt_package rt) ranges = Some res \<and> (\<forall>ps. res = Inr ps \<longrightarrow>
     (\<exists>r r'. told_ok reg caps rt r \<and> start_told rt r \<and> round_ok reg caps [] r False [rt_package rt] ps r' False))"
  using assms
proof (induction "untold reg ranges" arbitrary: ranges rule: less_induct)
  case less
  show ?case
  proof (cases "round_loop reg caps [] ranges False [rt_package rt]")
    case (Inl e)
    have "rounds reg caps (rt_package rt) ranges = Some (Inl e)" by (subst rounds.simps) (simp add: Inl)
    then show ?thesis by simp
  next
    case (Inr x)
    obtain ps ranges' new where x: "x = (ps, ranges', new)" by (cases x)
    note ok = round_loop_ok [OF Inr [unfolded x]]
    show ?thesis
    proof (cases new)
      case False
      have "rounds reg caps (rt_package rt) ranges = Some (Inr ps)" by (subst rounds.simps) (simp add: Inr x False)
      then show ?thesis using less.prems ok False by auto
    next
      case True
      then have ok': "round_ok reg caps [] ranges False [rt_package rt] ps ranges' True" using ok by simp
      have t: "told_ok reg caps rt ranges'" using ok' less.prems(1) unfolding round_ok_def by blast
      have "told ranges (rt_package rt) \<subseteq>\<^sub>m told ranges' (rt_package rt)" using ok' unfolding round_ok_def by blast
      then have s: "start_told rt ranges'" using less.prems(2) by (auto simp: start_told_def map_le_def dom_def)
      have "rounds reg caps (rt_package rt) ranges = rounds reg caps (rt_package rt) ranges'"
        by (subst rounds.simps) (simp add: Inr x True)
      then show ?thesis using less.hyps [OF untold_less [OF ok'] t s] by simp
    qed
  qed
qed

section \<open>Cycles\<close>

fun ordered :: "picks \<Rightarrow> string list \<Rightarrow> bool" where
  "ordered ps [] = True"
| "ordered ps (d # ds) \<longleftrightarrow> set (deps ps d) \<subseteq> set ds \<and> d \<notin> set ds \<and> ordered ps ds"

lemma ordered_closed: "ordered ps ds \<Longrightarrow> (a, b) \<in> edges ps \<Longrightarrow> a \<in> set ds \<Longrightarrow> b \<in> set ds"
  by (induction ds) (auto simp: edges_def)

lemma ordered_rank: "ordered ps ds \<Longrightarrow> (a, b) \<in> edges ps \<Longrightarrow> a \<in> set ds \<Longrightarrow>
    length (dropWhile (\<lambda>x. x \<noteq> b) ds) < length (dropWhile (\<lambda>x. x \<noteq> a) ds)"
proof (induction ds)
  case (Cons d ds)
  have c: "set (deps ps d) \<subseteq> set ds" "d \<notin> set ds" "ordered ps ds" using Cons.prems(1) by auto
  have "b \<noteq> d" using ordered_closed [OF c(3) Cons.prems(2)] c Cons.prems(2,3) by (auto simp: edges_def)
  show ?case
  proof (cases "a = d")
    case True
    then show ?thesis using \<open>b \<noteq> d\<close> by (simp add: length_dropWhile_le le_imp_less_Suc)
  next
    case False
    then show ?thesis using Cons \<open>b \<noteq> d\<close> by simp
  qed
qed simp

lemma ordered_acyclic: "ordered ps ds \<Longrightarrow> acyclic {(a, b) \<in> edges ps. a \<in> set ds}"
proof -
  assume o: "ordered ps ds"
  let ?f = "\<lambda>x. length (dropWhile (\<lambda>y. y \<noteq> x) ds)"
  have "{(a, b) \<in> edges ps. a \<in> set ds}\<inverse> \<subseteq> measure ?f" using ordered_rank [OF o] by auto
  then have "wf ({(a, b) \<in> edges ps. a \<in> set ds}\<inverse>)" by (rule wf_subset [OF wf_measure])
  then show ?thesis using wf_acyclic acyclic_converse by blast
qed

lemma ordered_reach: "ordered ps ds \<Longrightarrow> a \<in> set ds \<Longrightarrow> (a, b) \<in> (edges ps)\<^sup>* \<Longrightarrow> b \<in> set ds"
  by (erule rtrancl_induct) (auto intro: ordered_closed)

text \<open>What holds of the stack: its leaving entries are the path; every dependency of a package on
  the path is done or above its entry; an entry comes from the nearest package below it.\<close>

fun frames :: "picks \<Rightarrow> string \<Rightarrow> (string \<times> bool) list \<Rightarrow> bool" where
  "frames ps r [] = True"
| "frames ps r ((x, l) # rest) \<longleftrightarrow> frames ps r rest
     \<and> (case find snd rest of None \<Rightarrow> x = r | Some (p, _) \<Rightarrow> (p, x) \<in> edges ps)"

definition dfs_inv :: "picks \<Rightarrow> string \<Rightarrow> (string \<times> bool) list \<Rightarrow> string list \<Rightarrow> string list \<Rightarrow> bool" where
  "dfs_inv ps r stack path visited \<longleftrightarrow> rev path = map fst (filter snd stack) \<and> distinct path
     \<and> set path \<inter> set visited = {} \<and> ordered ps visited \<and> frames ps r stack \<and> (r \<in> set visited \<or> r \<in> fst ` set stack)
     \<and> (\<forall>upper p below. stack = upper @ (p, True) # below \<longrightarrow> set (deps ps p) \<subseteq> set visited \<union> fst ` set upper)"

definition closed_walk :: "picks \<Rightarrow> string \<Rightarrow> string list \<Rightarrow> bool" where
  "closed_walk ps r c \<longleftrightarrow> 2 \<le> length c \<and> hd c = last c \<and> successively (\<lambda>a b. (a, b) \<in> edges ps) c
     \<and> (r, hd c) \<in> (edges ps)\<^sup>*"

lemma frames_walk:
  "frames ps r stack \<Longrightarrow> map fst (filter snd stack) = rev path \<Longrightarrow>
     successively (\<lambda>a b. (a, b) \<in> edges ps) path \<and> (path \<noteq> [] \<longrightarrow> hd path = r)"
proof (induction stack arbitrary: path)
  case (Cons e rest)
  obtain x l where e: "e = (x, l)" by (cases e)
  show ?case
  proof (cases l)
    case False
    then show ?thesis using Cons by (simp add: e)
  next
    case True
    then have "rev path = x # map fst (filter snd rest)" using Cons.prems(2) by (simp add: e)
    then have p: "path = rev (map fst (filter snd rest)) @ [x]" by (metis rev.simps(2) rev_rev_ident)
    have ih: "successively (\<lambda>a b. (a, b) \<in> edges ps) (rev (map fst (filter snd rest)))
        \<and> (rev (map fst (filter snd rest)) \<noteq> [] \<longrightarrow> hd (rev (map fst (filter snd rest))) = r)"
      using Cons.IH [of "rev (map fst (filter snd rest))"] Cons.prems(1) by (simp add: e)
    have c: "case find snd rest of None \<Rightarrow> x = r | Some (p, _) \<Rightarrow> (p, x) \<in> edges ps" using Cons.prems(1) by (simp add: e)
    show ?thesis
    proof (cases "filter snd rest")
      case Nil
      then have "find snd rest = None" by (auto simp: find_None_iff filter_empty_conv)
      then show ?thesis using c Nil by (simp add: p)
    next
      case (Cons y ys)
      then have "find snd rest = Some y" by (metis find_filter find.simps(2) filter_eq_ConsD nth_Cons_0 find_append_first)
      then show ?thesis using c ih Cons by (cases y) (auto simp: p successively_append_iff hd_append)
    qed
  qed
qed simp

lemma dfs_leave:
  assumes "dfs_inv ps r ((p, True) # rest) path visited"
  shows "dfs_inv ps r rest (butlast path) (p # visited)" and "set (butlast path) \<union> set (p # visited) = set path \<union> set visited"
proof -
  note i = assms [unfolded dfs_inv_def]
  have "rev path = p # map fst (filter snd rest)" using i by simp
  then have path: "path = rev (map fst (filter snd rest)) @ [p]" by (metis rev.simps(2) rev_rev_ident)
  have d: "set (deps ps p) \<subseteq> set visited" using i by force
  have "p \<in> set path" using path by simp
  then have "ordered ps (p # visited)" using i d by auto
  moreover have "set (deps ps q) \<subseteq> set (p # visited) \<union> fst ` set upper" if "rest = upper @ (q, True) # below" for upper q below
  proof -
    have "(p, True) # rest = ((p, True) # upper) @ (q, True) # below" using that by simp
    then have "set (deps ps q) \<subseteq> set visited \<union> fst ` set ((p, True) # upper)" using i by blast
    then show ?thesis by auto
  qed
  ultimately show "dfs_inv ps r rest (butlast path) (p # visited)"
    using i unfolding dfs_inv_def by (auto simp: path)
  show "set (butlast path) \<union> set (p # visited) = set path \<union> set visited" by (auto simp: path)
qed

lemma dfs_skip:
  assumes "dfs_inv ps r ((p, False) # rest) path visited" and "p \<in> set visited"
  shows "dfs_inv ps r rest path visited"
proof -
  note i = assms(1) [unfolded dfs_inv_def]
  have "set (deps ps q) \<subseteq> set visited \<union> fst ` set upper" if "rest = upper @ (q, True) # below" for upper q below
  proof -
    have "(p, False) # rest = ((p, False) # upper) @ (q, True) # below" using that by simp
    then have "set (deps ps q) \<subseteq> set visited \<union> fst ` set ((p, False) # upper)" using i by blast
    then show ?thesis using assms(2) by auto
  qed
  then show ?thesis using i assms(2) unfolding dfs_inv_def by auto
qed

lemma find_pending: "find snd (map (\<lambda>d. (d, False)) ds @ rest) = find snd rest"
  by (induction ds) auto

lemma frames_push: "frames ps r ((p, True) # rest) \<Longrightarrow> set ds \<subseteq> set (deps ps p) \<Longrightarrow>
    frames ps r (map (\<lambda>d. (d, False)) ds @ (p, True) # rest)"
  by (induction ds) (auto simp: find_pending edges_def)

lemma pending_split:
  "map (\<lambda>d. (d, False)) ds @ rest = upper @ (q, True) # below \<Longrightarrow>
     \<exists>upper'. rest = upper' @ (q, True) # below \<and> upper = map (\<lambda>d. (d, False)) ds @ upper'"
  by (induction ds arbitrary: upper) (auto simp: Cons_eq_append_conv)

lemma dfs_enter:
  assumes "dfs_inv ps r ((p, False) # rest) path visited" and "p \<notin> set visited" and "p \<notin> set path"
  shows "dfs_inv ps r (map (\<lambda>d. (d, False)) (deps ps p) @ (p, True) # rest) (path @ [p]) visited"
proof -
  note i = assms(1) [unfolded dfs_inv_def]
  let ?new = "map (\<lambda>d. (d, False)) (deps ps p) @ (p, True) # rest"
  have "filter snd (map (\<lambda>d. (d, False)) (deps ps p)) = []" by (simp add: filter_empty_conv)
  then have "rev (path @ [p]) = map fst (filter snd ?new)" using i by simp
  moreover have "frames ps r ?new" using i by (intro frames_push) auto
  moreover have "set (deps ps q) \<subseteq> set visited \<union> fst ` set upper" if s: "?new = upper @ (q, True) # below" for upper q below
  proof -
    obtain upper' where a: "(p, True) # rest = upper' @ (q, True) # below" "upper = map (\<lambda>d. (d, False)) (deps ps p) @ upper'"
      using pending_split [OF s] by blast
    show ?thesis
    proof (cases upper')
      case Nil
      then show ?thesis using a by (auto simp: image_image)
    next
      case (Cons x xs)
      then have "(p, False) # rest = ((p, False) # xs) @ (q, True) # below" using a by simp
      then have "set (deps ps q) \<subseteq> set visited \<union> fst ` set ((p, False) # xs)" using i by blast
      then show ?thesis using a Cons by auto
    qed
  qed
  ultimately show ?thesis using i assms(2,3) unfolding dfs_inv_def by auto
qed

lemma successively_reach: "successively (\<lambda>a b. (a, b) \<in> R) xs \<Longrightarrow> i < length xs \<Longrightarrow> (hd xs, xs ! i) \<in> R\<^sup>*"
proof (induction xs arbitrary: i)
  case (Cons x xs)
  then show ?case
    by (cases i; cases xs) (auto intro: converse_rtrancl_into_rtrancl)
qed simp

lemma successively_drop: "successively P xs \<Longrightarrow> successively P (drop i xs)"
  by (metis append_take_drop_id successively_append_iff)

lemma dfs_cycle:
  assumes inv: "dfs_inv ps r ((p, False) # rest) path visited" and i: "position (\<lambda>x. x = p) path = Some i"
  shows "closed_walk ps r (drop i path @ [p])"
proof -
  note f = inv [unfolded dfs_inv_def]
  have pi: "i < length path" "path ! i = p" using i by (auto simp: position_Some)
  have m: "rev path = map fst (filter snd rest)" using f by simp
  have w: "successively (\<lambda>a b. (a, b) \<in> edges ps) path \<and> (path \<noteq> [] \<longrightarrow> hd path = r)"
    by (rule frames_walk [of _ _ rest]) (use f in auto)
  have ne: "path \<noteq> []" using pi by auto
  then obtain y ys where y: "filter snd rest = y # ys" using m by (cases "filter snd rest") auto
  then have "find snd rest = Some y" by (metis find_filter find.simps(2) filter_eq_ConsD find_append_first)
  moreover have "fst y = last path" using m y by (metis list.sel(1) list.simps(9) last_rev rev_rev_ident rev_is_Nil_conv ne hd_rev)
  ultimately have e: "(last path, p) \<in> edges ps" using f by (cases y) auto
  then have "successively (\<lambda>a b. (a, b) \<in> edges ps) (path @ [p])"
    using w ne by (simp add: successively_append_iff)
  then have "successively (\<lambda>a b. (a, b) \<in> edges ps) (drop i path @ [p])"
    using successively_drop [of _ "path @ [p]" i] pi by simp
  moreover have "hd (drop i path @ [p]) = p" using pi by (simp add: hd_append hd_drop_conv_nth)
  moreover have "(r, p) \<in> (edges ps)\<^sup>*" using successively_reach [OF conjunct1 [OF w] pi(1)] w ne pi by simp
  ultimately show ?thesis using pi by (simp add: closed_walk_def)
qed

lemma position_None: "position P xs = None \<longleftrightarrow> (\<forall>x \<in> set xs. \<not> P x)"
  by (induction xs) auto

lemma dfs_total:
  assumes "finite nodes" and "\<And>p. set (deps ps p) \<subseteq> nodes"
    and "dfs_inv ps r stack path visited" and "fst ` set stack \<subseteq> nodes"
  shows "\<exists>res. dfs ps stack path visited = Some res \<and> (case res of Inr _ \<Rightarrow> \<exists>ds. ordered ps ds \<and> r \<in> set ds
     | Inl e \<Rightarrow> \<exists>c. e = ResDependencyCycle c \<and> closed_walk ps r c)"
  using assms(3,4)
proof (induction "(stack, path, visited)" arbitrary: stack path visited
    rule: wf_induct_rule [OF wf_measures [of "[\<lambda>(_, path, visited). card (nodes - set path - set visited), \<lambda>(stack, _, _). length stack]"]])
  case (1 stack path visited)
  note IH = "1.hyps"
  show ?case
  proof (cases stack)
    case Nil
    then have "ordered ps visited \<and> r \<in> set visited" using 1(2) by (simp add: dfs_inv_def)
    then show ?thesis by (subst dfs.simps) (auto simp: Nil)
  next
    case (Cons e rest)
    obtain p leave where e: "e = (p, leave)" by (cases e)
    show ?thesis
    proof (cases leave)
      case True
      have inv: "dfs_inv ps r ((p, True) # rest) path visited" using 1(2) by (simp add: Cons e True)
      have "set (butlast path) \<union> set (p # visited) = set path \<union> set visited" by (rule dfs_leave(2) [OF inv])
      then have "nodes - set (butlast path) - set (p # visited) = nodes - set path - set visited" by blast
      then have "\<exists>res. dfs ps rest (butlast path) (p # visited) = Some res \<and> (case res of Inr _ \<Rightarrow> \<exists>ds. ordered ps ds \<and> r \<in> set ds
          | Inl e \<Rightarrow> \<exists>c. e = ResDependencyCycle c \<and> closed_walk ps r c)"
        using IH [of rest "butlast path" "p # visited"] dfs_leave(1) [OF inv] 1(3) by (simp add: Cons)
      moreover have "dfs ps stack path visited = dfs ps rest (butlast path) (p # visited)"
        by (subst dfs.simps) (simp add: Cons e True)
      ultimately show ?thesis by simp
    next
      case enter: False
      have inv: "dfs_inv ps r ((p, False) # rest) path visited" using 1(2) by (simp add: Cons e enter)
      show ?thesis
      proof (cases "position (\<lambda>x. x = p) path")
        case (Some i)
        have "dfs ps stack path visited = Some (Inl (ResDependencyCycle (drop i path @ [p])))"
          by (subst dfs.simps) (simp add: Cons e enter Some)
        then show ?thesis using dfs_cycle [OF inv Some] by simp
      next
        case None
        then have np: "p \<notin> set path" by (auto simp: position_None)
        show ?thesis
        proof (cases "p \<in> set visited")
          case True
          have "dfs ps stack path visited = dfs ps rest path visited"
            by (subst dfs.simps) (simp add: Cons e enter None True)
          then show ?thesis using IH [of rest path visited] dfs_skip [OF inv True] 1(3) by (simp add: Cons)
        next
          case False
          let ?new = "map (\<lambda>d. (d, False)) (deps ps p) @ (p, True) # rest"
          have s: "dfs ps stack path visited = dfs ps ?new (path @ [p]) visited"
            by (subst dfs.simps) (simp add: Cons e enter None False)
          have "p \<in> nodes" using 1(3) by (simp add: Cons e)
          then have "card (nodes - set (path @ [p]) - set visited) < card (nodes - set path - set visited)"
            using assms(1) np False by (intro psubset_card_mono) auto
          moreover have "fst ` set ?new \<subseteq> nodes" using assms(2) [of p] 1(3) by (auto simp: Cons e)
          ultimately show ?thesis using IH [of ?new "path @ [p]" visited] dfs_enter [OF inv False np] s by simp
        qed
      qed
    qed
  qed
qed

section \<open>Resolution\<close>

text \<open>A closure: it has the root and every dependency of what it has, everything in it is reached
  from the root, each pick is usable and admitted by the root's range and by the range of every
  pick that depends on it, and no dependency runs in a cycle.\<close>

definition closure :: "registry \<Rightarrow> resolve_root \<Rightarrow> string list \<Rightarrow> picks \<Rightarrow> bool" where
  "closure reg rt caps ps \<longleftrightarrow> rt_package rt \<in> dom (bt_get ps) \<and> dom (bt_get ps) \<subseteq> (edges ps)\<^sup>* `` {rt_package rt}
     \<and> acyclic (edges ps)
     \<and> (\<forall>p rv. bt_get ps p = Some rv \<longrightarrow> set (deps ps p) \<subseteq> dom (bt_get ps) \<and> offered caps rv
          \<and> (\<exists>rvs. bt_get reg p = Some rvs \<and> rv \<in> set rvs) \<and> parse_version (rg_version rv) = Inr (version_of rv)
          \<and> (p = rt_package rt \<longrightarrow> admits (rt_range rt) (version_of rv))
          \<and> (\<forall>q x t. bt_get ps q = Some x \<and> map_of (rq_packages (rg_requires x)) p = Some t \<longrightarrow> admits t (version_of rv)))"

lemma version_no_at: "parse_version t = Inr v \<Longrightarrow> CHR ''@'' \<notin> set t"
proof -
  assume "parse_version t = Inr v"
  then have t: "t = show_version v" "version_wf v" by (simp_all add: parse_version_iff)
  have at: "\<not> is_digit CHR ''@''" "\<not> is_alnum CHR ''@''" by (simp_all add: is_digit_def is_alnum_def is_alpha_def is_lower_def is_upper_def)
  have "CHR ''@'' \<notin> set (join_on CHR ''.'' xs)" if "\<forall>x \<in> set xs. CHR ''@'' \<notin> set x" for xs
    using set_join_on [of "CHR ''.''" xs] that by auto
  moreover have "\<forall>x \<in> set (pre v). CHR ''@'' \<notin> set x"
    using t(2) by (fastforce simp: version_wf_def pre_id_ok_def list_all_iff at)
  moreover have "CHR ''@'' \<notin> set (show_nat n)" for n by (rule show_nat_no_char [OF at(1)])
  ultimately show ?thesis by (simp add: t(1) show_version_def)
qed

lemma pick_name_inj:
  assumes "pick_name p x = pick_name q y" and "CHR ''@'' \<notin> set (rg_version x)" and "CHR ''@'' \<notin> set (rg_version y)"
  shows "p = q \<and> rg_version x = rg_version y"
proof -
  have "rev (rg_version x) @ CHR ''@'' # rev p = rev (rg_version y) @ CHR ''@'' # rev q"
    using assms(1) by (metis append.assoc append_Cons append_Nil pick_name_def rev.simps(2) rev_append rev_rev_ident)
  then show ?thesis using append_sep_unique [of "rev (rg_version x)" "CHR ''@''" "rev p" "rev (rg_version y)" "rev q"] assms(2,3)
    by simp
qed

lemma pick_name_root: "pick_name p x \<noteq> ''(root)''"
proof
  assume "pick_name p x = ''(root)''"
  then have "CHR ''@'' \<in> set ''(root)''" unfolding pick_name_def by (metis Un_iff list.set_intros(1) set_append)
  then show False by simp
qed

text \<open>A recorded range is the range of the pick that is named.\<close>

lemma told_pick:
  assumes "told_ok reg caps rt r" and "entry_of reg caps p (rg_version rv) = Some rv"
    and "parse_version (rg_version rv) = Inr v" and "told r d (pick_name p rv) = Some t"
  shows "map_of (rq_packages (rg_requires rv)) d = Some t"
proof -
  have "(pick_name p rv, t) \<in> set (asked_of r d)" using assms(4) by (auto simp: told_def dest: bt_get_in)
  then have "told_by reg caps rt d (pick_name p rv) t" using assms(1) by (simp add: told_ok_def)
  then obtain q x where q: "pick_name p rv = pick_name q x" "entry_of reg caps q (rg_version x) = Some x"
      "parse_version (rg_version x) = Inr (version_of x)" "map_of (rq_packages (rg_requires x)) d = Some t"
    using pick_name_root [of p rv] unfolding told_by_def by blast
  have "p = q \<and> rg_version rv = rg_version x"
    using pick_name_inj [OF q(1) version_no_at [OF assms(3)] version_no_at [OF q(3)]] .
  then have "x = rv" using assms(2) q(2) by (metis option.inject)
  then show ?thesis using q(4) by simp
qed

text \<open>A usable version above the pick is refused by the range of the root or of an entry.\<close>

definition highest :: "registry \<Rightarrow> resolve_root \<Rightarrow> string list \<Rightarrow> picks \<Rightarrow> bool" where
  "highest reg rt caps ps \<longleftrightarrow> (\<forall>p rv rvs x. bt_get ps p = Some rv \<and> bt_get reg p = Some rvs \<and> x \<in> set rvs \<and> offered caps x
     \<and> version_of rv < version_of x \<longrightarrow> (\<exists>b t. told_by reg caps rt p b t \<and> \<not> admits t (version_of x)))"

lemma round_highest:
  assumes told: "told_ok reg caps rt r" and ok: "round_ok reg caps [] r False queue ps r' False"
  shows "highest reg rt caps ps"
  unfolding highest_def
proof (intro allI impI, elim conjE)
  fix p rv rvs x
  assume h: "bt_get ps p = Some rv" "bt_get reg p = Some rvs" "x \<in> set rvs" "offered caps x" "version_of rv < version_of x"
  have "pick_for reg caps (asked_of r p) p = Inr rv" using ok h(1) by (auto simp: round_ok_def bt_get_def)
  from pick_for_Inr(1) [OF this] have "\<not> admitted (asked_of r p) (version_of x)" using h by fastforce
  then obtain b t where "(b, t) \<in> set (asked_of r p)" "\<not> admits t (version_of x)" by (auto simp: admitted_def)
  then show "\<exists>b t. told_by reg caps rt p b t \<and> \<not> admits t (version_of x)" using told unfolding told_ok_def by blast
qed

lemma round_closure:
  assumes told: "told_ok reg caps rt r" and start: "start_told rt r"
    and ok: "round_ok reg caps [] r False [rt_package rt] ps r' False" and ac: "acyclic (edges ps)"
  shows "closure reg rt caps ps"
proof -
  note k = ok [unfolded round_ok_def]
  have same: "asked_of r' = asked_of r" using k by blast
  have pick: "pick_for reg caps (asked_of r p) p = Inr rv" if "bt_get ps p = Some rv" for p rv
    using k that by (auto simp: bt_get_def)
  have dep: "set (deps ps p) \<subseteq> dom (bt_get ps)" "d \<in> set (deps ps p) \<Longrightarrow> told r d (pick_name p rv) \<noteq> None"
    if "bt_get ps p = Some rv" for p rv d
  proof -
    have "bt_get [] p = Some rv \<or> set (deps ps p) \<subseteq> dom (bt_get ps) \<and> (\<forall>d \<in> set (deps ps p). told r' d (pick_name p rv) \<noteq> None)"
      using k that by blast
    then have h: "set (deps ps p) \<subseteq> dom (bt_get ps) \<and> (\<forall>d \<in> set (deps ps p). told r d (pick_name p rv) \<noteq> None)"
      by (simp add: bt_get_def [of "[]"] told_def same)
    show "set (deps ps p) \<subseteq> dom (bt_get ps)" using h by blast
    show "d \<in> set (deps ps p) \<Longrightarrow> told r d (pick_name p rv) \<noteq> None" using h by blast
  qed
  have adm: "admits t (version_of rv)" if "bt_get ps p = Some rv" "told r p b = Some t" for p rv b t
  proof -
    have "admitted (asked_of r p) (version_of rv)" using pick_for_Inr(1) [OF pick [OF that(1)]] by blast
    moreover have "(b, t) \<in> set (asked_of r p)" using that(2) by (auto simp: told_def dest: bt_get_in)
    ultimately show ?thesis by (auto simp: admitted_def)
  qed
  have edge: "admits t (version_of rv)"
    if "bt_get ps p = Some rv" "bt_get ps q = Some x" "map_of (rq_packages (rg_requires x)) p = Some t" for p rv q x t
  proof -
    have "p \<in> set (deps ps q)" using that(2,3) by (force simp: deps_def dest: map_of_SomeD)
    then have "told r p (pick_name q x) \<noteq> None" by (rule dep(2) [OF that(2)])
    then obtain t' where t': "told r p (pick_name q x) = Some t'" by blast
    note px = pick_for_Inr [OF pick [OF that(2)]]
    have "parse_version (rg_version x) = Inr (version_of x)" using px(1) by blast
    from told_pick [OF told px(2) this t'] have "t' = t" using that(3) by simp
    then show ?thesis using adm [OF that(1) t'] by simp
  qed
  have "dom (bt_get ps) \<subseteq> (edges ps)\<^sup>* `` {rt_package rt}" "rt_package rt \<in> dom (bt_get ps)"
    using k by (auto simp: bt_get_def)
  moreover have "offered caps rv \<and> (\<exists>rvs. bt_get reg p = Some rvs \<and> rv \<in> set rvs) \<and> parse_version (rg_version rv) = Inr (version_of rv)"
    if "bt_get ps p = Some rv" for p rv using pick_for_Inr(1) [OF pick [OF that]] by blast
  moreover have "p = rt_package rt \<longrightarrow> admits (rt_range rt) (version_of rv)" if "bt_get ps p = Some rv" for p rv
    using adm [OF that] start by (auto simp: start_told_def)
  ultimately show ?thesis unfolding closure_def using ac dep(1) edge by blast
qed

lemma start_ok:
  "told_ok reg caps rt [(rt_package rt, [(''(root)'', rt_range rt)])]" "start_told rt [(rt_package rt, [(''(root)'', rt_range rt)])]"
  by (auto simp: told_ok_def start_told_def told_def asked_of_def bt_get_def told_by_def split: if_splits)

lemma deps_nodes: "finite (\<Union>p. set (deps ps p))"
proof -
  have "(\<Union>p. set (deps ps p)) \<subseteq> (\<Union>rv \<in> snd ` set ps. fst ` set (rq_packages (rg_requires rv)))"
  proof clarify
    fix d p assume "d \<in> set (deps ps p)"
    then obtain rv where "bt_get ps p = Some rv" "d \<in> fst ` set (rq_packages (rg_requires rv))"
      by (cases "bt_get ps p") (auto simp: deps_def)
    then show "d \<in> (\<Union>rv \<in> snd ` set ps. fst ` set (rq_packages (rg_requires rv)))" using bt_get_in by force
  qed
  then show ?thesis by (rule finite_subset) auto
qed

lemma dfs_start:
  "\<exists>res. dfs ps [(r, False)] [] [] = Some res \<and> (case res of Inr _ \<Rightarrow> \<exists>ds. ordered ps ds \<and> r \<in> set ds
     | Inl e \<Rightarrow> \<exists>c. e = ResDependencyCycle c \<and> closed_walk ps r c)"
  by (rule dfs_total [of "insert r (\<Union>p. set (deps ps p))"])
    (auto simp: deps_nodes dfs_inv_def Cons_eq_append_conv)

lemma reach_acyclic:
  assumes "ordered ps ds" and "r \<in> set ds" and "dom (bt_get ps) \<subseteq> (edges ps)\<^sup>* `` {r}"
  shows "acyclic (edges ps)"
proof -
  have "edges ps \<subseteq> {(a, b) \<in> edges ps. a \<in> set ds}"
  proof clarify
    fix a b assume e: "(a, b) \<in> edges ps"
    then have "a \<in> dom (bt_get ps)" by (cases "bt_get ps a") (auto simp: edges_def deps_def)
    then show "a \<in> set ds" using assms ordered_reach by blast
  qed
  then show ?thesis using ordered_acyclic [OF assms(1)] acyclic_subset by blast
qed

lemma resolve_total: "\<exists>res. resolve reg rt caps pins = Some res"
proof -
  obtain a where a: "rounds reg caps (rt_package rt) [(rt_package rt, [(''(root)'', rt_range rt)])] = Some a"
    using rounds_total [OF start_ok] by blast
  show ?thesis
  proof (cases a)
    case (Inr ps)
    obtain b where "dfs ps [(rt_package rt, False)] [] [] = Some b" using dfs_start by blast
    then show ?thesis by (cases b) (simp_all add: resolve_def a Inr)
  qed (simp add: resolve_def a)
qed

lemma resolve_Inr:
  assumes "resolve reg rt caps pins = Some (Inr res)"
  obtains ps where "closure reg rt caps ps" "highest reg rt caps ps" "check_refs ps = Inr ()" "rs_picks res = map (\<lambda>(p, rv). (p, rg_version rv)) ps"
    "case pins of None \<Rightarrow> rs_moves res = None | Some pins' \<Rightarrow> \<exists>ms. moves_of pins' (rs_picks res) = Inr ms \<and> rs_moves res = Some ms"
proof -
  obtain ps where ps: "rounds reg caps (rt_package rt) [(rt_package rt, [(''(root)'', rt_range rt)])] = Some (Inr ps)"
    using assms by (auto simp: resolve_def split: option.splits sum.splits)
  then obtain r r' where r: "told_ok reg caps rt r" "start_told rt r" "round_ok reg caps [] r False [rt_package rt] ps r' False"
    using rounds_total [OF start_ok, of reg caps rt] by auto
  have d: "dfs ps [(rt_package rt, False)] [] [] = Some (Inr ())"
    using assms by (auto simp: resolve_def ps split: option.splits sum.splits)
  then obtain ds where "ordered ps ds" "rt_package rt \<in> set ds" using dfs_start [of ps "rt_package rt"] by auto
  moreover have "dom (bt_get ps) \<subseteq> (edges ps)\<^sup>* `` {rt_package rt}" using r(3) by (auto simp: round_ok_def bt_get_def)
  ultimately have "acyclic (edges ps)" by (rule reach_acyclic)
  then have "closure reg rt caps ps" using r by (intro round_closure)
  moreover have "highest reg rt caps ps" by (rule round_highest [OF r(1) r(3)])
  moreover have "check_refs ps = Inr ()" "rs_picks res = map (\<lambda>(p, rv). (p, rg_version rv)) ps"
      "case pins of None \<Rightarrow> rs_moves res = None | Some pins' \<Rightarrow> \<exists>ms. moves_of pins' (rs_picks res) = Inr ms \<and> rs_moves res = Some ms"
    using assms by (auto simp: resolve_def ps d Let_def bind_res_eq_Inr split: option.splits)
  ultimately show thesis by (rule that)
qed

section \<open>Exact pins\<close>

lemma version_chars:
  assumes "parse_version t = Inr v" and "c \<in> set t"
  shows "is_alnum c \<or> c = CHR ''.'' \<or> c = CHR ''-'' \<or> c = CHR ''+''"
proof -
  have t: "t = show_version v" "version_wf v" using assms(1) by (simp_all add: parse_version_iff)
  have n: "c \<in> set (show_nat n) \<Longrightarrow> is_alnum c" for n using show_nat_digits [of c n] by (simp add: is_alnum_def)
  have "\<forall>x \<in> set (pre v). \<forall>c \<in> set x. is_alnum c \<or> c = CHR ''-''"
    using t(2) by (fastforce simp: version_wf_def pre_id_ok_def list_all_iff)
  moreover have "c \<in> set (join_on CHR ''.'' xs) \<Longrightarrow> c = CHR ''.'' \<or> (\<exists>x \<in> set xs. c \<in> set x)" for xs
    using set_join_on [of "CHR ''.''" xs] by auto
  ultimately show ?thesis using assms(2) n by (force simp: t(1) show_version_def split: if_splits)
qed

definition plain :: "char \<Rightarrow> bool" where
  "plain c \<longleftrightarrow> 33 \<le> byte c \<and> byte c < 128 \<and> c \<noteq> CHR ''|''"

lemma plain_ws: "plain a \<Longrightarrow> ws_len (a # s) = 0"
  by (auto simp: plain_def split: list.splits)

lemma split_ws_plain: "\<forall>c \<in> set s. plain c \<Longrightarrow> cur @ s \<noteq> [] \<Longrightarrow> split_ws_from cur s = [cur @ s]"
  by (induction s arbitrary: cur) (simp_all add: plain_ws del: ws_len.simps)

lemma split_bars_plain: "\<forall>c \<in> set s. plain c \<Longrightarrow> split_bars s = [s]"
  by (induction s rule: split_bars.induct) (auto simp: plain_def)

lemma alnum_plain: "is_alnum c \<Longrightarrow> plain c"
  by (auto simp: is_alnum_def is_alpha_def plain_def is_digit_byte is_lower_byte is_upper_byte) (simp_all add: byte_def)

lemma exact_range:
  assumes "parse_version t = Inr v"
  shows "admits (''='' @ t) w \<longleftrightarrow> w = v"
proof -
  have pl: "\<forall>c \<in> set (''='' @ t). plain c"
  proof
    fix c assume "c \<in> set (''='' @ t)"
    then show "plain c" using version_chars [OF assms, of c] alnum_plain [of c] by (auto simp: plain_def byte_def)
  qed
  have s: "split_bars (''='' @ t) = [''='' @ t]" "split_ws (''='' @ t) = [''='' @ t]"
    using split_bars_plain [OF pl] split_ws_plain [OF pl, of "[]"] by (simp_all add: split_ws_def)
  have p: "partial t = Some (v, 3)" using assms by (simp add: parse_version_iff partial_iff partial_text_3 partial_wf_def)
  have c: "comparator (''='' @ t) = Some (op_bound ''='' v 3)" using comparator_opr [OF p, of "''=''"] by (simp add: comparator_ops_def)
  have "range_set (''='' @ t) = Inr [op_bound ''='' v 3]"
    unfolding range_set_def s(2) Let_def by (simp add: c del: append.simps)
  then have "parse_range (''='' @ t) = Inr [[op_bound ''='' v 3]]"
    unfolding parse_range_def s(1) by (simp del: append.simps)
  then show ?thesis by (auto simp: admits_def satisfies_def op_bound_def interval_def bound_ok_def Let_def)
qed

section \<open>What the roots reach\<close>

definition pin_edges :: "registry \<Rightarrow> (string, string) btree \<Rightarrow> (string \<times> string) set" where
  "pin_edges reg pins = {(p, d). d \<in> set (pinned_deps reg pins p)}"

lemma reach_loop_closed:
  assumes "\<forall>p \<in> set seen. set (pinned_deps reg pins p) \<subseteq> set seen \<union> set queue"
  shows "set seen \<union> set queue \<subseteq> set (reach_loop reg pins seen queue)
    \<and> (\<forall>p \<in> set (reach_loop reg pins seen queue). set (pinned_deps reg pins p) \<subseteq> set (reach_loop reg pins seen queue))"
  using assms
proof (induction reg pins seen queue rule: reach_loop.induct)
  case (2 reg pins seen p queue)
  show ?case
  proof (cases "p \<in> set seen")
    case True
    then have "\<forall>q \<in> set seen. set (pinned_deps reg pins q) \<subseteq> set seen \<union> set queue" using 2(3) by auto
    then show ?thesis using 2(1) [OF True] True by auto
  next
    case False
    have "\<forall>q \<in> set (p # seen). set (pinned_deps reg pins q) \<subseteq> set (p # seen) \<union> set (queue @ pinned_deps reg pins p)"
      using 2(3) by auto
    then show ?thesis using 2(2) [OF False] False by auto
  qed
qed auto

lemma reach_loop_reaches:
  assumes "r \<in> set queue" and "(r, p) \<in> (pin_edges reg pins)\<^sup>*"
  shows "p \<in> set (reach_loop reg pins [] queue)"
  using assms(2)
proof (induction rule: rtrancl_induct)
  case base
  then show ?case using reach_loop_closed [of "[]" reg pins queue] assms(1) by auto
next
  case (step y z)
  then show ?case using reach_loop_closed [of "[]" reg pins queue] by (auto simp: pin_edges_def)
qed

lemma fold_pins_get:
  assumes "p \<notin> fst ` set xs"
  shows "bt_get (fold (\<lambda>(p, v) m. if f p then m else bt_insert p (g v) m) xs m) p = bt_get m p"
  using assms by (induction xs arbitrary: m) (auto simp: bt_get_insert)

lemma pins_get:
  assumes "distinct (map fst pins)" and "bt_get pins p = Some v" and "\<not> f p"
  shows "bt_get (fold (\<lambda>(p, v) m. if f p then m else bt_insert p (g v) m) pins m) p = Some (g v)"
  using assms
proof (induction pins arbitrary: m)
  case (Cons kv pins)
  obtain k w where kv: "kv = (k, w)" by (cases kv)
  show ?case
  proof (cases "k = p")
    case True
    then have "p \<notin> fst ` set pins" "w = v" using Cons.prems(1,2) by (auto simp: kv bt_get_def)
    then show ?thesis using Cons.prems(3) True by (simp add: kv fold_pins_get bt_get_insert)
  next
    case False
    then show ?thesis using Cons by (simp add: kv bt_get_def)
  qed
qed (simp add: bt_get_def)

lemma reach_loop_sound: "p \<in> set (reach_loop reg pins seen queue) \<Longrightarrow>
    p \<in> set seen \<or> (\<exists>r \<in> set queue. (r, p) \<in> (pin_edges reg pins)\<^sup>*)"
proof (induction reg pins seen queue rule: reach_loop.induct)
  case (2 reg pins seen q queue)
  show ?case
  proof (cases "q \<in> set seen")
    case True
    then show ?thesis using 2(1) [OF True] 2(3) by auto
  next
    case False
    then have "p \<in> set (q # seen) \<or> (\<exists>r \<in> set (queue @ pinned_deps reg pins q). (r, p) \<in> (pin_edges reg pins)\<^sup>*)"
      using 2(2) [OF False] 2(3) by simp
    moreover have "(q, p) \<in> (pin_edges reg pins)\<^sup>*" if "r \<in> set (pinned_deps reg pins q)" "(r, p) \<in> (pin_edges reg pins)\<^sup>*" for r
      using that by (auto simp: pin_edges_def intro: converse_rtrancl_into_rtrancl)
    ultimately show ?thesis by auto
  qed
qed simp

text \<open>The packages whose pins a resolution must keep: those that a root outside the subjects reaches through the
  pinned versions, the subjects themselves apart.\<close>

definition kept_packages :: "registry \<Rightarrow> (string, string) btree \<Rightarrow> string list \<Rightarrow> (string, string) btree \<Rightarrow> string set" where
  "kept_packages reg rts subjects pins = (pin_edges reg pins)\<^sup>* `` (fst ` set rts - set subjects) - set subjects"

lemma base_get:
  assumes "map_res (\<lambda>(r, range). if r \<in> set subjects then Inr (r, range)
      else bind_res (ok_or (bt_get pins r) (ResPackageNotFound r)) (\<lambda>v. Inr (r, ''='' @ v))) rts = Inr base"
    and "bt_inv rts"
  shows "bt_get (bt_of_list base) p = (case bt_get rts p of None \<Rightarrow> None
    | Some t \<Rightarrow> if p \<in> set subjects then Some t else map_option (\<lambda>v. ''='' @ v) (bt_get pins p))"
proof -
  have l: "list_all2 (\<lambda>x y. fst y = fst x \<and> (if fst x \<in> set subjects then snd y = snd x
      else bt_get pins (fst x) \<noteq> None \<and> snd y = ''='' @ the (bt_get pins (fst x)))) rts base"
    using assms(1) unfolding map_res_Inr
    by (rule list_all2_mono) (auto simp: bind_res_eq_Inr split: if_splits)
  then have keys: "map fst base = map fst rts"
    by (induction rule: list_all2_induct) simp_all
  then have "distinct (map fst base)" using bt_inv_distinct [OF assms(2)] by simp
  then have "map_of (rev base) = map_of base" by (subst map_of_inject_set) (simp_all add: rev_map [symmetric])
  then have "bt_get (bt_of_list base) p = map_of base p" by (simp add: bt_get_of_list)
  also have "\<dots> = (case map_of rts p of None \<Rightarrow> None
    | Some t \<Rightarrow> if p \<in> set subjects then Some t else map_option (\<lambda>v. ''='' @ v) (bt_get pins p))"
    using l by (induction rule: list_all2_induct) (auto split: option.splits if_splits)
  finally show ?thesis by (simp add: bt_get_def)
qed

lemma ranges_get:
  assumes "synthetic_root_ranges reg rts subjects pins = Inr ranges" and "bt_inv rts" and "bt_inv pins"
  shows "p \<in> kept_packages reg rts subjects pins \<Longrightarrow> bt_get pins p = Some v \<Longrightarrow> bt_get ranges p = Some (''='' @ v)"
    and "p \<notin> kept_packages reg rts subjects pins \<Longrightarrow> bt_get ranges p = (if p \<in> set subjects then bt_get rts p else None)"
proof -
  let ?reach = "reach_loop reg pins [] (filter (\<lambda>r. r \<notin> set subjects) (map fst rts))"
  let ?free = "\<lambda>p. p \<in> set subjects \<or> (\<not> bt_has rts p \<and> p \<notin> set ?reach)"
  obtain base where r: "ranges = fold (\<lambda>(p, v) m. if ?free p then m else bt_insert p (''='' @ v) m) pins (bt_of_list base)"
    and b: "map_res (\<lambda>(r, range). if r \<in> set subjects then Inr (r, range)
      else bind_res (ok_or (bt_get pins r) (ResPackageNotFound r)) (\<lambda>v. Inr (r, ''='' @ v))) rts = Inr base"
    using assms(1) by (auto simp: synthetic_root_ranges_def Let_def bind_res_eq_Inr simp del: bt_has_iff split: option.splits)
  note base = base_get [OF b assms(2)]
  have kept: "p \<in> kept_packages reg rts subjects pins \<longleftrightarrow> \<not> ?free p" for p
  proof -
    have "p \<in> set ?reach \<longleftrightarrow> (\<exists>r \<in> fst ` set rts - set subjects. (r, p) \<in> (pin_edges reg pins)\<^sup>*)"
      using reach_loop_sound [of p reg pins "[]"] reach_loop_reaches [of _ "filter (\<lambda>r. r \<notin> set subjects) (map fst rts)" p reg pins]
      by fastforce
    moreover have "bt_has rts p \<Longrightarrow> p \<notin> set subjects \<Longrightarrow> \<exists>r \<in> fst ` set rts - set subjects. (r, p) \<in> (pin_edges reg pins)\<^sup>*"
      by (auto simp: bt_has_get dom_bt_get [symmetric] dom_def simp del: bt_has_iff intro!: bexI [of _ p])
    ultimately show ?thesis by (auto simp: kept_packages_def)
  qed
  show "p \<in> kept_packages reg rts subjects pins \<Longrightarrow> bt_get pins p = Some v \<Longrightarrow> bt_get ranges p = Some (''='' @ v)"
    unfolding r kept using pins_get [OF bt_inv_distinct [OF assms(3)], of p v ?free "\<lambda>v. ''='' @ v"] by blast
  assume "p \<notin> kept_packages reg rts subjects pins"
  then have free: "?free p" using kept by blast
  have "bt_get (fold (\<lambda>(p, v) m. if ?free p then m else bt_insert p (''='' @ v) m) xs m) p = bt_get m p" for xs m
    using free by (induction xs arbitrary: m) (auto simp: bt_get_insert)
  then have "bt_get ranges p = bt_get (bt_of_list base) p" by (simp only: r)
  then show "bt_get ranges p = (if p \<in> set subjects then bt_get rts p else None)"
    using base free by (auto simp: bt_has_get simp del: bt_has_iff split: option.splits)
qed

lemma resolve_roots_Inr:
  assumes "resolve_roots reg rts subjects pins caps = Some (Inr res)"
  obtains ranges ps where "synthetic_root_ranges reg rts subjects pins = Inr ranges"
    "closure (bt_insert SYNTHETIC [synthetic_version ranges] reg) \<lparr>rt_package = SYNTHETIC, rt_range = ''*''\<rparr> caps ps"
    "highest (bt_insert SYNTHETIC [synthetic_version ranges] reg) \<lparr>rt_package = SYNTHETIC, rt_range = ''*''\<rparr> caps ps"
    "rs_picks res = bt_remove SYNTHETIC (map (\<lambda>(p, rv). (p, rg_version rv)) ps)"
proof -
  obtain ranges where r: "synthetic_root_ranges reg rts subjects pins = Inr ranges"
    using assms by (auto simp: resolve_roots_def split: sum.splits)
  obtain res' where res': "resolve (bt_insert SYNTHETIC [synthetic_version ranges] reg) \<lparr>rt_package = SYNTHETIC, rt_range = ''*''\<rparr> caps (Some pins)
      = Some (Inr res')" "rs_picks res = bt_remove SYNTHETIC (rs_picks res')"
    using assms by (auto simp: resolve_roots_def r split: option.splits sum.splits)
  obtain ps where "closure (bt_insert SYNTHETIC [synthetic_version ranges] reg) \<lparr>rt_package = SYNTHETIC, rt_range = ''*''\<rparr> caps ps"
      "highest (bt_insert SYNTHETIC [synthetic_version ranges] reg) \<lparr>rt_package = SYNTHETIC, rt_range = ''*''\<rparr> caps ps"
      "rs_picks res' = map (\<lambda>(p, rv). (p, rg_version rv)) ps"
    using resolve_Inr [OF res'(1)] by blast
  then show thesis using that [OF r] res'(2) by simp
qed

text \<open>What an offered entry of the registry asks of a package.\<close>

definition entry_asks :: "registry \<Rightarrow> string list \<Rightarrow> string \<Rightarrow> string \<Rightarrow> bool" where
  "entry_asks reg caps p t \<longleftrightarrow> (\<exists>q rvs z. bt_get reg q = Some rvs \<and> z \<in> set rvs \<and> offered caps z
     \<and> map_of (rq_packages (rg_requires z)) p = Some t)"

lemma told_by_synthetic:
  assumes "told_by (bt_insert SYNTHETIC [synthetic_version ranges] reg) caps \<lparr>rt_package = SYNTHETIC, rt_range = ''*''\<rparr> p b t"
    and "p \<noteq> SYNTHETIC"
  shows "bt_get ranges p = Some t \<or> entry_asks reg caps p t"
proof -
  obtain q z where z: "entry_of (bt_insert SYNTHETIC [synthetic_version ranges] reg) caps q (rg_version z) = Some z"
      "map_of (rq_packages (rg_requires z)) p = Some t"
    using assms by (auto simp: told_by_def)
  show ?thesis
  proof (cases "q = SYNTHETIC")
    case True
    then have "z = synthetic_version ranges" using z(1) by (auto simp: entry_of_def bt_get_insert split: if_splits)
    then show ?thesis using z(2) by (simp add: synthetic_version_def bt_get_def)
  next
    case False
    then obtain rvs where "bt_get reg q = Some rvs" "z \<in> set rvs" "offered caps z"
      using z(1) by (auto simp: entry_of_def bt_get_insert find_Some_iff in_set_conv_nth split: option.splits)
    then show ?thesis using z(2) unfolding entry_asks_def by blast
  qed
qed

lemma bt_get_map: "bt_get (map (\<lambda>(p, x). (p, f x)) m) k = map_option f (bt_get m k)"
  by (simp add: bt_get_def map_of_map)

text \<open>What the artificial package asks for is picked, and admitted.\<close>

lemma synthetic_pick:
  assumes "closure (bt_insert SYNTHETIC [synthetic_version ranges] reg) \<lparr>rt_package = SYNTHETIC, rt_range = ''*''\<rparr> caps ps"
    and "bt_get ranges p = Some t"
  obtains rv where "bt_get ps p = Some rv" "admits t (version_of rv)" "parse_version (rg_version rv) = Inr (version_of rv)"
proof -
  note c = assms(1) [unfolded closure_def]
  obtain s where s: "bt_get ps SYNTHETIC = Some s" using c by auto
  then have "s = synthetic_version ranges" using c by (fastforce simp: bt_get_insert)
  then have m: "map_of (rq_packages (rg_requires s)) p = Some t" using assms(2) by (simp add: synthetic_version_def bt_get_def)
  then have "p \<in> set (deps ps SYNTHETIC)" by (force simp: deps_def s dest: map_of_SomeD)
  moreover have "set (deps ps SYNTHETIC) \<subseteq> dom (bt_get ps)" using c s by blast
  ultimately obtain rv where rv: "bt_get ps p = Some rv" by blast
  then have "admits t (version_of rv) \<and> parse_version (rg_version rv) = Inr (version_of rv)" using c s m by blast
  then show thesis using that rv by blast
qed

section \<open>Cycles that are reported\<close>

definition no_cycle :: "resolve_error \<Rightarrow> bool" where
  "no_cycle e \<longleftrightarrow> (\<forall>c. e \<noteq> ResDependencyCycle c)"

lemma map_res_Inl: "map_res f xs = Inl e \<Longrightarrow> \<exists>x \<in> set xs. f x = Inl e"
  by (induction xs) (auto split: sum.splits)

lemma pick_for_no_cycle: "pick_for reg caps a p = Inl e \<Longrightarrow> no_cycle e"
  unfolding pick_for_def bind_res_eq_Inl ok_or_eq_Inl
  by (elim disjE exE conjE; auto simp: no_cycle_def parse_asked_def usable_versions_def no_candidate_def Let_def map_err_def
      bind_res_eq_Inl dest!: map_res_Inl split: list.splits sum.splits if_splits)

lemma round_loop_no_cycle: "round_loop reg caps ps ranges new queue = Inl e \<Longrightarrow> no_cycle e"
proof (induction reg caps ps ranges new queue rule: round_loop.induct)
  case (1 reg caps ps ranges new)
  then show ?case by (simp add: round_loop.simps)
next
  case (2 reg caps ps ranges new pkg queue)
  show ?case
  proof (cases "bt_has ps pkg")
    case True
    then show ?thesis using 2 by (simp add: round_loop.simps del: bt_has_iff)
  next
    case False
    show ?thesis
    proof (cases "pick_for reg caps (asked_of ranges pkg) pkg")
      case (Inl e')
      then show ?thesis using 2(3) False pick_for_no_cycle [OF Inl] by (simp add: round_loop.simps del: bt_has_iff)
    next
      case (Inr rv)
      show ?thesis by (rule 2(2) [OF False Inr refl]) (use 2(3) False Inr in \<open>simp add: round_loop.simps Let_def del: bt_has_iff\<close>)
    qed
  qed
qed

lemma rounds_no_cycle: "rounds reg caps p ranges = Some (Inl e) \<Longrightarrow> no_cycle e"
proof (induction "untold reg ranges" arbitrary: ranges rule: less_induct)
  case less
  show ?case
  proof (cases "round_loop reg caps [] ranges False [p]")
    case (Inl e')
    have "rounds reg caps p ranges = Some (Inl e')" by (subst rounds.simps) (simp add: Inl)
    then show ?thesis using less.prems round_loop_no_cycle [OF Inl] by simp
  next
    case (Inr x)
    obtain ps ranges' new where x: "x = (ps, ranges', new)" by (cases x)
    have r: "rounds reg caps p ranges = (if new then rounds reg caps p ranges' else Some (Inr ps))"
      by (subst rounds.simps) (simp add: Inr x)
    then have new using less.prems by (auto split: if_splits)
    then show ?thesis using less r untold_less [of reg caps "[]" ranges "[p]" ps ranges'] round_loop_ok [OF Inr [unfolded x]] by simp
  qed
qed

lemma each_ok_Inl: "each_ok f xs = Inl e \<Longrightarrow> \<exists>x \<in> set xs. f x = Inl e"
  by (induction xs) (auto split: sum.splits)

lemma check_refs_no_cycle: "check_refs ps = Inl e \<Longrightarrow> no_cycle e"
  by (auto simp: check_refs_def no_cycle_def bind_res_eq_Inl dest!: each_ok_Inl split: if_splits)

lemma moves_of_no_cycle: "moves_of pins out = Inl e \<Longrightarrow> no_cycle e"
  by (auto simp: moves_of_def direction_of_def no_cycle_def bind_res_eq_Inl map_err_def
      dest!: map_res_Inl split: option.splits sum.splits)

lemma resolve_cycle:
  assumes "resolve reg rt caps pins = Some (Inl (ResDependencyCycle c))"
  shows "\<exists>ps. closed_walk ps (rt_package rt) c \<and> (\<forall>p rv. bt_get ps p = Some rv \<longrightarrow>
     (\<exists>rvs. bt_get reg p = Some rvs \<and> rv \<in> set rvs \<and> offered caps rv))"
proof -
  obtain a where a: "rounds reg caps (rt_package rt) [(rt_package rt, [(''(root)'', rt_range rt)])] = Some a"
    using rounds_total [OF start_ok] by blast
  show ?thesis
  proof (cases a)
    case (Inl e)
    then show ?thesis using assms a rounds_no_cycle [OF a [unfolded Inl]] by (simp add: resolve_def no_cycle_def)
  next
    case (Inr ps)
    obtain r r' where r: "round_ok reg caps [] r False [rt_package rt] ps r' False"
      using rounds_total [OF start_ok, of reg caps rt] a Inr by auto
    obtain b where b: "dfs ps [(rt_package rt, False)] [] [] = Some b"
      "case b of Inr _ \<Rightarrow> \<exists>ds. ordered ps ds \<and> rt_package rt \<in> set ds | Inl e \<Rightarrow> \<exists>c. e = ResDependencyCycle c \<and> closed_walk ps (rt_package rt) c"
      using dfs_start by blast
    show ?thesis
    proof (cases b)
      case (Inr u)
      let ?out = "map (\<lambda>(p, rv). (p, rg_version rv)) ps"
      have "check_refs ps = Inl (ResDependencyCycle c) \<or> (\<exists>pins'. moves_of pins' ?out = Inl (ResDependencyCycle c))"
        using assms by (simp add: resolve_def a \<open>a = Inr ps\<close> b(1) Inr) (auto simp: bind_res_eq_Inl Let_def split: option.splits)
      then show ?thesis using check_refs_no_cycle moves_of_no_cycle unfolding no_cycle_def by blast
    next
      case (Inl e)
      then have "closed_walk ps (rt_package rt) c" using assms b a \<open>a = Inr ps\<close> by (simp add: resolve_def)
      moreover have "\<exists>rvs. bt_get reg p = Some rvs \<and> rv \<in> set rvs \<and> offered caps rv" if "bt_get ps p = Some rv" for p rv
      proof -
        have "pick_for reg caps (asked_of r p) p = Inr rv" using r that by (auto simp: round_ok_def bt_get_def)
        from pick_for_Inr(1) [OF this] show ?thesis by blast
      qed
      ultimately show ?thesis by blast
    qed
  qed
qed

section \<open>Moves\<close>

lemma set_keys_of_list: "fst ` set (bt_of_list kvs) = fst ` set kvs"
  using dom_bt_get [of "bt_of_list kvs"] by (simp add: bt_get_of_list dom_map_of_conv_image_fst)

lemma map_of_map_pair: "map_of (map (\<lambda>k. (k, f k)) ks) p = (if p \<in> set ks then Some (f p) else None)"
  by (induction ks) auto

lemma moves_of_Inr:
  assumes "moves_of pins out = Inr ms"
  shows "p \<in> dom (bt_get pins) \<union> dom (bt_get out) \<Longrightarrow> \<exists>d. direction_of p (bt_get pins p) (bt_get out p) = Inr d
       \<and> bt_get ms p = Some \<lparr>mv_from = bt_get pins p, mv_to = bt_get out p, mv_direction = d\<rparr>"
    and "p \<notin> dom (bt_get pins) \<union> dom (bt_get out) \<Longrightarrow> bt_get ms p = None"
proof -
  let ?names = "bt_keys (bt_of_list (map (\<lambda>p. (fst p, ())) (pins @ out)))"
  let ?f = "\<lambda>p. (p, \<lparr>mv_from = bt_get pins p, mv_to = bt_get out p, mv_direction = (case direction_of p (bt_get pins p) (bt_get out p) of Inr d \<Rightarrow> d)\<rparr>)"
  obtain xs where xs: "map_res (\<lambda>pkg. bind_res (direction_of pkg (bt_get pins pkg) (bt_get out pkg)) (\<lambda>d.
        Inr (pkg, \<lparr>mv_from = bt_get pins pkg, mv_to = bt_get out pkg, mv_direction = d\<rparr>))) ?names = Inr xs" "ms = bt_of_list xs"
    using assms by (auto simp: moves_of_def bind_res_eq_Inr)
  from xs(1) have "list_all2 (\<lambda>p x. is_ok (direction_of p (bt_get pins p) (bt_get out p)) \<and> x = ?f p) ?names xs"
    unfolding map_res_Inr by (rule list_all2_mono) (auto simp: bind_res_eq_Inr)
  then have m: "xs = map ?f ?names \<and> (\<forall>p \<in> set ?names. is_ok (direction_of p (bt_get pins p) (bt_get out p)))"
    by (induction rule: list_all2_induct) auto
  have names: "set ?names = dom (bt_get pins) \<union> dom (bt_get out)"
    by (simp add: bt_keys_def set_keys_of_list dom_bt_get image_image image_Un)
  have "distinct ?names" by (simp add: bt_keys_def bt_inv_distinct bt_inv_of_list)
  then have "map_of (rev xs) = map_of xs" using m by (subst map_of_inject_set) (simp_all add: o_def rev_map [symmetric])
  then have "bt_get ms p = map_of (map ?f ?names) p" using m by (simp add: xs(2) bt_get_of_list)
  also have "\<dots> = (if p \<in> set ?names then Some \<lparr>mv_from = bt_get pins p, mv_to = bt_get out p,
      mv_direction = (case direction_of p (bt_get pins p) (bt_get out p) of Inr d \<Rightarrow> d)\<rparr> else None)"
    by (rule map_of_map_pair)
  finally have g: "bt_get ms p = (if p \<in> dom (bt_get pins) \<union> dom (bt_get out) then Some \<lparr>mv_from = bt_get pins p, mv_to = bt_get out p,
      mv_direction = (case direction_of p (bt_get pins p) (bt_get out p) of Inr d \<Rightarrow> d)\<rparr> else None)"
    unfolding names .
  show "p \<notin> dom (bt_get pins) \<union> dom (bt_get out) \<Longrightarrow> bt_get ms p = None" by (simp add: g)
  assume p: "p \<in> dom (bt_get pins) \<union> dom (bt_get out)"
  then have "is_ok (direction_of p (bt_get pins p) (bt_get out p))" using m names by blast
  then obtain d where "direction_of p (bt_get pins p) (bt_get out p) = Inr d" unfolding is_ok_iff by blast
  then show "\<exists>d. direction_of p (bt_get pins p) (bt_get out p) = Inr d
       \<and> bt_get ms p = Some \<lparr>mv_from = bt_get pins p, mv_to = bt_get out p, mv_direction = d\<rparr>" using g p by simp
qed

section \<open>References of the picks\<close>

definition refs_ok :: "picks \<Rightarrow> bool" where
  "refs_ok ps \<longleftrightarrow> (\<forall>p rv. bt_get ps p = Some rv \<longrightarrow> (\<forall>r \<in> set (rg_refs rv). br_package r \<in> set (deps ps p)
     \<and> (\<exists>x. bt_get ps (br_package r) = Some x \<and> rg_kind x = ref_kind (br_field r))))"

lemma check_refs_ok:
  assumes "check_refs ps = Inr ()"
  shows "refs_ok ps"
  unfolding refs_ok_def
proof (intro allI impI ballI)
  fix p rv r assume p: "bt_get ps p = Some rv" and r: "r \<in> set (rg_refs rv)"
  have in_ps: "(p, rv) \<in> set ps" by (rule bt_get_in [OF p])
  note c = assms [unfolded check_refs_def bind_res_eq_Inr each_ok_Inr]
  have "\<forall>x \<in> set ps. (\<lambda>(pkg, rv). each_ok (\<lambda>r. if bt_has (rq_packages (rg_requires rv)) (br_package r) then Inr ()
      else Inl (ResBodyRefMissing pkg (br_field r) (br_package r))) (rg_refs rv)) x = Inr ()" using c by blast
  from bspec [OF this in_ps] r have "bt_has (rq_packages (rg_requires rv)) (br_package r)"
    by (fastforce simp: each_ok_Inr simp del: bt_has_iff split: if_splits)
  then have "br_package r \<in> set (deps ps p)" by (simp add: deps_def p)
  moreover have "\<forall>x \<in> set ps. (\<lambda>(pkg, rv). each_ok (\<lambda>r. bind_res (ok_or (map_option rg_kind (bt_get ps (br_package r))) (ResPackageNotFound (br_package r)))
      (\<lambda>found. if found \<noteq> ref_kind (br_field r) then Inl (ResKindMismatch pkg (br_field r) (br_package r) (ref_kind (br_field r)) found) else Inr ()))
      (rg_refs rv)) x = Inr ()" using c by blast
  from bspec [OF this in_ps] r have "\<exists>x. bt_get ps (br_package r) = Some x \<and> rg_kind x = ref_kind (br_field r)"
    by (fastforce simp: each_ok_Inr bind_res_eq_Inr split: if_splits)
  ultimately show "br_package r \<in> set (deps ps p) \<and> (\<exists>x. bt_get ps (br_package r) = Some x \<and> rg_kind x = ref_kind (br_field r))" by blast
qed

section \<open>A concrete registry\<close>

definition demo_entry :: "string \<Rightarrow> (string, string) btree \<Rightarrow> registry_version" where
  "demo_entry v ds = \<lparr>rg_version = v, rg_kind = Skill, rg_status = Available,
     rg_requires = \<lparr>rq_capabilities = [], rq_packages = ds\<rparr>, rg_refs = []\<rparr>"

definition demo_registry :: registry where
  "demo_registry = [(''a'', [demo_entry ''1.0.0'' [(''b'', ''^1.0.0''), (''c'', ''*'')]]),
     (''b'', [demo_entry ''1.0.0'' [], demo_entry ''1.2.0'' [], demo_entry ''2.0.0'' []]),
     (''c'', [demo_entry ''1.0.0'' [(''b'', ''<1.2.0'')]]),
     (''d'', [demo_entry ''1.0.0'' [(''e'', ''*'')]]), (''e'', [demo_entry ''1.0.0'' [(''d'', ''*'')]])]"

lemma demo_resolve: "case resolve demo_registry \<lparr>rt_package = ''a'', rt_range = ''*''\<rparr> [] (Some [(''b'', ''2.0.0'')]) of
     Some (Inr res) \<Rightarrow> rs_picks res = [(''a'', ''1.0.0''), (''b'', ''1.0.0''), (''c'', ''1.0.0'')] | _ \<Rightarrow> False"
  by code_simp

lemma demo_cycle: "resolve demo_registry \<lparr>rt_package = ''d'', rt_range = ''*''\<rparr> [] None
    = Some (Inl (ResDependencyCycle [''d'', ''e'', ''d'']))"
  by code_simp

lemma demo_roots: "case resolve_roots demo_registry [(''a'', ''*''), (''b'', ''*'')] [''a''] [(''b'', ''1.0.0'')] [] of
     Some (Inr res) \<Rightarrow> rs_picks res = [(''a'', ''1.0.0''), (''b'', ''1.0.0''), (''c'', ''1.0.0'')] | _ \<Rightarrow> False"
  by code_simp

lemma distinct_singleton_iff: "distinct xs \<Longrightarrow> xs = [p] \<longleftrightarrow> set xs = {p}"
  by (cases xs; cases "tl xs") (auto simp: insert_eq_iff)

lemma direction_cmp:
  "(case version_cmp b a of Less \<Rightarrow> Down | Equal \<Rightarrow> Same | Greater \<Rightarrow> Up) = (if a < b then Up else if a = b then Same else Down)"
  by (auto simp: version_cmp_cmp_of cmp_of_def)

section \<open>Properties\<close>

text \<open>C13. A resolution is a closure: it has the root and every dependency of its picks and nothing that
  the root does not reach, each pick is an available version the host can run, admitted by the
  range of the root and by the range of every pick that depends on it, the dependencies run in no
  cycle, and every body reference names a dependency of the kind it needs. A usable version above a
  pick is refused by a range the root or an entry of the registry asked for.\<close>

theorem resolve_sound:
  assumes "resolve reg rt caps pins = Some (Inr res)"
  shows "\<exists>ps. rs_picks res = map (\<lambda>(p, rv). (p, rg_version rv)) ps
    \<and> closure reg rt caps ps \<and> highest reg rt caps ps \<and> refs_ok ps"
  using resolve_Inr [OF assms] check_refs_ok by metis

lemma resolve_sound_witness:
  "\<exists>res ps. resolve demo_registry \<lparr>rt_package = ''a'', rt_range = ''*''\<rparr> [] (Some [(''b'', ''2.0.0'')]) = Some (Inr res)
     \<and> rs_picks res = [(''a'', ''1.0.0''), (''b'', ''1.0.0''), (''c'', ''1.0.0'')]
     \<and> closure demo_registry \<lparr>rt_package = ''a'', rt_range = ''*''\<rparr> [] ps"
proof -
  obtain res where res: "resolve demo_registry \<lparr>rt_package = ''a'', rt_range = ''*''\<rparr> [] (Some [(''b'', ''2.0.0'')]) = Some (Inr res)"
      "rs_picks res = [(''a'', ''1.0.0''), (''b'', ''1.0.0''), (''c'', ''1.0.0'')]"
    using demo_resolve by (auto split: option.splits sum.splits)
  then show ?thesis using resolve_sound [OF res(1)] by metis
qed

text \<open>C24. Resolution always returns: rounds end because each records a range that was not recorded, and
  there are finitely many to record; the search for a cycle ends because each package is entered
  once. Whatever the registry holds, a result or an error comes back.\<close>

theorem resolve_terminates: "\<exists>res. resolve reg rt caps pins = Some res"
  by (rule resolve_total)

text \<open>A dependency cycle is reported only when there is one: the error names a closed walk along
  dependencies of usable versions, reached from the root.\<close>

theorem resolve_cycle_real:
  assumes "resolve reg rt caps pins = Some (Inl (ResDependencyCycle c))"
  shows "\<exists>ps. closed_walk ps (rt_package rt) c
    \<and> (\<forall>p rv. bt_get ps p = Some rv \<longrightarrow> (\<exists>rvs. bt_get reg p = Some rvs \<and> rv \<in> set rvs \<and> offered caps rv))"
  by (rule resolve_cycle [OF assms])

text \<open>The moves list every package that was pinned or is picked, and nothing else: added when it
  was not pinned, removed when it is not picked, and otherwise up, down or same as the version
  precedence of the two has it.\<close>

theorem moves_exact:
  assumes "resolve reg rt caps (Some pins) = Some (Inr res)"
  shows "\<exists>ms. rs_moves res = Some ms \<and> (\<forall>p. case (bt_get pins p, bt_get (rs_picks res) p) of
      (None, None) \<Rightarrow> bt_get ms p = None
    | (None, Some b) \<Rightarrow> bt_get ms p = Some \<lparr>mv_from = None, mv_to = Some b, mv_direction = Added\<rparr>
    | (Some a, None) \<Rightarrow> bt_get ms p = Some \<lparr>mv_from = Some a, mv_to = None, mv_direction = Removed\<rparr>
    | (Some a, Some b) \<Rightarrow> \<exists>va vb. parse_version a = Inr va \<and> parse_version b = Inr vb
        \<and> bt_get ms p = Some \<lparr>mv_from = Some a, mv_to = Some b,
             mv_direction = (if va < vb then Up else if va = vb then Same else Down)\<rparr>)"
proof -
  obtain ms where ms: "moves_of pins (rs_picks res) = Inr ms" "rs_moves res = Some ms"
    by (rule resolve_Inr [OF assms]) auto
  have "case (bt_get pins p, bt_get (rs_picks res) p) of
      (None, None) \<Rightarrow> bt_get ms p = None
    | (None, Some b) \<Rightarrow> bt_get ms p = Some \<lparr>mv_from = None, mv_to = Some b, mv_direction = Added\<rparr>
    | (Some a, None) \<Rightarrow> bt_get ms p = Some \<lparr>mv_from = Some a, mv_to = None, mv_direction = Removed\<rparr>
    | (Some a, Some b) \<Rightarrow> \<exists>va vb. parse_version a = Inr va \<and> parse_version b = Inr vb
        \<and> bt_get ms p = Some \<lparr>mv_from = Some a, mv_to = Some b,
             mv_direction = (if va < vb then Up else if va = vb then Same else Down)\<rparr>" for p
  proof (cases "bt_get pins p")
    case None
    then show ?thesis using moves_of_Inr [OF ms(1), of p] by (cases "bt_get (rs_picks res) p") (auto simp: direction_of_def)
  next
    case (Some a)
    then obtain d where d: "direction_of p (Some a) (bt_get (rs_picks res) p) = Inr d"
        "bt_get ms p = Some \<lparr>mv_from = Some a, mv_to = bt_get (rs_picks res) p, mv_direction = d\<rparr>"
      using moves_of_Inr(1) [OF ms(1), of p] by auto
    then show ?thesis using Some
      by (cases "bt_get (rs_picks res) p") (auto simp: direction_of_def bind_res_eq_Inr direction_cmp simp del: if_split)
  qed
  then show ?thesis using ms(2) by blast
qed

text \<open>C33. Resolving several roots moves what may move and nothing else. A package that a root outside the
  subjects reaches through the pinned versions keeps its pin exactly; each subject is picked at an
  entry of the registry that its own range admits; and a package that no such root reaches is not
  held back by its pin: a usable version above its pick is refused by the subject's range or by a
  range that an entry of the registry asks for.\<close>

theorem roots_keep_pins:
  assumes "resolve_roots reg rts subjects pins caps = Some (Inr res)" and "bt_inv rts" and "bt_inv pins"
    and "p \<noteq> SYNTHETIC"
  shows "(p \<in> kept_packages reg rts subjects pins \<longrightarrow>
      (\<forall>v w. bt_get pins p = Some v \<and> parse_version v = Inr w \<longrightarrow> bt_get (rs_picks res) p = Some v))
    \<and> (p \<in> set subjects \<longrightarrow> (\<exists>t rvs rv. bt_get rts p = Some t \<and> bt_get reg p = Some rvs \<and> rv \<in> set rvs \<and> offered caps rv
      \<and> bt_get (rs_picks res) p = Some (rg_version rv) \<and> admits t (version_of rv)))
    \<and> (p \<notin> kept_packages reg rts subjects pins \<longrightarrow> (\<forall>x u rvs y. bt_get (rs_picks res) p = Some x \<and> parse_version x = Inr u
      \<and> bt_get reg p = Some rvs \<and> y \<in> set rvs \<and> offered caps y \<and> u < version_of y
      \<longrightarrow> (\<exists>t. \<not> admits t (version_of y) \<and> (p \<in> set subjects \<and> bt_get rts p = Some t \<or> entry_asks reg caps p t))))"
proof -
  from assms(1) obtain ranges ps where r: "synthetic_root_ranges reg rts subjects pins = Inr ranges"
    and c: "closure (bt_insert SYNTHETIC [synthetic_version ranges] reg) \<lparr>rt_package = SYNTHETIC, rt_range = ''*''\<rparr> caps ps"
    and h: "highest (bt_insert SYNTHETIC [synthetic_version ranges] reg) \<lparr>rt_package = SYNTHETIC, rt_range = ''*''\<rparr> caps ps"
    and o: "rs_picks res = bt_remove SYNTHETIC (map (\<lambda>(p, rv). (p, rg_version rv)) ps)"
    by (rule resolve_roots_Inr)
  note ranges = ranges_get [OF r assms(2,3), of p]
  have pick: "bt_get (rs_picks res) p = map_option rg_version (bt_get ps p)"
    using assms(4) by (simp add: o bt_get_remove bt_get_map)
  have parsed: "parse_version (rg_version rv) = Inr (version_of rv) \<and> offered caps rv \<and> (\<exists>rvs. bt_get reg p = Some rvs \<and> rv \<in> set rvs)"
    if "bt_get ps p = Some rv" for rv
    using c assms(4) that by (fastforce simp: closure_def bt_get_insert)
  have "bt_get (rs_picks res) p = Some v"
    if k: "p \<in> kept_packages reg rts subjects pins" "bt_get pins p = Some v" and v: "parse_version v = Inr w" for v w
  proof -
    obtain rv where rv: "bt_get ps p = Some rv" "admits (''='' @ v) (version_of rv)"
      using synthetic_pick [OF c ranges(1) [OF k]] .
    then have "parse_version (rg_version rv) = Inr w" using parsed exact_range [OF v] by simp
    then show ?thesis using v rv(1) by (simp add: pick parse_version_iff)
  qed
  moreover have "\<exists>t rvs rv. bt_get rts p = Some t \<and> bt_get reg p = Some rvs \<and> rv \<in> set rvs \<and> offered caps rv
      \<and> bt_get (rs_picks res) p = Some (rg_version rv) \<and> admits t (version_of rv)" if s: "p \<in> set subjects"
  proof -
    have "find (\<lambda>s. \<not> bt_has rts s) (sort (remdups subjects)) = None"
      using r by (auto simp: synthetic_root_ranges_def split: option.splits)
    then obtain t where t: "bt_get rts p = Some t"
      using s by (auto simp: find_None_iff bt_has_get simp del: bt_has_iff)
    have "bt_get ranges p = Some t" using ranges(2) s t by (simp add: kept_packages_def)
    from synthetic_pick [OF c this] obtain rv where "bt_get ps p = Some rv" "admits t (version_of rv)" .
    then show ?thesis using t parsed by (auto simp: pick)
  qed
  moreover have "\<exists>t. \<not> admits t (version_of y) \<and> (p \<in> set subjects \<and> bt_get rts p = Some t \<or> entry_asks reg caps p t)"
    if k: "p \<notin> kept_packages reg rts subjects pins" and x: "bt_get (rs_picks res) p = Some x" "parse_version x = Inr u"
      and y: "bt_get reg p = Some rvs" "y \<in> set rvs" "offered caps y" "u < version_of y" for x u rvs y
  proof -
    obtain rv where rv: "bt_get ps p = Some rv" "x = rg_version rv" using x(1) by (auto simp: pick)
    then have "version_of rv = u" using x(2) parsed by simp
    then obtain b t where "told_by (bt_insert SYNTHETIC [synthetic_version ranges] reg) caps \<lparr>rt_package = SYNTHETIC, rt_range = ''*''\<rparr> p b t"
        "\<not> admits t (version_of y)"
      using h rv(1) y assms(4) unfolding highest_def by (fastforce simp: bt_get_insert)
    moreover from this(1) have "bt_get ranges p = Some t \<or> entry_asks reg caps p t"
      by (rule told_by_synthetic) (rule assms(4))
    ultimately show ?thesis using ranges(2) [OF k] by (auto split: if_splits)
  qed
  ultimately show ?thesis by blast
qed

lemma roots_keep_pins_witness:
  "\<exists>res. resolve_roots demo_registry [(''a'', ''*''), (''b'', ''*'')] [''a''] [(''b'', ''1.0.0'')] [] = Some (Inr res)
     \<and> ''b'' \<in> kept_packages demo_registry [(''a'', ''*''), (''b'', ''*'')] [''a''] [(''b'', ''1.0.0'')]
     \<and> bt_get (rs_picks res) ''b'' = Some ''1.0.0''"
proof -
  obtain res where res: "resolve_roots demo_registry [(''a'', ''*''), (''b'', ''*'')] [''a''] [(''b'', ''1.0.0'')] [] = Some (Inr res)"
    using demo_roots by (auto split: option.splits sum.splits)
  have k: "''b'' \<in> kept_packages demo_registry [(''a'', ''*''), (''b'', ''*'')] [''a''] [(''b'', ''1.0.0'')]"
    by (auto simp: kept_packages_def)
  have inv: "bt_inv [(''a'', ''*''), (''b'', ''*'')]" "bt_inv [(''b'', ''1.0.0'')]" "''b'' \<noteq> SYNTHETIC"
    by (simp_all add: bt_inv_def SYNTHETIC_def)
  have "is_ok (parse_version ''1.0.0'')" by code_simp
  then obtain w where "parse_version ''1.0.0'' = Inr w" by (auto simp: is_ok_iff)
  moreover have "bt_get [(''b'', ''1.0.0'')] ''b'' = Some ''1.0.0''" by (simp add: bt_get_def)
  ultimately show ?thesis using roots_keep_pins [OF res inv] k res by blast
qed

text \<open>An unnamed provider is chosen exactly when it is the only package that implements the
  contract.\<close>

theorem worker_provider_unique:
  assumes "bt_inv m"
  shows "worker_provider c m = Inr p \<longleftrightarrow> {q. \<exists>ids. bt_get m q = Some ids \<and> c \<in> set ids} = {p}"
proof -
  let ?ps = "map fst (filter (\<lambda>(_, ids). list_ex (\<lambda>i. i = c) ids) m)"
  have s: "set ?ps = {q. \<exists>ids. bt_get m q = Some ids \<and> c \<in> set ids}"
    by (force simp: bt_get_iff [OF assms] list_ex_iff)
  have "distinct (map fst (filter (\<lambda>(_, ids). list_ex (\<lambda>i. i = c) ids) m))"
    using bt_inv_distinct [OF assms] by (rule distinct_map_filter)
  then have "?ps = [p] \<longleftrightarrow> set ?ps = {p}"
    by (rule distinct_singleton_iff)
  then show ?thesis unfolding s [symmetric] worker_provider_def by (auto split: list.split)
qed

end
