(* ===== verification/Bundle.thy ===== *)
theory Bundle
  imports Resolver
begin

text \<open>
  Starter bundles (\<open>crates/entorhinal-catalog/src/bundle.rs\<close>): a container of packages, each with
  its record and initial status, authenticated by a key the offline root certifies. Each package
  keeps a proof from which its status is authenticated again later.
\<close>

section \<open>Data\<close>

definition BUNDLE_DOMAIN :: string where "BUNDLE_DOMAIN = ''ck-starter-bundle/v1''"

datatype bundle_error = BundleDocument refusal | BundleArchive archive_error | BundleMember refusal_code string string

fun be_code :: "bundle_error \<Rightarrow> refusal_code" where
  "be_code (BundleDocument e) = ref_code e"
| "be_code (BundleArchive e) = ae_code e"
| "be_code (BundleMember c _ _) = c"

record bundle_entry =
  en_name :: string
  en_version :: string
  en_archive_sha256 :: string
  en_record :: string
  en_record_member_sha256 :: string
  en_archive :: string

record bundle_document =
  bd_schema :: string
  bd_created :: string
  bd_records :: "bundle_entry list"

record bundle_proof =
  bp_document :: string
  bp_certificate :: string
  bp_signature :: string
  bp_member :: string
  bp_member_bytes :: string

record bundle_package =
  bk_package :: verified_package
  bk_record_signature :: string
  bk_status :: held_status
  bk_status_signature :: string
  bk_archive :: string
  bk_manifest :: string
  bk_proof :: bundle_proof

record verified_bundle =
  vb_document :: bundle_document
  vb_packages :: "bundle_package list"

definition entry_of_json :: "json \<Rightarrow> bundle_entry option" where
  "entry_of_json v = (case struct_view [''name'', ''version'', ''archive_sha256'', ''record'', ''record_member_sha256'', ''archive''] v of
     Some [a, b, c, d, e, f] \<Rightarrow>
       (case (string_value a, string_value b, string_value c, string_value d, string_value e, string_value f) of
          (Some n, Some v', Some s, Some r, Some m, Some ar) \<Rightarrow>
            Some \<lparr>en_name = n, en_version = v', en_archive_sha256 = s, en_record = r, en_record_member_sha256 = m, en_archive = ar\<rparr>
        | _ \<Rightarrow> None)
   | _ \<Rightarrow> None)"

definition document_of_json :: "json \<Rightarrow> bundle_document option" where
  "document_of_json v = (case struct_view [''schema'', ''created'', ''records''] v of
     Some [s, c, r] \<Rightarrow>
       (case (string_value s, string_value c, (case r of Some (JArr a) \<Rightarrow> collect_opt entry_of_json a | _ \<Rightarrow> None)) of
          (Some s', Some c', Some es) \<Rightarrow> Some \<lparr>bd_schema = s', bd_created = c', bd_records = es\<rparr>
        | _ \<Rightarrow> None)
   | _ \<Rightarrow> None)"

definition bundle_json :: "ext \<Rightarrow> string \<Rightarrow> refusal + json" where
  "bundle_json E bs = (if \<not> utf8_valid bs then Inl (record_invalid ''json'')
     else map_err (\<lambda>_. record_invalid ''json'') (parse_signed E bs))"

definition bundle_canonical :: "ext \<Rightarrow> json \<Rightarrow> refusal + string" where
  "bundle_canonical E v = map_err (\<lambda>_. record_invalid ''json'') (to_canonical E v)"

section \<open>The document and its key\<close>

definition entry_path :: "mapped_name \<Rightarrow> string \<Rightarrow> string" where
  "entry_path m v = ''records/'' @ mn_scope m @ ''/'' @ mn_name m @ ''/'' @ v @ ''.json''"

definition check_entry :: "ext \<Rightarrow> (string \<times> string) list \<Rightarrow> bundle_entry \<Rightarrow> refusal + unit" where
  "check_entry E seen e =
    bind_res (map_err (\<lambda>_. record_invalid ''name'') (map_name E (en_name e))) (\<lambda>m.
      if mn_canonical m \<noteq> en_name e \<or> mn_scope m \<noteq> ''cortexkit'' \<or> \<not> is_ok (parse_version (en_version e))
         \<or> \<not> is_hex (en_archive_sha256 e) 64 \<or> \<not> is_hex (en_record_member_sha256 e) 64
         \<or> (en_name e, en_version e) \<in> set seen
      then Inl (record_invalid ''records'')
      else if en_record e \<noteq> entry_path m (en_version e) then Inl (record_invalid ''record'')
      else bind_res (map_err (\<lambda>_. record_invalid ''record'') (check_path (en_record e))) (\<lambda>_.
        refuse_unless (en_archive e = ''archives/'' @ en_archive_sha256 e @ ''.tar'') (record_mismatch ''archive_sha256'')))"

fun check_entries :: "ext \<Rightarrow> (string \<times> string) list \<Rightarrow> bundle_entry list \<Rightarrow> refusal + unit" where
  "check_entries E seen [] = Inr ()"
| "check_entries E seen (e # es) =
     bind_res (check_entry E seen e) (\<lambda>_. check_entries E ((en_name e, en_version e) # seen) es)"

definition authenticate :: "ext \<Rightarrow> string \<Rightarrow> string \<Rightarrow> string \<Rightarrow> string \<Rightarrow> refusal + (bundle_document \<times> scope_key)" where
  "authenticate E doc cert sig root_key =
    bind_res (bundle_json E doc) (\<lambda>v.
    bind_res (ok_or (document_of_json v) (record_invalid ''bundle.json'')) (\<lambda>d.
      if bd_schema d \<noteq> BUNDLE_DOMAIN \<or> \<not> is_time (bd_created d) then Inl (record_invalid ''bundle.json'')
      else bind_res (bundle_json E cert) (\<lambda>c.
        bind_res (bundle_canonical E (jidx c ''statement'')) (\<lambda>st.
        bind_res (verify_key_cert E st (case as_str (jidx c ''signature'') of Some s \<Rightarrow> s | None \<Rightarrow> []) root_key) (\<lambda>key.
          if \<not> window_covers (kc_valid_from key) (kc_valid_until key) (bd_created d) then Inl (refusal_new KeyNotValid)
          else bind_res (bundle_canonical E v) (\<lambda>text.
            if \<not> verify_signature E (kc_public_key key) BUNDLE_DOMAIN text sig then Inl (refusal_new SignatureInvalid)
            else bind_res (check_entries E [] (bd_records d)) (\<lambda>_.
              Inr (d, \<lparr>ky_public_key = kc_public_key key, ky_valid_from = kc_valid_from key,
                ky_valid_until = kc_valid_until key, ky_revocation = None\<rparr>))))))))"

section \<open>One record member\<close>

record bundle_metadata =
  md_record :: string
  md_record_signature :: string
  md_status :: held_status
  md_status_signature :: string

definition check_member :: "ext \<Rightarrow> bundle_entry \<Rightarrow> string \<Rightarrow> bundle_error + unit" where
  "check_member E e bs = (if sha256_hex E bs \<noteq> en_record_member_sha256 e
     then Inl (BundleMember RecordMismatch ''record_member_sha256'' (en_record e)) else Inr ())"

definition envelope_signature :: "json \<Rightarrow> string \<Rightarrow> string option" where
  "envelope_signature v k = (case as_str (jidx (jidx v k) ''signature'') of None \<Rightarrow> None | Some s \<Rightarrow>
     if as_object (jidx (jidx v k) ''record'') \<noteq> None then Some s else None)"

definition agree :: "ext \<Rightarrow> bundle_entry \<Rightarrow> pkg_record \<Rightarrow> status_record \<Rightarrow> refusal + unit" where
  "agree E e r s =
    (if pr_name r \<noteq> en_name e \<or> sr_name s \<noteq> en_name e then Inl (record_mismatch ''name'')
     else if pr_version r \<noteq> en_version e \<or> sr_version s \<noteq> en_version e then Inl (record_mismatch ''version'')
     else if pr_archive_sha256 r \<noteq> en_archive_sha256 e \<or> sr_archive_sha256 s \<noteq> en_archive_sha256 e
     then Inl (record_mismatch ''archive_sha256'')
     else refuse_unless (Some (sr_publisher_key s) = key_fingerprint E (pr_public_key r)) (record_mismatch ''publisher_key''))"

definition entry_trust :: "scope_key \<Rightarrow> held_status \<Rightarrow> trust" where
  "entry_trust key h = \<lparr>tr_keys = [key], tr_published_at = Some (sr_published_at (h_record h))\<rparr>"

definition envelopes :: "ext \<Rightarrow> bundle_entry \<Rightarrow> json \<Rightarrow> scope_key \<Rightarrow> refusal + bundle_metadata" where
  "envelopes E e v key =
    bind_res (ok_or (envelope_signature v ''record'') (record_invalid ''record'')) (\<lambda>rsig.
    bind_res (ok_or (envelope_signature v ''status'') (refusal_at StatusInvalid ''status'')) (\<lambda>ssig.
    bind_res (bundle_canonical E (jidx (jidx v ''status'') ''record'')) (\<lambda>stext.
    bind_res (from_bundle E stext) (\<lambda>held.
    bind_res (bundle_canonical E (jidx (jidx v ''record'') ''record'')) (\<lambda>text.
    bind_res (verify_record_trust E text rsig (entry_trust key held)) (\<lambda>r.
    bind_res (agree E e r (h_record held)) (\<lambda>_.
      Inr \<lparr>md_record = text, md_record_signature = rsig, md_status = held, md_status_signature = ssig\<rparr>)))))))"

definition metadata :: "ext \<Rightarrow> bundle_entry \<Rightarrow> string \<Rightarrow> scope_key \<Rightarrow> bundle_error + bundle_metadata" where
  "metadata E e bs key =
    bind_res (check_member E e bs) (\<lambda>_. map_err BundleDocument (bind_res (bundle_json E bs) (\<lambda>v. envelopes E e v key)))"

definition proof_verify :: "ext \<Rightarrow> bundle_proof \<Rightarrow> string \<Rightarrow> bundle_error + held_status" where
  "proof_verify E p root_key =
    bind_res (map_err BundleDocument (authenticate E (bp_document p) (bp_certificate p) (bp_signature p) root_key)) (\<lambda>(d, key).
    bind_res (ok_or (find (\<lambda>e. en_record e = bp_member p) (bd_records d)) (BundleDocument (record_invalid ''record''))) (\<lambda>e.
    bind_res (metadata E e (bp_member_bytes p) key) (\<lambda>m. Inr (md_status m))))"

section \<open>The whole bundle\<close>

definition utf8_or_invalid :: "string \<Rightarrow> bundle_error + string" where
  "utf8_or_invalid bs = (if utf8_valid bs then Inr bs else Inl (BundleDocument (record_invalid ''json'')))"

definition member_bytes :: "members \<Rightarrow> string \<Rightarrow> bundle_error + string" where
  "member_bytes ms path = map_err BundleDocument (ok_or (map_option rm_bytes (bt_get ms path)) (record_invalid path))"

definition verify_entry :: "ext \<Rightarrow> members \<Rightarrow> string \<Rightarrow> string \<Rightarrow> string \<Rightarrow> scope_key \<Rightarrow> bundle_entry
    \<Rightarrow> bundle_error + bundle_package" where
  "verify_entry E ms doc cert sig key e =
    bind_res (member_bytes ms (en_record e)) (\<lambda>bs.
    bind_res (check_member E e bs) (\<lambda>_.
    bind_res (map_err BundleDocument (ok_or (map_option rm_bytes (bt_get ms (en_archive e))) (record_mismatch ''archive_sha256''))) (\<lambda>ab.
      if sha256_hex E ab \<noteq> en_archive_sha256 e then Inl (BundleDocument (record_mismatch ''archive_sha256''))
      else bind_res (metadata E e bs key) (\<lambda>md.
      bind_res (map_err BundleArchive (read_archive ab)) (\<lambda>contents.
      bind_res (map_err BundleDocument (ok_or (bt_get contents ''ck.json'') (record_invalid ''ck.json''))) (\<lambda>manifest.
      bind_res (map_err BundleDocument (verify_record E (md_record md) (md_record_signature md) manifest ab
          (entry_trust key (md_status md)))) (\<lambda>package.
      bind_res (utf8_or_invalid doc) (\<lambda>doc'.
      bind_res (utf8_or_invalid cert) (\<lambda>cert'.
      bind_res (utf8_or_invalid bs) (\<lambda>bs'.
        Inr \<lparr>bk_package = package, bk_record_signature = md_record_signature md, bk_status = md_status md,
          bk_status_signature = md_status_signature md, bk_archive = ab, bk_manifest = manifest,
          bk_proof = \<lparr>bp_document = doc', bp_certificate = cert', bp_signature = sig, bp_member = en_record e,
            bp_member_bytes = bs'\<rparr>\<rparr>))))))))))"

definition expected_members :: "bundle_document \<Rightarrow> string list" where
  "expected_members d = [''bundle.json'', ''bundle.cert.json'', ''bundle.sig''] @ concat (map (\<lambda>e. [en_record e, en_archive e]) (bd_records d))"

text \<open>\<open>min_by_key\<close> of the offset: the first of the least.\<close>

fun first_member :: "members \<Rightarrow> (string \<times> read_member) option" where
  "first_member [] = None"
| "first_member (x # xs) = (case first_member xs of None \<Rightarrow> Some x
     | Some y \<Rightarrow> if rm_offset (snd y) < rm_offset (snd x) then Some y else Some x)"

definition verify_bundle :: "ext \<Rightarrow> string \<Rightarrow> string \<Rightarrow> bundle_error + verified_bundle" where
  "verify_bundle E bs root_key =
    bind_res (map_err BundleArchive (read_members bs)) (\<lambda>ms.
    bind_res (member_bytes ms ''bundle.json'') (\<lambda>doc.
    bind_res (map_err BundleDocument (ok_or (map_option rm_bytes (bt_get ms ''bundle.cert.json'')) (refusal_new KeyUnknown))) (\<lambda>cert.
      let sig = (case bt_get ms ''bundle.sig'' of None \<Rightarrow> [] | Some m \<Rightarrow> if utf8_valid (rm_bytes m) then rm_bytes m else []) in
      bind_res (map_err BundleDocument (authenticate E doc cert sig root_key)) (\<lambda>(d, key).
      bind_res (map_res (verify_entry E ms doc cert sig key) (bd_records d)) (\<lambda>ps.
        case first_member (filter (\<lambda>p. fst p \<notin> set (expected_members d)) ms) of
          Some (path, m) \<Rightarrow> Inl (BundleArchive \<lparr>ae_code = ArchiveInvalid, ae_rule = Some MemberUnlisted,
            ae_offset = Some (rm_offset m), ae_member = Some path, ae_typeflag = None\<rparr>)
        | None \<Rightarrow> Inr \<lparr>vb_document = d, vb_packages = ps\<rparr>)))))"

section \<open>What an accepted bundle shows\<close>

definition entry_ok :: "ext \<Rightarrow> bundle_entry \<Rightarrow> bool" where
  "entry_ok E e \<longleftrightarrow> (\<exists>m. map_name E (en_name e) = Inr m \<and> mn_canonical m = en_name e \<and> mn_scope m = ''cortexkit''
     \<and> is_ok (parse_version (en_version e)) \<and> en_record e = entry_path m (en_version e) \<and> check_path (en_record e) = Inr ()
     \<and> en_archive e = ''archives/'' @ en_archive_sha256 e @ ''.tar'')"

lemma check_entry_Inr: "check_entry E seen e = Inr () \<Longrightarrow> entry_ok E e \<and> (en_name e, en_version e) \<notin> set seen"
  by (auto simp: check_entry_def entry_ok_def bind_res_eq_Inr refuse_unless_def split: if_splits)

lemma check_entries_Inr:
  "check_entries E seen es = Inr () \<Longrightarrow> (\<forall>e \<in> set es. entry_ok E e) \<and> distinct (map (\<lambda>e. (en_name e, en_version e)) es)
     \<and> set seen \<inter> (\<lambda>e. (en_name e, en_version e)) ` set es = {}"
proof (induction es arbitrary: seen)
  case (Cons e es)
  have e: "check_entry E seen e = Inr ()" and es: "check_entries E ((en_name e, en_version e) # seen) es = Inr ()"
    using Cons.prems by (auto simp: bind_res_eq_Inr)
  show ?case using check_entry_Inr [OF e] Cons.IH [OF es] by auto
qed simp

lemma entry_path_inj:
  assumes "entry_ok E e" and "entry_ok E e'" and "en_record e = en_record e'"
  shows "en_name e = en_name e' \<and> en_version e = en_version e'"
proof -
  obtain m where m: "map_name E (en_name e) = Inr m" "mn_canonical m = en_name e" "mn_scope m = ''cortexkit''"
      "en_record e = entry_path m (en_version e)" using assms(1) by (auto simp: entry_ok_def)
  obtain m' where m': "map_name E (en_name e') = Inr m'" "mn_canonical m' = en_name e'" "mn_scope m' = ''cortexkit''"
      "en_record e' = entry_path m' (en_version e')" using assms(2) by (auto simp: entry_ok_def)
  have n: "CHR ''/'' \<notin> set (mn_name x) \<and> mn_canonical x = spelled (mn_scope x) (mn_name x)" if "map_name E s = Inr x" for s x
    using that part_excludes by (auto simp: map_name_Inr_iff mapped_def name_ok_def)
  have "mn_name m @ CHR ''/'' # en_version e @ ''.json'' = mn_name m' @ CHR ''/'' # en_version e' @ ''.json''"
    using assms(3) m(3,4) m'(3,4) by (simp add: entry_path_def)
  from append_sep_unique [OF this] have "mn_name m = mn_name m' \<and> en_version e = en_version e'"
    using n [OF m(1)] n [OF m'(1)] by simp
  then show ?thesis using n [OF m(1)] n [OF m'(1)] m m' by metis
qed

lemma find_entry:
  assumes "check_entries E [] es = Inr ()" and "e \<in> set es"
  shows "find (\<lambda>x. en_record x = en_record e) es = Some e"
proof -
  note c = check_entries_Inr [OF assms(1)]
  have "x = e" if "x \<in> set es" "en_record x = en_record e" for x
  proof -
    have "(en_name x, en_version x) = (en_name e, en_version e)"
      using entry_path_inj [of E x e] c that assms(2) by simp
    then show ?thesis using c that(1) assms(2) by (auto simp: distinct_map inj_on_def)
  qed
  then show ?thesis using assms(2) find_None_iff [of "\<lambda>x. en_record x = en_record e" es] find_Some
    by (metis (mono_tags, lifting) not_None_eq)
qed

text \<open>The document is signed by a key that the root certifies for its time.\<close>

definition rooted :: "ext \<Rightarrow> string \<Rightarrow> string \<Rightarrow> string \<Rightarrow> string \<Rightarrow> bundle_document \<Rightarrow> scope_key \<Rightarrow> bool" where
  "rooted E root_key doc cert sig d key \<longleftrightarrow> (\<exists>v c st s kc text. bundle_json E doc = Inr v \<and> document_of_json v = Some d
     \<and> bundle_json E cert = Inr c \<and> to_canonical E (jidx c ''statement'') = Inr st \<and> verify_key_cert E st s root_key = Inr kc
     \<and> key = \<lparr>ky_public_key = kc_public_key kc, ky_valid_from = kc_valid_from kc, ky_valid_until = kc_valid_until kc, ky_revocation = None\<rparr>
     \<and> covers key (bd_created d) \<and> to_canonical E v = Inr text \<and> verify_signature E (ky_public_key key) BUNDLE_DOMAIN text sig)"

lemma authenticate_Inr:
  assumes "authenticate E doc cert sig root_key = Inr (d, key)"
  shows "rooted E root_key doc cert sig d key" and "check_entries E [] (bd_records d) = Inr ()"
proof -
  note a = assms [unfolded authenticate_def bind_res_eq_Inr if_Inl_eq_Inr ok_or_eq_Inr bundle_canonical_def map_err_eq_Inr]
  show "check_entries E [] (bd_records d) = Inr ()" using a by auto
  show "rooted E root_key doc cert sig d key" using a unfolding rooted_def covers_def by auto blast
qed

lemma trust_same_record:
  assumes "verify_record_trust E text sig tr = Inr r" and "verify_record E text sig mb ab tr = Inr p"
  shows "pr_name (vp_record p) = pr_name r \<and> pr_version (vp_record p) = pr_version r
    \<and> pr_archive_sha256 (vp_record p) = pr_archive_sha256 r \<and> pr_public_key (vp_record p) = pr_public_key r"
proof -
  obtain v len i where t: "trusted_record E text sig tr = Inr (v, vp_canonical_record p, len, i)"
      and rec: "record_of_json (with_numbers v len) = Some (vp_record p)"
    using verify_record_Inr [OF assms(2)] by metis
  then have r: "record_of_json (jset v ''archive_bytes'' (JNum (PosInt len))) = Some r"
    using assms(1) by (simp add: verify_record_trust_def)
  obtain m where m: "v = JObj m" using trusted_record_Inr [OF t] by metis
  note a = record_of_json_Some [OF rec] and b = record_of_json_Some [OF r]
  show ?thesis using a(2,3,5,7) b(2,3,5,7) by (simp add: with_numbers_jidx [OF refl] m jidx_jset)
qed

lemma agree_Inr: "agree E e r s = Inr () \<longleftrightarrow> pr_name r = en_name e \<and> sr_name s = en_name e \<and> pr_version r = en_version e
    \<and> sr_version s = en_version e \<and> pr_archive_sha256 r = en_archive_sha256 e \<and> sr_archive_sha256 s = en_archive_sha256 e
    \<and> Some (sr_publisher_key s) = key_fingerprint E (pr_public_key r)"
  by (auto simp: agree_def refuse_unless_def)

definition package_of :: "ext \<Rightarrow> members \<Rightarrow> scope_key \<Rightarrow> bundle_entry \<Rightarrow> bundle_package \<Rightarrow> bool" where
  "package_of E ms key e p \<longleftrightarrow> map_option rm_bytes (bt_get ms (en_archive e)) = Some (bk_archive p)
     \<and> sha256_hex E (bk_archive p) = en_archive_sha256 e
     \<and> (\<exists>text. verify_record E text (bk_record_signature p) (bk_manifest p) (bk_archive p) (entry_trust key (bk_status p)) = Inr (bk_package p))
     \<and> pr_name (vp_record (bk_package p)) = en_name e \<and> pr_version (vp_record (bk_package p)) = en_version e
     \<and> h_bundle_attested (bk_status p) \<and> sr_name (h_record (bk_status p)) = en_name e
     \<and> sr_version (h_record (bk_status p)) = en_version e \<and> sr_archive_sha256 (h_record (bk_status p)) = en_archive_sha256 e
     \<and> Some (sr_publisher_key (h_record (bk_status p))) = key_fingerprint E (pr_public_key (vp_record (bk_package p)))"

lemma metadata_Inr:
  assumes "metadata E e bs key = Inr md"
  obtains r where "verify_record_trust E (md_record md) (md_record_signature md) (entry_trust key (md_status md)) = Inr r"
    "agree E e r (h_record (md_status md)) = Inr ()" "h_bundle_attested (md_status md)"
proof -
  have "\<exists>r. verify_record_trust E (md_record md) (md_record_signature md) (entry_trust key (md_status md)) = Inr r
      \<and> agree E e r (h_record (md_status md)) = Inr () \<and> h_bundle_attested (md_status md)"
    using assms by (auto simp: metadata_def envelopes_def bind_res_eq_Inr from_bundle_def)
  then show thesis using that by blast
qed

lemma verify_entry_Inr:
  assumes "verify_entry E ms doc cert sig key e = Inr p"
  shows "package_of E ms key e p" and "\<exists>m. bt_get ms (en_record e) = Some m"
    and "\<exists>md. metadata E e (bp_member_bytes (bk_proof p)) key = Inr md \<and> md_status md = bk_status p"
    and "bp_document (bk_proof p) = doc" "bp_certificate (bk_proof p) = cert" "bp_signature (bk_proof p) = sig"
      "bp_member (bk_proof p) = en_record e"
proof -
  have u: "utf8_or_invalid x = Inr y \<longleftrightarrow> utf8_valid x \<and> y = x" for x y by (auto simp: utf8_or_invalid_def)
  have "\<exists>bs ab md manifest package. map_option rm_bytes (bt_get ms (en_record e)) = Some bs
      \<and> map_option rm_bytes (bt_get ms (en_archive e)) = Some ab \<and> sha256_hex E ab = en_archive_sha256 e
      \<and> metadata E e bs key = Inr md
      \<and> verify_record E (md_record md) (md_record_signature md) manifest ab (entry_trust key (md_status md)) = Inr package
      \<and> p = \<lparr>bk_package = package, bk_record_signature = md_record_signature md, bk_status = md_status md,
          bk_status_signature = md_status_signature md, bk_archive = ab, bk_manifest = manifest,
          bk_proof = \<lparr>bp_document = doc, bp_certificate = cert, bp_signature = sig, bp_member = en_record e,
            bp_member_bytes = bs\<rparr>\<rparr>"
    using assms unfolding verify_entry_def member_bytes_def bind_res_eq_Inr map_err_eq_Inr ok_or_eq_Inr if_Inl_eq_Inr u by blast
  then obtain bs ab md manifest package where h: "map_option rm_bytes (bt_get ms (en_record e)) = Some bs"
      "map_option rm_bytes (bt_get ms (en_archive e)) = Some ab" "sha256_hex E ab = en_archive_sha256 e"
      "metadata E e bs key = Inr md"
      "verify_record E (md_record md) (md_record_signature md) manifest ab (entry_trust key (md_status md)) = Inr package"
    and p: "p = \<lparr>bk_package = package, bk_record_signature = md_record_signature md, bk_status = md_status md,
          bk_status_signature = md_status_signature md, bk_archive = ab, bk_manifest = manifest,
          bk_proof = \<lparr>bp_document = doc, bp_certificate = cert, bp_signature = sig, bp_member = en_record e,
            bp_member_bytes = bs\<rparr>\<rparr>" by (elim exE conjE) (rule that; assumption)
  obtain r where r: "verify_record_trust E (md_record md) (md_record_signature md) (entry_trust key (md_status md)) = Inr r"
    "agree E e r (h_record (md_status md)) = Inr ()" "h_bundle_attested (md_status md)"
    using metadata_Inr [OF h(4)] .
  show "package_of E ms key e p" unfolding package_of_def p bundle_package.simps
    using h(2,3,5) r(3) r(2) [unfolded agree_Inr] trust_same_record [OF r(1) h(5)]
    by (intro conjI exI [of _ "md_record md"]) simp_all
  show "\<exists>m. bt_get ms (en_record e) = Some m" using h(1) by auto
  show "\<exists>md. metadata E e (bp_member_bytes (bk_proof p)) key = Inr md \<and> md_status md = bk_status p" using h(4) by (simp add: p)
  show "bp_document (bk_proof p) = doc" "bp_certificate (bk_proof p) = cert" "bp_signature (bk_proof p) = sig"
      "bp_member (bk_proof p) = en_record e" by (simp_all add: p)
qed

lemma verify_entry_members:
  assumes "verify_entry E ms doc cert sig key e = Inr p"
  shows "bt_get ms (en_record e) \<noteq> None" "bt_get ms (en_archive e) \<noteq> None"
  using verify_entry_Inr(1,2) [OF assms] by (auto simp: package_of_def)

lemma first_member_None: "first_member xs = None \<longleftrightarrow> xs = []"
  by (cases xs) (auto split: option.splits)

lemma signature_not_empty: "verify_signature E k d text [] \<Longrightarrow> False"
  by (auto simp: verify_signature_def decode_hex_def is_hex_def split: option.splits)

lemma case_member_Inr: "(case x of None \<Rightarrow> Inr y | Some (p, m) \<Rightarrow> Inl (e p m)) = Inr b \<longleftrightarrow> x = None \<and> b = y"
  by (auto split: option.splits)

lemma list_all2_left: "list_all2 P xs ys \<Longrightarrow> x \<in> set xs \<Longrightarrow> \<exists>y \<in> set ys. P x y"
  by (induction rule: list_all2_induct) auto

lemma verify_bundle_Inr:
  assumes "verify_bundle E bs root_key = Inr b"
  obtains ms doc cert sig key where "read_members bs = Inr ms" "authenticate E doc cert sig root_key = Inr (vb_document b, key)"
    "list_all2 (\<lambda>e p. verify_entry E ms doc cert sig key e = Inr p) (bd_records (vb_document b)) (vb_packages b)"
    "map_option rm_bytes (bt_get ms ''bundle.json'') = Some doc" "fst ` set ms = set (expected_members (vb_document b))"
proof -
  let ?sig = "\<lambda>ms. case bt_get ms ''bundle.sig'' of None \<Rightarrow> [] | Some m \<Rightarrow> if utf8_valid (rm_bytes m) then rm_bytes m else []"
  obtain ms doc cert key d ps where ms: "read_members bs = Inr ms" and doc: "map_option rm_bytes (bt_get ms ''bundle.json'') = Some doc"
    and cert: "map_option rm_bytes (bt_get ms ''bundle.cert.json'') = Some cert"
    and au: "authenticate E doc cert (?sig ms) root_key = Inr (d, key)"
    and ps: "map_res (verify_entry E ms doc cert (?sig ms) key) (bd_records d) = Inr ps"
    and rest: "first_member (filter (\<lambda>p. fst p \<notin> set (expected_members d)) ms) = None" "b = \<lparr>vb_document = d, vb_packages = ps\<rparr>"
    using assms unfolding verify_bundle_def member_bytes_def bind_res_eq_Inr Let_def map_err_eq_Inr ok_or_eq_Inr case_prod_beta case_member_Inr
    by (elim exE conjE) (rule that; simp)
  have l: "list_all2 (\<lambda>e p. verify_entry E ms doc cert (?sig ms) key e = Inr p) (bd_records d) ps"
    using ps by (simp add: map_res_Inr)
  have "verify_signature E (ky_public_key key) BUNDLE_DOMAIN t [] \<Longrightarrow> False" for t by (rule signature_not_empty)
  then have "?sig ms \<noteq> []" using authenticate_Inr(1) [OF au] unfolding rooted_def by metis
  then have "bt_get ms ''bundle.sig'' \<noteq> None" by (auto split: option.splits)
  moreover have "bt_get ms x \<noteq> None" if "e \<in> set (bd_records d)" "x \<in> {en_record e, en_archive e}" for e x
  proof -
    have "\<exists>p. verify_entry E ms doc cert (?sig ms) key e = Inr p" using list_all2_left [OF l that(1)] by blast
    then have "bt_get ms (en_record e) \<noteq> None \<and> bt_get ms (en_archive e) \<noteq> None"
      by (elim exE) (use verify_entry_members in blast)
    then show ?thesis using that(2) by auto
  qed
  moreover have "bt_get ms ''bundle.json'' \<noteq> None" "bt_get ms ''bundle.cert.json'' \<noteq> None" using doc cert by auto
  ultimately have "set (expected_members d) \<subseteq> fst ` set ms"
    unfolding bt_get_None not_not by (auto simp: expected_members_def)
  moreover have "fst ` set ms \<subseteq> set (expected_members d)"
    using rest(1) by (auto simp: first_member_None filter_empty_conv)
  ultimately show thesis using that [of ms doc cert "?sig ms" key] ms au l doc rest(2) by simp
qed

section \<open>A concrete bundle\<close>

text \<open>One package without files. The parser of the witness knows the unsigned documents by one
  letter, and the three canonical texts that are signed by the letter that tells them apart.\<close>

definition bd_record_raw :: raw where
  "bd_record_raw = RMap [(''schema'', RStr ''ck-record/v1''), (''name'', RStr ''@cortexkit/notes''), (''version'', RStr ''1.0.0''),
     (''manifest_sha256'', RStr demo_zeros), (''archive_sha256'', RStr demo_zeros), (''archive_bytes'', RU64 2048),
     (''public_key'', RStr (replicate 64 CHR ''c'')), (''log_head'', RNull)]"

definition bd_status_raw :: raw where
  "bd_status_raw = RMap
    [(''schema'', RStr ''ck-status/v1''), (''registry_key_id'', RStr ''key-1''), (''name'', RStr ''@cortexkit/notes''),
     (''version'', RStr ''1.0.0''), (''archive_sha256'', RStr demo_zeros), (''publisher_key'', RStr demo_zeros),
     (''sequence'', RU64 1), (''state'', RStr ''available''), (''reason'', RNull), (''compromise_from'', RNull),
     (''published_at'', RStr ''2024-01-01T00:00:00Z''), (''changed_at'', RStr ''2024-01-01T00:00:00Z'')]"

definition bd_cert_raw :: raw where
  "bd_cert_raw = RMap [(''schema'', RStr ''ck-key-cert/v1''), (''scope'', RStr ''cortexkit''), (''public_key'', RStr (replicate 64 CHR ''c'')),
     (''valid_from'', RStr ''2023-01-01T00:00:00Z''), (''valid_until'', RNull)]"

definition bd_manifest_raw :: raw where
  "bd_manifest_raw = RMap [(''schema'', RStr ''ck-package/v1''), (''name'', RStr ''@cortexkit/notes''), (''version'', RStr ''1.0.0''),
     (''kind'', RStr ''memory-profile''), (''summary'', RStr ''Notes''), (''license'', RStr ''MIT''), (''source'', RStr ''https:x''),
     (''requires'', RMap [(''capabilities'', RSeq []), (''packages'', RMap [])]), (''files'', RSeq []), (''body'', RMap [])]"

definition bd_document_raw :: raw where
  "bd_document_raw = RMap [(''schema'', RStr BUNDLE_DOMAIN), (''created'', RStr ''2024-01-02T00:00:00Z''),
     (''records'', RSeq [RMap [(''name'', RStr ''@cortexkit/notes''), (''version'', RStr ''1.0.0''), (''archive_sha256'', RStr demo_zeros),
        (''record'', RStr ''records/cortexkit/notes/1.0.0.json''), (''record_member_sha256'', RStr demo_zeros),
        (''archive'', RStr (''archives/'' @ demo_zeros @ ''.tar''))]])]"

definition bd_envelope :: "raw \<Rightarrow> raw" where
  "bd_envelope r = RMap [(''record'', r), (''signature'', RStr demo_sig)]"

definition demo_letters :: "(char \<times> raw) list" where
  "demo_letters = [(CHR ''d'', bd_document_raw), (CHR ''c'', RMap [(''statement'', bd_cert_raw), (''signature'', RStr demo_sig)]),
     (CHR ''m'', RMap [(''record'', bd_envelope bd_record_raw), (''status'', bd_envelope bd_status_raw)]), (CHR ''q'', bd_manifest_raw)]"

definition demo_parse :: "string \<Rightarrow> raw option" where
  "demo_parse t = (case t of [c] \<Rightarrow> map_of demo_letters c
     | _ \<Rightarrow> (case drop 10 t of [] \<Rightarrow> None
         | c # _ \<Rightarrow> map_of [(CHR ''e'', bd_cert_raw), (CHR ''s'', bd_status_raw), (CHR ''b'', bd_record_raw)] c))"

definition demo_bundle_ext :: ext where
  "demo_bundle_ext = zero_ext\<lparr>x_parse := demo_parse, x_quote := \<lambda>s. CHR 0x22 # s @ [CHR 0x22]\<rparr>"

definition demo_root :: string where "demo_root = replicate 64 CHR ''f''"

definition demo_bundle_entry :: bundle_entry where
  "demo_bundle_entry = \<lparr>en_name = ''@cortexkit/notes'', en_version = ''1.0.0'', en_archive_sha256 = demo_zeros,
     en_record = ''records/cortexkit/notes/1.0.0.json'', en_record_member_sha256 = demo_zeros,
     en_archive = ''archives/'' @ demo_zeros @ ''.tar''\<rparr>"

definition demo_key :: scope_key where
  "demo_key = \<lparr>ky_public_key = replicate 64 CHR ''c'', ky_valid_from = ''2023-01-01T00:00:00Z'', ky_valid_until = None,
     ky_revocation = None\<rparr>"

lemma demo_authenticate: "case authenticate demo_bundle_ext ''d'' ''c'' demo_sig demo_root of Inl _ \<Rightarrow> False
   | Inr (d, key) \<Rightarrow> bd_records d = [demo_bundle_entry] \<and> key = demo_key"
  by code_simp

lemma demo_entry: "case metadata demo_bundle_ext demo_bundle_entry ''m'' demo_key of Inl _ \<Rightarrow> False | Inr md \<Rightarrow>
      (case trusted_record demo_bundle_ext (md_record md) (md_record_signature md) (entry_trust demo_key (md_status md)) of Inl _ \<Rightarrow> False
       | Inr (r, c, len, i) \<Rightarrow> jidx r ''manifest_sha256'' = JStr demo_zeros \<and> jidx r ''archive_sha256'' = JStr demo_zeros \<and> len = 2048
          \<and> is_ok (verify_members demo_bundle_ext r c len i ''q'' [(''ck.json'', ''q'')]))"
  by code_simp

definition demo_bundle_members :: "string \<Rightarrow> member list" where
  "demo_bundle_members a = [regular ''bundle.json'' ''d'', regular ''bundle.cert.json'' ''c'', regular ''bundle.sig'' demo_sig,
     regular ''records/cortexkit/notes/1.0.0.json'' ''m'', regular (''archives/'' @ demo_zeros @ ''.tar'') a]"

lemma demo_inner: obtains a where "read_archive a = Inr [(''ck.json'', ''q'')]" "length a = 2048"
proof -
  have c: "check_members [] [] 1024 [regular ''ck.json'' ''q''] = Inr ([''ck.json''], 2048)" by code_simp
  then have m: "\<forall>m \<in> set [regular ''ck.json'' ''q'']. member_ok m" using check_members_Inr [OF c] by blast
  then have "write_members [] [regular ''ck.json'' ''q''] = Inr (concat (map block [regular ''ck.json'' ''q'']))"
    using write_members_blocks [of "[]" "[regular ''ck.json'' ''q'']"] by simp
  then obtain a where a: "write_archive [regular ''ck.json'' ''q''] = Inr a"
    using c by (auto simp: write_archive_def) (auto simp: regular_def MAX_MEMBERS_def)
  have "length a = 2048" using write_archive_Inr(5) [OF a] m by (simp add: length_block regular_def rounded_def zeros_def)
  moreover have "read_archive a = Inr [(''ck.json'', ''q'')]" using write_read [OF a] by (simp add: bt_of_list_def regular_def)
  ultimately show thesis using that by blast
qed

lemma demo_paths: "list_all (\<lambda>m. is_ok (check_path (mb_path m)) \<and> mb_path m \<noteq> ''ck.json'') (demo_bundle_members [])
    \<and> distinct (map (\<lambda>m. to_lower (mb_path m)) (demo_bundle_members []))"
  by code_simp

lemma demo_outer:
  assumes "length a = 2048"
  obtains bs ms where "read_members bs = Inr ms" "map (\<lambda>(p, m). (p, rm_bytes m)) ms = bt_of_list (map (\<lambda>m. (mb_path m, mb_bytes m)) (demo_bundle_members a))"
proof -
  let ?l = "demo_bundle_members a"
  let ?a = "concat (map block ?l) @ zeros 1024"
  have p: "map mb_path ?l = map mb_path (demo_bundle_members [])" by (simp add: demo_bundle_members_def regular_def)
  have "\<forall>m \<in> set ?l. length (mb_bytes m) \<le> 2048" using assms
    by (simp add: demo_bundle_members_def regular_def demo_sig_def)
  moreover have "\<forall>q \<in> set (map mb_path ?l). check_path q = Inr () \<and> q \<noteq> ''ck.json''"
    unfolding p using demo_paths by (auto simp: list_all_iff is_ok_unit)
  ultimately have ok: "\<forall>m \<in> set ?l. member_ok m" by (force simp: member_ok_def ARCHIVE_MAX_def)
  have d: "distinct (map (\<lambda>m. to_lower (mb_path m)) ?l)"
    using demo_paths arg_cong [OF p, of "map to_lower"] by (simp add: o_def)
  have "map (length \<circ> block) ?l = map (\<lambda>m. 512 + rounded (length (mb_bytes m))) ?l" using ok length_block by simp
  from arg_cong [OF this, of sum_list] have "length ?a = sum_list (map (\<lambda>m. 512 + rounded (length (mb_bytes m))) ?l) + 1024"
    by (simp only: length_append length_concat map_map) (simp add: zeros_def)
  then have "length ?a = 7680" using assms
    by (simp add: demo_bundle_members_def regular_def rounded_def demo_sig_def)
  then have len: "length ?a \<le> ARCHIVE_MAX" by (simp add: ARCHIVE_MAX_def)
  have n: "length ([] :: members) + length ?l \<le> MAX_MEMBERS" by (simp add: demo_bundle_members_def MAX_MEMBERS_def)
  have "read_loop ?a (length ([] :: string)) [] [] = Inr (fold (\<lambda>(k, v). bt_insert k v) (placed (length ([] :: string)) ?l) [])"
    by (rule read_loop_blocks [OF _ len ok n d]) simp_all
  then have "read_members ?a = Inr (fold (\<lambda>(k, v). bt_insert k v) (placed 0 ?l) [])"
    using len by (simp add: read_members_def)
  then show thesis using that placed_bytes [of 0 ?l "[]"] by (simp add: bt_of_list_def)
qed

lemma demo_bundle:
  obtains bs b where "verify_bundle demo_bundle_ext bs demo_root = Inr b" "length (vb_packages b) = 1"
proof -
  obtain a where a: "read_archive a = Inr [(''ck.json'', ''q'')]" "length a = 2048" using demo_inner .
  obtain bs ms where bs: "read_members bs = Inr ms"
    and ms: "map (\<lambda>(p, m). (p, rm_bytes m)) ms = bt_of_list (map (\<lambda>m. (mb_path m, mb_bytes m)) (demo_bundle_members a))"
    using demo_outer [OF a(2)] .
  have get: "map_option rm_bytes (bt_get ms p) = map_of (rev (map (\<lambda>m. (mb_path m, mb_bytes m)) (demo_bundle_members a))) p" for p
    unfolding bt_get_map [symmetric] ms by (simp only: bt_get_of_list)
  have keys: "fst ` set ms = mb_path ` set (demo_bundle_members a)"
  proof -
    have "fst ` set ms = fst ` set (map (\<lambda>(p, m). (p, rm_bytes m)) ms)" by force
    then show ?thesis by (simp add: ms set_keys_of_list image_image)
  qed
  let ?e = demo_bundle_entry and ?key = demo_key
  obtain d where au: "authenticate demo_bundle_ext ''d'' ''c'' demo_sig demo_root = Inr (d, ?key)" and d: "bd_records d = [?e]"
    using demo_authenticate by (cases "authenticate demo_bundle_ext ''d'' ''c'' demo_sig demo_root") auto
  have e: "en_record ?e = ''records/cortexkit/notes/1.0.0.json''" "en_archive ?e = ''archives/'' @ demo_zeros @ ''.tar''"
      "en_archive_sha256 ?e = demo_zeros" by (simp_all add: demo_bundle_entry_def)
  obtain md where md: "metadata demo_bundle_ext ?e ''m'' ?key = Inr md"
    using demo_entry by (cases "metadata demo_bundle_ext ?e ''m'' ?key") simp_all
  note dm = demo_entry [unfolded md sum.case]
  obtain x where x: "trusted_record demo_bundle_ext (md_record md) (md_record_signature md) (entry_trust ?key (md_status md)) = Inr x"
    using dm by (cases "trusted_record demo_bundle_ext (md_record md) (md_record_signature md) (entry_trust ?key (md_status md))") simp_all
  obtain r c len i where "x = (r, c, len, i)" by (cases x)
  note t = x [unfolded this] and dx = dm [unfolded x this sum.case prod.case]
  have j: "jidx r ''manifest_sha256'' = JStr demo_zeros" "jidx r ''archive_sha256'' = JStr demo_zeros" "len = 2048"
    and v: "is_ok (verify_members demo_bundle_ext r c len i ''q'' [(''ck.json'', ''q'')])" using dx by blast+
  have z: "sha256_hex demo_bundle_ext x = demo_zeros" for x
    by (simp add: sha256_hex_def demo_bundle_ext_def zero_ext_def) code_simp
  obtain package where package: "verify_record demo_bundle_ext (md_record md) (md_record_signature md) ''q'' a (entry_trust ?key (md_status md)) = Inr package"
    using v unfolding verify_record_def t bind_res_Inr prod.case j z a map_err_simps is_ok_iff by auto
  have chk: "check_member demo_bundle_ext ?e ''m'' = Inr ()" using md by (simp add: metadata_def bind_res_eq_Inr)
  have "\<exists>p. verify_entry demo_bundle_ext ms ''d'' ''c'' demo_sig ?key ?e = Inr p"
    unfolding verify_entry_def member_bytes_def get e(1,2)
    by (simp add: demo_bundle_members_def regular_def chk e(3) z md a(1) bt_get_def package utf8_or_invalid_def demo_zeros_def byte_def)
  then obtain p where p: "verify_entry demo_bundle_ext ms ''d'' ''c'' demo_sig ?key ?e = Inr p" ..
  have "bt_get ms ''bundle.sig'' \<noteq> None" "map_option rm_bytes (bt_get ms ''bundle.sig'') = Some demo_sig"
    using get [of "''bundle.sig''"] by (auto simp: demo_bundle_members_def regular_def demo_zeros_def)
  then obtain m where m: "bt_get ms ''bundle.sig'' = Some m" "rm_bytes m = demo_sig" by auto
  have "utf8_valid demo_sig" by code_simp
  moreover have "fst ` set ms \<subseteq> set (expected_members d)"
    unfolding keys by (simp add: expected_members_def d e demo_bundle_members_def regular_def)
  then have "filter (\<lambda>p. fst p \<notin> set (expected_members d)) ms = []"
    unfolding filter_empty_conv by blast
  ultimately have "verify_bundle demo_bundle_ext bs demo_root = Inr \<lparr>vb_document = d, vb_packages = [p]\<rparr>"
    unfolding verify_bundle_def bs map_err_simps bind_res_Inr member_bytes_def get
    by (simp add: demo_bundle_members_def regular_def demo_zeros_def m au d p)
  then show thesis using that by simp
qed

section \<open>Properties\<close>

text \<open>C26. A bundle that is accepted holds exactly what its document lists, and all of it verified: the
  document carries the signature of a key that the root certifies for the time it was created, the
  members are the document, its certificate and signature and the listed records and archives, and
  each package is verified under that key, with a status about the same name, version, archive and
  publisher.\<close>

theorem bundle_sound:
  assumes "verify_bundle E bs root_key = Inr b"
  shows "\<exists>ms doc cert sig key. read_members bs = Inr ms \<and> rooted E root_key doc cert sig (vb_document b) key
    \<and> fst ` set ms = set (expected_members (vb_document b))
    \<and> list_all2 (package_of E ms key) (bd_records (vb_document b)) (vb_packages b)"
proof -
  from assms obtain ms doc cert sig key where ms: "read_members bs = Inr ms"
    and au: "authenticate E doc cert sig root_key = Inr (vb_document b, key)"
    and l: "list_all2 (\<lambda>e p. verify_entry E ms doc cert sig key e = Inr p) (bd_records (vb_document b)) (vb_packages b)"
    and keys: "fst ` set ms = set (expected_members (vb_document b))"
    by (rule verify_bundle_Inr)
  have "list_all2 (package_of E ms key) (bd_records (vb_document b)) (vb_packages b)"
    using l by (rule list_all2_mono) (rule verify_entry_Inr(1))
  then show ?thesis using ms authenticate_Inr(1) [OF au] keys by blast
qed

lemma bundle_sound_witness:
  "\<exists>bs b ms key e p. verify_bundle demo_bundle_ext bs demo_root = Inr b \<and> bd_records (vb_document b) = [e]
     \<and> vb_packages b = [p] \<and> package_of demo_bundle_ext ms key e p"
proof -
  obtain bs b where b: "verify_bundle demo_bundle_ext bs demo_root = Inr b" "length (vb_packages b) = 1" by (rule demo_bundle)
  then obtain p where p: "vb_packages b = [p]" by (auto simp: length_Suc_conv)
  obtain ms key where "list_all2 (package_of demo_bundle_ext ms key) (bd_records (vb_document b)) [p]"
    using bundle_sound [OF b(1)] p by auto
  then obtain e where "bd_records (vb_document b) = [e]" "package_of demo_bundle_ext ms key e p" by (auto simp: list_all2_Cons2)
  then show ?thesis using b(1) p by blast
qed

text \<open>C32. What is kept of a bundle is enough to authenticate it again: the proof stored with each
  package verifies against the same root, without the container, and gives the very status that
  was taken.\<close>

theorem bundle_proof_restores:
  assumes "verify_bundle E bs root_key = Inr b" and "p \<in> set (vb_packages b)"
  shows "proof_verify E (bk_proof p) root_key = Inr (bk_status p)"
proof -
  from assms(1) obtain ms doc cert sig key where au: "authenticate E doc cert sig root_key = Inr (vb_document b, key)"
    and l: "list_all2 (\<lambda>e p. verify_entry E ms doc cert sig key e = Inr p) (bd_records (vb_document b)) (vb_packages b)"
    by (rule verify_bundle_Inr)
  obtain i where i: "i < length (vb_packages b)" "vb_packages b ! i = p" using assms(2) by (auto simp: in_set_conv_nth)
  define e where "e = bd_records (vb_document b) ! i"
  have v: "verify_entry E ms doc cert sig key e = Inr p" using l i by (auto simp: list_all2_conv_all_nth e_def)
  have e: "e \<in> set (bd_records (vb_document b))" using l i by (auto simp: list_all2_conv_all_nth e_def)
  note ve = verify_entry_Inr [OF v]
  obtain md where "metadata E e (bp_member_bytes (bk_proof p)) key = Inr md" "md_status md = bk_status p" using ve(3) by blast
  then show ?thesis unfolding proof_verify_def ve(4-7) au
    by (simp add: find_entry [OF authenticate_Inr(2) [OF au] e])
qed

lemma bundle_proof_restores_witness:
  "\<exists>bs b p. verify_bundle demo_bundle_ext bs demo_root = Inr b \<and> p \<in> set (vb_packages b)
     \<and> proof_verify demo_bundle_ext (bk_proof p) demo_root = Inr (bk_status p)"
proof -
  obtain bs b where b: "verify_bundle demo_bundle_ext bs demo_root = Inr b" "length (vb_packages b) = 1" by (rule demo_bundle)
  then obtain p where "p \<in> set (vb_packages b)" by (auto simp: length_Suc_conv)
  then show ?thesis using bundle_proof_restores b by blast
qed

end
