(* ===== verification/Publish.thy ===== *)
theory Publish
  imports Bundle
begin

text \<open>
  What a publisher checks before signing (\<open>crates/entorhinal-catalog/src/publish.rs\<close>), and how it
  compares with the verification of the signed package.
\<close>

record checked_archive =
  ca_manifest :: manifest
  ca_manifest_sha256 :: string
  ca_archive_sha256 :: string
  ca_archive_bytes :: nat
  ca_flow_version :: "nat option"

definition flow_version_of :: "ext \<Rightarrow> manifest \<Rightarrow> string \<Rightarrow> (string \<times> string) list \<Rightarrow> refusal + nat option" where
  "flow_version_of E m i members =
    (if mf_kind m = Flow then
       bind_res (ok_or (case bt_get members (case as_str (jidx (mf_body m) ''manifest'') of Some p \<Rightarrow> p | None \<Rightarrow> []) of
           None \<Rightarrow> None | Some b \<Rightarrow> json_of_bytes E b) (record_mismatch ''flow.json'')) (\<lambda>flow.
         if jidx flow ''id'' \<noteq> JStr i then Inl (refusal_at FlowIdMismatch ''flow.json id'')
         else bind_res (ok_or (positive (jidx flow ''version'')) (record_invalid ''flow_version'')) (\<lambda>n. Inr (Some n)))
     else Inr None)"

definition publish_check :: "ext \<Rightarrow> string \<Rightarrow> string \<Rightarrow> refusal + checked_archive" where
  "publish_check E archive_bytes scope =
    (if length archive_bytes > ARCHIVE_MAX then Inl (refusal_new ArchiveTooLarge)
     else bind_res (map_err (\<lambda>e. refusal_new (ae_code e)) (read_archive archive_bytes)) (\<lambda>members.
       bind_res (ok_or (bt_get members ''ck.json'') (refusal_at ManifestInvalid ''ck.json'')) (\<lambda>mb.
       bind_res (parse_manifest E mb) (\<lambda>m.
       bind_res (map_err (\<lambda>e. refusal_new (ne_code e)) (map_name E (mf_name m))) (\<lambda>mapped.
         if ''@'' @ mn_scope mapped \<noteq> scope then Inl (record_mismatch ''scope'')
         else bind_res (check_coverage E (mf_files m) members) (\<lambda>_.
           bind_res (flow_version_of E m (mn_id mapped) members) (\<lambda>fv.
             Inr \<lparr>ca_manifest = m, ca_manifest_sha256 = sha256_hex E mb, ca_archive_sha256 = sha256_hex E archive_bytes,
               ca_archive_bytes = length archive_bytes, ca_flow_version = fv\<rparr>)))))))"

definition checked_record :: "checked_archive \<Rightarrow> string \<Rightarrow> pkg_record" where
  "checked_record c public_key =
     \<lparr>pr_schema = ''ck-record/v1'', pr_name = mf_name (ca_manifest c), pr_version = mf_version (ca_manifest c),
      pr_manifest_sha256 = ca_manifest_sha256 c, pr_archive_sha256 = ca_archive_sha256 c,
      pr_archive_bytes = ca_archive_bytes c, pr_public_key = public_key, pr_log_head = JNull,
      pr_flow_version = ca_flow_version c\<rparr>"

section \<open>What is verified was publishable\<close>

lemma opt_u64_Some: "opt_u64_value (Some (JNum (PosInt n))) = Some (Some n)" "opt_u64_value None = Some None"
  by (simp_all add: opt_u64_value_def)

lemma trusted_flow_version:
  assumes "trusted_record E text sig tr = Inr (r, c, len, i)"
  shows "jget r ''flow_version'' = None \<or> (\<exists>x n. jget r ''flow_version'' = Some x \<and> positive x = Some n)"
    and "jidx r ''schema'' = JStr ''ck-record/v1''"
proof -
  obtain m where sh: "shape E text ''ck-record/v1'' record_fields [''flow_version''] RecordInvalid = Inr r" and m: "r = JObj m"
    using trusted_record_Inr [OF assms] by metis
  show "jidx r ''schema'' = JStr ''ck-record/v1''" using shape_Inr(1) [OF sh] by (auto simp: shaped_def)
  have "\<not> some_and (\<lambda>v. positive v = None) (jget r ''flow_version'')"
    using assms unfolding trusted_record_def sh bind_res_Inr bind_res_eq_Inr if_Inl_eq_Inr by blast
  then show "jget r ''flow_version'' = None \<or> (\<exists>x n. jget r ''flow_version'' = Some x \<and> positive x = Some n)"
    by (auto simp: some_and_def split: option.splits)
qed

lemma with_numbers_flow:
  assumes "r = JObj m"
  shows "jget (with_numbers r len) ''flow_version'' = (case jget r ''flow_version'' of None \<Rightarrow> None
    | Some x \<Rightarrow> (case positive x of None \<Rightarrow> Some x | Some n \<Rightarrow> Some (JNum (PosInt n))))"
  by (auto simp: assms with_numbers_def Let_def jset_def bt_get_insert split: option.splits)

lemma kind_value_flow: "kind_value (Some (JStr ''flow'')) = Some Flow"
  by (simp add: kind_value_def of_enum_def kind_names_def)

lemma body_ok_flow: "body_ok E m \<Longrightarrow> mf_kind m = Flow \<Longrightarrow> \<exists>p. jidx (mf_body m) ''manifest'' = JStr p"
  by (auto simp: body_ok_def listed_def)

lemma verified_flow:
  assumes "verify_record E text sig mb ab tr = Inr p"
    and "mf_kind (vp_manifest p) = Flow \<Longrightarrow> pr_flow_version (vp_record p) \<noteq> None"
    and "read_archive ab = Inr members" and "map_name E (mf_name (vp_manifest p)) = Inr nm"
  shows "flow_version_of E (vp_manifest p) (mn_id nm) members = Inr (pr_flow_version (vp_record p))"
proof -
  from assms(1) obtain r len i members' m where t: "trusted_record E text sig tr = Inr (r, vp_canonical_record p, len, i)"
    and "jidx r ''manifest_sha256'' = JStr (sha256_hex E mb)" "jidx r ''archive_sha256'' = JStr (sha256_hex E ab)" "len = length ab"
    and a: "read_archive ab = Inr members'" "bt_get members' ''ck.json'' = Some mb" "manifest_value E mb = Inr m"
      "jidx m ''name'' = jidx r ''name''" "jidx m ''version'' = jidx r ''version''"
    and f: "(jidx m ''kind'' = JStr ''flow'') = is_some (jget r ''flow_version'')"
      "jidx m ''kind'' = JStr ''flow'' \<longrightarrow> check_flow_identity E m r i members' = Inr ()"
    and v: "validate_manifest E m = Inr (vp_manifest p)" "check_coverage E (mf_files (vp_manifest p)) members' = Inr ()"
    and rec: "record_of_json (with_numbers r len) = Some (vp_record p)"
    by (rule verify_record_Inr)
  have members: "members' = members" using a(1) assms(3) by simp
  from t obtain ms n mp where r: "r = JObj ms" and n: "jidx r ''name'' = JStr n" "map_name E n = Inr mp" "i = mn_id mp"
    using trusted_record_Inr [OF t] by metis
  note mo = manifest_of_object [OF validate_manifest_Inr(1) [OF v(1)] a(4) [unfolded n]]
  have i: "i = mn_id nm" using assms(4) n mo(1) by simp
  have fv: "opt_u64_value (jget (with_numbers r len) ''flow_version'') = Some (pr_flow_version (vp_record p))"
    by (rule record_of_json_Some(8) [OF rec])
  show ?thesis
  proof (cases "jget r ''flow_version''")
    case None
    then have nf: "pr_flow_version (vp_record p) = None" using fv by (simp add: with_numbers_flow [OF r] opt_u64_Some)
    then have "mf_kind (vp_manifest p) \<noteq> Flow" using assms(2) by blast
    then show ?thesis by (simp add: flow_version_of_def nf)
  next
    case (Some x)
    then obtain k where k: "positive x = Some k" using trusted_flow_version(1) [OF t] by auto
    have pf: "pr_flow_version (vp_record p) = Some k" using fv by (simp add: with_numbers_flow [OF r] Some k opt_u64_Some)
    have kd: "jidx m ''kind'' = JStr ''flow''" using f(1) Some by simp
    then have "jget m ''kind'' = Some (JStr ''flow'')" by (simp add: jidx_def split: option.splits)
    then have fl: "mf_kind (vp_manifest p) = Flow" using mo(4) by (simp add: kind_value_flow)
    obtain q where q: "jidx (mf_body (vp_manifest p)) ''manifest'' = JStr q"
      using body_ok_flow [OF check_body_Inr [OF validate_manifest_Inr(3) [OF v(1)]] fl] by blast
    have "check_flow_identity E m r i members = Inr ()" using f(2) kd members by simp
    then obtain b fj where b: "bt_get members q = Some b" "json_of_bytes E b = Some fj" "jidx fj ''id'' = JStr i"
        "jidx fj ''version'' = jidx r ''flow_version''"
      using q by (auto simp: check_flow_identity_def mo(3) Let_def none_or_def split: option.splits if_splits)
    have "jidx r ''flow_version'' = x" using Some by (simp add: jidx_def)
    then show ?thesis using b k by (simp add: flow_version_of_def fl q i pf)
  qed
qed

lemma canonical_map_name: "canonical E s \<Longrightarrow> \<exists>m. map_name E s = Inr m"
  by (auto simp: canonical_def split: sum.splits)


lemma verified_parts:
  assumes "verify_record E text sig mb ab tr = Inr p"
  obtains members nm where "read_archive ab = Inr members" "bt_get members ''ck.json'' = Some mb"
    "parse_manifest E mb = Inr (vp_manifest p)" "check_coverage E (mf_files (vp_manifest p)) members = Inr ()"
    "map_name E (mf_name (vp_manifest p)) = Inr nm" "length ab \<le> ARCHIVE_MAX"
    "pr_schema (vp_record p) = ''ck-record/v1''" "package_ok E mb ab members (vp_record p) (vp_manifest p)"
proof -
  from assms(1) obtain r len i members m where t: "trusted_record E text sig tr = Inr (r, vp_canonical_record p, len, i)"
    and "jidx r ''manifest_sha256'' = JStr (sha256_hex E mb)" "jidx r ''archive_sha256'' = JStr (sha256_hex E ab)"
    and len: "len = length ab"
    and a: "read_archive ab = Inr members" "bt_get members ''ck.json'' = Some mb" "manifest_value E mb = Inr m"
      "jidx m ''name'' = jidx r ''name''" "jidx m ''version'' = jidx r ''version''"
    and "(jidx m ''kind'' = JStr ''flow'') = is_some (jget r ''flow_version'')"
      "jidx m ''kind'' = JStr ''flow'' \<longrightarrow> check_flow_identity E m r i members = Inr ()"
    and v: "validate_manifest E m = Inr (vp_manifest p)" "check_coverage E (mf_files (vp_manifest p)) members = Inr ()"
    and rec: "record_of_json (with_numbers r len) = Some (vp_record p)"
    by (rule verify_record_Inr)
  obtain ms where r: "r = JObj ms" and max: "len \<le> ARCHIVE_MAX" using trusted_record_Inr [OF t] by metis
  have pm: "parse_manifest E mb = Inr (vp_manifest p)" using a(3) v(1) by (simp add: parse_manifest_def)
  have "canonical E (mf_name (vp_manifest p))" using validate_manifest_Inr(2) [OF v(1)] by (simp add: manifest_ok_def)
  then obtain nm where nm: "map_name E (mf_name (vp_manifest p)) = Inr nm" using canonical_map_name by blast
  have ok: "package_ok E mb ab members (vp_record p) (vp_manifest p)" using verify_record_parts(1) [OF assms(1)] a(1) by auto
  have "jidx (with_numbers r len) ''schema'' = JStr ''ck-record/v1''"
    using trusted_flow_version(2) [OF t] by (simp add: with_numbers_jidx [OF r])
  then have sc: "pr_schema (vp_record p) = ''ck-record/v1''" using record_of_json_Some(1) [OF rec] by simp
  show thesis using that [OF a(1,2) pm v(2) nm _ sc ok] max len by simp
qed

lemma flow_version_flow: "flow_version_of E m i members = Inr fv \<Longrightarrow> mf_kind m = Flow \<Longrightarrow> fv \<noteq> None"
  by (auto simp: flow_version_of_def bind_res_eq_Inr if_Inl_eq_Inr)

lemma verified_publishable:
  assumes "verify_record E text sig mb ab tr = Inr p"
  shows "\<exists>nm. map_name E (pr_name (vp_record p)) = Inr nm \<and> (\<forall>scope.
    (\<exists>c. publish_check E ab scope = Inr c
       \<and> (checked_record c (pr_public_key (vp_record p)))\<lparr>pr_log_head := pr_log_head (vp_record p)\<rparr> = vp_record p)
    \<longleftrightarrow> scope = ''@'' @ mn_scope nm \<and> (mf_kind (vp_manifest p) = Flow \<longrightarrow> pr_flow_version (vp_record p) \<noteq> None))"
proof -
  from assms obtain members nm where a: "read_archive ab = Inr members" "bt_get members ''ck.json'' = Some mb"
      "parse_manifest E mb = Inr (vp_manifest p)" "check_coverage E (mf_files (vp_manifest p)) members = Inr ()"
    and nm: "map_name E (mf_name (vp_manifest p)) = Inr nm" and max: "length ab \<le> ARCHIVE_MAX"
    and sc: "pr_schema (vp_record p) = ''ck-record/v1''" and ok: "package_ok E mb ab members (vp_record p) (vp_manifest p)"
    by (rule verified_parts)
  let ?c = "\<lambda>fv. \<lparr>ca_manifest = vp_manifest p, ca_manifest_sha256 = sha256_hex E mb, ca_archive_sha256 = sha256_hex E ab,
      ca_archive_bytes = length ab, ca_flow_version = fv\<rparr>"
  have check: "publish_check E ab scope = Inr c \<longleftrightarrow> scope = ''@'' @ mn_scope nm
      \<and> (\<exists>fv. flow_version_of E (vp_manifest p) (mn_id nm) members = Inr fv \<and> c = ?c fv)" for scope c
    using max by (auto simp: publish_check_def a nm bind_res_eq_Inr if_Inl_eq_Inr)
  have same: "(checked_record (?c fv) (pr_public_key (vp_record p)))\<lparr>pr_log_head := pr_log_head (vp_record p)\<rparr> = vp_record p
      \<longleftrightarrow> fv = pr_flow_version (vp_record p)" for fv
    using ok sc by (cases "vp_record p") (auto simp: checked_record_def package_ok_def)
  have "(\<exists>c. publish_check E ab scope = Inr c
       \<and> (checked_record c (pr_public_key (vp_record p)))\<lparr>pr_log_head := pr_log_head (vp_record p)\<rparr> = vp_record p)
    \<longleftrightarrow> scope = ''@'' @ mn_scope nm \<and> flow_version_of E (vp_manifest p) (mn_id nm) members = Inr (pr_flow_version (vp_record p))" for scope
    by (simp only: check) (metis same)
  moreover have "flow_version_of E (vp_manifest p) (mn_id nm) members = Inr (pr_flow_version (vp_record p))
      \<longleftrightarrow> (mf_kind (vp_manifest p) = Flow \<longrightarrow> pr_flow_version (vp_record p) \<noteq> None)"
    using flow_version_flow verified_flow [OF assms _ a(1) nm] by blast
  moreover have "mf_name (vp_manifest p) = pr_name (vp_record p)" using ok by (simp add: package_ok_def)
  ultimately show ?thesis using nm by simp
qed

section \<open>Concrete packages\<close>

text \<open>The flow document \<open>w\<close> spells its version as a fraction.\<close>

definition demo_float_ext :: ext where
  "demo_float_ext = zero_ext\<lparr>x_parse := map_of
     [(''r'', demo_record [(''flow_version'', RU64 7)]), (''q'', demo_manifest (RStr ''flow'')),
      (''w'', RMap [(''id'', RStr ''acme--notes''), (''version'', RF64 (Some 7))])]\<rparr>"

lemma demo_float: "case trusted_record demo_float_ext ''r'' demo_sig demo_trust of Inl _ \<Rightarrow> False | Inr (r, c, len, i) \<Rightarrow>
     jidx r ''manifest_sha256'' = JStr demo_zeros \<and> jidx r ''archive_sha256'' = JStr demo_zeros \<and> len = 3072
     \<and> verify_members demo_float_ext r c len i ''q'' [(''ck.json'', ''q''), (''f'', ''w'')] = Inl (record_mismatch ''flow_version'')
     \<and> (case record_of_json (jset r ''archive_bytes'' (JNum (PosInt len))) of None \<Rightarrow> False | Some rec \<Rightarrow>
          pr_flow_version rec = Some 7 \<and> pr_archive_bytes rec = 3072)"
  by code_simp

lemma demo_float_check: "case parse_manifest demo_float_ext ''q'' of Inl _ \<Rightarrow> False | Inr m \<Rightarrow>
     (case map_name demo_float_ext (mf_name m) of Inl _ \<Rightarrow> False | Inr nm \<Rightarrow> ''@'' @ mn_scope nm = ''@acme''
        \<and> flow_version_of demo_float_ext m (mn_id nm) [(''ck.json'', ''q''), (''f'', ''w'')] = Inr (Some 7))
     \<and> check_coverage demo_float_ext (mf_files m) [(''ck.json'', ''q''), (''f'', ''w'')] = Inr ()"
  by code_simp

section \<open>Properties\<close>

text \<open>C36. For a package that verifies, the publisher's own check of the same archive accepts it and asks
  for the verified record, every field of it but the log head that the registry adds, exactly when
  the scope is the one of its name and the package is not a flow recorded without a version.\<close>

theorem verified_is_publishable:
  assumes "verify_record E text sig mb ab tr = Inr p"
  shows "\<exists>nm. map_name E (pr_name (vp_record p)) = Inr nm \<and> (\<forall>scope.
    (\<exists>c. publish_check E ab scope = Inr c
       \<and> (checked_record c (pr_public_key (vp_record p)))\<lparr>pr_log_head := pr_log_head (vp_record p)\<rparr> = vp_record p)
    \<longleftrightarrow> scope = ''@'' @ mn_scope nm \<and> (mf_kind (vp_manifest p) = Flow \<longrightarrow> pr_flow_version (vp_record p) \<noteq> None))"
  by (rule verified_publishable [OF assms])

lemma verified_is_publishable_witness:
  "\<exists>a p scope c. verify_record demo_package_ext ''r'' demo_sig ''q'' a demo_trust = Inr p \<and> mf_kind (vp_manifest p) = Flow
     \<and> publish_check demo_package_ext a scope = Inr c \<and> ca_flow_version c = Some 7"
proof -
  obtain a p where p: "verify_record demo_package_ext ''r'' demo_sig ''q'' a demo_trust = Inr p"
      "mf_kind (vp_manifest p) = Flow" "pr_flow_version (vp_record p) = Some 7"
    using verify_record_run [OF demo_trusted_r] by auto
  obtain scope c where c: "publish_check demo_package_ext a scope = Inr c"
      "(checked_record c (pr_public_key (vp_record p)))\<lparr>pr_log_head := pr_log_head (vp_record p)\<rparr> = vp_record p"
    using verified_is_publishable [OF p(1)] p(3) by (metis option.distinct(1))
  have "ca_flow_version c = pr_flow_version ((checked_record c (pr_public_key (vp_record p)))\<lparr>pr_log_head := pr_log_head (vp_record p)\<rparr>)"
    by (simp add: checked_record_def)
  then have "ca_flow_version c = Some 7" unfolding c(2) using p(3) by simp
  then show ?thesis using p c by blast
qed

text \<open>What the publisher's check accepts need not verify: the publisher's check reads the version of a flow as a number and the
  verifier compares it as a JSON value, so a flow whose version is written as a fraction passes the
  check and is refused by every verifier under the record the check asks for.\<close>

theorem publish_accepts_unverifiable:
  "\<exists>a c. publish_check demo_float_ext a ''@acme'' = Inr c \<and> ca_flow_version c = Some 7
     \<and> is_ok (verify_record_trust demo_float_ext ''r'' demo_sig demo_trust)
     \<and> verify_record demo_float_ext ''r'' demo_sig ''q'' a demo_trust = Inl (record_mismatch ''flow_version'')"
proof -
  obtain a where a: "read_archive a = Inr [(''ck.json'', ''q''), (''f'', ''w'')]" "length a = 3072"
    using demo_archive [of "''q''" "''w''"] by auto
  have z: "sha256_hex demo_float_ext x = demo_zeros" for x
    by (simp add: sha256_hex_def demo_float_ext_def zero_ext_def) code_simp
  obtain x where x: "trusted_record demo_float_ext ''r'' demo_sig demo_trust = Inr x"
    using demo_float by (cases "trusted_record demo_float_ext ''r'' demo_sig demo_trust") simp_all
  obtain r c len i where "x = (r, c, len, i)" by (cases x)
  note t = x [unfolded this] and d = demo_float [unfolded x this sum.case prod.case]
  have j: "jidx r ''manifest_sha256'' = JStr demo_zeros" "jidx r ''archive_sha256'' = JStr demo_zeros" "len = 3072"
    and v: "verify_members demo_float_ext r c len i ''q'' [(''ck.json'', ''q''), (''f'', ''w'')] = Inl (record_mismatch ''flow_version'')"
    using d by blast+
  obtain rec where rec: "record_of_json (jset r ''archive_bytes'' (JNum (PosInt len))) = Some rec"
    using d by (cases "record_of_json (jset r ''archive_bytes'' (JNum (PosInt len)))") auto
  have "verify_record demo_float_ext ''r'' demo_sig ''q'' a demo_trust = Inl (record_mismatch ''flow_version'')"
    using v unfolding verify_record_def t bind_res_Inr prod.case j z a map_err_simps by simp
  moreover have "is_ok (verify_record_trust demo_float_ext ''r'' demo_sig demo_trust)"
    unfolding verify_record_trust_def t bind_res_Inr prod.case rec by simp
  moreover obtain m where m: "parse_manifest demo_float_ext ''q'' = Inr m"
    using demo_float_check by (cases "parse_manifest demo_float_ext ''q''") simp_all
  note dm = demo_float_check [unfolded m sum.case]
  obtain nm where nm: "map_name demo_float_ext (mf_name m) = Inr nm"
    using dm by (cases "map_name demo_float_ext (mf_name m)") simp_all
  have f: "''@'' @ mn_scope nm = ''@acme''" "check_coverage demo_float_ext (mf_files m) [(''ck.json'', ''q''), (''f'', ''w'')] = Inr ()"
      "flow_version_of demo_float_ext m (mn_id nm) [(''ck.json'', ''q''), (''f'', ''w'')] = Inr (Some 7)"
    using dm [unfolded nm sum.case] by blast+
  have g: "bt_get [(''ck.json'', ''q''), (''f'', ''w'')] ''ck.json'' = Some ''q''" by (simp add: bt_get_def)
  have "\<not> ARCHIVE_MAX < (3072 :: nat)" by (simp add: ARCHIVE_MAX_def)
  then have "\<exists>c. publish_check demo_float_ext a ''@acme'' = Inr c \<and> ca_flow_version c = Some 7"
    unfolding publish_check_def a map_err_simps bind_res_Inr g ok_or_simps m nm f if_False by simp
  ultimately show ?thesis by blast
qed

end
