(* ===== verification/MoveRecord.thy ===== *)
theory MoveRecord
  imports Json
begin

text \<open>
  Move and inbox records (\<open>crates/entorhinal-core/src/move_record.rs\<close>): the wire codecs of the
  record two machines share while an agent moves between them, the abort record and its bounded
  detail, the inbox that announces moves, and the table of transitions. The tree a derived
  serializer walks is a \<open>json\<close> whose object members are in declaration order. \<open>serde_json\<close>
  itself is a parameter: \<open>sj_write\<close> is \<open>to_vec\<close> on such a tree and \<open>sj_read\<close> the events that
  \<open>from_slice\<close> drives a visitor with.
\<close>

record serde =
  sj_write :: "json \<Rightarrow> string"
  sj_read :: "string \<Rightarrow> raw option"

section \<open>Derived deserializers over events\<close>

text \<open>The visitor of \<open>Value\<close>: a duplicate key takes the last value.\<close>

fun value_of_raw :: "raw \<Rightarrow> json"
  and members_of_raw :: "(string \<times> raw) list \<Rightarrow> (string \<times> json) list \<Rightarrow> (string \<times> json) list"
  and items_of_raw :: "raw list \<Rightarrow> json list"
where
  "value_of_raw RNull = JNull"
| "value_of_raw (RBool b) = JBool b"
| "value_of_raw (RI64 i) = JNum (num_of_int i)"
| "value_of_raw (RU64 n) = JNum (PosInt n)"
| "value_of_raw (RF64 f) = (case f of None \<Rightarrow> JNull | Some x \<Rightarrow> JNum (Float x))"
| "value_of_raw (RStr s) = JStr s"
| "value_of_raw (RSeq rs) = JArr (items_of_raw rs)"
| "value_of_raw (RMap kvs) = JObj (members_of_raw kvs [])"
| "members_of_raw [] m = m"
| "members_of_raw ((k, r) # kvs) m = members_of_raw kvs (bt_insert k (value_of_raw r) m)"
| "items_of_raw [] = []"
| "items_of_raw (r # rs) = value_of_raw r # items_of_raw rs"

text \<open>
  A struct with \<open>deny_unknown_fields\<close>: an object of known fields, none twice, or an array with
  one item for each field.
\<close>

definition struct_fields :: "string list \<Rightarrow> raw \<Rightarrow> (string \<times> raw) list option" where
  "struct_fields ks r = (case r of
     RMap kvs \<Rightarrow> if list_all (\<lambda>p. fst p \<in> set ks) kvs \<and> distinct (map fst kvs) then Some kvs else None
   | RSeq rs \<Rightarrow> if length rs = length ks then Some (zip ks rs) else None
   | _ \<Rightarrow> None)"

definition raw_str :: "(string \<times> raw) list \<Rightarrow> string \<Rightarrow> string option" where
  "raw_str fs k = (case map_of fs k of Some (RStr s) \<Rightarrow> Some s | _ \<Rightarrow> None)"

definition raw_u64 :: "(string \<times> raw) list \<Rightarrow> string \<Rightarrow> nat option" where
  "raw_u64 fs k = (case map_of fs k of Some (RU64 n) \<Rightarrow> Some n
     | Some (RI64 i) \<Rightarrow> if 0 \<le> i then Some (nat i) else None | _ \<Rightarrow> None)"

definition raw_opt_str :: "(string \<times> raw) list \<Rightarrow> string \<Rightarrow> string option option" where
  "raw_opt_str fs k = (case map_of fs k of None \<Rightarrow> Some None | Some RNull \<Rightarrow> Some None
     | Some (RStr s) \<Rightarrow> Some (Some s) | _ \<Rightarrow> None)"

definition raw_list :: "(raw \<Rightarrow> 'a option) \<Rightarrow> (string \<times> raw) list \<Rightarrow> string \<Rightarrow> 'a list option" where
  "raw_list f fs k = (case map_of fs k of Some (RSeq rs) \<Rightarrow> collect_opt f rs | _ \<Rightarrow> None)"

definition raw_opt_value :: "(string \<times> raw) list \<Rightarrow> string \<Rightarrow> json option" where
  "raw_opt_value fs k = (case map_of fs k of None \<Rightarrow> None | Some RNull \<Rightarrow> None | Some r \<Rightarrow> Some (value_of_raw r))"

definition raw_enum :: "(string \<times> 'a) list \<Rightarrow> raw \<Rightarrow> 'a option" where
  "raw_enum names r = (case r of RStr s \<Rightarrow> map_of names s | RMap [(s, RNull)] \<Rightarrow> map_of names s | _ \<Rightarrow> None)"

section \<open>Records\<close>

definition BODY_CAP :: nat where "BODY_CAP = 64 * 1024"
definition ABORT_RESERVE :: nat where "ABORT_RESERVE = 4096"
definition MOVE_BODY_CAP :: nat where "MOVE_BODY_CAP = BODY_CAP - ABORT_RESERVE"
definition DETAIL_CAP :: nat where "DETAIL_CAP = 2048"
definition INBOX_CAP :: nat where "INBOX_CAP = 64"

datatype move_side = Source | Receiver

datatype move_state = Published | Staged | Claimed | Activated | Released | Aborted

fun state_str :: "move_state \<Rightarrow> string" where
  "state_str Published = ''published''"
| "state_str Staged = ''staged''"
| "state_str Claimed = ''claimed''"
| "state_str Activated = ''activated''"
| "state_str Released = ''released''"
| "state_str Aborted = ''aborted''"

definition move_states :: "(string \<times> move_state) list" where
  "move_states = map (\<lambda>s. (state_str s, s)) [Published, Staged, Claimed, Activated, Released, Aborted]"

datatype move_reason = Operator | ReceiverInboxFull | MoveTooLargeReason | ParticipantRefused | DoorRefused
  | CutAuthorMismatch | Diverged | IncompatibleVersion | ClaimMoved | ProjectNotCheckedOut | Gone
  | ReceiverPrecondition | PinDigestMismatch | TrustMissing | OtherReason string

fun reason_str :: "move_reason \<Rightarrow> string" where
  "reason_str Operator = ''operator''"
| "reason_str ReceiverInboxFull = ''receiver_inbox_full''"
| "reason_str MoveTooLargeReason = ''move_too_large''"
| "reason_str ParticipantRefused = ''participant_refused''"
| "reason_str DoorRefused = ''door_refused''"
| "reason_str CutAuthorMismatch = ''cut_author_mismatch''"
| "reason_str Diverged = ''diverged''"
| "reason_str IncompatibleVersion = ''incompatible_version''"
| "reason_str ClaimMoved = ''claim_moved''"
| "reason_str ProjectNotCheckedOut = ''project_not_checked_out''"
| "reason_str Gone = ''gone''"
| "reason_str ReceiverPrecondition = ''receiver_precondition''"
| "reason_str PinDigestMismatch = ''pin_digest_mismatch''"
| "reason_str TrustMissing = ''trust_missing''"
| "reason_str (OtherReason s) = s"

definition known_reasons :: "move_reason list" where
  "known_reasons = [Operator, ReceiverInboxFull, MoveTooLargeReason, ParticipantRefused, DoorRefused,
     CutAuthorMismatch, Diverged, IncompatibleVersion, ClaimMoved, ProjectNotCheckedOut, Gone,
     ReceiverPrecondition, PinDigestMismatch, TrustMissing]"

definition reason_of :: "string \<Rightarrow> move_reason" where
  "reason_of s = (case find (\<lambda>r. reason_str r = s) known_reasons of Some r \<Rightarrow> r | None \<Rightarrow> OtherReason s)"

datatype move_ref = MoveRef (ref_kind: string) (reference: string)

record external_ref =
  xr_ref_kind :: string
  xr_reference :: string
  xr_note :: string
  xr_check :: json

record move_participant =
  mp_module_id :: string
  mp_refs :: "move_ref list"
  mp_external :: "external_ref list"

record move_record =
  mr_v :: nat
  mr_cut_id :: string
  mr_agent_id :: string
  mr_from :: string
  mr_to :: string
  mr_state :: move_state
  mr_claim_version :: nat
  mr_participants :: "move_participant list"
  mr_pin_digest :: "string option"
  mr_reason :: "move_reason option"
  mr_detail :: "json option"

record pending_move =
  pm_cut_id :: string
  pm_from :: string
  pm_agent_id :: string

record inbox_record =
  in_v :: nat
  in_pending :: "pending_move list"

definition default_inbox :: inbox_record where
  "default_inbox = \<lparr>in_v = 1, in_pending = []\<rparr>"

datatype codec_error = UnknownVersion | CutIdMismatch | ParticipantUnsorted | ParticipantDuplicate
  | RefUnsorted | RefDuplicate | DetailTooLarge | MalformedBody | MoveTooLarge | BodyTooLarge | InboxFull
  | InboxDuplicate | InvalidTransition | AuthorMismatch | PlanMismatch

fun codec_code :: "codec_error \<Rightarrow> string" where
  "codec_code UnknownVersion = ''unknown_version''"
| "codec_code CutIdMismatch = ''cut_id_mismatch''"
| "codec_code ParticipantUnsorted = ''participant_unsorted''"
| "codec_code ParticipantDuplicate = ''participant_duplicate''"
| "codec_code RefUnsorted = ''ref_unsorted''"
| "codec_code RefDuplicate = ''ref_duplicate''"
| "codec_code DetailTooLarge = ''detail_too_large''"
| "codec_code MalformedBody = ''malformed_body''"
| "codec_code MoveTooLarge = ''move_too_large''"
| "codec_code BodyTooLarge = ''body_too_large''"
| "codec_code InboxFull = ''inbox_full''"
| "codec_code InboxDuplicate = ''inbox_duplicate''"
| "codec_code InvalidTransition = ''invalid_transition''"
| "codec_code AuthorMismatch = ''author_mismatch''"
| "codec_code PlanMismatch = ''plan_mismatch''"

text \<open>References are ordered by kind, then by reference.\<close>

instantiation move_ref :: linorder
begin

definition less_eq_move_ref :: "move_ref \<Rightarrow> move_ref \<Rightarrow> bool" where
  "less_eq_move_ref a b \<longleftrightarrow> (ref_kind a, reference a) \<le> (ref_kind b, reference b)"

definition less_move_ref :: "move_ref \<Rightarrow> move_ref \<Rightarrow> bool" where
  "less_move_ref a b \<longleftrightarrow> (ref_kind a, reference a) < (ref_kind b, reference b)"

instance
  by standard (auto simp: less_eq_move_ref_def less_move_ref_def move_ref.expand less_le_not_le
      intro: order_trans)

end

section \<open>Serialised trees\<close>

definition ref_tree :: "move_ref \<Rightarrow> json" where
  "ref_tree r = JObj [(''ref_kind'', JStr (ref_kind r)), (''ref'', JStr (reference r))]"

definition external_tree :: "external_ref \<Rightarrow> json" where
  "external_tree x = JObj [(''ref_kind'', JStr (xr_ref_kind x)), (''ref'', JStr (xr_reference x)),
     (''note'', JStr (xr_note x)), (''check'', xr_check x)]"

definition participant_tree :: "move_participant \<Rightarrow> json" where
  "participant_tree p = JObj [(''module_id'', JStr (mp_module_id p)), (''refs'', JArr (map ref_tree (mp_refs p))),
     (''external'', JArr (map external_tree (mp_external p)))]"

definition reason_tree :: "move_reason \<Rightarrow> json" where
  "reason_tree r = JStr (reason_str r)"

definition opt_tree :: "('a \<Rightarrow> json) \<Rightarrow> 'a option \<Rightarrow> json" where
  "opt_tree f x = (case x of None \<Rightarrow> JNull | Some y \<Rightarrow> f y)"

definition move_tree :: "move_record \<Rightarrow> json" where
  "move_tree r = JObj ([(''v'', JNum (PosInt (mr_v r))), (''cut_id'', JStr (mr_cut_id r)),
       (''agent_id'', JStr (mr_agent_id r)), (''from'', JStr (mr_from r)), (''to'', JStr (mr_to r)),
       (''state'', JStr (state_str (mr_state r))), (''claim_version'', JNum (PosInt (mr_claim_version r))),
       (''participants'', JArr (map participant_tree (mr_participants r)))]
     @ (case mr_pin_digest r of None \<Rightarrow> [] | Some d \<Rightarrow> [(''pin_digest'', JStr d)])
     @ [(''reason'', opt_tree reason_tree (mr_reason r)), (''detail'', opt_tree (\<lambda>d. d) (mr_detail r))])"

definition pending_tree :: "pending_move \<Rightarrow> json" where
  "pending_tree p = JObj [(''cut_id'', JStr (pm_cut_id p)), (''from'', JStr (pm_from p)),
     (''agent_id'', JStr (pm_agent_id p))]"

definition inbox_tree :: "inbox_record \<Rightarrow> json" where
  "inbox_tree b = JObj [(''v'', JNum (PosInt (in_v b))), (''pending'', JArr (map pending_tree (in_pending b)))]"

section \<open>Deserialised records\<close>

definition ref_of_raw :: "raw \<Rightarrow> move_ref option" where
  "ref_of_raw r = Option.bind (struct_fields [''ref_kind'', ''ref''] r) (\<lambda>fs.
     Option.bind (raw_str fs ''ref_kind'') (\<lambda>k.
     map_option (MoveRef k) (raw_str fs ''ref'')))"

definition external_of_raw :: "raw \<Rightarrow> external_ref option" where
  "external_of_raw r = Option.bind (struct_fields [''ref_kind'', ''ref'', ''note'', ''check''] r) (\<lambda>fs.
     Option.bind (raw_str fs ''ref_kind'') (\<lambda>k. Option.bind (raw_str fs ''ref'') (\<lambda>x.
     Option.bind (raw_str fs ''note'') (\<lambda>n. Option.bind (map_of fs ''check'') (\<lambda>c.
       Some \<lparr>xr_ref_kind = k, xr_reference = x, xr_note = n, xr_check = value_of_raw c\<rparr>)))))"

definition participant_of_raw :: "raw \<Rightarrow> move_participant option" where
  "participant_of_raw r = Option.bind (struct_fields [''module_id'', ''refs'', ''external''] r) (\<lambda>fs.
     Option.bind (raw_str fs ''module_id'') (\<lambda>m. Option.bind (raw_list ref_of_raw fs ''refs'') (\<lambda>rs.
     Option.bind (raw_list external_of_raw fs ''external'') (\<lambda>xs.
       Some \<lparr>mp_module_id = m, mp_refs = rs, mp_external = xs\<rparr>))))"

definition move_of_raw :: "raw \<Rightarrow> move_record option" where
  "move_of_raw r = Option.bind (struct_fields [''v'', ''cut_id'', ''agent_id'', ''from'', ''to'', ''state'',
       ''claim_version'', ''participants'', ''pin_digest'', ''reason'', ''detail''] r) (\<lambda>fs.
     Option.bind (raw_u64 fs ''v'') (\<lambda>v. Option.bind (raw_str fs ''cut_id'') (\<lambda>cut.
     Option.bind (raw_str fs ''agent_id'') (\<lambda>agent. Option.bind (raw_str fs ''from'') (\<lambda>source.
     Option.bind (raw_str fs ''to'') (\<lambda>target.
     Option.bind (Option.bind (map_of fs ''state'') (raw_enum move_states)) (\<lambda>state.
     Option.bind (raw_u64 fs ''claim_version'') (\<lambda>claim.
     Option.bind (raw_list participant_of_raw fs ''participants'') (\<lambda>ps.
     Option.bind (raw_opt_str fs ''pin_digest'') (\<lambda>pin. Option.bind (raw_opt_str fs ''reason'') (\<lambda>reason.
       Some \<lparr>mr_v = v, mr_cut_id = cut, mr_agent_id = agent, mr_from = source, mr_to = target,
         mr_state = state, mr_claim_version = claim, mr_participants = ps, mr_pin_digest = pin,
         mr_reason = map_option reason_of reason,
         mr_detail = raw_opt_value fs ''detail''\<rparr>)))))))))))"

definition pending_of_raw :: "raw \<Rightarrow> pending_move option" where
  "pending_of_raw r = Option.bind (struct_fields [''cut_id'', ''from'', ''agent_id''] r) (\<lambda>fs.
     Option.bind (raw_str fs ''cut_id'') (\<lambda>c. Option.bind (raw_str fs ''from'') (\<lambda>f.
     Option.bind (raw_str fs ''agent_id'') (\<lambda>a.
       Some \<lparr>pm_cut_id = c, pm_from = f, pm_agent_id = a\<rparr>))))"

definition inbox_of_raw :: "raw \<Rightarrow> inbox_record option" where
  "inbox_of_raw r = Option.bind (struct_fields [''v'', ''pending''] r) (\<lambda>fs.
     Option.bind (raw_u64 fs ''v'') (\<lambda>v. Option.bind (raw_list pending_of_raw fs ''pending'') (\<lambda>ps.
       Some \<lparr>in_v = v, in_pending = ps\<rparr>)))"

section \<open>Validation and the codec\<close>

definition lower_hex :: "char \<Rightarrow> bool" where
  "lower_hex c \<longleftrightarrow> is_digit c \<or> CHR ''a'' \<le> c \<and> c \<le> CHR ''f''"

definition valid_cut_id :: "string \<Rightarrow> bool" where
  "valid_cut_id s \<longleftrightarrow> length s = 32 \<and> list_all lower_hex s"

definition check_version :: "nat \<Rightarrow> codec_error + unit" where
  "check_version v = (if v = 1 then Inr () else Inl UnknownVersion)"

definition wire_value :: "serde \<Rightarrow> string \<Rightarrow> codec_error + json" where
  "wire_value S body =
    (if length body > BODY_CAP then Inl BodyTooLarge
     else bind_res (ok_or (map_option value_of_raw (sj_read S body)) MalformedBody) (\<lambda>value.
       bind_res (ok_or (case jget value ''v'' of Some (JNum (PosInt n)) \<Rightarrow> Some n | _ \<Rightarrow> None) MalformedBody) (\<lambda>v.
       bind_res (check_version v) (\<lambda>_. Inr value))))"

text \<open>\<open>windows(2).any(|pair| pair[0] > pair[1])\<close>\<close>

fun descends :: "'a::linorder list \<Rightarrow> bool" where
  "descends (x # y # xs) \<longleftrightarrow> y < x \<or> descends (y # xs)"
| "descends _ \<longleftrightarrow> False"

fun check_participants :: "string set \<Rightarrow> move_participant list \<Rightarrow> codec_error + unit" where
  "check_participants modules [] = Inr ()"
| "check_participants modules (p # ps) =
    (if mp_module_id p \<in> modules then Inl ParticipantDuplicate
     else if \<not> distinct (mp_refs p) then Inl RefDuplicate
     else if descends (mp_refs p) then Inl RefUnsorted
     else check_participants (insert (mp_module_id p) modules) ps)"

definition validate_move :: "serde \<Rightarrow> string \<Rightarrow> move_record \<Rightarrow> codec_error + unit" where
  "validate_move S subject r = bind_res (check_version (mr_v r)) (\<lambda>_.
    if strip_prefix ''move:'' subject \<noteq> Some (mr_cut_id r) then Inl CutIdMismatch
    else if \<not> valid_cut_id (mr_cut_id r) then Inl MalformedBody
    else if some_and (\<lambda>d. length d \<noteq> 64 \<or> \<not> list_all lower_hex d) (mr_pin_digest r) then Inl MalformedBody
    else bind_res (check_participants {} (mr_participants r)) (\<lambda>_.
      if descends (map mp_module_id (mr_participants r)) then Inl ParticipantUnsorted
      else if some_and (\<lambda>d. length (sj_write S d) > DETAIL_CAP) (mr_detail r) then Inl DetailTooLarge
      else if (mr_state r \<noteq> Aborted \<and> (is_some (mr_reason r) \<or> is_some (mr_detail r)))
          \<or> (mr_state r = Aborted \<and> \<not> is_some (mr_reason r)) then Inl MalformedBody
      else Inr ()))"

definition check_move_size :: "move_state \<Rightarrow> nat \<Rightarrow> codec_error + unit" where
  "check_move_size st len =
    (if len > BODY_CAP then Inl BodyTooLarge
     else if st \<noteq> Aborted \<and> len > MOVE_BODY_CAP then Inl MoveTooLarge
     else Inr ())"

definition encode_move_record :: "serde \<Rightarrow> string \<Rightarrow> move_record \<Rightarrow> codec_error + string" where
  "encode_move_record S subject r = bind_res (validate_move S subject r) (\<lambda>_.
    let body = sj_write S (move_tree r) in
    bind_res (check_move_size (mr_state r) (length body)) (\<lambda>_. Inr body))"

definition decode_move_record :: "serde \<Rightarrow> string \<Rightarrow> string \<Rightarrow> codec_error + move_record" where
  "decode_move_record S subject body = bind_res (wire_value S body) (\<lambda>value.
    if jget value ''reason'' = None \<or> jget value ''detail'' = None then Inl MalformedBody
    else bind_res (ok_or (Option.bind (sj_read S body) move_of_raw) MalformedBody) (\<lambda>r.
      bind_res (validate_move S subject r) (\<lambda>_.
      bind_res (check_move_size (mr_state r) (length body)) (\<lambda>_. Inr r))))"

section \<open>Abort records\<close>

text \<open>
  A Rust \<open>char\<close> of a \<open>String\<close> is a byte and the continuation bytes that follow it.
  \<open>summary_string\<close> keeps 512 of them and then drops the last until the text encodes small.
\<close>

fun utf8_chars :: "string \<Rightarrow> string list" where
  "utf8_chars [] = []"
| "utf8_chars (c # s) = (case utf8_chars s of
     (d # ds) # cs \<Rightarrow> if 128 \<le> byte d \<and> byte d < 192 then (c # d # ds) # cs else [c] # (d # ds) # cs
   | cs \<Rightarrow> [c] # cs)"

function pop_until :: "serde \<Rightarrow> string list \<Rightarrow> string list" where
  "pop_until S cs = (if cs \<noteq> [] \<and> length (sj_write S (JStr (concat cs))) > 512
     then pop_until S (butlast cs) else cs)"
  by pat_completeness auto
termination
  by (relation "measure (\<lambda>(S, cs). length cs)") auto

declare pop_until.simps [simp del]

definition summary_string :: "serde \<Rightarrow> json option \<Rightarrow> json" where
  "summary_string S v = (case Option.bind v as_str of None \<Rightarrow> JNull
     | Some s \<Rightarrow> JStr (concat (pop_until S (take 512 (utf8_chars s)))))"

definition has_str :: "json \<Rightarrow> string \<Rightarrow> bool" where
  "has_str v k = is_some (Option.bind (jget v k) as_str)"

definition copy_summary :: "serde \<Rightarrow> json \<Rightarrow> string \<Rightarrow> json \<Rightarrow> json" where
  "copy_summary S detail k summary =
    (if has_str detail k then jset summary k (summary_string S (jget detail k)) else summary)"

definition diverged :: "json \<Rightarrow> bool" where
  "diverged detail = some_and (\<lambda>s. s \<in> {''unknown'', ''advanced''}) (Option.bind (jget detail ''state'') as_str)"

definition bounded_detail :: "serde \<Rightarrow> json \<Rightarrow> json" where
  "bounded_detail S detail =
    (if length (sj_write S detail) \<le> DETAIL_CAP then detail
     else let summary = JObj (bt_of_list [(''truncated'', JBool True),
            (''op'', summary_string S (jget detail ''op'')), (''code'', summary_string S (jget detail ''code''))]);
          summary = copy_summary S detail ''module_id'' summary in
       if diverged detail then
         let summary = copy_summary S detail ''state'' (copy_summary S detail ''ref'' summary) in
         if has_str detail ''reason'' then jset summary ''reason'' (jidx detail ''reason'') else summary
       else summary)"

definition aborted_record :: "serde \<Rightarrow> move_record \<Rightarrow> move_reason \<Rightarrow> json option \<Rightarrow> move_record" where
  "aborted_record S r reason detail =
    r\<lparr>mr_state := Aborted, mr_reason := Some reason, mr_detail := map_option (bounded_detail S) detail\<rparr>"

section \<open>Inboxes\<close>

fun check_pending :: "string set \<Rightarrow> pending_move list \<Rightarrow> codec_error + unit" where
  "check_pending cuts [] = Inr ()"
| "check_pending cuts (p # ps) =
    (if \<not> valid_cut_id (pm_cut_id p) then Inl MalformedBody
     else if pm_cut_id p \<in> cuts then Inl InboxDuplicate
     else check_pending (insert (pm_cut_id p) cuts) ps)"

definition validate_inbox :: "inbox_record \<Rightarrow> codec_error + unit" where
  "validate_inbox b = bind_res (check_version (in_v b)) (\<lambda>_.
    if length (in_pending b) > INBOX_CAP then Inl InboxFull else check_pending {} (in_pending b))"

definition encode_inbox_record :: "serde \<Rightarrow> inbox_record \<Rightarrow> codec_error + string" where
  "encode_inbox_record S b = bind_res (validate_inbox b) (\<lambda>_.
    let body = sj_write S (inbox_tree b) in
    if length body > BODY_CAP then Inl BodyTooLarge else Inr body)"

definition decode_inbox_record :: "serde \<Rightarrow> string \<Rightarrow> codec_error + inbox_record" where
  "decode_inbox_record S body = bind_res (wire_value S body) (\<lambda>_.
    bind_res (ok_or (Option.bind (sj_read S body) inbox_of_raw) MalformedBody) (\<lambda>b.
    bind_res (validate_inbox b) (\<lambda>_. Inr b)))"

definition append_inbox :: "serde \<Rightarrow> inbox_record \<Rightarrow> pending_move \<Rightarrow> codec_error + inbox_record" where
  "append_inbox S b e = bind_res (validate_inbox b) (\<lambda>_.
    if list_ex (\<lambda>old. pm_cut_id old = pm_cut_id e) (in_pending b) then Inr b
    else let appended = b\<lparr>in_pending := in_pending b @ [e]\<rparr> in
      bind_res (encode_inbox_record S appended) (\<lambda>_. Inr appended))"

definition remove_inbox :: "inbox_record \<Rightarrow> string \<Rightarrow> codec_error + inbox_record" where
  "remove_inbox b cut_id = bind_res (validate_inbox b) (\<lambda>_.
    Inr (b\<lparr>in_pending := filter (\<lambda>e. pm_cut_id e \<noteq> cut_id) (in_pending b)\<rparr>))"

section \<open>Transitions\<close>

definition allowed_transition :: "move_state option \<Rightarrow> move_state \<Rightarrow> move_side \<Rightarrow> bool" where
  "allowed_transition from to w \<longleftrightarrow> (from, to, w) \<in> set [
     (None, Published, Source), (Some Published, Staged, Receiver), (Some Staged, Claimed, Receiver),
     (Some Claimed, Activated, Receiver), (Some Activated, Released, Source),
     (Some Published, Aborted, Source), (Some Published, Aborted, Receiver),
     (Some Staged, Aborted, Receiver), (Some Claimed, Aborted, Receiver)]"

definition check_transition :: "move_state option \<Rightarrow> move_state \<Rightarrow> move_side \<Rightarrow> codec_error + unit" where
  "check_transition from to w = (if allowed_transition from to w then Inr () else Inl InvalidTransition)"

datatype record_writer = OnlySource | OnlyReceiver | EitherSide

definition required_writer :: "move_state \<Rightarrow> record_writer" where
  "required_writer st = (case st of Published \<Rightarrow> OnlySource | Released \<Rightarrow> OnlySource
     | Staged \<Rightarrow> OnlyReceiver | Claimed \<Rightarrow> OnlyReceiver | Activated \<Rightarrow> OnlyReceiver | Aborted \<Rightarrow> EitherSide)"

definition check_record_author :: "move_record \<Rightarrow> string \<Rightarrow> codec_error + unit" where
  "check_record_author r author =
    (if (case required_writer (mr_state r) of OnlySource \<Rightarrow> author = mr_from r
         | OnlyReceiver \<Rightarrow> author = mr_to r | EitherSide \<Rightarrow> author = mr_from r \<or> author = mr_to r)
     then Inr () else Inl AuthorMismatch)"

definition check_pinned_plan :: "move_record \<Rightarrow> move_record \<Rightarrow> codec_error + unit" where
  "check_pinned_plan pinned current =
    (if mr_agent_id pinned = mr_agent_id current \<and> mr_from pinned = mr_from current
        \<and> mr_to pinned = mr_to current \<and> mr_claim_version pinned = mr_claim_version current
        \<and> mr_participants pinned = mr_participants current \<and> mr_pin_digest pinned = mr_pin_digest current
     then Inr () else Inl PlanMismatch)"

text \<open>The write ids: the first 16 bytes of the BLAKE3 hash, a parameter, of a spelled write.\<close>

definition side_str :: "move_side \<Rightarrow> string" where
  "side_str s = (case s of Source \<Rightarrow> ''source'' | Receiver \<Rightarrow> ''receiver'')"

definition write_id :: "(string \<Rightarrow> char list) \<Rightarrow> string \<Rightarrow> char list" where
  "write_id blake3 input = take 16 (blake3 input)"

definition move_write_id :: "(string \<Rightarrow> char list) \<Rightarrow> string \<Rightarrow> move_side \<Rightarrow> move_state \<Rightarrow> char list" where
  "move_write_id blake3 cut_id side to =
    write_id blake3 (''move:'' @ cut_id @ '':'' @ side_str side @ '':'' @ state_str to)"

datatype claim_write = TakeClaim | ReturnClaim

definition claim_write_id :: "(string \<Rightarrow> char list) \<Rightarrow> string \<Rightarrow> claim_write \<Rightarrow> char list" where
  "claim_write_id blake3 cut_id op =
    write_id blake3 (''claim:'' @ cut_id @ '':'' @ (case op of TakeClaim \<Rightarrow> ''take'' | ReturnClaim \<Rightarrow> ''return''))"

section \<open>What the codec accepts\<close>

lemma descends_iff: "descends xs \<longleftrightarrow> \<not> sorted xs"
  by (induction xs rule: descends.induct) (auto simp: not_less intro: order_trans)

lemma check_participants_Inr:
  "check_participants ms ps = Inr u \<longleftrightarrow> distinct (map mp_module_id ps) \<and> set (map mp_module_id ps) \<inter> ms = {}
    \<and> (\<forall>p \<in> set ps. sorted_wrt (<) (mp_refs p))"
  by (induction ps arbitrary: ms) (auto simp: descends_iff strict_sorted_iff)

definition well_formed_move :: "serde \<Rightarrow> string \<Rightarrow> move_record \<Rightarrow> bool" where
  "well_formed_move S subject r \<longleftrightarrow> mr_v r = 1 \<and> subject = ''move:'' @ mr_cut_id r \<and> valid_cut_id (mr_cut_id r)
     \<and> none_or (\<lambda>d. length d = 64 \<and> list_all lower_hex d) (mr_pin_digest r)
     \<and> sorted_wrt (<) (map mp_module_id (mr_participants r))
     \<and> list_all (\<lambda>p. sorted_wrt (<) (mp_refs p)) (mr_participants r)
     \<and> none_or (\<lambda>d. length (sj_write S d) \<le> DETAIL_CAP) (mr_detail r)
     \<and> (if mr_state r = Aborted then is_some (mr_reason r) else mr_reason r = None \<and> mr_detail r = None)"

lemma check_version_Inr [simp]: "check_version v = Inr u \<longleftrightarrow> v = 1"
  by (simp add: check_version_def)

lemma is_some_iff: "is_some x \<longleftrightarrow> x \<noteq> None"
  by (cases x) auto

lemma validate_move_Inr: "validate_move S subject r = Inr u \<longleftrightarrow> well_formed_move S subject r"
  unfolding validate_move_def well_formed_move_def bind_res_eq_Inr if_Inl_eq_Inr check_version_Inr
    check_participants_Inr descends_iff strict_sorted_iff strip_prefix_Some
  by (cases "mr_pin_digest r"; cases "mr_detail r")
    (auto simp: strict_sorted_iff list_all_iff is_some_iff not_less)

lemma check_move_size_Inr: "check_move_size st n = Inr u \<longleftrightarrow> n \<le> (if st = Aborted then BODY_CAP else MOVE_BODY_CAP)"
  by (auto simp: check_move_size_def MOVE_BODY_CAP_def)

lemma encode_move_Inr: "encode_move_record S subject r = Inr body \<longleftrightarrow> well_formed_move S subject r
    \<and> body = sj_write S (move_tree r) \<and> length body \<le> (if mr_state r = Aborted then BODY_CAP else MOVE_BODY_CAP)"
  by (auto simp: encode_move_record_def bind_res_eq_Inr validate_move_Inr check_move_size_Inr Let_def)

lemma decode_move_Inr: "decode_move_record S subject body = Inr r \<longleftrightarrow> (\<exists>value. wire_value S body = Inr value
    \<and> jget value ''reason'' \<noteq> None \<and> jget value ''detail'' \<noteq> None)
    \<and> Option.bind (sj_read S body) move_of_raw = Some r \<and> well_formed_move S subject r
    \<and> length body \<le> (if mr_state r = Aborted then BODY_CAP else MOVE_BODY_CAP)"
  by (auto simp: decode_move_record_def bind_res_eq_Inr validate_move_Inr check_move_size_Inr)

section \<open>Reading back what was written\<close>

text \<open>The events of a tree, and the values a map of the library can hold.\<close>

fun events :: "json \<Rightarrow> raw" where
  "events JNull = RNull"
| "events (JBool b) = RBool b"
| "events (JNum (PosInt n)) = RU64 n"
| "events (JNum (NegInt i)) = RI64 i"
| "events (JNum (Float x)) = RF64 (Some x)"
| "events (JStr s) = RStr s"
| "events (JArr a) = RSeq (map events a)"
| "events (JObj m) = RMap (map (\<lambda>(k, v). (k, events v)) m)"

fun proper :: "json \<Rightarrow> bool" where
  "proper (JNum (NegInt i)) \<longleftrightarrow> i < 0"
| "proper (JArr a) \<longleftrightarrow> list_all proper a"
| "proper (JObj m) \<longleftrightarrow> bt_inv m \<and> list_all (\<lambda>(k, v). proper v) m"
| "proper _ \<longleftrightarrow> True"

lemma bt_insert_last: "\<forall>x \<in> fst ` set m. x < k \<Longrightarrow> bt_insert k v m = m @ [(k, v)]"
  by (induction m) (auto dest: less_asym)

lemma members_of_raw_sorted:
  "sorted_wrt (<) (map fst (acc @ m)) \<Longrightarrow> \<forall>(k, v) \<in> set m. value_of_raw (events v) = v \<Longrightarrow>
    members_of_raw (map (\<lambda>(k, v). (k, events v)) m) acc = acc @ m"
proof (induction m arbitrary: acc)
  case (Cons p m)
  obtain k v where p: "p = (k, v)" by fastforce
  have "bt_insert k v acc = acc @ [(k, v)]"
    using Cons.prems(1) unfolding p by (intro bt_insert_last) (auto simp: sorted_wrt_append)
  then show ?case using Cons.IH [of "acc @ [p]"] Cons.prems unfolding p by simp
qed simp

lemma items_of_raw_map: "items_of_raw rs = map value_of_raw rs"
  by (induction rs) auto

lemma value_of_events: "proper v \<Longrightarrow> value_of_raw (events v) = v"
proof (induction v rule: events.induct)
  case (4 i)
  then show ?case by (simp add: num_of_int_def)
next
  case (7 a)
  then show ?case by (simp add: items_of_raw_map map_idI list_all_iff)
next
  case (8 m)
  have "\<forall>(k, v) \<in> set m. value_of_raw (events v) = v" using 8 by (auto simp: list_all_iff)
  then show ?case using 8 members_of_raw_sorted [of "[]" m] by (simp add: bt_inv_def)
qed auto

lemma members_of_raw_get: "bt_get (members_of_raw kvs m) k =
    (case map_of (rev kvs) k of Some r \<Rightarrow> Some (value_of_raw r) | None \<Rightarrow> bt_get m k)"
  by (induction kvs arbitrary: m) (auto simp: bt_get_insert map_add_def split: option.splits)

lemma reason_str_of [simp]: "reason_str (reason_of s) = s"
  by (auto simp: reason_of_def find_Some_iff split: option.split)

lemma find_injective: "distinct (map f xs) \<Longrightarrow> x \<in> set xs \<Longrightarrow> find (\<lambda>y. f y = f x) xs = Some x"
  by (induction xs) (auto simp: rev_image_eqI)

lemma reasons_distinct: "distinct (map reason_str known_reasons)"
  by code_simp

lemma reason_of_known: "r \<in> set known_reasons \<Longrightarrow> reason_of (reason_str r) = r"
  by (simp add: reason_of_def find_injective reasons_distinct)

lemma known_reasons_iff: "r \<in> set known_reasons \<longleftrightarrow> (\<forall>s. r \<noteq> OtherReason s)"
  by (cases r) (simp_all add: known_reasons_def)

lemma move_states_find: "map_of move_states (state_str st) = Some st"
  by (cases st; hypsubst; code_simp)

lemma collect_opt_map: "(\<And>x. x \<in> set xs \<Longrightarrow> f (g x) = Some x) \<Longrightarrow> collect_opt f (map g xs) = Some xs"
  by (induction xs) auto

definition external_proper :: "external_ref \<Rightarrow> bool" where
  "external_proper x \<longleftrightarrow> proper (xr_check x)"

definition move_proper :: "move_record \<Rightarrow> bool" where
  "move_proper r \<longleftrightarrow> list_all (\<lambda>p. list_all external_proper (mp_external p)) (mr_participants r)
     \<and> none_or proper (mr_detail r)"

text \<open>What a written record reads back as: a spelled reason is the known one and a null detail is none.\<close>

definition wire_normal :: "move_record \<Rightarrow> move_record" where
  "wire_normal r = r\<lparr>mr_reason := map_option (\<lambda>x. reason_of (reason_str x)) (mr_reason r),
     mr_detail := (if mr_detail r = Some JNull then None else mr_detail r)\<rparr>"

lemma ref_of_events: "ref_of_raw (events (ref_tree r)) = Some r"
  by (simp add: ref_of_raw_def ref_tree_def struct_fields_def raw_str_def)

lemma external_of_events: "external_proper x \<Longrightarrow> external_of_raw (events (external_tree x)) = Some x"
  by (simp add: external_of_raw_def external_tree_def struct_fields_def raw_str_def external_proper_def value_of_events)

lemma participant_of_events:
  "list_all external_proper (mp_external p) \<Longrightarrow> participant_of_raw (events (participant_tree p)) = Some p"
  by (simp add: participant_of_raw_def participant_tree_def struct_fields_def raw_str_def raw_list_def
      collect_opt_map ref_of_events external_of_events list_all_iff)

lemma raw_enum_state: "raw_enum move_states (RStr (state_str st)) = Some st"
  by (simp add: raw_enum_def move_states_find)

lemma participants_of_events: "move_proper r \<Longrightarrow>
    collect_opt participant_of_raw (map events (map participant_tree (mr_participants r))) = Some (mr_participants r)"
  unfolding map_map by (rule collect_opt_map) (simp add: participant_of_events move_proper_def list_all_iff)

lemma events_RNull [simp]: "events v = RNull \<longleftrightarrow> v = JNull"
  by (induction v rule: events.induct) auto

lemma raw_opt_value_events: "map_of fs k = Some (events (opt_tree (\<lambda>d. d) d)) \<Longrightarrow> none_or proper d \<Longrightarrow>
    raw_opt_value fs k = (if d = Some JNull then None else d)"
proof (cases d)
  case (Some v)
  assume "map_of fs k = Some (events (opt_tree (\<lambda>d. d) d))" "none_or proper d"
  then have get: "map_of fs k = Some (events v)" and v: "value_of_raw (events v) = v"
    using Some by (simp_all add: opt_tree_def value_of_events)
  have "raw_opt_value fs k = (if events v = RNull then None else Some (value_of_raw (events v)))"
    unfolding raw_opt_value_def get by (cases "events v") simp_all
  then show ?thesis using Some v by simp
qed (simp add: raw_opt_value_def opt_tree_def)

lemma events_reason: "events (opt_tree reason_tree x) = (case x of None \<Rightarrow> RNull | Some y \<Rightarrow> RStr (reason_str y))"
  by (cases x) (simp_all add: opt_tree_def reason_tree_def)

definition move_fields :: "move_record \<Rightarrow> (string \<times> raw) list" where
  "move_fields r = [(''v'', RU64 (mr_v r)), (''cut_id'', RStr (mr_cut_id r)), (''agent_id'', RStr (mr_agent_id r)),
     (''from'', RStr (mr_from r)), (''to'', RStr (mr_to r)), (''state'', RStr (state_str (mr_state r))),
     (''claim_version'', RU64 (mr_claim_version r)),
     (''participants'', RSeq (map events (map participant_tree (mr_participants r))))]
     @ (case mr_pin_digest r of None \<Rightarrow> [] | Some d \<Rightarrow> [(''pin_digest'', RStr d)])
     @ [(''reason'', case mr_reason r of None \<Rightarrow> RNull | Some y \<Rightarrow> RStr (reason_str y)),
        (''detail'', events (opt_tree (\<lambda>d. d) (mr_detail r)))]"

lemma events_move: "events (move_tree r) = RMap (move_fields r)"
  by (cases "mr_pin_digest r") (simp_all add: move_tree_def move_fields_def events_reason)

lemma move_fields_known: "struct_fields [''v'', ''cut_id'', ''agent_id'', ''from'', ''to'', ''state'',
    ''claim_version'', ''participants'', ''pin_digest'', ''reason'', ''detail''] (RMap (move_fields r)) = Some (move_fields r)"
  by (cases "mr_pin_digest r") (simp_all add: struct_fields_def move_fields_def)

lemma move_fields_get:
  "map_of (move_fields r) ''v'' = Some (RU64 (mr_v r))"
  "map_of (move_fields r) ''cut_id'' = Some (RStr (mr_cut_id r))"
  "map_of (move_fields r) ''agent_id'' = Some (RStr (mr_agent_id r))"
  "map_of (move_fields r) ''from'' = Some (RStr (mr_from r))"
  "map_of (move_fields r) ''to'' = Some (RStr (mr_to r))"
  "map_of (move_fields r) ''state'' = Some (RStr (state_str (mr_state r)))"
  "map_of (move_fields r) ''claim_version'' = Some (RU64 (mr_claim_version r))"
  "map_of (move_fields r) ''participants'' = Some (RSeq (map events (map participant_tree (mr_participants r))))"
  "map_of (move_fields r) ''pin_digest'' = map_option RStr (mr_pin_digest r)"
  "map_of (move_fields r) ''reason'' = Some (case mr_reason r of None \<Rightarrow> RNull | Some y \<Rightarrow> RStr (reason_str y))"
  "map_of (move_fields r) ''detail'' = Some (events (opt_tree (\<lambda>d. d) (mr_detail r)))"
  by (cases "mr_pin_digest r"; simp add: move_fields_def)+

lemma move_of_events: "move_proper r \<Longrightarrow> move_of_raw (events (move_tree r)) = Some (wire_normal r)"
  using participants_of_events [of r] raw_opt_value_events [OF move_fields_get(11), of r]
  by (cases "mr_pin_digest r"; cases "mr_reason r")
    (simp_all add: move_of_raw_def events_move move_fields_known raw_str_def raw_u64_def raw_list_def
      raw_opt_str_def raw_enum_state wire_normal_def move_proper_def move_fields_get del: map_map)

lemma map_of_rev: "distinct (map fst m) \<Longrightarrow> map_of (rev m) = map_of m"
proof (induction m)
  case (Cons p m)
  have "map_of (rev m @ [p]) = Map.empty(fst p \<mapsto> snd p) ++ map_of m" using Cons by simp
  also have "\<dots> = map_of m ++ Map.empty(fst p \<mapsto> snd p)"
    using Cons.prems by (intro map_add_comm) (auto simp: dom_map_of_conv_image_fst)
  finally show ?case by simp
qed simp

lemma jget_events: "distinct (map fst m) \<Longrightarrow> bt_get (members_of_raw (map (\<lambda>(k, v). (k, events v)) m) []) k = map_option (\<lambda>v. value_of_raw (events v)) (map_of m k)"
proof -
  assume d: "distinct (map fst m)"
  then have "distinct (map fst (map (\<lambda>(k, v). (k, events v)) m))" by (simp add: comp_def case_prod_unfold)
  then have "map_of (rev (map (\<lambda>(k, v). (k, events v)) m)) k = map_option events (map_of m k)"
    by (simp add: map_of_rev map_of_map)
  then show ?thesis using members_of_raw_get [of "map (\<lambda>(k, v). (k, events v)) m" "[]" k]
    by (cases "map_of m k") (simp_all add: bt_get_def)
qed

lemma wire_value_Inr: "wire_value S body = Inr value \<longleftrightarrow> length body \<le> BODY_CAP
    \<and> map_option value_of_raw (sj_read S body) = Some value \<and> jget value ''v'' = Some (JNum (PosInt 1))"
  by (auto simp: wire_value_def bind_res_eq_Inr split: option.splits json.splits jnum.splits)

lemma wire_value_move:
  assumes "sj_read S body = Some (events (move_tree r))" and "length body \<le> BODY_CAP" and "mr_v r = 1"
  shows "\<exists>value. wire_value S body = Inr value \<and> jget value ''reason'' \<noteq> None \<and> jget value ''detail'' \<noteq> None"
proof -
  obtain m where m: "move_tree r = JObj m" and d: "distinct (map fst m)"
    and get: "map_of m ''v'' = Some (JNum (PosInt 1))" "map_of m ''reason'' \<noteq> None" "map_of m ''detail'' \<noteq> None"
    using \<open>mr_v r = 1\<close> unfolding move_tree_def by (cases "mr_pin_digest r") simp_all
  show ?thesis
    using assms get by (simp add: wire_value_Inr m jget_events [OF d])
qed

lemma well_formed_normal: "well_formed_move S subject r \<Longrightarrow> well_formed_move S subject (wire_normal r)"
  by (auto simp: well_formed_move_def wire_normal_def is_some_iff)

lemma move_cap_le: "(if st = Aborted then BODY_CAP else MOVE_BODY_CAP) \<le> BODY_CAP"
  by (simp add: MOVE_BODY_CAP_def)

lemma move_roundtrip_aux:
  assumes enc: "encode_move_record S subject r = Inr body"
    and read: "sj_read S body = Some (events (move_tree r))" and r: "move_proper r"
  shows "decode_move_record S subject body = Inr (wire_normal r)"
proof -
  have wf: "well_formed_move S subject r" and len: "length body \<le> (if mr_state r = Aborted then BODY_CAP else MOVE_BODY_CAP)"
    using enc by (auto simp: encode_move_Inr)
  have "mr_v r = 1" using wf by (simp add: well_formed_move_def)
  then show ?thesis
    using wire_value_move [OF read] move_cap_le [of "mr_state r"] len read well_formed_normal [OF wf]
    by (simp add: decode_move_Inr move_of_events [OF r]) (simp add: wire_normal_def split: if_splits)
qed

section \<open>The inbox\<close>

lemma check_pending_Inr: "check_pending cuts ps = Inr u \<longleftrightarrow> list_all (\<lambda>p. valid_cut_id (pm_cut_id p)) ps
    \<and> distinct (map pm_cut_id ps) \<and> set (map pm_cut_id ps) \<inter> cuts = {}"
  by (induction ps arbitrary: cuts) auto

definition well_formed_inbox :: "inbox_record \<Rightarrow> bool" where
  "well_formed_inbox b \<longleftrightarrow> in_v b = 1 \<and> length (in_pending b) \<le> INBOX_CAP
     \<and> list_all (\<lambda>p. valid_cut_id (pm_cut_id p)) (in_pending b) \<and> distinct (map pm_cut_id (in_pending b))"

lemma validate_inbox_Inr: "validate_inbox b = Inr u \<longleftrightarrow> well_formed_inbox b"
  by (auto simp: validate_inbox_def well_formed_inbox_def bind_res_eq_Inr check_pending_Inr)

lemma encode_inbox_Inr: "encode_inbox_record S b = Inr body \<longleftrightarrow> well_formed_inbox b
    \<and> body = sj_write S (inbox_tree b) \<and> length body \<le> BODY_CAP"
  by (auto simp: encode_inbox_record_def bind_res_eq_Inr validate_inbox_Inr Let_def)

lemma pending_of_events: "pending_of_raw (events (pending_tree p)) = Some p"
  by (simp add: pending_of_raw_def pending_tree_def struct_fields_def raw_str_def)

lemma inbox_of_events: "inbox_of_raw (events (inbox_tree b)) = Some b"
  by (simp add: inbox_of_raw_def inbox_tree_def struct_fields_def raw_u64_def raw_list_def
      collect_opt_map pending_of_events)

lemma inbox_roundtrip_aux:
  assumes enc: "encode_inbox_record S b = Inr body" and read: "sj_read S body = Some (events (inbox_tree b))"
  shows "decode_inbox_record S body = Inr b"
proof -
  have wf: "well_formed_inbox b" and len: "length body \<le> BODY_CAP" using enc by (auto simp: encode_inbox_Inr)
  have "\<exists>value. wire_value S body = Inr value"
    using wf len read jget_events [of "[(''v'', JNum (PosInt 1)), (''pending'', JArr (map pending_tree (in_pending b)))]" "''v''"]
    by (simp add: wire_value_Inr inbox_tree_def well_formed_inbox_def)
  then show ?thesis using wf read
    by (auto simp: decode_inbox_record_def bind_res_eq_Inr validate_inbox_Inr inbox_of_events)
qed

lemma append_inbox_Inr: "append_inbox S b e = Inr c \<longleftrightarrow> well_formed_inbox b
    \<and> (if pm_cut_id e \<in> pm_cut_id ` set (in_pending b) then c = b
       else c = b\<lparr>in_pending := in_pending b @ [e]\<rparr> \<and> well_formed_inbox c \<and> length (sj_write S (inbox_tree c)) \<le> BODY_CAP)"
  by (auto simp: append_inbox_def bind_res_eq_Inr validate_inbox_Inr encode_inbox_Inr Let_def list_ex_iff image_iff)

lemma remove_inbox_Inr: "remove_inbox b k = Inr c \<longleftrightarrow> well_formed_inbox b
    \<and> c = b\<lparr>in_pending := filter (\<lambda>e. pm_cut_id e \<noteq> k) (in_pending b)\<rparr>"
  by (auto simp: remove_inbox_def bind_res_eq_Inr validate_inbox_Inr)

lemma remove_well_formed: "remove_inbox b k = Inr c \<Longrightarrow> well_formed_inbox c"
  unfolding remove_inbox_Inr well_formed_inbox_def
  by (auto simp: list_all_iff distinct_map inj_on_def intro: order_trans [OF length_filter_le])

section \<open>Sizes\<close>

text \<open>
  The compact JSON text \<open>to_vec\<close> writes: members and items separated by one comma, unescaped
  characters as they are, and every other byte of a string in at most two bytes, six for a control
  character.
\<close>

definition unescaped :: "char \<Rightarrow> bool" where
  "unescaped c \<longleftrightarrow> 32 \<le> byte c \<and> byte c < 127 \<and> c \<noteq> CHR 0x22 \<and> c \<noteq> CHR 0x5C"

definition not_control :: "char \<Rightarrow> bool" where
  "not_control c \<longleftrightarrow> 32 \<le> byte c \<and> byte c \<noteq> 127"

definition compact_writer :: "(json \<Rightarrow> string) \<Rightarrow> bool" where
  "compact_writer W \<longleftrightarrow> W JNull = ''null'' \<and> (\<forall>b. W (JBool b) = (if b then ''true'' else ''false''))
     \<and> (\<forall>n. W (JNum (PosInt n)) = show_nat n)
     \<and> (\<forall>s. list_all unescaped s \<longrightarrow> W (JStr s) = CHR 0x22 # s @ [CHR 0x22])
     \<and> (\<forall>s. list_all not_control s \<longrightarrow> length (W (JStr s)) \<le> 2 * length s + 2)
     \<and> (\<forall>s. length s + 2 \<le> length (W (JStr s)))
     \<and> (\<forall>a. W (JArr a) = CHR ''['' # join_on CHR '','' (map W a) @ '']'')
     \<and> (\<forall>m. W (JObj m) = CHR ''{'' # join_on CHR '','' (map (\<lambda>(k, v). W (JStr k) @ CHR '':'' # W v) m) @ ''}'')"

lemma length_join_on: "ps \<noteq> [] \<Longrightarrow> length (join_on d ps) + 1 = sum_list (map (\<lambda>p. length p + 1) ps)"
  by (induction d ps rule: join_on.induct) auto

text \<open>The length of an object: its members with one separator each.\<close>

definition member_size :: "(json \<Rightarrow> string) \<Rightarrow> string \<times> json \<Rightarrow> nat" where
  "member_size W p = length (W (JStr (fst p))) + length (W (snd p)) + 2"

lemma length_obj: "compact_writer W \<Longrightarrow> m \<noteq> [] \<Longrightarrow> length (W (JObj m)) = 1 + sum_list (map (member_size W) m)"
proof -
  assume W: "compact_writer W" and m: "m \<noteq> []"
  have "length (W (JObj m)) = Suc (length (join_on CHR '','' (map (\<lambda>(k, v). W (JStr k) @ CHR '':'' # W v) m)) + 1)"
    using W by (simp add: compact_writer_def)
  also have "\<dots> = Suc (sum_list (map (\<lambda>p. length p + 1) (map (\<lambda>(k, v). W (JStr k) @ CHR '':'' # W v) m)))"
    using m by (subst length_join_on) simp_all
  also have "\<dots> = 1 + sum_list (map (member_size W) m)"
    by (simp add: comp_def member_size_def [abs_def] case_prod_unfold add.commute)
  finally show ?thesis .
qed

lemma key_size: "compact_writer W \<Longrightarrow> list_all unescaped s \<Longrightarrow> length (W (JStr s)) = length s + 2"
  by (simp add: compact_writer_def)

lemma known_spellings: "list_all (\<lambda>r. list_all unescaped (reason_str r) \<and> length (reason_str r) \<le> 23) known_reasons"
  by code_simp

lemma reason_plain: "r \<in> set known_reasons \<Longrightarrow> list_all unescaped (reason_str r) \<and> length (reason_str r) \<le> 23"
  using known_spellings unfolding list_all_iff [of _ known_reasons] by blast

lemma state_plain: "list_all unescaped (state_str st)" "length (state_str st) \<in> {6..9}"
  by (cases st; simp add: unescaped_def byte_def)+

text \<open>The body of a record apart from the state, the reason and the detail.\<close>

definition plan_size :: "(json \<Rightarrow> string) \<Rightarrow> move_record \<Rightarrow> nat" where
  "plan_size W r = 1 + sum_list (map (member_size W) ([(''v'', JNum (PosInt (mr_v r))), (''cut_id'', JStr (mr_cut_id r)),
       (''agent_id'', JStr (mr_agent_id r)), (''from'', JStr (mr_from r)), (''to'', JStr (mr_to r)),
       (''claim_version'', JNum (PosInt (mr_claim_version r))),
       (''participants'', JArr (map participant_tree (mr_participants r)))]
     @ (case mr_pin_digest r of None \<Rightarrow> [] | Some d \<Rightarrow> [(''pin_digest'', JStr d)])))
     + length (W (JStr ''state'')) + length (W (JStr ''reason'')) + length (W (JStr ''detail'')) + 6"

lemma move_tree_size: "compact_writer W \<Longrightarrow> length (W (move_tree r)) = plan_size W r
    + length (W (JStr (state_str (mr_state r)))) + length (W (opt_tree reason_tree (mr_reason r)))
    + length (W (opt_tree (\<lambda>d. d) (mr_detail r)))"
  unfolding move_tree_def by (subst length_obj) (simp_all add: plan_size_def member_size_def)

text \<open>
  Why the reserve is enough: compared with the published body an abort changes the state, writes
  a known reason where \<open>null\<close> was, and a detail of at most \<open>DETAIL_CAP\<close> bytes.
\<close>

lemma abort_size:
  assumes W: "compact_writer W" and st: "mr_state r \<noteq> Aborted" and none: "mr_reason r = None" "mr_detail r = None"
    and cap: "length (W (move_tree r)) \<le> MOVE_BODY_CAP" and known: "reason \<in> set known_reasons"
    and detail: "none_or (\<lambda>d. length (W d) \<le> DETAIL_CAP) detail"
  shows "length (W (move_tree (r\<lparr>mr_state := Aborted, mr_reason := Some reason, mr_detail := detail\<rparr>))) \<le> BODY_CAP"
proof -
  have plan: "plan_size W (r\<lparr>mr_state := Aborted, mr_reason := Some reason, mr_detail := detail\<rparr>) = plan_size W r"
    by (simp add: plan_size_def)
  have "plan_size W r \<le> MOVE_BODY_CAP" using move_tree_size [OF W, of r] cap by simp
  moreover have "length (W (JStr ''aborted'')) = 9" using key_size [OF W, of "''aborted''"] by (simp add: unescaped_def byte_def)
  moreover have "length (W (JStr (reason_str reason))) \<le> 25"
    using key_size [OF W conjunct1 [OF reason_plain [OF known]]] reason_plain [OF known] by simp
  moreover have "length (W (opt_tree (\<lambda>d. d) detail)) \<le> DETAIL_CAP"
    using detail W by (cases detail) (simp_all add: opt_tree_def compact_writer_def DETAIL_CAP_def)
  ultimately show ?thesis unfolding move_tree_size [OF W] plan
    by (simp add: opt_tree_def reason_tree_def MOVE_BODY_CAP_def BODY_CAP_def DETAIL_CAP_def ABORT_RESERVE_def)
qed

section \<open>Bounded details\<close>

lemma concat_utf8_chars: "concat (utf8_chars s) = s"
  by (induction s rule: utf8_chars.induct) (auto split: list.splits)

text \<open>A summary keeps a prefix of the text and encodes to at most 512 bytes.\<close>

lemma pop_until_prefix: "\<exists>t. concat cs = concat (pop_until S cs) @ t"
proof (induction S cs rule: pop_until.induct)
  case (1 S cs)
  show ?case
  proof (cases "cs \<noteq> [] \<and> length (sj_write S (JStr (concat cs))) > 512")
    case True
    then have "concat cs = concat (butlast cs) @ last cs" by (metis append_butlast_last_id concat.simps concat_append append_Nil2)
    then show ?thesis using 1 True by (metis append.assoc pop_until.simps)
  next
    case False
    then have "pop_until S cs = cs" by (auto simp: pop_until.simps [of S cs])
    then show ?thesis by simp
  qed
qed

lemma pop_until_small: "compact_writer (sj_write S) \<Longrightarrow> length (sj_write S (JStr (concat (pop_until S cs)))) \<le> 512"
proof (induction S cs rule: pop_until.induct)
  case (1 S cs)
  show ?case
  proof (cases "cs \<noteq> [] \<and> length (sj_write S (JStr (concat cs))) > 512")
    case True
    then have "pop_until S cs = pop_until S (butlast cs)" by (subst pop_until.simps) simp
    then show ?thesis using 1 True by simp
  next
    case False
    then have "pop_until S cs = cs" by (auto simp: pop_until.simps [of S cs])
    moreover have "length (sj_write S (JStr [])) = 2" using key_size [OF "1.prems", of "[]"] by simp
    ultimately show ?thesis using False by auto
  qed
qed

lemma summary_prefix: "\<exists>p t. summary_string S (Some (JStr s)) = JStr p \<and> s = p @ t"
proof -
  obtain t where "concat (take 512 (utf8_chars s)) = concat (pop_until S (take 512 (utf8_chars s))) @ t"
    using pop_until_prefix by blast
  moreover have "s = concat (take 512 (utf8_chars s)) @ concat (drop 512 (utf8_chars s))"
    by (metis append_take_drop_id concat_append concat_utf8_chars)
  ultimately show ?thesis by (auto simp: summary_string_def)
qed

lemma summary_small: "compact_writer (sj_write S) \<Longrightarrow> length (sj_write S (summary_string S v)) \<le> 512"
  by (cases "Option.bind v as_str") (auto simp: summary_string_def pop_until_small, simp add: compact_writer_def)

lemma summary_plain: "compact_writer (sj_write S) \<Longrightarrow> list_all unescaped s \<Longrightarrow>
    length (sj_write S (summary_string S (Some (JStr s)))) \<le> length s + 2"
  using summary_prefix [of S s] key_size [of "sj_write S"] by auto

lemma summary_null: "compact_writer (sj_write S) \<Longrightarrow> \<not> has_str d k \<Longrightarrow> length (sj_write S (summary_string S (jget d k))) = 4"
  by (cases "Option.bind (jget d k) as_str") (auto simp: summary_string_def has_str_def compact_writer_def)

definition obj_size :: "(json \<Rightarrow> string) \<Rightarrow> json \<Rightarrow> nat" where
  "obj_size W v = (case v of JObj m \<Rightarrow> sum_list (map (member_size W) m) | _ \<Rightarrow> 0)"

lemma sum_bt_insert: "sum_list (map f (bt_insert k v m)) \<le> sum_list (map f m) + (f (k, v) :: nat)"
  by (induction k v m rule: bt_insert.induct) auto

lemma obj_size_jset: "obj_size W (jset s k v) \<le> obj_size W s + member_size W (k, v)"
  using sum_bt_insert [of "member_size W" k v] by (cases s) (simp_all add: obj_size_def jset_def)

lemma copy_summary_size: "compact_writer (sj_write S) \<Longrightarrow> list_all unescaped k \<Longrightarrow>
    obj_size (sj_write S) (copy_summary S d k s) \<le> obj_size (sj_write S) s + length k + 516"
  using obj_size_jset [of "sj_write S" s k "summary_string S (jget d k)"] summary_small [of S "jget d k"]
    key_size [of "sj_write S" k]
  by (auto simp: copy_summary_def member_size_def)

lemma is_obj_jset: "\<exists>m. jset (JObj n) k v = JObj m \<and> m \<noteq> []"
proof -
  have "fst ` set (bt_insert k v n) \<noteq> {}" by (simp add: set_keys_insert)
  then show ?thesis by (auto simp: jset_def)
qed

lemma write_obj_size: "compact_writer W \<Longrightarrow> m \<noteq> [] \<Longrightarrow> length (W (JObj m)) = 1 + obj_size W (JObj m)"
  by (simp add: length_obj obj_size_def)

section \<open>Details that fit\<close>

text \<open>
  A diagnostic the participant protocol can produce: one about a diverged reference names no
  operation and no code, and its reason is at most 256 bytes without control characters.
\<close>

definition reportable :: "json \<Rightarrow> bool" where
  "reportable d \<longleftrightarrow> (diverged d \<longrightarrow> \<not> has_str d ''op'' \<and> \<not> has_str d ''code''
     \<and> none_or (\<lambda>s. list_all not_control s \<and> length s \<le> 256) (Option.bind (jget d ''reason'') as_str))"

lemma copy_summary_obj: "m \<noteq> [] \<Longrightarrow> \<exists>n. copy_summary S d k (JObj m) = JObj n \<and> n \<noteq> []"
  using is_obj_jset by (auto simp: copy_summary_def)

lemma plain_keys: "list_all unescaped ''op''" "list_all unescaped ''code''" "list_all unescaped ''truncated''"
  "list_all unescaped ''module_id''" "list_all unescaped ''ref''" "list_all unescaped ''state''"
  "list_all unescaped ''reason''" "list_all unescaped ''unknown''" "list_all unescaped ''advanced''"
  by (simp_all add: unescaped_def byte_def)

lemma copy_state_size:
  assumes W: "compact_writer (sj_write S)" and d: "diverged d"
  shows "obj_size (sj_write S) (copy_summary S d ''state'' s) \<le> obj_size (sj_write S) s + 19"
proof -
  obtain x where x: "jget d ''state'' = Some (JStr x)" and "x = ''unknown'' \<or> x = ''advanced''"
    using d by (auto simp: diverged_def some_and_def bind_eq_Some_conv split: option.splits)
  then have "list_all unescaped x \<and> length x \<le> 8" using plain_keys(8,9) by auto
  then have "length (sj_write S (summary_string S (jget d ''state''))) \<le> 10"
    using summary_plain [OF W, of x] unfolding x by simp
  then show ?thesis using obj_size_jset [of "sj_write S" s "''state''" "summary_string S (jget d ''state'')"]
    key_size [OF W plain_keys(6)] by (auto simp: copy_summary_def member_size_def)
qed

lemma reason_member_size:
  assumes W: "compact_writer (sj_write S)" and d: "reportable d" "diverged d" "has_str d ''reason''"
  shows "obj_size (sj_write S) (jset s ''reason'' (jidx d ''reason'')) \<le> obj_size (sj_write S) s + 524"
proof -
  obtain x where x: "jget d ''reason'' = Some (JStr x)" using d(3) by (auto simp: has_str_def is_some_iff bind_eq_Some_conv)
  then have "list_all not_control x \<and> length x \<le> 256" using d by (simp add: reportable_def)
  then have "length (sj_write S (JStr x)) \<le> 514" using W by (fastforce simp: compact_writer_def)
  then show ?thesis using obj_size_jset [of "sj_write S" s "''reason''" "JStr x"] key_size [OF W plain_keys(7)] x
    by (simp add: member_size_def jidx_def)
qed

lemma summary_base:
  assumes W: "compact_writer (sj_write S)"
  shows "obj_size (sj_write S) (JObj (bt_of_list [(''truncated'', JBool True),
            (''op'', summary_string S (jget d ''op'')), (''code'', summary_string S (jget d ''code''))]))
      = length (sj_write S (summary_string S (jget d ''op''))) + length (sj_write S (summary_string S (jget d ''code''))) + 31"
proof -
  have "length (sj_write S (JBool True)) = 4" using W by (simp add: compact_writer_def)
  then show ?thesis using key_size [OF W plain_keys(1)] key_size [OF W plain_keys(2)] key_size [OF W plain_keys(3)]
    by (simp add: bt_of_list_def obj_size_def member_size_def)
qed

lemma bounded_detail_fits:
  assumes W: "compact_writer (sj_write S)" and d: "reportable d"
  shows "length (sj_write S (bounded_detail S d)) \<le> DETAIL_CAP"
proof (cases "length (sj_write S d) \<le> DETAIL_CAP")
  case False
  define base where "base = JObj (bt_of_list [(''truncated'', JBool True),
            (''op'', summary_string S (jget d ''op'')), (''code'', summary_string S (jget d ''code''))])"
  define named where "named = copy_summary S d ''module_id'' base"
  obtain b where base_obj: "base = JObj b" "b \<noteq> []" by (simp add: base_def bt_of_list_def)
  then obtain n where named_obj: "named = JObj n" "n \<noteq> []" using copy_summary_obj [of b S d "''module_id''"] by (auto simp: named_def)
  have small: "length (sj_write S (summary_string S (jget d k))) \<le> 512" for k by (rule summary_small [OF W])
  have named: "obj_size (sj_write S) named \<le> obj_size (sj_write S) base + 525"
    using copy_summary_size [OF W plain_keys(4), of d base] by (simp add: named_def)
  have size: "obj_size (sj_write S) base = length (sj_write S (summary_string S (jget d ''op'')))
      + length (sj_write S (summary_string S (jget d ''code''))) + 31"
    unfolding base_def by (rule summary_base [OF W])
  show ?thesis
  proof (cases "diverged d")
    case False
    then have "bounded_detail S d = named" using \<open>\<not> length (sj_write S d) \<le> DETAIL_CAP\<close>
      by (simp add: bounded_detail_def named_def base_def)
    moreover have "length (sj_write S named) = 1 + obj_size (sj_write S) named"
      unfolding named_obj by (rule write_obj_size [OF W named_obj(2)])
    ultimately show ?thesis using named size small [of "''op''"] small [of "''code''"] by (simp add: DETAIL_CAP_def)
  next
    case True
    define located where "located = copy_summary S d ''state'' (copy_summary S d ''ref'' named)"
    obtain l where loc_obj: "located = JObj l" "l \<noteq> []"
      using copy_summary_obj [OF named_obj(2), of S d "''ref''"] copy_summary_obj [of _ S d "''state''"]
      unfolding located_def named_obj by metis
    define whole where "whole = (if has_str d ''reason'' then jset located ''reason'' (jidx d ''reason'') else located)"
    have whole: "bounded_detail S d = whole" using True \<open>\<not> length (sj_write S d) \<le> DETAIL_CAP\<close>
      by (simp add: bounded_detail_def whole_def located_def named_def base_def Let_def)
    obtain w where whole_obj: "whole = JObj w" "w \<noteq> []"
      using is_obj_jset [of l] loc_obj unfolding whole_def by (cases "has_str d ''reason''") auto
    have "obj_size (sj_write S) base = 39"
      using size summary_null [OF W] d True by (simp add: reportable_def)
    moreover have "obj_size (sj_write S) located \<le> obj_size (sj_write S) named + 519 + 19"
      using copy_state_size [OF W True, of "copy_summary S d ''ref'' named"] copy_summary_size [OF W plain_keys(5), of d named]
      by (simp add: located_def)
    moreover have "obj_size (sj_write S) whole \<le> obj_size (sj_write S) located + 524"
      using reason_member_size [OF W d True] by (simp add: whole_def)
    moreover have "length (sj_write S whole) = 1 + obj_size (sj_write S) whole"
      unfolding whole_obj by (rule write_obj_size [OF W whole_obj(2)])
    ultimately show ?thesis using named whole by (simp add: DETAIL_CAP_def)
  qed
qed (simp add: bounded_detail_def)

section \<open>A concrete writer\<close>

definition escape_char :: "char \<Rightarrow> string" where
  "escape_char c = (if c = CHR 0x22 \<or> c = CHR 0x5C then [CHR 0x5C, c] else [c])"

fun demo_write :: "json \<Rightarrow> string" where
  "demo_write JNull = ''null''"
| "demo_write (JBool b) = (if b then ''true'' else ''false'')"
| "demo_write (JNum (PosInt n)) = show_nat n"
| "demo_write (JNum (NegInt i)) = show_int i"
| "demo_write (JNum (Float x)) = ''0.0''"
| "demo_write (JStr s) = CHR 0x22 # concat (map escape_char s) @ [CHR 0x22]"
| "demo_write (JArr a) = CHR ''['' # join_on CHR '','' (map demo_write a) @ '']''"
| "demo_write (JObj m) = CHR ''{'' # join_on CHR '',''
     (map (\<lambda>(k, v). (CHR 0x22 # concat (map escape_char k) @ [CHR 0x22]) @ CHR '':'' # demo_write v) m) @ ''}''"

lemma escape_unescaped: "list_all unescaped s \<Longrightarrow> concat (map escape_char s) = s"
  by (induction s) (auto simp: escape_char_def unescaped_def)

lemma escape_length: "length s \<le> length (concat (map escape_char s))" "length (concat (map escape_char s)) \<le> 2 * length s"
  by (induction s) (auto simp: escape_char_def)

lemma demo_compact: "compact_writer demo_write"
  by (simp add: compact_writer_def escape_unescaped escape_length del: length_concat)

definition demo_move :: move_record where
  "demo_move = \<lparr>mr_v = 1, mr_cut_id = ''0123456789abcdef0123456789abcdef'', mr_agent_id = ''agent-a'',
     mr_from = ''machine-a'', mr_to = ''machine-b'', mr_state = Published, mr_claim_version = 3,
     mr_participants = [\<lparr>mp_module_id = ''alpha'', mp_refs = [MoveRef ''pi-session'' ''session-a''],
        mp_external = [\<lparr>xr_ref_kind = ''pi-session'', xr_reference = ''session-a'', xr_note = ''Copy the transcript'',
           xr_check = JObj [(''digest'', JStr ''abc''), (''row'', JNum (PosInt 7))]\<rparr>]\<rparr>],
     mr_pin_digest = None, mr_reason = None, mr_detail = None\<rparr>"

definition demo_serde :: serde where
  "demo_serde = \<lparr>sj_write = demo_write, sj_read = (\<lambda>_. Some (events (move_tree demo_move)))\<rparr>"

definition demo_subject :: string where
  "demo_subject = ''move:'' @ mr_cut_id demo_move"

lemma demo_encodes: "encode_move_record demo_serde demo_subject demo_move = Inr (demo_write (move_tree demo_move))"
  by code_simp

lemma demo_proper: "move_proper demo_move"
  by code_simp

section \<open>The properties of the codec\<close>

text \<open>C28. A record that encodes reads back as itself under the same subject, when the library reads
  the text as it was written: an unknown reason stays as spelled, and a null detail is no detail.\<close>

theorem move_roundtrip:
  assumes "encode_move_record S subject r = Inr body"
    and "sj_read S body = Some (events (move_tree r))" and "move_proper r"
  shows "decode_move_record S subject body = Inr (wire_normal r)"
  using assms by (rule move_roundtrip_aux)

lemma move_roundtrip_witness:
  "\<exists>body. encode_move_record demo_serde demo_subject demo_move = Inr body
     \<and> decode_move_record demo_serde demo_subject body = Inr (wire_normal demo_move) \<and> wire_normal demo_move = demo_move"
proof -
  have "sj_read demo_serde (demo_write (move_tree demo_move)) = Some (events (move_tree demo_move))"
    by (simp add: demo_serde_def)
  from move_roundtrip [OF demo_encodes this demo_proper] show ?thesis
    using demo_encodes by (auto simp: wire_normal_def demo_move_def)
qed

text \<open>C18. The reserve is enough: a record that was published within \<open>MOVE_BODY_CAP\<close> can always be
  aborted, with any known reason and any diagnostic a participant can report, however large, and
  the abort record still encodes within \<open>BODY_CAP\<close>.\<close>

theorem abort_always_fits:
  assumes W: "compact_writer (sj_write S)"
    and enc: "encode_move_record S subject r = Inr body" and open_move: "mr_state r \<noteq> Aborted"
    and known: "reason \<in> set known_reasons" and detail: "none_or reportable detail"
  shows "\<exists>aborted. encode_move_record S subject (aborted_record S r reason detail) = Inr aborted
    \<and> length aborted \<le> BODY_CAP"
proof -
  have wf: "well_formed_move S subject r" and cap: "length (sj_write S (move_tree r)) \<le> MOVE_BODY_CAP"
    using enc open_move by (auto simp: encode_move_Inr)
  have none: "mr_reason r = None" "mr_detail r = None" using wf open_move by (simp_all add: well_formed_move_def)
  have small: "none_or (\<lambda>d. length (sj_write S d) \<le> DETAIL_CAP) (map_option (bounded_detail S) detail)"
    using detail bounded_detail_fits [OF W] by (cases detail) simp_all
  have "well_formed_move S subject (aborted_record S r reason detail)"
    using wf small by (simp add: well_formed_move_def aborted_record_def)
  moreover have "length (sj_write S (move_tree (aborted_record S r reason detail))) \<le> BODY_CAP"
    unfolding aborted_record_def by (rule abort_size [OF W open_move none cap known small])
  ultimately show ?thesis by (simp add: encode_move_Inr aborted_record_def)
qed

definition demo_detail :: json where
  "demo_detail = JObj [(''module_id'', JStr ''alpha''), (''op'', JStr (replicate 3000 CHR ''x''))]"

lemma abort_always_fits_witness:
  "\<exists>aborted. encode_move_record demo_serde demo_subject (aborted_record demo_serde demo_move ParticipantRefused (Some demo_detail))
     = Inr aborted \<and> length aborted \<le> BODY_CAP"
proof -
  have "compact_writer (sj_write demo_serde)" by (simp add: demo_serde_def demo_compact)
  moreover have "reportable demo_detail"
    by (simp add: reportable_def diverged_def demo_detail_def bt_get_def)
  ultimately show ?thesis
    using abort_always_fits [OF _ demo_encodes, of ParticipantRefused "Some demo_detail"]
    by (simp add: demo_move_def known_reasons_def)
qed

lemma validate_detail_over:
  assumes "well_formed_move S subject r" and "DETAIL_CAP < length (sj_write S d)"
  shows "validate_move S subject (r\<lparr>mr_state := st, mr_reason := reason, mr_detail := Some d\<rparr>) = Inl DetailTooLarge"
proof -
  have "check_participants {} (mr_participants r) = Inr ()"
    using assms by (auto simp: well_formed_move_def check_participants_Inr strict_sorted_iff list_all_iff)
  then show ?thesis using assms
    by (cases "mr_pin_digest r")
      (auto simp: validate_move_def well_formed_move_def check_version_def descends_iff strict_sorted_iff)
qed

text \<open>The summary of a diagnostic about a diverged reference copies its reason whole: with a reason
  of at least \<open>DETAIL_CAP\<close> bytes the bounded detail is over the cap and no abort record encodes.\<close>

theorem diverged_reason_unbounded:
  assumes W: "compact_writer (sj_write S)" and enc: "encode_move_record S subject r = Inr body"
    and long: "DETAIL_CAP \<le> length s"
  shows "encode_move_record S subject (aborted_record S r reason (Some (JObj [(''reason'', JStr s), (''state'', JStr ''unknown'')])))
    = Inl DetailTooLarge"
proof -
  let ?d = "JObj [(''reason'', JStr s), (''state'', JStr ''unknown'')]"
  have str: "length s + 2 \<le> length (sj_write S (JStr s))" using W by (simp add: compact_writer_def)
  have over: "DETAIL_CAP < length (sj_write S (JObj m))" if "(''reason'', JStr s) \<in> set m" for m
  proof -
    have "member_size (sj_write S) (''reason'', JStr s) \<le> sum_list (map (member_size (sj_write S)) m)"
      using that by (intro member_le_sum_list) auto
    moreover have "m \<noteq> []" using that by auto
    ultimately show ?thesis using length_obj [OF W, of m] str long by (simp add: member_size_def)
  qed
  have "\<exists>m. bounded_detail S ?d = JObj m \<and> (''reason'', JStr s) \<in> set m"
    using over [of "[(''reason'', JStr s), (''state'', JStr ''unknown'')]"]
    by (simp add: bounded_detail_def diverged_def has_str_def copy_summary_def bt_get_def jidx_def jset_def bt_of_list_def not_le)
  then have "DETAIL_CAP < length (sj_write S (bounded_detail S ?d))" using over by auto
  moreover have "well_formed_move S subject r" using enc by (simp add: encode_move_Inr)
  ultimately have "validate_move S subject (aborted_record S r reason (Some ?d)) = Inl DetailTooLarge"
    by (simp add: aborted_record_def validate_detail_over)
  then show ?thesis by (simp add: encode_move_record_def)
qed

datatype inbox_op = Append pending_move | Remove string

definition apply_inbox :: "serde \<Rightarrow> inbox_record \<Rightarrow> inbox_op \<Rightarrow> inbox_record" where
  "apply_inbox S b op = (case (case op of Append e \<Rightarrow> append_inbox S b e | Remove k \<Rightarrow> remove_inbox b k) of
     Inl _ \<Rightarrow> b | Inr c \<Rightarrow> c)"

definition pending_cuts :: "inbox_record \<Rightarrow> string set" where
  "pending_cuts b = pm_cut_id ` set (in_pending b)"

text \<open>The specification: a set of at most 64 valid cuts. A cut is added unless the set is full, the id is not one, or
  the caller's record would no longer fit (\<open>fits\<close>); adding a present cut changes nothing.\<close>

definition announce :: "bool \<Rightarrow> string \<Rightarrow> string set \<Rightarrow> string set" where
  "announce fits k cuts = (if valid_cut_id k \<and> card cuts < 64 \<and> fits then insert k cuts else cuts)"

definition inbox_fits :: "serde \<Rightarrow> inbox_record \<Rightarrow> bool" where
  "inbox_fits S b \<longleftrightarrow> length (sj_write S (inbox_tree b)) \<le> 65536"

definition spec_inbox :: "serde \<Rightarrow> inbox_record \<Rightarrow> inbox_op \<Rightarrow> string set \<Rightarrow> string set" where
  "spec_inbox S b op cuts = (case op of
     Append e \<Rightarrow> announce (inbox_fits S (b\<lparr>in_pending := in_pending b @ [e]\<rparr>)) (pm_cut_id e) cuts
   | Remove k \<Rightarrow> cuts - {k})"

lemma apply_inbox_keeps: "well_formed_inbox b \<Longrightarrow> well_formed_inbox (apply_inbox S b op)"
  by (cases op) (auto simp: apply_inbox_def append_inbox_Inr remove_well_formed split: sum.splits if_splits)

lemma remove_total: "well_formed_inbox b \<Longrightarrow> remove_inbox b k = Inr (b\<lparr>in_pending := filter (\<lambda>e. pm_cut_id e \<noteq> k) (in_pending b)\<rparr>)"
  by (simp add: remove_inbox_Inr)

lemma pending_card: "well_formed_inbox b \<Longrightarrow> card (pending_cuts b) = length (in_pending b)"
  using distinct_card [of "map pm_cut_id (in_pending b)"] by (simp add: well_formed_inbox_def pending_cuts_def)

lemma append_accepted:
  assumes "well_formed_inbox b" and "pm_cut_id e \<notin> pending_cuts b"
  shows "append_inbox S b e = Inr c \<longleftrightarrow> c = b\<lparr>in_pending := in_pending b @ [e]\<rparr>
    \<and> valid_cut_id (pm_cut_id e) \<and> card (pending_cuts b) < 64 \<and> inbox_fits S (b\<lparr>in_pending := in_pending b @ [e]\<rparr>)"
proof -
  let ?c = "b\<lparr>in_pending := in_pending b @ [e]\<rparr>"
  have "well_formed_inbox ?c \<longleftrightarrow> valid_cut_id (pm_cut_id e) \<and> card (pending_cuts b) < 64"
    using assms pending_card [OF assms(1)] by (auto simp: well_formed_inbox_def pending_cuts_def INBOX_CAP_def)
  then show ?thesis
    unfolding append_inbox_Inr using assms by (auto simp: inbox_fits_def BODY_CAP_def pending_cuts_def)
qed

lemma apply_inbox_cuts:
  assumes "well_formed_inbox b"
  shows "pending_cuts (apply_inbox S b op) = spec_inbox S b op (pending_cuts b)"
proof (cases op)
  case (Append e)
  show ?thesis
  proof (cases "pm_cut_id e \<in> pending_cuts b")
    case True
    then have "append_inbox S b e = Inr b" using assms by (simp add: append_inbox_Inr pending_cuts_def)
    then show ?thesis using True by (auto simp: Append apply_inbox_def spec_inbox_def announce_def)
  next
    case False
    note acc = append_accepted [OF assms False, of S]
    show ?thesis
    proof (cases "append_inbox S b e")
      case (Inl err)
      then have "\<not> (valid_cut_id (pm_cut_id e) \<and> card (pending_cuts b) < 64 \<and> inbox_fits S (b\<lparr>in_pending := in_pending b @ [e]\<rparr>))"
        using acc [of "b\<lparr>in_pending := in_pending b @ [e]\<rparr>"] by simp
      then show ?thesis using Inl by (auto simp: Append apply_inbox_def spec_inbox_def announce_def)
    next
      case (Inr c)
      then have c: "c = b\<lparr>in_pending := in_pending b @ [e]\<rparr>" "valid_cut_id (pm_cut_id e)" "card (pending_cuts b) < 64"
        "inbox_fits S (b\<lparr>in_pending := in_pending b @ [e]\<rparr>)" using acc by blast+
      then have "pending_cuts c = insert (pm_cut_id e) (pending_cuts b)" by (simp add: pending_cuts_def)
      then show ?thesis using Inr c by (simp add: Append apply_inbox_def spec_inbox_def announce_def)
    qed
  qed
next
  case (Remove k)
  then show ?thesis using assms by (auto simp: apply_inbox_def spec_inbox_def pending_cuts_def remove_total)
qed

lemma append_present: "well_formed_inbox b \<Longrightarrow> pm_cut_id e \<in> pending_cuts b \<Longrightarrow> append_inbox S b e = Inr b"
  by (simp add: append_inbox_Inr pending_cuts_def)

lemma apply_inbox_idem:
  assumes "well_formed_inbox b"
  shows "apply_inbox S (apply_inbox S b op) op = apply_inbox S b op"
proof (cases op)
  case (Append e)
  show ?thesis
  proof (cases "append_inbox S b e")
    case (Inr c)
    then have c: "apply_inbox S b op = c" using Append by (simp add: apply_inbox_def)
    moreover have "well_formed_inbox c" using apply_inbox_keeps [OF assms, of S op] c by simp
    moreover have "pm_cut_id e \<in> pending_cuts c"
      using Inr [unfolded append_inbox_Inr] by (auto simp: pending_cuts_def split: if_splits)
    ultimately show ?thesis using Append append_present [of c e S] by (simp add: apply_inbox_def)
  qed (simp add: Append apply_inbox_def)
next
  case (Remove k)
  then show ?thesis using assms apply_inbox_keeps [OF assms, of S op] by (simp add: apply_inbox_def remove_total)
qed

lemma inbox_run_keeps: "well_formed_inbox (foldl (apply_inbox S) default_inbox ops)"
  by (induction ops rule: rev_induct)
    (simp_all add: apply_inbox_keeps, simp add: well_formed_inbox_def default_inbox_def)

text \<open>C38. The inbox implements a bounded set of announced cuts: over every sequence of appends and removals from the
  empty inbox, an append adds its cut unless the set already has 64, the id is not a cut's or the
  record would pass 64 KiB, and then changes nothing; a removal takes exactly its cut; repeating an
  operation changes nothing; and the inbox keeps one entry per cut.\<close>

theorem inbox_refines_set:
  "pending_cuts default_inbox = {}
    \<and> pending_cuts (foldl (apply_inbox S) default_inbox (ops @ [op]))
      = spec_inbox S (foldl (apply_inbox S) default_inbox ops) op (pending_cuts (foldl (apply_inbox S) default_inbox ops))
    \<and> foldl (apply_inbox S) default_inbox (ops @ [op, op]) = foldl (apply_inbox S) default_inbox (ops @ [op])
    \<and> card (pending_cuts (foldl (apply_inbox S) default_inbox ops)) = length (in_pending (foldl (apply_inbox S) default_inbox ops))
    \<and> well_formed_inbox (foldl (apply_inbox S) default_inbox ops)"
  by (simp add: inbox_run_keeps apply_inbox_cuts apply_inbox_idem pending_card) (simp add: pending_cuts_def default_inbox_def)

end
