(* ===== verification/MoveDriver.thy ===== *)
theory MoveDriver
  imports MoveRecord
begin

text \<open>
  The two drivers of a move (\<open>move_source.rs\<close> and \<open>move_receiver.rs\<close>) around the shared record of
  \<open>move_record.rs\<close>, with the local steps of \<open>move_store.rs\<close>. The record service stores one cell per
  cut and lets a write land exactly when the writer names the current version; the cell is kept here
  as the state of the record and its version, which \<open>MoveRecord\<close> ties to its bytes. A driver runs in
  ticks: it loads its row, reads the record, and acts on what it read while the other side and the
  operator go on. Calls to participants, the door and the claim fail, which ends the tick, succeed,
  or hold the driver (see below); a crash ends the tick anywhere.
\<close>

section \<open>Local steps\<close>

datatype move_step = StPreparing | StExported | StSealed | StPublished | StReleasing | StReleased | StAborted
  | StPickedUp | StImported | StStaged | StClaimed | StActivating | StActivated | StDone | StTakenOver

definition before_boundary :: "move_side \<Rightarrow> move_step \<Rightarrow> bool" where
  "before_boundary side st = (case side of
     Source \<Rightarrow> st \<in> set [StPreparing, StExported, StSealed, StPublished]
   | Receiver \<Rightarrow> st \<in> set [StPickedUp, StImported, StStaged, StClaimed])"

definition is_terminal :: "move_step \<Rightarrow> bool" where
  "is_terminal st \<longleftrightarrow> st \<in> set [StReleased, StAborted, StDone, StTakenOver]"

section \<open>Worlds\<close>

text \<open>
  A row is the driver's durable checkpoint: its step and whether an abort is requested. A phase is
  what a running tick holds in memory. \<open>Acting observed cleaning\<close>: the tick read \<open>observed\<close> and will
  clean up or advance; \<open>Landed st\<close>: its write of \<open>st\<close> landed, or was seen to have landed, and the
  row is not saved yet; \<open>Announcing\<close>: the record is there and the inbox comes next; \<open>Rereading\<close>: the
  receiver's cleanup has read the record again before writing the abort. A driver is \<open>stopped\<close> when
  its saved plan notes a participant that broke its contract, or, on the receiver, an activation
  fork: it goes on reading the record but makes no call until an operator repairs it by hand. It is
  \<open>paused\<close>, in memory only, when a participant refused an abort and asked for an operator: a retry
  or a restart ends the pause.
\<close>

record mv_row =
  row_step :: move_step
  row_abort :: bool

datatype phase = Resting | Acting "(move_state \<times> nat) option" bool | Announcing | Announced
  | Landed move_state | Rereading move_state nat

record world =
  w_cell :: "(move_state \<times> nat) option"
  w_inbox :: bool
  w_source :: mv_row
  w_src_phase :: phase
  w_receiver :: "mv_row option"
  w_rcv_phase :: phase
  w_src_stopped :: bool
  w_src_paused :: bool
  w_rcv_stopped :: bool
  w_rcv_paused :: bool

definition cell_state :: "world \<Rightarrow> move_state option" where
  "cell_state w = map_option fst (w_cell w)"

definition cell_version :: "world \<Rightarrow> nat" where
  "cell_version w = (case w_cell w of None \<Rightarrow> 0 | Some c \<Rightarrow> snd c)"

text \<open>\<open>checkpoint_agent_move\<close>: a saved row keeps an abort requested meanwhile unless it clears it, and
  an abort requested at \<open>claimed\<close> wins against the step into activation.\<close>

definition checkpoint :: "mv_row \<Rightarrow> move_step \<Rightarrow> bool \<Rightarrow> mv_row" where
  "checkpoint current st clear =
    (if st = StActivating \<and> row_step current = StClaimed \<and> row_abort current then current
     else \<lparr>row_step = st, row_abort = (\<not> clear \<and> row_abort current)\<rparr>)"

text \<open>\<open>request_agent_move_abort\<close>: refused past the boundary.\<close>

definition request_abort :: "move_side \<Rightarrow> mv_row \<Rightarrow> mv_row" where
  "request_abort side r = (if before_boundary side (row_step r) then r\<lparr>row_abort := True\<rparr> else r)"

text \<open>What the source's tick does with the record it read, before it chooses what to do.\<close>

definition watching :: "move_step \<Rightarrow> bool" where
  "watching st \<longleftrightarrow> st \<in> set [StSealed, StPublished, StReleasing]"

definition source_observe :: "move_state \<Rightarrow> mv_row \<Rightarrow> mv_row" where
  "source_observe st r =
    (let r1 = (if st = Aborted \<and> row_step r \<noteq> StReleasing then r\<lparr>row_abort := True\<rparr>
       else if st \<noteq> Published \<and> row_abort r then checkpoint r (row_step r) True else r) in
     if st = Activated \<and> row_step r1 \<noteq> StReleasing then checkpoint r1 StReleasing True else r1)"

definition source_cleaning :: "mv_row \<Rightarrow> bool" where
  "source_cleaning r \<longleftrightarrow> row_abort r \<and> row_step r \<noteq> StReleasing"

definition receiver_observe :: "move_state \<Rightarrow> mv_row \<Rightarrow> mv_row" where
  "receiver_observe st r =
    (if st = Aborted \<and> before_boundary Receiver (row_step r) then r\<lparr>row_abort := True\<rparr> else r)"

definition receiver_cleaning :: "mv_row \<Rightarrow> bool" where
  "receiver_cleaning r \<longleftrightarrow> row_abort r \<and> before_boundary Receiver (row_step r)"

text \<open>The record a write leaves: \<open>cas\<close> and \<open>cas_move\<close> check the transition they claim to make and the
  service checks only the version. A landed write gets the next version.\<close>

definition lands :: "world \<Rightarrow> move_side \<Rightarrow> move_state option \<Rightarrow> nat \<Rightarrow> move_state \<Rightarrow> bool" where
  "lands w side from expected to \<longleftrightarrow> is_ok (check_transition from to side) \<and> cell_version w = expected"

definition put_cell :: "move_state \<Rightarrow> world \<Rightarrow> world" where
  "put_cell st w = w\<lparr>w_cell := Some (st, Suc (cell_version w))\<rparr>"

definition first_world :: world where
  "first_world = \<lparr>w_cell = None, w_inbox = False, w_source = \<lparr>row_step = StPreparing, row_abort = False\<rparr>,
     w_src_phase = Resting, w_receiver = None, w_rcv_phase = Resting, w_src_stopped = False, w_src_paused = False, w_rcv_stopped = False, w_rcv_paused = False\<rparr>"

text \<open>A driver that may act.\<close>

definition src_free :: "world \<Rightarrow> bool" where
  "src_free w \<longleftrightarrow> \<not> w_src_stopped w \<and> \<not> w_src_paused w"

definition rcv_free :: "world \<Rightarrow> bool" where
  "rcv_free w \<longleftrightarrow> \<not> w_rcv_stopped w \<and> \<not> w_rcv_paused w"

section \<open>The source driver\<close>

inductive source_step :: "world \<Rightarrow> world \<Rightarrow> bool" where
  src_tick: "src_free w \<Longrightarrow> \<not> is_terminal (row_step (w_source w)) \<Longrightarrow> watching (row_step (w_source w)) \<Longrightarrow> w_cell w = Some (st, v) \<Longrightarrow>
    r = source_observe st (w_source w) \<Longrightarrow>
    source_step w (w\<lparr>w_source := r, w_src_phase := Acting (Some (st, v)) (source_cleaning r)\<rparr>)"
| src_tick_absent: "src_free w \<Longrightarrow> \<not> is_terminal (row_step (w_source w)) \<Longrightarrow> w_cell w = None \<or> \<not> watching (row_step (w_source w)) \<Longrightarrow>
    source_step w (w\<lparr>w_src_phase := Acting None (source_cleaning (w_source w))\<rparr>)"
| src_held_tick: "\<not> src_free w \<Longrightarrow> \<not> is_terminal (row_step (w_source w)) \<Longrightarrow> watching (row_step (w_source w)) \<Longrightarrow> w_cell w = Some (st, v) \<Longrightarrow>
    r = source_observe st (w_source w) \<Longrightarrow>
    source_step w (w\<lparr>w_source := (if w_src_stopped w \<and> st = Released then checkpoint r StReleased True else r), w_src_phase := Resting\<rparr>)"
| src_broken: "w_src_phase w \<noteq> Resting \<Longrightarrow> row_abort (w_source w) \<or> row_step (w_source w) = StReleasing \<Longrightarrow>
    source_step w (w\<lparr>w_src_stopped := True, w_src_phase := Resting\<rparr>)"
| src_stuck: "w_src_phase w = Acting obs True \<Longrightarrow> source_step w (w\<lparr>w_src_paused := True, w_src_phase := Resting\<rparr>)"
| src_restart: "source_step w (w\<lparr>w_src_paused := False, w_src_phase := Resting\<rparr>)"
| src_stop: "source_step w (w\<lparr>w_src_phase := Resting\<rparr>)"
| src_operator: "source_step w (w\<lparr>w_source := request_abort Source (w_source w)\<rparr>)"
| src_export: "w_src_phase w = Acting obs False \<Longrightarrow> row_step (w_source w) = StPreparing \<Longrightarrow>
    source_step w (w\<lparr>w_source := checkpoint (w_source w) StExported False, w_src_phase := Resting\<rparr>)"
| src_seal: "w_src_phase w = Acting obs False \<Longrightarrow> row_step (w_source w) = StExported \<Longrightarrow>
    source_step w (w\<lparr>w_source := checkpoint (w_source w) StSealed False, w_src_phase := Resting\<rparr>)"
| src_publish: "w_src_phase w = Acting None False \<Longrightarrow> row_step (w_source w) = StSealed \<Longrightarrow> lands w Source None 0 Published \<Longrightarrow>
    source_step w ((put_cell Published w)\<lparr>w_src_phase := Announcing\<rparr>)"
| src_publish_moved: "w_src_phase w = Acting None False \<Longrightarrow> row_step (w_source w) = StSealed \<Longrightarrow>
    \<not> lands w Source None 0 Published \<Longrightarrow> source_step w (w\<lparr>w_src_phase := Announcing\<rparr>)"
| src_republish: "w_src_phase w = Acting (Some c) False \<Longrightarrow> row_step (w_source w) = StSealed \<Longrightarrow>
    source_step w (w\<lparr>w_src_phase := Announcing\<rparr>)"
| src_announce: "w_src_phase w = Announcing \<Longrightarrow> w_cell w = Some (st, v) \<Longrightarrow>
    source_step w (w\<lparr>w_inbox := (w_inbox w \<or> st = Published), w_src_phase := Announced\<rparr>)"
| src_published: "w_src_phase w = Announced \<Longrightarrow>
    source_step w (w\<lparr>w_source := checkpoint (w_source w) StPublished False, w_src_phase := Resting\<rparr>)"
| src_released_seen: "w_src_phase w = Acting (Some (Released, v)) cleaning \<Longrightarrow> watching (row_step (w_source w)) \<Longrightarrow>
    source_step w (w\<lparr>w_source := checkpoint (w_source w) StReleased True, w_src_phase := Resting\<rparr>)"
| src_release: "w_src_phase w = Acting (Some (Activated, v)) False \<Longrightarrow> row_step (w_source w) = StReleasing \<Longrightarrow>
    lands w Source (Some Activated) v Released \<Longrightarrow> source_step w ((put_cell Released w)\<lparr>w_src_phase := Landed Released\<rparr>)"
| src_release_settled: "w_src_phase w = Acting (Some (Activated, v)) False \<Longrightarrow> row_step (w_source w) = StReleasing \<Longrightarrow>
    cell_state w = Some Released \<Longrightarrow> source_step w (w\<lparr>w_src_phase := Landed Released\<rparr>)"
| src_released: "w_src_phase w = Landed Released \<Longrightarrow>
    source_step w (w\<lparr>w_source := checkpoint (w_source w) StReleased True, w_src_phase := Resting\<rparr>)"
| src_clean_local: "w_src_phase w = Acting obs True \<Longrightarrow> row_step (w_source w) \<in> {StPreparing, StExported} \<Longrightarrow>
    source_step w (w\<lparr>w_source := checkpoint (w_source w) StAborted True, w_src_phase := Resting\<rparr>)"
| src_clean_unpublished: "w_src_phase w = Acting None True \<Longrightarrow> row_step (w_source w) = StSealed \<Longrightarrow>
    source_step w (w\<lparr>w_source := checkpoint (w_source w) StAborted True, w_src_phase := Resting\<rparr>)"
| src_clean_write: "w_src_phase w = Acting (Some (Published, v)) True \<Longrightarrow> row_step (w_source w) \<in> {StSealed, StPublished} \<Longrightarrow>
    lands w Source (Some Published) v Aborted \<Longrightarrow> source_step w ((put_cell Aborted w)\<lparr>w_src_phase := Resting\<rparr>)"
| src_clean_shared: "w_src_phase w = Acting (Some (Aborted, v)) True \<Longrightarrow> row_step (w_source w) \<in> {StSealed, StPublished} \<Longrightarrow>
    source_step w (w\<lparr>w_source := checkpoint (w_source w) StAborted True, w_src_phase := Resting\<rparr>)"
| src_clean_refused: "w_src_phase w = Acting (Some (st, v)) True \<Longrightarrow> row_step (w_source w) \<in> {StSealed, StPublished} \<Longrightarrow>
    st \<noteq> Published \<Longrightarrow> st \<noteq> Aborted \<Longrightarrow>
    source_step w (w\<lparr>w_source := checkpoint (w_source w) (row_step (w_source w)) True, w_src_phase := Resting\<rparr>)"

section \<open>The receiver driver\<close>

definition save_receiver :: "world \<Rightarrow> mv_row \<Rightarrow> world" where
  "save_receiver w r = w\<lparr>w_receiver := Some r, w_rcv_phase := Resting\<rparr>"

inductive receiver_step :: "world \<Rightarrow> world \<Rightarrow> bool" where
  rcv_pickup: "w_receiver w = None \<Longrightarrow> w_inbox w \<Longrightarrow> w_cell w = Some (Published, v) \<Longrightarrow> st \<in> {StPickedUp, StAborted} \<Longrightarrow>
    receiver_step w (save_receiver w \<lparr>row_step = st, row_abort = False\<rparr>)"
| rcv_tick: "rcv_free w \<Longrightarrow> w_receiver w = Some r \<Longrightarrow> \<not> is_terminal (row_step r) \<Longrightarrow> w_cell w = Some (st, v) \<Longrightarrow> r' = receiver_observe st r \<Longrightarrow>
    receiver_step w (w\<lparr>w_receiver := Some r', w_rcv_phase := Acting (Some (st, v)) (receiver_cleaning r')\<rparr>)"
| rcv_held_tick: "\<not> rcv_free w \<Longrightarrow> w_receiver w = Some r \<Longrightarrow> \<not> is_terminal (row_step r) \<Longrightarrow> w_cell w = Some (st, v) \<Longrightarrow>
    receiver_step w (w\<lparr>w_receiver := Some (receiver_observe st r), w_rcv_phase := Resting\<rparr>)"
| rcv_broken: "w_rcv_phase w \<noteq> Resting \<Longrightarrow> receiver_step w (w\<lparr>w_rcv_stopped := True, w_rcv_phase := Resting\<rparr>)"
| rcv_stuck: "w_rcv_phase w = Acting x True \<Longrightarrow> receiver_step w (w\<lparr>w_rcv_paused := True, w_rcv_phase := Resting\<rparr>)"
| rcv_restart: "receiver_step w (w\<lparr>w_rcv_paused := False, w_rcv_phase := Resting\<rparr>)"
| rcv_stop: "receiver_step w (w\<lparr>w_rcv_phase := Resting\<rparr>)"
| rcv_operator: "w_receiver w = Some r \<Longrightarrow> receiver_step w (w\<lparr>w_receiver := Some (request_abort Receiver r)\<rparr>)"
| rcv_done: "w_receiver w = Some r \<Longrightarrow> w_rcv_phase w = Acting (Some (Released, v)) c \<Longrightarrow> row_step r = StActivated \<Longrightarrow>
    receiver_step w (save_receiver w (checkpoint r StDone False))"
| rcv_import: "w_receiver w = Some r \<Longrightarrow> w_rcv_phase w = Acting (Some x) False \<Longrightarrow> row_step r = StPickedUp \<Longrightarrow>
    receiver_step w (save_receiver w (checkpoint r StImported False))"
| rcv_stage: "w_receiver w = Some r \<Longrightarrow> w_rcv_phase w = Acting (Some (Published, v)) False \<Longrightarrow> row_step r = StImported \<Longrightarrow>
    lands w Receiver (Some Published) v Staged \<Longrightarrow> receiver_step w ((put_cell Staged w)\<lparr>w_rcv_phase := Landed Staged\<rparr>)"
| rcv_stage_seen: "w_receiver w = Some r \<Longrightarrow> w_rcv_phase w = Acting (Some (Staged, v)) False \<Longrightarrow> row_step r = StImported \<Longrightarrow>
    receiver_step w (w\<lparr>w_rcv_phase := Landed Staged\<rparr>)"
| rcv_claim: "w_receiver w = Some r \<Longrightarrow> w_rcv_phase w = Acting (Some (st, v)) False \<Longrightarrow> row_step r = StStaged \<Longrightarrow> st \<noteq> Claimed \<Longrightarrow>
    lands w Receiver (Some Staged) v Claimed \<Longrightarrow> receiver_step w ((put_cell Claimed w)\<lparr>w_rcv_phase := Landed Claimed\<rparr>)"
| rcv_claim_seen: "w_receiver w = Some r \<Longrightarrow> w_rcv_phase w = Acting (Some (Claimed, v)) False \<Longrightarrow> row_step r = StStaged \<Longrightarrow>
    receiver_step w (w\<lparr>w_rcv_phase := Landed Claimed\<rparr>)"
| rcv_activating: "w_receiver w = Some r \<Longrightarrow> w_rcv_phase w = Acting (Some x) False \<Longrightarrow> row_step r = StClaimed \<Longrightarrow>
    receiver_step w (save_receiver w (checkpoint r StActivating False))"
| rcv_activate: "w_receiver w = Some r \<Longrightarrow> w_rcv_phase w = Acting (Some (Claimed, v)) False \<Longrightarrow> row_step r = StActivating \<Longrightarrow>
    lands w Receiver (Some Claimed) v Activated \<Longrightarrow> receiver_step w ((put_cell Activated w)\<lparr>w_rcv_phase := Landed Activated\<rparr>)"
| rcv_activate_seen: "w_receiver w = Some r \<Longrightarrow> w_rcv_phase w = Acting (Some (st, v)) False \<Longrightarrow> row_step r = StActivating \<Longrightarrow>
    st \<in> {Activated, Released} \<Longrightarrow> receiver_step w (w\<lparr>w_rcv_phase := Landed Activated\<rparr>)"
| rcv_settled: "w_receiver w = Some r \<Longrightarrow> w_rcv_phase w = Acting (Some x) False \<Longrightarrow>
    (row_step r, to) \<in> {(StImported, Staged), (StStaged, Claimed), (StActivating, Activated)} \<Longrightarrow> cell_state w = Some to \<Longrightarrow>
    receiver_step w (w\<lparr>w_rcv_phase := Landed to\<rparr>)"
| rcv_save: "w_receiver w = Some r \<Longrightarrow> w_rcv_phase w = Landed st \<Longrightarrow>
    (st, next_step) \<in> {(Staged, StStaged), (Claimed, StClaimed), (Activated, StActivated), (Aborted, StAborted)} \<Longrightarrow>
    receiver_step w (save_receiver w (checkpoint r next_step False))"
| rcv_takeover: "w_receiver w = Some r \<Longrightarrow> w_rcv_phase w = Acting x False \<Longrightarrow> row_step r = StActivated \<Longrightarrow>
    receiver_step w (save_receiver w (checkpoint r StTakenOver False))"
| rcv_clean_read: "w_receiver w = Some r \<Longrightarrow> w_rcv_phase w = Acting x True \<Longrightarrow> w_cell w = Some (st, v) \<Longrightarrow>
    receiver_step w (w\<lparr>w_rcv_phase := (if st = Aborted then Landed Aborted else Rereading st v)\<rparr>)"
| rcv_clean_write: "w_receiver w = Some r \<Longrightarrow> w_rcv_phase w = Rereading st v \<Longrightarrow> lands w Receiver (Some st) v Aborted \<Longrightarrow>
    receiver_step w ((put_cell Aborted w)\<lparr>w_rcv_phase := Landed Aborted\<rparr>)"
| rcv_clean_settled: "w_receiver w = Some r \<Longrightarrow> w_rcv_phase w = Rereading st v \<Longrightarrow> cell_state w = Some Aborted \<Longrightarrow>
    receiver_step w (w\<lparr>w_rcv_phase := Landed Aborted\<rparr>)"

inductive world_step :: "world \<Rightarrow> world \<Rightarrow> bool" where
  by_source: "source_step w w' \<Longrightarrow> world_step w w'"
| by_receiver: "receiver_step w w' \<Longrightarrow> world_step w w'"

inductive reachable :: "world \<Rightarrow> bool" where
  reach_start: "reachable first_world"
| reach_next: "reachable w \<Longrightarrow> world_step w w' \<Longrightarrow> reachable w'"

section \<open>The invariant of every reachable world\<close>

text \<open>The states a record can be in at each local step.\<close>

definition source_cells :: "move_step \<Rightarrow> move_state option set" where
  "source_cells st = (case st of StPreparing \<Rightarrow> {None} | StExported \<Rightarrow> {None}
     | StSealed \<Rightarrow> {None, Some Published, Some Staged, Some Claimed, Some Activated, Some Released, Some Aborted}
     | StPublished \<Rightarrow> {Some Published, Some Staged, Some Claimed, Some Activated, Some Released, Some Aborted}
     | StReleasing \<Rightarrow> {Some Activated, Some Released} | StReleased \<Rightarrow> {Some Released}
     | StAborted \<Rightarrow> {None, Some Aborted} | _ \<Rightarrow> {})"

definition receiver_cells :: "move_step \<Rightarrow> move_state option set" where
  "receiver_cells st = (case st of StPickedUp \<Rightarrow> {Some Published, Some Aborted}
     | StImported \<Rightarrow> {Some Published, Some Staged, Some Aborted}
     | StStaged \<Rightarrow> {Some Staged, Some Claimed, Some Aborted} | StClaimed \<Rightarrow> {Some Claimed, Some Aborted}
     | StActivating \<Rightarrow> {Some Claimed, Some Activated, Some Released}
     | StActivated \<Rightarrow> {Some Activated, Some Released} | StTakenOver \<Rightarrow> {Some Activated, Some Released}
     | StDone \<Rightarrow> {Some Released} | StAborted \<Rightarrow> {Some Published, Some Aborted} | _ \<Rightarrow> {})"

definition later :: "move_state \<Rightarrow> move_state set" where
  "later st = (case st of Published \<Rightarrow> {Published, Staged, Claimed, Activated, Released, Aborted}
     | Staged \<Rightarrow> {Staged, Claimed, Activated, Released, Aborted} | Claimed \<Rightarrow> {Claimed, Activated, Released, Aborted}
     | Activated \<Rightarrow> {Activated, Released} | Released \<Rightarrow> {Released} | Aborted \<Rightarrow> {Aborted})"

text \<open>What was read earlier is a past of the record; an unchanged version means an unchanged state.\<close>

definition past :: "(move_state \<times> nat) option \<Rightarrow> move_state \<Rightarrow> nat \<Rightarrow> bool" where
  "past cell st v \<longleftrightarrow> (case cell of None \<Rightarrow> False
     | Some (st', v') \<Rightarrow> st' \<in> later st \<and> v \<le> v' \<and> (v = v' \<longrightarrow> st = st'))"

definition rows_inv :: "(move_state \<times> nat) option \<Rightarrow> move_step \<Rightarrow> move_step option \<Rightarrow> bool" where
  "rows_inv cell s r \<longleftrightarrow> map_option fst cell \<in> source_cells s
     \<and> (case r of None \<Rightarrow> map_option fst cell \<in> {None, Some Published, Some Aborted}
        | Some t \<Rightarrow> map_option fst cell \<in> receiver_cells t)
     \<and> none_or (\<lambda>c. 0 < snd c) cell"

definition source_inv :: "(move_state \<times> nat) option \<Rightarrow> move_step \<Rightarrow> phase \<Rightarrow> bool" where
  "source_inv cell s phase \<longleftrightarrow> (case phase of
     Acting None b \<Rightarrow> s = StSealed \<longrightarrow> cell = None
   | Acting (Some (st, v)) b \<Rightarrow> past cell st v \<and> Some st \<in> source_cells s
   | Announcing \<Rightarrow> s = StSealed \<and> cell \<noteq> None
   | Announced \<Rightarrow> s = StSealed \<and> cell \<noteq> None
   | Landed st \<Rightarrow> st = Released \<and> map_option fst cell = Some Released
   | Resting \<Rightarrow> True | Rereading _ _ \<Rightarrow> False)"

definition landed_inv :: "move_state option \<Rightarrow> move_step \<Rightarrow> move_state \<Rightarrow> bool" where
  "landed_inv c t st \<longleftrightarrow> (case st of
     Staged \<Rightarrow> t = StImported \<and> c = Some Staged
   | Claimed \<Rightarrow> t = StStaged \<and> c = Some Claimed
   | Activated \<Rightarrow> t = StActivating \<and> c \<in> {Some Activated, Some Released}
   | Aborted \<Rightarrow> before_boundary Receiver t \<and> c = Some Aborted
   | _ \<Rightarrow> False)"

definition receiver_inv :: "(move_state \<times> nat) option \<Rightarrow> mv_row option \<Rightarrow> phase \<Rightarrow> bool" where
  "receiver_inv cell row phase \<longleftrightarrow> (case phase of
     Resting \<Rightarrow> True
   | Acting obs b \<Rightarrow> (case (row, obs) of (Some r, Some (st, v)) \<Rightarrow> past cell st v \<and> Some st \<in> receiver_cells (row_step r)
        \<and> (if b then before_boundary Receiver (row_step r)
           else before_boundary Receiver (row_step r) \<longrightarrow> map_option fst cell = Some Aborted \<longrightarrow> st = Published)
      | _ \<Rightarrow> False)
   | Landed st \<Rightarrow> (case row of Some r \<Rightarrow> landed_inv (map_option fst cell) (row_step r) st | None \<Rightarrow> False)
   | Rereading st v \<Rightarrow> (case row of Some r \<Rightarrow> before_boundary Receiver (row_step r) \<and> past cell st v | None \<Rightarrow> False)
   | _ \<Rightarrow> False)"

definition world_inv :: "world \<Rightarrow> bool" where
  "world_inv w \<longleftrightarrow> rows_inv (w_cell w) (row_step (w_source w)) (map_option row_step (w_receiver w))
     \<and> source_inv (w_cell w) (row_step (w_source w)) (w_src_phase w)
     \<and> receiver_inv (w_cell w) (w_receiver w) (w_rcv_phase w)"

lemma put_cell_simps [simp]: "w_cell (put_cell st w) = Some (st, Suc (cell_version w))" "w_inbox (put_cell st w) = w_inbox w"
  "w_source (put_cell st w) = w_source w" "w_src_phase (put_cell st w) = w_src_phase w"
  "w_receiver (put_cell st w) = w_receiver w" "w_rcv_phase (put_cell st w) = w_rcv_phase w"
  "w_src_stopped (put_cell st w) = w_src_stopped w" "w_src_paused (put_cell st w) = w_src_paused w"
  "w_rcv_stopped (put_cell st w) = w_rcv_stopped w" "w_rcv_paused (put_cell st w) = w_rcv_paused w"
  by (simp_all add: put_cell_def)

lemma first_inv: "world_inv first_world"
  by (simp add: world_inv_def rows_inv_def source_inv_def receiver_inv_def first_world_def source_cells_def)

lemma past_put: "past (Some (c, n)) st v \<Longrightarrow> to \<in> later c \<Longrightarrow> past (Some (to, Suc n)) st v"
  by (cases st; cases c) (auto simp: past_def later_def)

lemma past_now [simp]: "past (Some (st, v)) st v"
  by (cases st) (simp_all add: past_def later_def)

lemma allowed_later: "allowed_transition (Some a) b side \<Longrightarrow> b \<in> later a"
  by (auto simp: allowed_transition_def later_def)

lemma lands_iff: "lands w side from n to \<longleftrightarrow> allowed_transition from to side \<and> cell_version w = n"
  by (simp add: lands_def check_transition_def)

lemma past_same: "past (w_cell w) st v \<Longrightarrow> cell_version w = v \<Longrightarrow> w_cell w = Some (st, v)"
  by (auto simp: past_def cell_version_def split: option.splits)

lemmas inv_defs = rows_inv_def source_inv_def receiver_inv_def landed_inv_def

text \<open>Reading: the row after the tick's first look still allows the state it saw.\<close>

lemma source_observe_cells: "Some st \<in> source_cells (row_step r) \<Longrightarrow> watching (row_step r) \<Longrightarrow>
    Some st \<in> source_cells (row_step (source_observe st r))"
  by (cases st; cases "row_step r") (simp_all add: source_cells_def source_observe_def checkpoint_def watching_def Let_def)

lemma source_inv_read: "watching s \<Longrightarrow> Some st \<in> source_cells s \<Longrightarrow> source_inv (Some (st, v)) s (Acting (Some (st, v)) b)"
  by (simp add: source_inv_def)

text \<open>A landed write: what it does to each part of the invariant.\<close>

lemma source_inv_put: "source_inv (Some (c, n)) s ph \<Longrightarrow> to \<in> later c \<Longrightarrow> source_inv (Some (to, Suc n)) s ph"
  by (cases ph) (auto simp: source_inv_def past_put later_def split: option.splits move_state.splits)

lemma past_published: "past (Some (Published, n)) st v \<Longrightarrow> st = Published"
  by (cases st) (auto simp: past_def later_def)

lemma landed_put: "landed_inv (Some c) t st \<Longrightarrow> (c, to) \<in> {(Published, Aborted), (Activated, Released)} \<Longrightarrow>
    landed_inv (Some to) t st"
  by (cases st) (auto simp: landed_inv_def)

lemma receiver_inv_put:
  assumes inv: "receiver_inv (Some (c, n)) r ph" and move: "(c, to) \<in> {(Published, Aborted), (Activated, Released)}"
  shows "receiver_inv (Some (to, Suc n)) r ph"
proof -
  have later: "to \<in> later c" using move by (auto simp: later_def)
  show ?thesis
  proof (cases ph)
    case (Acting obs b)
    then show ?thesis using inv move past_put [OF _ later] past_published
      by (auto simp: receiver_inv_def split: option.splits if_splits)
  next
    case (Landed st)
    then show ?thesis using inv landed_put [OF _ move] by (auto simp: receiver_inv_def split: option.splits)
  next
    case (Rereading st v)
    then show ?thesis using inv past_put [OF _ later] by (auto simp: receiver_inv_def split: option.splits)
  qed (use inv in \<open>simp_all add: receiver_inv_def\<close>)
qed

lemma source_keeps: "source_step w w' \<Longrightarrow> world_inv w \<Longrightarrow> world_inv w'"
proof (induction rule: source_step.induct)
  case (src_tick w st v r)
  then show ?case using source_observe_cells [of st "w_source w"]
    by (simp add: world_inv_def rows_inv_def source_inv_def)
next
  case (src_held_tick w st v r)
  then show ?case using source_observe_cells [of st "w_source w"]
    by (auto simp: world_inv_def rows_inv_def source_inv_def checkpoint_def source_cells_def)
next
  case (src_publish w)
  then have "w_cell w = None" by (simp add: world_inv_def source_inv_def)
  with src_publish show ?case
    by (cases "w_rcv_phase w"; cases "w_receiver w") (auto simp: world_inv_def inv_defs past_def cell_version_def source_cells_def receiver_cells_def
       split: option.splits move_step.splits move_state.splits)
next
  case (src_release w v)
  then have c: "w_cell w = Some (Activated, v)" and "cell_version w = v"
    by (auto simp: world_inv_def source_inv_def lands_iff intro: past_same)
  with src_release receiver_inv_put [of Activated v _ _ Released] show ?case
    by (auto simp: world_inv_def rows_inv_def source_inv_def source_cells_def receiver_cells_def later_def split: option.splits move_step.splits)
next
  case (src_clean_write w v)
  then have c: "w_cell w = Some (Published, v)" and "cell_version w = v"
    by (auto simp: world_inv_def source_inv_def lands_iff intro: past_same)
  with src_clean_write receiver_inv_put [of Published v _ _ Aborted] show ?case
    by (auto simp: world_inv_def rows_inv_def source_inv_def source_cells_def receiver_cells_def later_def split: option.splits move_step.splits)
qed (auto simp: world_inv_def rows_inv_def source_inv_def source_cells_def checkpoint_def request_abort_def past_def later_def watching_def
    cell_state_def before_boundary_def is_terminal_def lands_def check_transition_def allowed_transition_def cell_version_def split: option.splits phase.splits)

text \<open>The receiver's writes and the source's half of the invariant.\<close>

lemma source_cells_put: "Some c \<in> source_cells s \<Longrightarrow>
    (c, to) \<in> {(Published, Staged), (Staged, Claimed), (Claimed, Activated), (Published, Aborted), (Staged, Aborted), (Claimed, Aborted)} \<Longrightarrow>
    Some to \<in> source_cells s"
  by (cases s) (auto simp: source_cells_def)

lemma receiver_write:
  assumes inv: "world_inv w" and cell: "w_cell w = Some (c, n)" and row: "w_receiver w = Some r"
    and move: "(c, to) \<in> {(Published, Staged), (Staged, Claimed), (Claimed, Activated), (Published, Aborted), (Staged, Aborted), (Claimed, Aborted)}"
    and rows: "Some to \<in> receiver_cells (row_step r)" and landed: "landed_inv (Some to) (row_step r) to"
  shows "world_inv ((put_cell to w)\<lparr>w_rcv_phase := Landed to\<rparr>)"
proof -
  have later: "to \<in> later c" using move by (auto simp: later_def)
  have "source_inv (Some (to, Suc n)) (row_step (w_source w)) (w_src_phase w)"
    using inv cell source_inv_put [OF _ later] by (simp add: world_inv_def)
  moreover have "Some to \<in> source_cells (row_step (w_source w))"
    using inv cell source_cells_put [OF _ move] by (simp add: world_inv_def rows_inv_def)
  ultimately show ?thesis using cell row rows landed
    by (simp add: world_inv_def rows_inv_def receiver_inv_def cell_version_def)
qed

lemma receiver_acting:
  assumes "world_inv w" and "w_receiver w = Some r" and "w_rcv_phase w = Acting (Some (st, v)) b"
  shows "past (w_cell w) st v" and "Some st \<in> receiver_cells (row_step r)"
    and "b \<Longrightarrow> before_boundary Receiver (row_step r)"
    and "\<not> b \<Longrightarrow> before_boundary Receiver (row_step r) \<Longrightarrow> map_option fst (w_cell w) = Some Aborted \<Longrightarrow> st = Published"
    and "map_option fst (w_cell w) \<in> receiver_cells (row_step r)"
  using assms by (auto simp: world_inv_def rows_inv_def receiver_inv_def)

lemma receiver_rereading:
  assumes "world_inv w" and "w_receiver w = Some r" and "w_rcv_phase w = Rereading st v"
  shows "past (w_cell w) st v" and "before_boundary Receiver (row_step r)"
    and "map_option fst (w_cell w) \<in> receiver_cells (row_step r)"
  using assms by (auto simp: world_inv_def rows_inv_def receiver_inv_def)

lemma aborted_allowed: "before_boundary Receiver t \<Longrightarrow> Some Aborted \<in> receiver_cells t"
  by (cases t) (simp_all add: before_boundary_def receiver_cells_def)

lemma save_inv: "world_inv w \<Longrightarrow> map_option fst (w_cell w) \<in> receiver_cells (row_step r) \<Longrightarrow> world_inv (save_receiver w r)"
  by (simp add: world_inv_def rows_inv_def receiver_inv_def save_receiver_def)

lemma receiver_keeps: "receiver_step w w' \<Longrightarrow> world_inv w \<Longrightarrow> world_inv w'"
proof (induction rule: receiver_step.induct)
  case (rcv_pickup w v st)
  then show ?case by (intro save_inv) (auto simp: receiver_cells_def)
next
  case (rcv_tick w r st v r')
  then show ?case
    by (auto simp: world_inv_def rows_inv_def receiver_inv_def receiver_observe_def receiver_cleaning_def)
next
  case (rcv_held_tick w r st v)
  then show ?case
    by (auto simp: world_inv_def rows_inv_def receiver_inv_def receiver_observe_def)
next
  case (rcv_broken w)
  then show ?case by (simp add: world_inv_def receiver_inv_def)
next
  case (rcv_stuck w x)
  then show ?case by (simp add: world_inv_def receiver_inv_def)
next
  case (rcv_restart w)
  then show ?case by (simp add: world_inv_def receiver_inv_def)
next
  case (rcv_stop w)
  then show ?case by (simp add: world_inv_def receiver_inv_def)
next
  case (rcv_operator w r)
  then show ?case
    by (auto simp: world_inv_def rows_inv_def receiver_inv_def request_abort_def split: phase.splits option.splits)
next
  case (rcv_done w r v c)
  from receiver_acting [OF rcv_done(4, 1, 2)] show ?case using rcv_done
    by (intro save_inv) (auto simp: past_def later_def checkpoint_def receiver_cells_def split: option.splits)
next
  case (rcv_import w r x)
  then have "map_option fst (w_cell w) \<in> receiver_cells StPickedUp" by (simp add: world_inv_def rows_inv_def)
  then show ?case using rcv_import by (intro save_inv) (auto simp: checkpoint_def receiver_cells_def)
next
  case (rcv_stage w r v)
  then have cell: "w_cell w = Some (Published, v)" using receiver_acting [OF rcv_stage(5, 1, 2)]
    by (auto simp: lands_iff intro: past_same)
  show ?case by (rule receiver_write [OF rcv_stage(5) cell rcv_stage(1)])
      (use rcv_stage in \<open>simp_all add: receiver_cells_def landed_inv_def\<close>)
next
  case (rcv_stage_seen w r v)
  from receiver_acting [OF rcv_stage_seen(4, 1, 2)] show ?case using rcv_stage_seen
    by (auto simp: world_inv_def receiver_inv_def landed_inv_def past_def later_def receiver_cells_def before_boundary_def split: option.splits)
next
  case (rcv_claim w r st v)
  note acting = receiver_acting [OF rcv_claim(6, 1, 2)]
  have "w_cell w = Some (st, v)" using acting(1) rcv_claim(5) by (auto simp: lands_iff intro: past_same)
  moreover from this have "st = Staged" using acting(2,4) rcv_claim(3,4) by (auto simp: receiver_cells_def before_boundary_def)
  ultimately have cell: "w_cell w = Some (Staged, v)" by simp
  show ?case by (rule receiver_write [OF rcv_claim(6) cell rcv_claim(1)])
      (use rcv_claim in \<open>simp_all add: receiver_cells_def landed_inv_def\<close>)
next
  case (rcv_claim_seen w r v)
  from receiver_acting [OF rcv_claim_seen(4, 1, 2)] show ?case using rcv_claim_seen
    by (auto simp: world_inv_def receiver_inv_def landed_inv_def past_def later_def receiver_cells_def before_boundary_def split: option.splits)
next
  case (rcv_activating w r x)
  obtain st v where x: "x = (st, v)" by (cases x)
  note acting = receiver_acting [OF rcv_activating(4, 1) rcv_activating(2) [unfolded x]]
  have "map_option fst (w_cell w) = Some Claimed"
    using acting(2,4,5) rcv_activating(3) by (auto simp: receiver_cells_def before_boundary_def)
  then show ?case using rcv_activating by (intro save_inv) (auto simp: checkpoint_def receiver_cells_def)
next
  case (rcv_activate w r v)
  then have cell: "w_cell w = Some (Claimed, v)" using receiver_acting [OF rcv_activate(5, 1, 2)]
    by (auto simp: lands_iff intro: past_same)
  show ?case by (rule receiver_write [OF rcv_activate(5) cell rcv_activate(1)])
      (use rcv_activate in \<open>simp_all add: receiver_cells_def landed_inv_def\<close>)
next
  case (rcv_activate_seen w r st v)
  from receiver_acting [OF rcv_activate_seen(5, 1, 2)] show ?case using rcv_activate_seen
    by (auto simp: world_inv_def receiver_inv_def landed_inv_def past_def later_def receiver_cells_def split: option.splits)
next
  case (rcv_settled w r x to)
  then show ?case
    by (auto simp: world_inv_def receiver_inv_def landed_inv_def cell_state_def)
next
  case (rcv_save w r st next_step)
  then have "landed_inv (map_option fst (w_cell w)) (row_step r) st" by (simp add: world_inv_def receiver_inv_def)
  then show ?case using rcv_save
    by (intro save_inv) (auto simp: landed_inv_def checkpoint_def receiver_cells_def)
next
  case (rcv_takeover w r x)
  then have "map_option fst (w_cell w) \<in> receiver_cells StActivated" by (simp add: world_inv_def rows_inv_def)
  then show ?case using rcv_takeover by (intro save_inv) (auto simp: checkpoint_def receiver_cells_def)
next
  case (rcv_clean_read w r x st v)
  then have "before_boundary Receiver (row_step r)" by (auto simp: world_inv_def receiver_inv_def split: option.splits)
  then show ?case using rcv_clean_read by (simp add: world_inv_def receiver_inv_def landed_inv_def)
next
  case (rcv_clean_write w r st v)
  note reread = receiver_rereading [OF rcv_clean_write(4, 1, 2)]
  have cell: "w_cell w = Some (st, v)" using reread(1) rcv_clean_write(3) by (auto simp: lands_iff intro: past_same)
  show ?case by (rule receiver_write [OF rcv_clean_write(4) cell rcv_clean_write(1)])
      (use rcv_clean_write reread in \<open>auto simp: landed_inv_def aborted_allowed lands_iff allowed_transition_def\<close>)
next
  case (rcv_clean_settled w r st v)
  then show ?case by (simp add: world_inv_def receiver_inv_def landed_inv_def cell_state_def)
qed

lemma reachable_inv: "reachable w \<Longrightarrow> world_inv w"
proof (induction rule: reachable.induct)
  case (reach_next w w')
  from reach_next.hyps(2) show ?case
    by (cases rule: world_step.cases) (use reach_next source_keeps receiver_keeps in auto)
qed (rule first_inv)

section \<open>The drivers implement an atomic commitment\<close>

text \<open>
  The contract: the move is decided once, as moved or cancelled, and each side ends with exactly
  that outcome or is still waiting. The source commits to an outcome when it starts releasing or
  aborts, the receiver when it activates or aborts.
\<close>

datatype outcome = Moved | Cancelled

record commitment =
  cm_decision :: "outcome option"
  cm_source :: "outcome option"
  cm_receiver :: "outcome option"

definition learns :: "outcome option \<Rightarrow> outcome option \<Rightarrow> outcome option \<Rightarrow> bool" where
  "learns decision old new \<longleftrightarrow> new = old \<or> old = None \<and> new = decision"

definition commitment_step :: "commitment \<Rightarrow> commitment \<Rightarrow> bool" where
  "commitment_step a b \<longleftrightarrow> (cm_decision a = None \<or> cm_decision b = cm_decision a)
     \<and> learns (cm_decision b) (cm_source a) (cm_source b) \<and> learns (cm_decision b) (cm_receiver a) (cm_receiver b)"

definition source_outcome :: "move_step \<Rightarrow> outcome option" where
  "source_outcome s = (if s \<in> {StReleasing, StReleased} then Some Moved else if s = StAborted then Some Cancelled else None)"

definition receiver_outcome :: "move_step option \<Rightarrow> outcome option" where
  "receiver_outcome r = (if r \<in> {Some StActivated, Some StDone, Some StTakenOver} then Some Moved
     else if r = Some StAborted then Some Cancelled else None)"

definition decision :: "world \<Rightarrow> outcome option" where
  "decision w = (if cell_state w \<in> {Some Activated, Some Released} then Some Moved
     else if cell_state w = Some Aborted \<or> row_step (w_source w) = StAborted \<or> map_option row_step (w_receiver w) = Some StAborted
     then Some Cancelled else None)"

definition commitment_of :: "world \<Rightarrow> commitment" where
  "commitment_of w = \<lparr>cm_decision = decision w, cm_source = source_outcome (row_step (w_source w)),
     cm_receiver = receiver_outcome (map_option row_step (w_receiver w))\<rparr>"

lemma outcomes_agree:
  assumes "world_inv w"
  shows "source_outcome (row_step (w_source w)) \<in> {None, decision w}"
    and "receiver_outcome (map_option row_step (w_receiver w)) \<in> {None, decision w}"
proof -
  have s: "cell_state w \<in> source_cells (row_step (w_source w))" using assms by (simp add: world_inv_def rows_inv_def cell_state_def)
  have r: "case w_receiver w of None \<Rightarrow> True | Some t \<Rightarrow> cell_state w \<in> receiver_cells (row_step t)"
    using assms by (auto simp: world_inv_def rows_inv_def cell_state_def split: option.splits)
  show "source_outcome (row_step (w_source w)) \<in> {None, decision w}"
    using s r by (auto simp: source_outcome_def decision_def source_cells_def)
  show "receiver_outcome (map_option row_step (w_receiver w)) \<in> {None, decision w}"
    using s r by (cases "w_receiver w") (auto simp: receiver_outcome_def decision_def receiver_cells_def)
qed

text \<open>A step moves the record forward and never takes a side's outcome back.\<close>

lemma step_source_outcome: "source_step w w' \<Longrightarrow> world_inv w \<Longrightarrow>
    learns (source_outcome (row_step (w_source w'))) (source_outcome (row_step (w_source w))) (source_outcome (row_step (w_source w')))
    \<and> w_receiver w' = w_receiver w"
  by (induction rule: source_step.induct)
    (auto simp: learns_def source_outcome_def checkpoint_def request_abort_def source_observe_def Let_def watching_def is_terminal_def
       world_inv_def source_inv_def rows_inv_def source_cells_def before_boundary_def past_def later_def lands_def put_cell_def
       split: option.splits)

lemma step_receiver_outcome: "receiver_step w w' \<Longrightarrow> world_inv w \<Longrightarrow>
    learns (receiver_outcome (map_option row_step (w_receiver w'))) (receiver_outcome (map_option row_step (w_receiver w)))
      (receiver_outcome (map_option row_step (w_receiver w'))) \<and> w_source w' = w_source w"
  by (induction rule: receiver_step.induct)
    (auto simp: learns_def receiver_outcome_def checkpoint_def request_abort_def receiver_observe_def before_boundary_def save_receiver_def
       world_inv_def receiver_inv_def landed_inv_def put_cell_def)

lemma source_cell_later: "source_step w w' \<Longrightarrow> world_inv w \<Longrightarrow> w_cell w = Some (c, n) \<Longrightarrow> \<exists>c' n'. w_cell w' = Some (c', n') \<and> c' \<in> later c"
  by (induction rule: source_step.induct)
    (auto simp: lands_iff cell_version_def put_cell_def later_def past_def world_inv_def source_inv_def split: move_state.splits)

lemma receiver_cell_later: "receiver_step w w' \<Longrightarrow> world_inv w \<Longrightarrow> w_cell w = Some (c, n) \<Longrightarrow> \<exists>c' n'. w_cell w' = Some (c', n') \<and> c' \<in> later c"
proof (induction rule: receiver_step.induct)
  case (rcv_claim w r st v)
  note acting = receiver_acting [OF rcv_claim(6, 1, 2)]
  have "w_cell w = Some (st, v)" using acting(1) rcv_claim(5) by (auto simp: lands_iff intro: past_same)
  moreover from this have "st = Staged" using acting(2,4) rcv_claim(3,4) by (auto simp: receiver_cells_def before_boundary_def)
  ultimately show ?case using rcv_claim(7) by (simp add: later_def)
next
  case (rcv_clean_write w r st v)
  note reread = receiver_rereading [OF rcv_clean_write(4, 1, 2)]
  have "w_cell w = Some (st, v)" using reread(1) rcv_clean_write(3) by (auto simp: lands_iff intro: past_same)
  then show ?case using rcv_clean_write allowed_later by (auto simp: lands_iff)
qed (auto simp: lands_iff cell_version_def later_def past_def world_inv_def receiver_inv_def save_receiver_def split: move_state.splits)

lemma world_keeps: "world_step w w' \<Longrightarrow> world_inv w \<Longrightarrow> world_inv w'"
  by (auto elim: world_step.cases intro: source_keeps receiver_keeps)

lemma cell_later: "world_step w w' \<Longrightarrow> world_inv w \<Longrightarrow> w_cell w = Some (c, n) \<Longrightarrow> \<exists>c' n'. w_cell w' = Some (c', n') \<and> c' \<in> later c"
  by (auto elim!: world_step.cases dest: source_cell_later receiver_cell_later)

lemma step_outcomes:
  assumes "world_step w w'" and "world_inv w"
  shows "learns (source_outcome (row_step (w_source w'))) (source_outcome (row_step (w_source w))) (source_outcome (row_step (w_source w')))"
    and "learns (receiver_outcome (map_option row_step (w_receiver w'))) (receiver_outcome (map_option row_step (w_receiver w)))
      (receiver_outcome (map_option row_step (w_receiver w')))"
  using assms by (auto elim!: world_step.cases dest!: step_source_outcome step_receiver_outcome simp: learns_def)

lemma cancelled_rows:
  "source_outcome s = Some Cancelled \<longleftrightarrow> s = StAborted" "receiver_outcome r = Some Cancelled \<longleftrightarrow> r = Some StAborted"
  by (auto simp: source_outcome_def receiver_outcome_def)

lemma decision_stays:
  assumes step: "world_step w w'" and inv: "world_inv w" and d: "decision w = Some d"
  shows "decision w' = Some d"
proof -
  note agree = outcomes_agree [OF world_keeps [OF step inv]] and mono = step_outcomes [OF step inv]
  consider (moved) c n where "w_cell w = Some (c, n)" "c \<in> {Activated, Released}" "d = Moved"
    | (aborted) n where "w_cell w = Some (Aborted, n)" "d = Cancelled"
    | (source) "row_step (w_source w) = StAborted" "d = Cancelled"
    | (receiver) "map_option row_step (w_receiver w) = Some StAborted" "d = Cancelled"
    using d by (auto simp: decision_def cell_state_def split: if_splits)
  then show ?thesis
  proof cases
    case moved
    then show ?thesis using cell_later [OF step inv moved(1)] by (auto simp: later_def decision_def cell_state_def)
  next
    case aborted
    then show ?thesis using cell_later [OF step inv aborted(1)] by (auto simp: later_def decision_def cell_state_def)
  next
    case source
    then have "source_outcome (row_step (w_source w')) = Some Cancelled" using mono(1) by (auto simp: learns_def source_outcome_def)
    then show ?thesis using agree(1) source by simp
  next
    case receiver
    then have "receiver_outcome (map_option row_step (w_receiver w)) = Some Cancelled" using cancelled_rows(2) by blast
    then have "receiver_outcome (map_option row_step (w_receiver w')) = Some Cancelled" using mono(2) by (simp add: learns_def)
    then show ?thesis using agree(2) receiver by simp
  qed
qed

lemma step_commits: "world_step w w' \<Longrightarrow> world_inv w \<Longrightarrow> commitment_step (commitment_of w) (commitment_of w')"
  using decision_stays [of w w'] step_outcomes [of w w'] outcomes_agree [OF world_keeps, of w w']
  by (cases "decision w") (auto simp: commitment_step_def commitment_of_def learns_def)

text \<open>The outcomes as the rows show them: what no reachable world can look like.\<close>

lemma never_both: "world_inv w \<Longrightarrow> row_step (w_source w) = StAborted \<Longrightarrow> w_receiver w = Some r \<Longrightarrow>
    row_step r \<notin> {StActivating, StActivated, StDone, StTakenOver}"
  by (cases "row_step r") (auto simp: world_inv_def rows_inv_def source_cells_def receiver_cells_def)

lemma released_activated: "world_inv w \<Longrightarrow> row_step (w_source w) \<in> {StReleasing, StReleased} \<Longrightarrow>
    \<exists>r. w_receiver w = Some r \<and> row_step r \<in> {StActivating, StActivated, StDone, StTakenOver}"
  by (cases "w_receiver w"; cases "row_step (the (w_receiver w))")
    (auto simp: world_inv_def rows_inv_def source_cells_def receiver_cells_def)

section \<open>Every move can be brought to an end\<close>

text \<open>Settled: both rows are terminal, or the receiver never picked the move up.\<close>

definition settled :: "world \<Rightarrow> bool" where
  "settled w \<longleftrightarrow> row_step (w_source w) \<in> {StReleased, StAborted}
     \<and> (case w_receiver w of None \<Rightarrow> True | Some r \<Rightarrow> is_terminal (row_step r))"

definition source_rank :: "move_step \<Rightarrow> nat" where
  "source_rank s = (if s \<in> {StReleased, StAborted} then 0 else if s = StReleasing then 1 else 2)"

definition cell_rank :: "move_state option \<Rightarrow> nat" where
  "cell_rank c = (if c \<in> {Some Published, Some Staged, Some Claimed} then 2 else if c = Some Activated then 1 else 0)"

definition receiver_rank :: "move_step option \<Rightarrow> nat" where
  "receiver_rank r = (case r of None \<Rightarrow> 0 | Some t \<Rightarrow> if is_terminal t then 0 else if t = StActivated then 1 else 2)"

definition rank :: "world \<Rightarrow> nat" where
  "rank w = source_rank (row_step (w_source w)) + cell_rank (cell_state w) + receiver_rank (map_option row_step (w_receiver w))"

definition leads :: "world \<Rightarrow> world \<Rightarrow> bool" where
  "leads w w' \<longleftrightarrow> world_step\<^sup>*\<^sup>* w w'"

lemma leads_refl: "leads w w"
  by (simp add: leads_def)

lemma leads_trans: "leads u v \<Longrightarrow> leads v w \<Longrightarrow> leads u w"
  by (simp add: leads_def)

lemma src_leads: "leads u v \<Longrightarrow> source_step v w \<Longrightarrow> leads u w"
  by (auto simp: leads_def intro: rtranclp.rtrancl_into_rtrancl by_source)

lemma rcv_leads: "leads u v \<Longrightarrow> receiver_step v w \<Longrightarrow> leads u w"
  by (auto simp: leads_def intro: rtranclp.rtrancl_into_rtrancl by_receiver)

lemma leads_inv: "leads w w' \<Longrightarrow> world_inv w \<Longrightarrow> world_inv w'"
  unfolding leads_def by (induction rule: rtranclp_induct) (auto intro: world_keeps)

text \<open>Both drivers may act.\<close>

definition unheld :: "world \<Rightarrow> bool" where
  "unheld w \<longleftrightarrow> src_free w \<and> rcv_free w"

lemmas held_defs = unheld_def src_free_def rcv_free_def

text \<open>The source gives up before anything is published.\<close>

lemma settle_unpublished:
  assumes "w_cell w = None" and "row_step (w_source w) \<in> {StPreparing, StExported, StSealed}" and free: "unheld w"
  shows "\<exists>w'. leads w w' \<and> unheld w' \<and> cell_state w' = None \<and> row_step (w_source w') = StAborted \<and> w_receiver w' = w_receiver w"
proof -
  define a where "a = w\<lparr>w_source := request_abort Source (w_source w)\<rparr>"
  define b where "b = a\<lparr>w_src_phase := Acting None (source_cleaning (w_source a))\<rparr>"
  define c where "c = b\<lparr>w_source := checkpoint (w_source b) StAborted True, w_src_phase := Resting\<rparr>"
  have row: "row_step (w_source a) = row_step (w_source w)" "row_abort (w_source a)"
    using assms by (auto simp: a_def request_abort_def before_boundary_def)
  have "leads w a" unfolding a_def by (rule src_leads [OF leads_refl src_operator])
  moreover have "source_step a b" unfolding b_def
    by (rule src_tick_absent) (use assms row in \<open>auto simp: held_defs is_terminal_def a_def\<close>)
  moreover have "source_step b c" unfolding c_def
    by (cases "row_step (w_source w) = StSealed"; rule src_clean_unpublished src_clean_local)
      (use assms row in \<open>auto simp: b_def source_cleaning_def\<close>)
  ultimately have "leads w c" by (metis src_leads)
  then show ?thesis using free by (intro exI [of _ c]) (simp add: held_defs c_def b_def a_def assms checkpoint_def cell_state_def)
qed

text \<open>The source withdraws a published record.\<close>

lemma settle_published:
  assumes "w_cell w = Some (Published, v)" and "row_step (w_source w) \<in> {StSealed, StPublished}" and free: "unheld w"
  shows "\<exists>w'. leads w w' \<and> unheld w' \<and> cell_state w' = Some Aborted \<and> row_step (w_source w') = row_step (w_source w)
    \<and> w_receiver w' = w_receiver w"
proof -
  define a where "a = w\<lparr>w_source := request_abort Source (w_source w)\<rparr>"
  define b where "b = a\<lparr>w_source := source_observe Published (w_source a), w_src_phase := Acting (Some (Published, v)) (source_cleaning (source_observe Published (w_source a)))\<rparr>"
  define c where "c = (put_cell Aborted b)\<lparr>w_src_phase := Resting\<rparr>"
  have row: "row_step (w_source a) = row_step (w_source w)" "row_abort (w_source a)" "source_observe Published (w_source a) = w_source a"
    using assms by (auto simp: a_def request_abort_def before_boundary_def source_observe_def)
  have "leads w a" unfolding a_def by (rule src_leads [OF leads_refl src_operator])
  moreover have "source_step a b" unfolding b_def
    by (rule src_tick) (use assms row in \<open>auto simp: held_defs is_terminal_def watching_def a_def\<close>)
  moreover have "source_step b c" unfolding c_def
    by (rule src_clean_write) (use assms row in \<open>auto simp: b_def a_def source_cleaning_def lands_iff allowed_transition_def cell_version_def\<close>)
  ultimately have "leads w c" by (metis src_leads)
  then show ?thesis using free by (intro exI [of _ c]) (use row free in \<open>simp add: held_defs c_def b_def a_def cell_state_def\<close>)
qed

text \<open>The source follows a decided record: it aborts, or releases in two rounds.\<close>

lemma settle_source_aborted:
  assumes "w_cell w = Some (Aborted, v)" and "row_step (w_source w) \<in> {StSealed, StPublished}" and free: "unheld w"
  shows "\<exists>w'. leads w w' \<and> unheld w' \<and> cell_state w' = cell_state w \<and> row_step (w_source w') = StAborted \<and> w_receiver w' = w_receiver w"
proof -
  define b where "b = w\<lparr>w_source := source_observe Aborted (w_source w), w_src_phase := Acting (Some (Aborted, v)) (source_cleaning (source_observe Aborted (w_source w)))\<rparr>"
  define c where "c = b\<lparr>w_source := checkpoint (w_source b) StAborted True, w_src_phase := Resting\<rparr>"
  have "source_step w b" unfolding b_def
    by (rule src_tick) (use assms in \<open>auto simp: held_defs is_terminal_def watching_def\<close>)
  moreover have "source_step b c" unfolding c_def
    by (rule src_clean_shared) (use assms in \<open>auto simp: b_def source_cleaning_def source_observe_def Let_def\<close>)
  ultimately have "leads w c" by (metis src_leads leads_refl)
  then show ?thesis using free by (intro exI [of _ c]) (simp add: held_defs c_def b_def checkpoint_def cell_state_def)
qed

lemma settle_source_releasing:
  assumes "w_cell w = Some (Activated, v)" and "row_step (w_source w) \<in> {StSealed, StPublished, StReleasing}" and free: "unheld w"
  shows "\<exists>w'. leads w w' \<and> unheld w' \<and> cell_state w' = Some Released \<and> row_step (w_source w') = StReleased \<and> w_receiver w' = w_receiver w"
proof -
  define b where "b = w\<lparr>w_source := source_observe Activated (w_source w), w_src_phase := Acting (Some (Activated, v)) (source_cleaning (source_observe Activated (w_source w)))\<rparr>"
  define c where "c = (put_cell Released b)\<lparr>w_src_phase := Landed Released\<rparr>"
  define d where "d = c\<lparr>w_source := checkpoint (w_source c) StReleased True, w_src_phase := Resting\<rparr>"
  have row: "row_step (source_observe Activated (w_source w)) = StReleasing"
    using assms by (auto simp: source_observe_def checkpoint_def Let_def)
  have "source_step w b" unfolding b_def
    by (rule src_tick) (use assms in \<open>auto simp: held_defs is_terminal_def watching_def\<close>)
  moreover have "source_step b c" unfolding c_def
    by (rule src_release) (use assms row in \<open>auto simp: b_def source_cleaning_def lands_iff allowed_transition_def cell_version_def\<close>)
  moreover have "source_step c d" unfolding d_def by (rule src_released) (simp add: c_def)
  ultimately have "leads w d" by (metis src_leads leads_refl)
  then show ?thesis using free by (intro exI [of _ d]) (simp add: held_defs d_def c_def b_def checkpoint_def cell_state_def)
qed

lemma settle_source_released:
  assumes "w_cell w = Some (Released, v)" and "row_step (w_source w) \<in> {StSealed, StPublished, StReleasing}" and free: "unheld w"
  shows "\<exists>w'. leads w w' \<and> unheld w' \<and> cell_state w' = cell_state w \<and> row_step (w_source w') = StReleased \<and> w_receiver w' = w_receiver w"
proof -
  define b where "b = w\<lparr>w_source := source_observe Released (w_source w), w_src_phase := Acting (Some (Released, v)) (source_cleaning (source_observe Released (w_source w)))\<rparr>"
  define c where "c = b\<lparr>w_source := checkpoint (w_source b) StReleased True, w_src_phase := Resting\<rparr>"
  have "source_step w b" unfolding b_def
    by (rule src_tick) (use assms in \<open>auto simp: held_defs is_terminal_def watching_def\<close>)
  moreover have "source_step b c" unfolding c_def
    by (rule src_released_seen) (use assms in \<open>auto simp: b_def watching_def source_observe_def checkpoint_def Let_def\<close>)
  ultimately have "leads w c" by (metis src_leads leads_refl)
  then show ?thesis using free by (intro exI [of _ c]) (simp add: held_defs c_def b_def checkpoint_def cell_state_def)
qed

text \<open>The receiver gives up before the boundary, or follows an aborted record.\<close>

lemma settle_receiver_before:
  assumes "w_receiver w = Some r" and "before_boundary Receiver (row_step r)"
    and "w_cell w = Some (st, v)" and "st \<in> {Staged, Claimed, Aborted}" and free: "unheld w"
  shows "\<exists>w' r'. leads w w' \<and> unheld w' \<and> cell_state w' = Some Aborted \<and> w_source w' = w_source w
    \<and> w_receiver w' = Some r' \<and> row_step r' = StAborted"
proof -
  define q where "q = receiver_observe st (request_abort Receiver r)"
  define a where "a = w\<lparr>w_receiver := Some (request_abort Receiver r)\<rparr>"
  define b where "b = a\<lparr>w_receiver := Some q, w_rcv_phase := Acting (Some (st, v)) (receiver_cleaning q)\<rparr>"
  define c where "c = b\<lparr>w_rcv_phase := (if st = Aborted then Landed Aborted else Rereading st v)\<rparr>"
  define d where "d = (if st = Aborted then c else (put_cell Aborted c)\<lparr>w_rcv_phase := Landed Aborted\<rparr>)"
  define e where "e = save_receiver d (checkpoint q StAborted False)"
  have q: "row_step q = row_step r" "row_abort q"
    using assms by (auto simp: q_def receiver_observe_def request_abort_def)
  have s1: "leads w a" unfolding a_def by (rule rcv_leads [OF leads_refl rcv_operator]) (rule assms)
  have s2: "receiver_step a b" unfolding b_def
    by (rule rcv_tick [where r = "request_abort Receiver r"])
      (use assms in \<open>auto simp: a_def q_def request_abort_def held_defs is_terminal_def before_boundary_def\<close>)
  have s3: "receiver_step b c" unfolding c_def
    by (rule rcv_clean_read) (use assms q in \<open>auto simp: b_def a_def receiver_cleaning_def\<close>)
  have s4: "leads c d"
  proof (cases "st = Aborted")
    case False
    then show ?thesis unfolding d_def using assms
      by (auto intro!: rcv_leads [OF leads_refl rcv_clean_write] simp: c_def b_def a_def lands_iff allowed_transition_def cell_version_def)
  qed (simp add: d_def leads_refl)
  have s5: "receiver_step d e" unfolding e_def
    by (rule rcv_save [where st = Aborted]) (simp_all add: d_def c_def b_def)
  have "leads w e" using s1 s2 s3 s4 s5 by (metis rcv_leads leads_trans)
  then show ?thesis using assms
    by (intro exI [of _ e] exI [of _ "checkpoint q StAborted False"])
      (auto simp: held_defs e_def d_def c_def b_def a_def save_receiver_def checkpoint_def cell_state_def)
qed

text \<open>The receiver past the boundary goes on.\<close>

lemma settle_receiver_activating:
  assumes "w_receiver w = Some r" and "row_step r = StActivating"
    and "w_cell w = Some (st, v)" and "st \<in> {Claimed, Activated, Released}" and free: "unheld w"
  shows "\<exists>w' r'. leads w w' \<and> unheld w' \<and> cell_state w' = Some (if st = Claimed then Activated else st) \<and> w_source w' = w_source w
    \<and> w_receiver w' = Some r' \<and> row_step r' = StActivated"
proof -
  define b where "b = w\<lparr>w_receiver := Some r, w_rcv_phase := Acting (Some (st, v)) False\<rparr>"
  define c where "c = (if st = Claimed then put_cell Activated b else b)\<lparr>w_rcv_phase := Landed Activated\<rparr>"
  define d where "d = save_receiver c (checkpoint r StActivated False)"
  have calm: "receiver_observe st r = r" "\<not> receiver_cleaning r"
    using assms by (simp_all add: receiver_observe_def receiver_cleaning_def before_boundary_def)
  have s1: "receiver_step w b" unfolding b_def
    using rcv_tick [of w r st v r] assms calm by (simp add: held_defs is_terminal_def)
  have s2: "receiver_step b c"
  proof (cases "st = Claimed")
    case True
    then show ?thesis unfolding c_def using rcv_activate [of b r v] assms
      by (simp add: b_def lands_iff allowed_transition_def cell_version_def)
  next
    case False
    then show ?thesis unfolding c_def using rcv_activate_seen [of b r st v] assms by (simp add: b_def)
  qed
  have s3: "receiver_step c d" unfolding d_def
    by (rule rcv_save [where st = Activated]) (simp_all add: c_def b_def)
  have "leads w d" using s1 s2 s3 by (metis rcv_leads leads_refl)
  then show ?thesis using assms
    by (intro exI [of _ d] exI [of _ "checkpoint r StActivated False"])
      (auto simp: held_defs d_def c_def b_def save_receiver_def checkpoint_def cell_state_def)
qed

lemma settle_receiver_done:
  assumes "w_receiver w = Some r" and "row_step r = StActivated" and "w_cell w = Some (Released, v)" and free: "unheld w"
  shows "\<exists>w' r'. leads w w' \<and> unheld w' \<and> cell_state w' = cell_state w \<and> w_source w' = w_source w \<and> w_receiver w' = Some r' \<and> row_step r' = StDone"
proof -
  define b where "b = w\<lparr>w_receiver := Some r, w_rcv_phase := Acting (Some (Released, v)) False\<rparr>"
  define c where "c = save_receiver b (checkpoint r StDone False)"
  have "receiver_observe Released r = r" "\<not> receiver_cleaning r"
    using assms by (simp_all add: receiver_observe_def receiver_cleaning_def before_boundary_def)
  then have s1: "receiver_step w b" unfolding b_def
    using rcv_tick [of w r Released v r] assms by (simp add: held_defs is_terminal_def)
  have s2: "receiver_step b c" unfolding c_def using rcv_done [of b r v False] assms by (simp add: b_def)
  have "leads w c" using s1 s2 by (metis rcv_leads leads_refl)
  then show ?thesis using free
    by (intro exI [of _ c] exI [of _ "checkpoint r StDone False"]) (simp add: held_defs c_def b_def save_receiver_def checkpoint_def cell_state_def)
qed

lemma source_open:
  "Some st \<in> source_cells s \<Longrightarrow> s \<notin> {StReleased, StAborted} \<Longrightarrow> s \<in> {StSealed, StPublished} \<or> s = StReleasing \<and> st \<in> {Activated, Released}"
  "None \<in> source_cells s \<Longrightarrow> s \<noteq> StAborted \<Longrightarrow> s \<in> {StPreparing, StExported, StSealed}"
  "Some st \<in> source_cells s \<Longrightarrow> st \<in> {Published, Staged, Claimed, Activated} \<Longrightarrow> s \<notin> {StReleased, StAborted}"
  by (cases s; auto simp: source_cells_def)+

lemma receiver_open:
  "Some st \<in> receiver_cells t \<Longrightarrow> \<not> is_terminal t \<Longrightarrow> before_boundary Receiver t \<and> st \<in> {Published, Staged, Claimed, Aborted}
    \<or> t = StActivating \<and> st \<in> {Claimed, Activated, Released} \<or> t = StActivated \<and> st \<in> {Activated, Released}"
  "None \<notin> receiver_cells t"
  "Some st \<in> receiver_cells t \<Longrightarrow> is_terminal t \<Longrightarrow> st \<notin> {Staged, Claimed}"
  by (cases t; auto simp: receiver_cells_def is_terminal_def before_boundary_def)+

lemma progress:
  assumes inv: "world_inv w" and "\<not> settled w" and free: "unheld w"
  shows "\<exists>w'. leads w w' \<and> unheld w' \<and> rank w' < rank w"
proof -
  let ?s = "row_step (w_source w)"
  have s: "cell_state w \<in> source_cells ?s" using inv by (simp add: world_inv_def rows_inv_def cell_state_def)
  show ?thesis
  proof (cases "w_receiver w")
    case None
    then have c: "cell_state w \<in> {None, Some Published, Some Aborted}" using inv by (simp add: world_inv_def rows_inv_def cell_state_def)
    have "?s \<notin> {StReleased, StAborted}" using None \<open>\<not> settled w\<close> by (simp add: settled_def)
    then consider "w_cell w = None" "?s \<in> {StPreparing, StExported, StSealed}"
      | v where "w_cell w = Some (Published, v)" "?s \<in> {StSealed, StPublished}"
      | v where "w_cell w = Some (Aborted, v)" "?s \<in> {StSealed, StPublished}"
    proof (cases "w_cell w")
      case None
      then show thesis using that(1) s source_open(2) \<open>?s \<notin> {StReleased, StAborted}\<close> by (simp add: cell_state_def)
    next
      case (Some p)
      then obtain st v where cell: "w_cell w = Some (st, v)" by (cases p) simp
      then have "Some st \<in> source_cells ?s" and st: "st = Published \<or> st = Aborted" using s c by (simp_all add: cell_state_def)
      from source_open(1) [OF this(1)] \<open>?s \<notin> {StReleased, StAborted}\<close> st have "?s \<in> {StSealed, StPublished}" by auto
      then show thesis using that(2,3) cell st by blast
    qed
    then show ?thesis
    proof cases
      case 1
      then have cell: "cell_state w = map_option fst (w_cell w)" by (simp add: cell_state_def)
      from settle_unpublished [OF 1 free] show ?thesis using 1 None cell
        by (elim exE conjE) (rule exI, rule conjI, assumption, rule conjI, assumption, auto simp: rank_def source_rank_def cell_rank_def receiver_rank_def)
    next
      case 2
      then have cell: "cell_state w = map_option fst (w_cell w)" by (simp add: cell_state_def)
      from settle_published [OF 2 free] show ?thesis using 2 None cell
        by (elim exE conjE) (rule exI, rule conjI, assumption, rule conjI, assumption, auto simp: rank_def source_rank_def cell_rank_def receiver_rank_def)
    next
      case 3
      then have cell: "cell_state w = map_option fst (w_cell w)" by (simp add: cell_state_def)
      from settle_source_aborted [OF 3 free] show ?thesis using 3 None cell
        by (elim exE conjE) (rule exI, rule conjI, assumption, rule conjI, assumption, auto simp: rank_def source_rank_def cell_rank_def receiver_rank_def)
    qed
  next
    case (Some r)
    let ?t = "row_step r"
    have c: "cell_state w \<in> receiver_cells ?t" using Some inv by (simp add: world_inv_def rows_inv_def cell_state_def)
    consider st v where "w_cell w = Some (st, v)" "st \<in> {Staged, Claimed, Aborted}" "before_boundary Receiver ?t"
      | st v where "w_cell w = Some (st, v)" "st \<in> {Claimed, Activated, Released}" "?t = StActivating"
      | v where "w_cell w = Some (Released, v)" "?t = StActivated"
      | v where "w_cell w = Some (Published, v)" "?s \<in> {StSealed, StPublished}"
      | v where "w_cell w = Some (Aborted, v)" "?s \<in> {StSealed, StPublished}"
      | v where "w_cell w = Some (Activated, v)" "?s \<in> {StSealed, StPublished, StReleasing}"
      | v where "w_cell w = Some (Released, v)" "?s \<in> {StSealed, StPublished, StReleasing}"
    proof -
      obtain st v where cell: "w_cell w = Some (st, v)" using c receiver_open(2) by (cases "w_cell w") (auto simp: cell_state_def)
      then have in_s: "Some st \<in> source_cells ?s" and in_t: "Some st \<in> receiver_cells ?t" using s c by (simp_all add: cell_state_def)
      have "\<not> is_terminal ?t \<or> ?s \<notin> {StReleased, StAborted}" using \<open>\<not> settled w\<close> Some by (auto simp: settled_def)
      then show thesis
        using that cell source_open(1,3) [OF in_s] receiver_open(1,3) [OF in_t] by (cases st) (blast+)
    qed
    then show ?thesis
    proof cases
      case 1
      then have cell: "cell_state w = map_option fst (w_cell w)" by (simp add: cell_state_def)
      from settle_receiver_before [OF Some 1(3,1,2) free] show ?thesis using 1 Some cell
        by (elim exE conjE) (rule exI, rule conjI, assumption, rule conjI, assumption, auto simp: rank_def source_rank_def cell_rank_def receiver_rank_def is_terminal_def before_boundary_def)
    next
      case 2
      then have cell: "cell_state w = map_option fst (w_cell w)" by (simp add: cell_state_def)
      from settle_receiver_activating [OF Some 2(3,1,2) free] show ?thesis using 2 Some cell
        by (elim exE conjE) (rule exI, rule conjI, assumption, rule conjI, assumption, auto simp: rank_def source_rank_def cell_rank_def receiver_rank_def is_terminal_def)
    next
      case 3
      then have cell: "cell_state w = map_option fst (w_cell w)" by (simp add: cell_state_def)
      from settle_receiver_done [OF Some 3(2,1) free] show ?thesis using 3 Some cell
        by (elim exE conjE) (rule exI, rule conjI, assumption, rule conjI, assumption, auto simp: rank_def source_rank_def cell_rank_def receiver_rank_def is_terminal_def)
    next
      case 4
      then have cell: "cell_state w = map_option fst (w_cell w)" by (simp add: cell_state_def)
      from settle_published [OF 4 free] show ?thesis using 4 cell
        by (elim exE conjE) (rule exI, rule conjI, assumption, rule conjI, assumption, auto simp: rank_def source_rank_def cell_rank_def)
    next
      case 5
      then have cell: "cell_state w = map_option fst (w_cell w)" by (simp add: cell_state_def)
      from settle_source_aborted [OF 5 free] show ?thesis using 5 cell
        by (elim exE conjE) (rule exI, rule conjI, assumption, rule conjI, assumption, auto simp: rank_def source_rank_def cell_rank_def)
    next
      case 6
      then have cell: "cell_state w = map_option fst (w_cell w)" by (simp add: cell_state_def)
      from settle_source_releasing [OF 6 free] show ?thesis using 6 cell
        by (elim exE conjE) (rule exI, rule conjI, assumption, rule conjI, assumption, auto simp: rank_def source_rank_def cell_rank_def)
    next
      case 7
      then have cell: "cell_state w = map_option fst (w_cell w)" by (simp add: cell_state_def)
      from settle_source_released [OF 7 free] show ?thesis using 7 cell
        by (elim exE conjE) (rule exI, rule conjI, assumption, rule conjI, assumption, auto simp: rank_def source_rank_def cell_rank_def)
    qed
  qed
qed

lemma can_settle: "world_inv w \<Longrightarrow> unheld w \<Longrightarrow> \<exists>w'. leads w w' \<and> settled w'"
proof (induction "rank w" arbitrary: w rule: less_induct)
  case less
  show ?case
  proof (cases "settled w")
    case True
    then show ?thesis using leads_refl by blast
  next
    case False
    then obtain v where v: "leads w v" "unheld v" "rank v < rank w" using progress less.prems by blast
    then show ?thesis using less.hyps [OF v(3) _ v(2)] leads_inv [OF _ less.prems(1)] leads_trans by blast
  qed
qed

text \<open>A pause ends with a restart.\<close>

lemma restarted:
  assumes "\<not> w_src_stopped w" and "\<not> w_rcv_stopped w"
  shows "\<exists>v. leads w v \<and> unheld v"
proof -
  define u where "u = w\<lparr>w_src_paused := False, w_src_phase := Resting\<rparr>"
  define v where "v = u\<lparr>w_rcv_paused := False, w_rcv_phase := Resting\<rparr>"
  have "leads w v" unfolding v_def u_def by (rule rcv_leads [OF src_leads [OF leads_refl src_restart] rcv_restart])
  moreover have "unheld v" using assms by (simp add: held_defs v_def u_def)
  ultimately show ?thesis by blast
qed

section \<open>Stopped drivers\<close>

text \<open>A stopped driver rests.\<close>

definition stopped_rests :: "world \<Rightarrow> bool" where
  "stopped_rests w \<longleftrightarrow> (w_src_stopped w \<longrightarrow> w_src_phase w = Resting) \<and> (w_rcv_stopped w \<longrightarrow> w_rcv_phase w = Resting)"

lemma source_rests: "source_step w w' \<Longrightarrow> stopped_rests w \<Longrightarrow> stopped_rests w'"
  by (induction rule: source_step.induct) (auto simp: stopped_rests_def src_free_def put_cell_def)

lemma receiver_rests: "receiver_step w w' \<Longrightarrow> stopped_rests w \<Longrightarrow> stopped_rests w'"
  by (induction rule: receiver_step.induct) (auto simp: stopped_rests_def rcv_free_def put_cell_def save_receiver_def)

lemma reachable_rests: "reachable w \<Longrightarrow> stopped_rests w"
proof (induction rule: reachable.induct)
  case (reach_next w w')
  then show ?case by (auto elim!: world_step.cases dest: source_rests receiver_rests)
qed (simp add: stopped_rests_def first_world_def)

lemma stopped_source: "source_step w w' \<Longrightarrow> stopped_rests w \<Longrightarrow> w_src_stopped w \<Longrightarrow>
    w_src_stopped w' \<and> w_cell w' = w_cell w \<and> (row_step (w_source w') = row_step (w_source w)
      \<or> row_step (w_source w') = StReleasing \<and> cell_state w = Some Activated
      \<or> row_step (w_source w') = StReleased \<and> cell_state w = Some Released)"
  by (induction rule: source_step.induct)
    (auto simp: stopped_rests_def src_free_def put_cell_def source_observe_def checkpoint_def request_abort_def cell_state_def Let_def)

lemma stopped_receiver: "receiver_step w w' \<Longrightarrow> stopped_rests w \<Longrightarrow> w_rcv_stopped w \<Longrightarrow>
    w_rcv_stopped w' \<and> w_cell w' = w_cell w \<and> map_option row_step (w_receiver w') \<in> (if w_receiver w = None then UNIV else {map_option row_step (w_receiver w)})"
  by (induction rule: receiver_step.induct)
    (auto simp: stopped_rests_def rcv_free_def put_cell_def save_receiver_def receiver_observe_def request_abort_def)

text \<open>A side's steps leave the other side's row and stop alone.\<close>

lemma source_other: "source_step w w' \<Longrightarrow> w_receiver w' = w_receiver w \<and> w_rcv_stopped w' = w_rcv_stopped w"
  by (induction rule: source_step.induct) (simp_all add: put_cell_def)

lemma receiver_other: "receiver_step w w' \<Longrightarrow> w_source w' = w_source w \<and> w_src_stopped w' = w_src_stopped w"
  by (induction rule: receiver_step.induct) (simp_all add: put_cell_def save_receiver_def)

section \<open>A completed move\<close>

definition scene :: "(move_state \<times> nat) option \<Rightarrow> bool \<Rightarrow> move_step \<Rightarrow> phase \<Rightarrow> move_step option \<Rightarrow> phase \<Rightarrow> world" where
  "scene c i s sp r rp = \<lparr>w_cell = c, w_inbox = i, w_source = \<lparr>row_step = s, row_abort = False\<rparr>, w_src_phase = sp,
     w_receiver = map_option (\<lambda>t. \<lparr>row_step = t, row_abort = False\<rparr>) r, w_rcv_phase = rp,
     w_src_stopped = False, w_src_paused = False, w_rcv_stopped = False, w_rcv_paused = False\<rparr>"

definition calm :: "move_step \<Rightarrow> mv_row" where
  "calm t = \<lparr>row_step = t, row_abort = False\<rparr>"

lemmas scene_simps = held_defs scene_def calm_def is_terminal_def watching_def source_cleaning_def receiver_cleaning_def before_boundary_def
  checkpoint_def source_observe_def receiver_observe_def lands_iff allowed_transition_def cell_version_def cell_state_def
  put_cell_def save_receiver_def first_world_def numeral_eq_Suc

lemma scene_publishes: "leads first_world (scene (Some (Published, 1)) True StPublished Resting None Resting)"
proof -
  note run = src_leads [OF _ src_tick_absent] src_leads [OF _ src_export] src_leads [OF _ src_seal] src_leads [OF _ src_publish]
    src_leads [OF _ src_announce] src_leads [OF _ src_published]
  have "leads first_world (scene None False StPreparing (Acting None False) None Resting)"
    using run(1) [OF leads_refl, of first_world] by (simp add: scene_simps)
  from run(2) [OF this] have "leads first_world (scene None False StExported Resting None Resting)" by (simp add: scene_simps)
  from run(1) [OF this] have "leads first_world (scene None False StExported (Acting None False) None Resting)" by (simp add: scene_simps)
  from run(3) [OF this] have "leads first_world (scene None False StSealed Resting None Resting)" by (simp add: scene_simps)
  from run(1) [OF this] have "leads first_world (scene None False StSealed (Acting None False) None Resting)" by (simp add: scene_simps)
  from run(4) [OF this] have "leads first_world (scene (Some (Published, 1)) False StSealed Announcing None Resting)" by (simp add: scene_simps)
  from run(5) [OF this] have "leads first_world (scene (Some (Published, 1)) True StSealed Announced None Resting)" by (simp add: scene_simps)
  from run(6) [OF this] show ?thesis by (simp add: scene_simps)
qed

text \<open>A receiver's tick at rest with a calm row.\<close>

lemma scene_tick: "leads u (scene (Some (st, v)) i s sp (Some t) Resting) \<Longrightarrow> \<not> is_terminal t \<Longrightarrow> st \<noteq> Aborted \<Longrightarrow>
    leads u (scene (Some (st, v)) i s sp (Some t) (Acting (Some (st, v)) False))"
  using rcv_leads [OF _ rcv_tick, of u "scene (Some (st, v)) i s sp (Some t) Resting" "\<lparr>row_step = t, row_abort = False\<rparr>" st v]
  by (simp add: scene_simps)

lemma scene_staging: "leads first_world (scene (Some (Staged, 2)) True StPublished Resting (Some StImported) (Landed Staged))"
proof -
  from rcv_leads [OF scene_publishes rcv_pickup [where v = 1 and st = StPickedUp]]
  have "leads first_world (scene (Some (Published, 1)) True StPublished Resting (Some StPickedUp) Resting)" by (simp add: scene_simps)
  from rcv_leads [OF scene_tick [OF this] rcv_import [where r = "calm StPickedUp"]] have "leads first_world (scene (Some (Published, 1)) True StPublished Resting (Some StImported) Resting)"
    by (simp add: scene_simps)
  from rcv_leads [OF scene_tick [OF this] rcv_stage [where r = "calm StImported"]]
  show ?thesis by (simp add: scene_simps)
qed

lemma scene_activating:
  "leads first_world (scene (Some (Claimed, 3)) True StPublished Resting (Some StActivating) (Acting (Some (Claimed, 3)) False))"
proof -
  from rcv_leads [OF scene_staging rcv_save [where r = "calm StImported" and st = Staged and next_step = StStaged]] have "leads first_world (scene (Some (Staged, 2)) True StPublished Resting (Some StStaged) Resting)"
    by (simp add: scene_simps)
  from rcv_leads [OF scene_tick [OF this] rcv_claim [where r = "calm StStaged"]]
  have "leads first_world (scene (Some (Claimed, 3)) True StPublished Resting (Some StStaged) (Landed Claimed))" by (simp add: scene_simps)
  from rcv_leads [OF this rcv_save [where r = "calm StStaged" and st = Claimed and next_step = StClaimed]] have "leads first_world (scene (Some (Claimed, 3)) True StPublished Resting (Some StClaimed) Resting)"
    by (simp add: scene_simps)
  from rcv_leads [OF scene_tick [OF this] rcv_activating [where r = "calm StClaimed"]] have "leads first_world (scene (Some (Claimed, 3)) True StPublished Resting (Some StActivating) Resting)"
    by (simp add: scene_simps)
  from scene_tick [OF this] show ?thesis by (simp add: is_terminal_def)
qed

lemma scene_activates: "leads first_world (scene (Some (Activated, 4)) True StPublished Resting (Some StActivated) Resting)"
proof -
  from rcv_leads [OF scene_activating rcv_activate [where r = "calm StActivating"]]
  have "leads first_world (scene (Some (Activated, 4)) True StPublished Resting (Some StActivating) (Landed Activated))" by (simp add: scene_simps)
  from rcv_leads [OF this rcv_save [where r = "calm StActivating" and st = Activated and next_step = StActivated]] show ?thesis by (simp add: scene_simps)
qed

lemma leads_reachable: "leads w w' \<Longrightarrow> reachable w \<Longrightarrow> reachable w'"
  unfolding leads_def by (induction rule: rtranclp_induct) (auto intro: reach_next)

lemma completed_move: "\<exists>w r. reachable w \<and> row_step (w_source w) = StReleased \<and> w_receiver w = Some r \<and> row_step r = StDone"
proof -
  let ?u = "scene (Some (Activated, 4)) True StPublished Resting (Some StActivated) Resting"
  obtain w where w: "leads ?u w" "cell_state w = Some Released" "row_step (w_source w) = StReleased" "w_receiver w = w_receiver ?u" "unheld w"
    using settle_source_releasing [of ?u 4] by (auto simp: scene_def held_defs)
  then obtain r where r: "w_receiver w = Some r" "row_step r = StActivated" by (simp add: scene_def)
  from w(2) obtain v where "w_cell w = Some (Released, v)" by (auto simp: cell_state_def)
  from settle_receiver_done [OF r this w(5)] obtain w' r' where "leads w w'" "w_source w' = w_source w" "w_receiver w' = Some r'" "row_step r' = StDone"
    by blast
  then show ?thesis using w leads_trans [OF scene_activates] leads_trans leads_reachable [OF _ reach_start] by metis
qed

section \<open>The properties of the protocol\<close>

text \<open>C6. In every reachable world at most one side can run the agent: once the source has aborted and
  resumed it, the receiver is not past its boundary and never activates, and the source only starts
  releasing for a receiver that is past it. Each side's outcome is the one the shared record decides.\<close>

theorem one_side_runs:
  assumes "reachable w"
  shows "(row_step (w_source w) = StAborted \<longrightarrow>
      (\<forall>r. w_receiver w = Some r \<longrightarrow> row_step r \<notin> {StActivating, StActivated, StDone, StTakenOver}))
    \<and> (row_step (w_source w) \<in> {StReleasing, StReleased} \<longrightarrow>
      (\<exists>r. w_receiver w = Some r \<and> row_step r \<in> {StActivating, StActivated, StDone, StTakenOver}))
    \<and> source_outcome (row_step (w_source w)) \<in> {None, decision w}
    \<and> receiver_outcome (map_option row_step (w_receiver w)) \<in> {None, decision w}"
  using reachable_inv [OF assms] never_both [of w] released_activated [of w] outcomes_agree [of w] by simp

lemma one_side_runs_witness:
  "\<exists>w r. row_step (w_source w) = StReleased \<and> w_receiver w = Some r \<and> row_step r = StDone \<and> decision w = Some Moved"
proof -
  obtain w r where "reachable w" "row_step (w_source w) = StReleased" "w_receiver w = Some r" "row_step r = StDone"
    using completed_move by blast
  with one_side_runs [OF this(1)] show ?thesis by (auto simp: source_outcome_def)
qed

text \<open>C12. The two drivers around the shared record refine an atomic commitment: every step of either
  driver, with whatever the other and the operator do between, decides the move at most once and
  lets a side take only the decided outcome, for good.\<close>

theorem drivers_commit:
  assumes "reachable w" and "world_step w w'"
  shows "commitment_step (commitment_of w) (commitment_of w')"
  using step_commits [OF assms(2) reachable_inv [OF assms(1)]] .

lemma drivers_commit_witness:
  "\<exists>w w'. cm_decision (commitment_of w) = None \<and> cm_decision (commitment_of w') = Some Moved
     \<and> commitment_step (commitment_of w) (commitment_of w')"
proof -
  define u where "u = scene (Some (Claimed, 3)) True StPublished Resting (Some StActivating) (Acting (Some (Claimed, 3)) False)"
  define u' where "u' = scene (Some (Activated, 4)) True StPublished Resting (Some StActivating) (Landed Activated)"
  have "reachable u" using leads_reachable [OF scene_activating reach_start] by (simp add: u_def)
  moreover have "world_step u u'"
    using by_receiver [OF rcv_activate [where w = u and r = "calm StActivating" and v = 3]] by (simp add: u_def u'_def scene_simps)
  ultimately have "commitment_step (commitment_of u) (commitment_of u')" by (rule drivers_commit)
  then show ?thesis by (intro exI [of _ u] exI [of _ u']) (simp add: commitment_of_def decision_def u_def u'_def scene_def cell_state_def)
qed

text \<open>C22. No move is stuck unless a driver is stopped for good: from every reachable world in which no
  participant broke its contract and no activation forked, wherever a driver crashed or paused, some
  continuation ends both rows, with outcomes that agree with the record.\<close>

theorem moves_can_settle:
  assumes "reachable w" and "\<not> w_src_stopped w" and "\<not> w_rcv_stopped w"
  shows "\<exists>w'. world_step\<^sup>*\<^sup>* w w' \<and> settled w' \<and> source_outcome (row_step (w_source w')) = decision w'
    \<and> receiver_outcome (map_option row_step (w_receiver w')) \<in> {None, decision w'}"
proof -
  obtain v where v: "leads w v" "unheld v" using restarted assms(2,3) by blast
  have "world_inv v" using leads_inv [OF v(1)] reachable_inv [OF assms(1)] .
  then obtain w' where w': "leads w w'" "settled w'" using can_settle v leads_trans by blast
  then have "world_inv w'" using leads_inv reachable_inv [OF assms(1)] by blast
  then have "source_outcome (row_step (w_source w')) \<in> {None, decision w'}"
    "receiver_outcome (map_option row_step (w_receiver w')) \<in> {None, decision w'}" by (rule outcomes_agree)+
  moreover have "source_outcome (row_step (w_source w')) \<noteq> None" using w'(2) by (auto simp: settled_def source_outcome_def)
  ultimately show ?thesis using w' by (auto simp: leads_def)
qed

lemma moves_can_settle_witness:
  "\<exists>w'. world_step\<^sup>*\<^sup>* (scene (Some (Staged, 2)) True StPublished Resting (Some StImported) (Landed Staged)) w' \<and> settled w'"
proof -
  let ?w = "scene (Some (Staged, 2)) True StPublished Resting (Some StImported) (Landed Staged)"
  have "\<not> w_src_stopped ?w" "\<not> w_rcv_stopped ?w" by (simp_all add: scene_def)
  from moves_can_settle [OF leads_reachable [OF scene_staging reach_start] this] show ?thesis by blast
qed

text \<open>A stop is durable and harmless: whatever the other side, the operator, a retry or a restart does, a
  stopped receiver stays stopped at its step, and a stopped source stays stopped and leaves its step
  only to follow a record that the receiver activated; neither writes the record in any step it takes.\<close>

theorem stopped_driver_waits:
  assumes "reachable w" and "world_step\<^sup>*\<^sup>* w w'"
  shows "(w_rcv_stopped w \<and> w_receiver w = Some r \<longrightarrow> w_rcv_stopped w' \<and> map_option row_step (w_receiver w') = Some (row_step r))
    \<and> (w_src_stopped w \<longrightarrow> w_src_stopped w' \<and> (row_step (w_source w') = row_step (w_source w)
        \<or> row_step (w_source w') \<in> {StReleasing, StReleased} \<and> decision w' = Some Moved))
    \<and> (w_rcv_stopped w \<longrightarrow> (\<forall>v. receiver_step w v \<longrightarrow> w_cell v = w_cell w))
    \<and> (w_src_stopped w \<longrightarrow> (\<forall>v. source_step w v \<longrightarrow> w_cell v = w_cell w))"
proof -
  note rests = reachable_rests [OF assms(1)]
  have "reachable w' \<and> (w_rcv_stopped w \<and> w_receiver w = Some r \<longrightarrow> w_rcv_stopped w' \<and> map_option row_step (w_receiver w') = Some (row_step r))
    \<and> (w_src_stopped w \<longrightarrow> w_src_stopped w' \<and> (row_step (w_source w') = row_step (w_source w)
        \<or> row_step (w_source w') \<in> {StReleasing, StReleased} \<and> decision w' = Some Moved))"
    using assms(2)
  proof (induction rule: rtranclp_induct)
    case (step y z)
    have y: "reachable y" and z: "reachable z" using step by (auto intro: reach_next)
    note r = reachable_rests [OF y] and inv = reachable_inv [OF y]
    have other: "source_step y z \<Longrightarrow> w_receiver z = w_receiver y \<and> w_rcv_stopped z = w_rcv_stopped y"
      "receiver_step y z \<Longrightarrow> w_source z = w_source y \<and> w_src_stopped z = w_src_stopped y"
      using source_other receiver_other by blast+
    have moved: "decision z = Some Moved" if "cell_state y \<in> {Some Activated, Some Released}"
      using decision_stays [OF step(2) inv, of Moved] that by (simp add: decision_def)
    have kept: "decision z = Some Moved" if "decision y = Some Moved" by (rule decision_stays [OF step(2) inv that])
    from step(2) show ?case
    proof (cases rule: world_step.cases)
      case by_source
      show ?thesis using step.IH z other(1) [OF by_source] stopped_source [OF by_source r] moved kept by auto
    next
      case by_receiver
      show ?thesis using step.IH z other(2) [OF by_receiver] stopped_receiver [OF by_receiver r] kept by auto
    qed
  qed (use assms(1) in simp)
  then show ?thesis using stopped_source [OF _ rests] stopped_receiver [OF _ rests] by blast
qed

lemma stopped_driver_waits_witness:
  "\<exists>w r. world_step (scene (Some (Claimed, 3)) True StPublished Resting (Some StActivating) (Acting (Some (Claimed, 3)) False)) w
     \<and> w_rcv_stopped w \<and> w_receiver w = Some r \<and> row_step r = StActivating"
proof -
  define u where "u = scene (Some (Claimed, 3)) True StPublished Resting (Some StActivating) (Acting (Some (Claimed, 3)) False)"
  define w where "w = u\<lparr>w_rcv_stopped := True, w_rcv_phase := Resting\<rparr>"
  define w' where "w' = w\<lparr>w_rcv_paused := False, w_rcv_phase := Resting\<rparr>"
  have step: "world_step u w" unfolding w_def by (rule by_receiver, rule rcv_broken) (simp add: u_def scene_def)
  have "reachable u" using leads_reachable [OF scene_activating reach_start] by (simp add: u_def)
  then have w: "reachable w" using step by (rule reach_next)
  have "world_step w w'" unfolding w'_def by (rule by_receiver, rule rcv_restart)
  then have "world_step\<^sup>*\<^sup>* w w'" by blast
  from stopped_driver_waits [OF w this, of "calm StActivating"] have "w_rcv_stopped w'" "map_option row_step (w_receiver w') = Some StActivating"
    by (simp_all add: w_def u_def scene_def calm_def)
  then have "w_rcv_stopped w" "map_option row_step (w_receiver w) = Some StActivating" by (simp_all add: w'_def)
  then show ?thesis using step by (auto simp: u_def)
qed

end
