(* ===== verification/RecordClient.thy ===== *)
theory RecordClient
  imports Catalog MoveRecord
begin

text \<open>
  The record client (\<open>crates/entorhinal-module/src/record_client.rs\<close>): the three methods of the
  record service that both move drivers, the claim refresh and the role operations call. The
  service and the route to it are a parameter: a \<open>net\<close> gives, for the state of the world, a method
  and its parameters, the next state and what came back. What the client relies on is documented
  at the head of the file and stated as hypotheses where a theorem needs it. The text of a protocol
  error is a diagnostic that no decision reads, and is dropped.
\<close>

datatype transport_error = Refusal string "json option" | Unavailable | NoReply

text \<open>What one call brings back: bytes, a failure of the transport, or nothing before the deadline.\<close>

datatype answer = Answered string | Failed transport_error | TimedOut

type_synonym 'w net = "'w \<Rightarrow> string \<Rightarrow> json \<Rightarrow> 'w \<times> answer"

datatype record_error = Refused string "json option" | NoReplied | Protocol

definition READ :: string where "READ = ''record.read''"
definition READ_MANY :: string where "READ_MANY = ''record.read_many''"
definition CAS :: string where "CAS = ''record.cas''"
definition SUBJECT_CAP :: nat where "SUBJECT_CAP = 256"
definition RECORD_BODY_CAP :: nat where "RECORD_BODY_CAP = 64 * 1024"
definition MANY_CAP :: nat where "MANY_CAP = 64"
definition PAGE_CAP :: nat where "PAGE_CAP = 1024 * 1024"

definition REFUSALS :: "string list" where
  "REFUSALS = [''invalid_request'', ''caller_forbidden'', ''too_large'', ''key_unavailable'', ''decrypt_failed'',
     ''verify_failed'', ''not_member'', ''unavailable'', ''version_moved'', ''id_reused'', ''control_head_stale'']"

definition record_refusal :: "string \<Rightarrow> json option \<Rightarrow> record_error" where
  "record_refusal code detail = (if code \<in> set REFUSALS then Refused code detail else Protocol)"

fun record_code :: "record_error \<Rightarrow> string" where
  "record_code (Refused code detail) = code"
| "record_code NoReplied = ''unavailable''"
| "record_code Protocol = ''record_protocol''"

fun of_transport :: "transport_error \<Rightarrow> record_error" where
  "of_transport (Refusal code detail) = record_refusal code detail"
| "of_transport Unavailable = record_refusal ''unavailable'' None"
| "of_transport NoReply = NoReplied"

section \<open>Replies\<close>

record record_reply =
  rr_absent :: bool
  rr_version :: nat
  rr_body :: "string option"
  rr_author :: "string option"
  rr_self_author :: string
  rr_stale :: bool

record wire_reply =
  wr_absent :: bool
  wr_version :: nat
  wr_body :: "string option"
  wr_author :: "string option"
  wr_self_author :: string
  wr_stale :: bool

definition bool_field :: "json \<Rightarrow> string \<Rightarrow> bool option" where
  "bool_field v k = (case jget v k of Some (JBool b) \<Rightarrow> Some b | _ \<Rightarrow> None)"

definition reply_fields :: "string list" where
  "reply_fields = [''absent'', ''version'', ''body'', ''author'', ''self_author'', ''stale'']"

definition wire_reply_of :: "json \<Rightarrow> wire_reply option" where
  "wire_reply_of v =
    (if \<not> known_fields reply_fields v then None
     else (case (bool_field v ''absent'', u64_field v ''version'', opt_str_field v ''body'', opt_str_field v ''author'',
         str_field v ''self_author'', bool_field v ''stale'') of
       (Some a, Some n, Some b, Some w, Some s, Some t) \<Rightarrow>
         Some \<lparr>wr_absent = a, wr_version = n, wr_body = b, wr_author = w, wr_self_author = s, wr_stale = t\<rparr>
     | _ \<Rightarrow> None))"

text \<open>An author is a roster pseudonym: 16 bytes in lowercase hexadecimal.\<close>

definition valid_author :: "string \<Rightarrow> bool" where
  "valid_author a \<longleftrightarrow> length a = 32 \<and> list_all lower_hex a"

text \<open>\<open>decode_hex\<close> of \<open>log_client.rs\<close>: lowercase digits, in pairs.\<close>

definition decode_lower_hex :: "string \<Rightarrow> string option" where
  "decode_lower_hex s = (if odd (length s) \<or> \<not> list_all lower_hex s then None else Some (hex_pairs s))"

definition consistent_reply :: "wire_reply \<Rightarrow> string option \<Rightarrow> bool" where
  "consistent_reply w body \<longleftrightarrow>
    \<not> (\<not> valid_author (wr_self_author w)
      \<or> some_and (\<lambda>s. \<not> valid_author s) (wr_author w)
      \<or> some_and (\<lambda>b. RECORD_BODY_CAP < length b) body
      \<or> wr_absent w \<and> (wr_version w \<noteq> 0 \<or> is_some body \<or> is_some (wr_author w))
      \<or> \<not> wr_absent w \<and> (wr_version w = 0 \<or> \<not> is_some body \<or> \<not> is_some (wr_author w)))"

definition wire_body :: "wire_reply \<Rightarrow> record_error + string option" where
  "wire_body w = (case wr_body w of None \<Rightarrow> Inr None
     | Some s \<Rightarrow> (case decode_lower_hex s of None \<Rightarrow> Inl Protocol | Some b \<Rightarrow> Inr (Some b)))"

definition decode_reply :: "json \<Rightarrow> record_error + record_reply" where
  "decode_reply v =
    (if \<exists>k \<in> set reply_fields. jget v k = None then Inl Protocol
     else bind_res (ok_or (wire_reply_of v) Protocol) (\<lambda>w.
       bind_res (wire_body w) (\<lambda>body.
       if \<not> consistent_reply w body then Inl Protocol
       else Inr \<lparr>rr_absent = wr_absent w, rr_version = wr_version w, rr_body = body, rr_author = wr_author w,
         rr_self_author = wr_self_author w, rr_stale = wr_stale w\<rparr>)))"

text \<open>The test helper that spells a reply, which a decoder must read back.\<close>

definition opt_str :: "string option \<Rightarrow> json" where
  "opt_str x = (case x of None \<Rightarrow> JNull | Some s \<Rightarrow> JStr s)"

definition wire_of_reply :: "record_reply \<Rightarrow> json" where
  "wire_of_reply r = JObj [(''absent'', JBool (rr_absent r)), (''author'', opt_str (rr_author r)),
     (''body'', opt_str (map_option hex (rr_body r))), (''self_author'', JStr (rr_self_author r)),
     (''stale'', JBool (rr_stale r)), (''version'', JNum (PosInt (rr_version r)))]"

section \<open>The calls\<close>

definition client_call :: "serde \<Rightarrow> 'w net \<Rightarrow> 'w \<Rightarrow> string \<Rightarrow> json \<Rightarrow> 'w \<times> (record_error + json)" where
  "client_call S net w method params =
    (let (w1, a) = net w method params in
     (w1, case a of
        TimedOut \<Rightarrow> Inl (record_refusal ''unavailable'' None)
      | Failed e \<Rightarrow> Inl (of_transport e)
      | Answered bytes \<Rightarrow> (case sj_read S bytes of None \<Rightarrow> Inl Protocol
          | Some r \<Rightarrow> ok_or (jget (value_of_raw r) ''result'') Protocol)))"

definition validate_subject :: "string \<Rightarrow> record_error + unit" where
  "validate_subject s =
    (if s = [] then Inl (record_refusal ''invalid_request'' None)
     else if SUBJECT_CAP < length s then
       Inl (record_refusal ''too_large'' (Some (JObj [(''cap'', JNum (PosInt SUBJECT_CAP)), (''field'', JStr ''subject'')])))
     else Inr ())"

definition client_read :: "serde \<Rightarrow> 'w net \<Rightarrow> 'w \<Rightarrow> string \<Rightarrow> 'w \<times> (record_error + record_reply)" where
  "client_read S net w subject =
    (case validate_subject subject of Inl e \<Rightarrow> (w, Inl e)
     | Inr _ \<Rightarrow> (let (w1, r) = client_call S net w READ (JObj [(''subject'', JStr subject)]) in
         (w1, bind_res r decode_reply)))"

record page =
  pg_entries :: "json list"
  pg_next :: "nat option"

definition opt_usize :: "json option \<Rightarrow> nat option option" where
  "opt_usize v = (case v of None \<Rightarrow> Some None | Some JNull \<Rightarrow> Some None | Some (JNum (PosInt n)) \<Rightarrow> Some (Some n) | _ \<Rightarrow> None)"

definition page_of :: "json \<Rightarrow> page option" where
  "page_of v = (case v of
     JObj m \<Rightarrow> if \<not> known_fields [''entries'', ''next''] v then None
       else (case (jget v ''entries'', opt_usize (jget v ''next'')) of
         (Some (JArr es), Some n) \<Rightarrow> Some \<lparr>pg_entries = es, pg_next = n\<rparr> | _ \<Rightarrow> None)
   | JArr [JArr es, x] \<Rightarrow> map_option (\<lambda>n. \<lparr>pg_entries = es, pg_next = n\<rparr>) (opt_usize (Some x))
   | _ \<Rightarrow> None)"

definition valid_prefix :: "nat \<Rightarrow> page \<Rightarrow> bool" where
  "valid_prefix n p \<longleftrightarrow>
    \<not> (pg_entries p = []
      \<or> n < length (pg_entries p)
      \<or> length (pg_entries p) < n \<and> pg_next p \<noteq> Some (length (pg_entries p))
      \<or> length (pg_entries p) = n \<and> is_some (pg_next p))"

definition entry_reply :: "json \<Rightarrow> record_error + (record_error + record_reply)" where
  "entry_reply v = (case jget v ''error'' of
     Some e \<Rightarrow>
       bind_res (ok_or (as_str (jidx e ''code'')) Protocol) (\<lambda>code.
       if code \<notin> {''verify_failed'', ''decrypt_failed'', ''key_unavailable'', ''unavailable''} then Inl Protocol
       else Inr (Inl (record_refusal code (case jget e ''detail'' of Some JNull \<Rightarrow> None | d \<Rightarrow> d))))
   | None \<Rightarrow> bind_res (decode_reply v) (\<lambda>r. Inr (Inr r)))"

definition body_bytes :: "record_error + record_reply \<Rightarrow> nat" where
  "body_bytes r = (case r of Inl _ \<Rightarrow> 0 | Inr x \<Rightarrow> (case rr_body x of None \<Rightarrow> 0 | Some b \<Rightarrow> length b))"

definition read_page :: "nat \<Rightarrow> json \<Rightarrow> record_error + ((record_error + record_reply) list \<times> nat option)" where
  "read_page n v =
    bind_res (ok_or (page_of v) Protocol) (\<lambda>p.
      if \<not> valid_prefix n p then Inl Protocol
      else bind_res (map_res entry_reply (pg_entries p)) (\<lambda>entries.
        if PAGE_CAP < sum_list (map body_bytes entries) then Inl Protocol
        else Inr (entries, pg_next p)))"

definition read_many :: "serde \<Rightarrow> 'w net \<Rightarrow> 'w \<Rightarrow> string list
    \<Rightarrow> 'w \<times> (record_error + ((record_error + record_reply) list \<times> nat option))" where
  "read_many S net w subjects =
    (if subjects = [] \<or> MANY_CAP < length subjects then (w, Inl (record_refusal ''invalid_request'' None))
     else (case each_ok validate_subject subjects of Inl e \<Rightarrow> (w, Inl e)
     | Inr _ \<Rightarrow> (let (w1, r) = client_call S net w READ_MANY (JObj [(''subjects'', JArr (map JStr subjects))]) in
         (w1, bind_res r (read_page (length subjects))))))"

record cas_request =
  cq_subject :: string
  cq_expected :: nat
  cq_body :: string
  cq_write_id :: "char list"

datatype cas_settlement = Landed nat | Moved record_reply

definition cas_params :: "cas_request \<Rightarrow> json" where
  "cas_params q = JObj [(''body'', JStr (hex (cq_body q))), (''expected_version'', JNum (PosInt (cq_expected q))),
     (''subject'', JStr (cq_subject q)), (''write_id'', JStr (hex (cq_write_id q)))]"

definition client_cas :: "serde \<Rightarrow> 'w net \<Rightarrow> 'w \<Rightarrow> cas_request \<Rightarrow> 'w \<times> (record_error + nat)" where
  "client_cas S net w q =
    (case validate_subject (cq_subject q) of Inl e \<Rightarrow> (w, Inl e)
     | Inr _ \<Rightarrow>
       if RECORD_BODY_CAP < length (cq_body q) then
         (w, Inl (record_refusal ''too_large'' (Some (JObj [(''cap'', JNum (PosInt RECORD_BODY_CAP)), (''field'', JStr ''body'')]))))
       else (let (w1, r) = client_call S net w CAS (cas_params q);
                 (w2, r2) = (if r = Inl NoReplied then client_call S net w1 CAS (cas_params q) else (w1, r)) in
         (w2, bind_res r2 (\<lambda>reply. bind_res (ok_or (u64_field reply ''version'') Protocol) (\<lambda>v.
            if v = 0 then Inl Protocol else Inr v)))))"

text \<open>
  An attempt that was answered with another version or not at all is settled by a fresh read: it
  landed exactly when the subject now holds, under the author's name, a body that decodes to the
  same value.
\<close>

definition cas_settled :: "serde \<Rightarrow> 'w net \<Rightarrow> 'w \<Rightarrow> cas_request \<Rightarrow> string \<Rightarrow> (string \<Rightarrow> string + 'a)
    \<Rightarrow> 'w \<times> (record_error + cas_settlement)" where
  "cas_settled S net w q author dec =
    (let (w1, r) = client_cas S net w q in
     case r of
       Inr v \<Rightarrow> (w1, Inr (Landed v))
     | Inl e \<Rightarrow>
       if record_code e = ''version_moved'' \<or> e = NoReplied then
         (let (w2, r2) = client_read S net w1 (cq_subject q) in
          (w2, bind_res r2 (\<lambda>reply.
             if rr_stale reply then Inl (record_refusal ''unavailable'' None)
             else bind_res (map_err (\<lambda>code. record_refusal code None) (dec (cq_body q))) (\<lambda>want.
               if \<not> rr_absent reply \<and> rr_author reply = Some author
                  \<and> (case rr_body reply of None \<Rightarrow> False | Some b \<Rightarrow> dec b = Inr want)
               then Inr (Landed (rr_version reply)) else Inr (Moved reply)))))
       else (w1, Inl e))"


section \<open>What the calls establish\<close>

lemma decode_reply_cases:
  assumes "decode_reply v = Inr r"
  obtains w body where "wire_reply_of v = Some w" "wire_body w = Inr body" "consistent_reply w body"
    "r = \<lparr>rr_absent = wr_absent w, rr_version = wr_version w, rr_body = body, rr_author = wr_author w,
         rr_self_author = wr_self_author w, rr_stale = wr_stale w\<rparr>"
  using assms unfolding decode_reply_def bind_res_eq_Inr if_Inl_eq_Inr ok_or_eq_Inr
  by (elim conjE exE) (rule that, assumption+, simp_all)

lemma decode_reply_Inr: "decode_reply v = Inr r \<Longrightarrow> valid_author (rr_self_author r)
    \<and> (rr_absent r \<longrightarrow> rr_version r = 0 \<and> rr_body r = None \<and> rr_author r = None)
    \<and> (\<not> rr_absent r \<longrightarrow> 0 < rr_version r \<and> (\<exists>b a. rr_body r = Some b \<and> rr_author r = Some a
         \<and> length b \<le> RECORD_BODY_CAP \<and> valid_author a))"
proof (erule decode_reply_cases)
  fix w body
  assume c: "consistent_reply w body" and r: "r = \<lparr>rr_absent = wr_absent w, rr_version = wr_version w, rr_body = body,
    rr_author = wr_author w, rr_self_author = wr_self_author w, rr_stale = wr_stale w\<rparr>"
  show ?thesis using c unfolding r consistent_reply_def
    by (cases body; cases "wr_author w") auto
qed

lemma page_prefix:
  assumes "read_page n v = Inr (entries, nxt)"
  shows "0 < length entries \<and> length entries \<le> n \<and> nxt = (if length entries < n then Some (length entries) else None)
    \<and> sum_list (map body_bytes entries) \<le> PAGE_CAP"
proof -
  obtain p where p: "valid_prefix n p" "map_res entry_reply (pg_entries p) = Inr entries"
      and cap: "\<not> PAGE_CAP < sum_list (map body_bytes entries)" and nxt: "nxt = pg_next p"
    using assms unfolding read_page_def bind_res_eq_Inr if_Inl_eq_Inr ok_or_eq_Inr by auto
  from p(2) have "length (pg_entries p) = length entries"
    by (simp add: map_res_Inr list_all2_lengthD)
  with p(1) cap nxt show ?thesis by (cases "pg_next p") (auto simp: valid_prefix_def)
qed

lemma read_many_prefix: "read_many S net w subjects = (w', Inr (entries, nxt)) \<Longrightarrow>
    0 < length entries \<and> length entries \<le> length subjects \<and> length subjects \<le> MANY_CAP
    \<and> nxt = (if length entries < length subjects then Some (length entries) else None)
    \<and> sum_list (map body_bytes entries) \<le> PAGE_CAP"
  unfolding read_many_def
  by (auto simp: Let_def bind_res_eq_Inr dest!: page_prefix split: if_splits sum.splits prod.splits)

text \<open>The text of a reply is what its decoder reads.\<close>

lemma length_hex_even: "even (length (hex b))"
  by simp

lemma lower_hex_is: "lower_hex = is_hex_digit"
  by (rule ext) (simp add: lower_hex_def is_hex_digit_def)

lemma decode_lower_hex_hex: "decode_lower_hex (hex b) = Some b"
  using is_hex_hex [of b] by (simp add: decode_lower_hex_def hex_pairs_hex lower_hex_is is_hex_def)

definition reply_ok :: "record_reply \<Rightarrow> bool" where
  "reply_ok r \<longleftrightarrow> consistent_reply \<lparr>wr_absent = rr_absent r, wr_version = rr_version r, wr_body = map_option hex (rr_body r),
     wr_author = rr_author r, wr_self_author = rr_self_author r, wr_stale = rr_stale r\<rparr> (rr_body r)"

lemma wire_of_reply_get:
  "jget (wire_of_reply r) ''absent'' = Some (JBool (rr_absent r))"
  "jget (wire_of_reply r) ''author'' = Some (opt_str (rr_author r))"
  "jget (wire_of_reply r) ''body'' = Some (opt_str (map_option hex (rr_body r)))"
  "jget (wire_of_reply r) ''self_author'' = Some (JStr (rr_self_author r))"
  "jget (wire_of_reply r) ''stale'' = Some (JBool (rr_stale r))"
  "jget (wire_of_reply r) ''version'' = Some (JNum (PosInt (rr_version r)))"
  "known_fields reply_fields (wire_of_reply r)"
  by (simp_all add: wire_of_reply_def bt_get_def known_fields_def reply_fields_def)

lemma opt_str_field_opt: "jget v k = Some (opt_str x) \<Longrightarrow> opt_str_field v k = Some x"
  by (cases x) (simp_all add: opt_str_def opt_str_field_def)

lemma decode_wire_of_reply:
  assumes "reply_ok r" shows "decode_reply (wire_of_reply r) = Inr r"
proof -
  have "\<forall>k \<in> set reply_fields. jget (wire_of_reply r) k \<noteq> None"
    by (simp add: reply_fields_def wire_of_reply_get)
  then show ?thesis using assms opt_str_field_opt [OF wire_of_reply_get(2)] opt_str_field_opt [OF wire_of_reply_get(3)]
    by (cases r; cases "rr_body r")
      (simp_all add: decode_reply_def wire_reply_of_def wire_of_reply_get bool_field_def u64_field_def str_field_def
        reply_ok_def decode_lower_hex_hex wire_body_def)
qed


section \<open>Settling a write\<close>

text \<open>
  What the service promises of one subject, over the history of bodies and authors it has accepted
  for it: the history only grows; a version answered to an attempt is where the history holds
  that attempt's body under its sender; a read that is not stale is the end of the history.
\<close>

definition serves :: "serde \<Rightarrow> 'w net \<Rightarrow> ('w \<Rightarrow> (string \<times> string) list) \<Rightarrow> cas_request \<Rightarrow> string \<Rightarrow> bool" where
  "serves S net hist q me \<longleftrightarrow>
    (\<forall>w m p. \<exists>t. hist (fst (net w m p)) = hist w @ t)
    \<and> (\<forall>w w' reply v. client_call S net w CAS (cas_params q) = (w', Inr reply) \<and> u64_field reply ''version'' = Some v \<and> 0 < v
         \<longrightarrow> v \<le> length (hist w') \<and> hist w' ! (v - 1) = (cq_body q, me))
    \<and> (\<forall>w w' r. client_read S net w (cq_subject q) = (w', Inr r) \<and> \<not> rr_stale r
         \<longrightarrow> (if rr_absent r then hist w' = []
              else hist w' \<noteq> [] \<and> rr_version r = length (hist w')
                \<and> (\<exists>b a. rr_body r = Some b \<and> rr_author r = Some a \<and> last (hist w') = (b, a))))"

lemma client_cas_Inr:
  assumes "client_cas S net w q = (w', Inr v)"
  obtains w0 reply where "client_call S net w0 CAS (cas_params q) = (w', Inr reply)" "u64_field reply ''version'' = Some v" "0 < v"
proof -
  have *: "bind_res r (\<lambda>reply. bind_res (ok_or (u64_field reply ''version'') Protocol) (\<lambda>v. if v = 0 then Inl Protocol else Inr v)) = Inr v
      \<longleftrightarrow> (\<exists>reply. r = Inr reply \<and> u64_field reply ''version'' = Some v \<and> 0 < v)" for r
    by (auto simp: bind_res_eq_Inr)
  obtain w1 r where c: "client_call S net w CAS (cas_params q) = (w1, r)" by (cases "client_call S net w CAS (cas_params q)")
  show ?thesis
  proof (cases "r = Inl NoReplied")
    case True
    obtain w2 r2 where c2: "client_call S net w1 CAS (cas_params q) = (w2, r2)" by (cases "client_call S net w1 CAS (cas_params q)")
    from assms c c2 True show ?thesis unfolding client_cas_def
      by (auto simp: * split: sum.splits if_splits intro: that)
  next
    case False
    from assms c False show ?thesis unfolding client_cas_def
      by (auto simp: * split: sum.splits if_splits intro: that)
  qed
qed

lemma cas_settled_Inr:
  assumes "cas_settled S net w q author dec = (w', Inr x)"
  obtains v where "x = Landed v" "client_cas S net w q = (w', Inr v)"
  | w1 reply want where "client_read S net w1 (cq_subject q) = (w', Inr reply)" "\<not> rr_stale reply" "dec (cq_body q) = Inr want"
      "x = (if \<not> rr_absent reply \<and> rr_author reply = Some author
            \<and> (case rr_body reply of None \<Rightarrow> False | Some b \<Rightarrow> dec b = Inr want)
         then Landed (rr_version reply) else Moved reply)"
proof -
  obtain w1 r where c: "client_cas S net w q = (w1, r)" by (cases "client_cas S net w q")
  show ?thesis
  proof (cases r)
    case (Inr v)
    with assms c show ?thesis by (auto simp: cas_settled_def intro: that(1))
  next
    case (Inl e)
    obtain w2 r2 where c2: "client_read S net w1 (cq_subject q) = (w2, r2)" by (cases "client_read S net w1 (cq_subject q)")
    show ?thesis using assms c Inl c2 unfolding cas_settled_def
      by (auto simp: bind_res_eq_Inr intro: that(2) split: if_splits)
  qed
qed

lemma cas_settled_sound_aux:
  assumes "serves S net hist q author" and "cas_settled S net w q author dec = (w', Inr x)"
  shows "case x of
      Landed v \<Rightarrow> 0 < v \<and> v \<le> length (hist w') \<and> (\<exists>b. hist w' ! (v - 1) = (b, author)
        \<and> (b = cq_body q \<or> is_ok (dec b) \<and> dec b = dec (cq_body q)))
    | Moved r \<Rightarrow> \<not> rr_stale r \<and> (if rr_absent r then hist w' = []
        else hist w' \<noteq> [] \<and> rr_version r = length (hist w') \<and> (\<exists>b a. last (hist w') = (b, a)
          \<and> \<not> (a = author \<and> is_ok (dec b) \<and> dec b = dec (cq_body q))))"
  using assms(2)
proof (cases rule: cas_settled_Inr)
  case (1 v)
  from \<open>client_cas S net w q = (w', Inr v)\<close> obtain w0 reply where
    "client_call S net w0 CAS (cas_params q) = (w', Inr reply)" "u64_field reply ''version'' = Some v" "0 < v"
    by (rule client_cas_Inr)
  then have "v \<le> length (hist w')" "hist w' ! (v - 1) = (cq_body q, author)"
    using assms(1) unfolding serves_def by blast+
  with 1 \<open>0 < v\<close> show ?thesis by simp
next
  case (2 w1 reply want)
  then have "if rr_absent reply then hist w' = []
      else hist w' \<noteq> [] \<and> rr_version reply = length (hist w')
        \<and> (\<exists>b a. rr_body reply = Some b \<and> rr_author reply = Some a \<and> last (hist w') = (b, a))"
    using assms(1) unfolding serves_def by blast
  with 2 show ?thesis by (auto simp: last_conv_nth is_ok_iff split: if_splits)
qed


text \<open>C14. What a settled write means: \<open>Landed v\<close> is the version at which the subject's history holds,
  under the writer's name, the attempted body or one that decodes to the same value, however many
  replies were lost on the way; \<open>Moved\<close> is a fresh reading of the end of the history, which is not
  such a record; a stale copy settles nothing.\<close>

theorem cas_settled_sound:
  assumes "serves S net hist q author" and "cas_settled S net w q author dec = (w', Inr x)"
  shows "case x of
      Landed v \<Rightarrow> 0 < v \<and> v \<le> length (hist w') \<and> (\<exists>b. hist w' ! (v - 1) = (b, author)
        \<and> (b = cq_body q \<or> is_ok (dec b) \<and> dec b = dec (cq_body q)))
    | Moved r \<Rightarrow> \<not> rr_stale r \<and> (if rr_absent r then hist w' = []
        else hist w' \<noteq> [] \<and> rr_version r = length (hist w') \<and> (\<exists>b a. last (hist w') = (b, a)
          \<and> \<not> (a = author \<and> is_ok (dec b) \<and> dec b = dec (cq_body q))))"
  using assms by (rule cas_settled_sound_aux)

text \<open>A service that stores the attempt, loses both replies, and answers the read after it.\<close>

definition demo_author :: string where
  "demo_author = replicate 32 CHR ''a''"

definition demo_request :: cas_request where
  "demo_request = \<lparr>cq_subject = ''role:x'', cq_expected = 0, cq_body = ''body'', cq_write_id = replicate 16 CHR ''w''\<rparr>"

definition demo_reply :: record_reply where
  "demo_reply = \<lparr>rr_absent = False, rr_version = 1, rr_body = Some ''body'', rr_author = Some demo_author,
     rr_self_author = demo_author, rr_stale = False\<rparr>"

definition lossy_net :: "(string \<times> string) list net" where
  "lossy_net w m p =
    (if m = CAS then (if w = [] then [(''body'', demo_author)] else w, Failed NoReply)
     else if m = READ \<and> w = [(''body'', demo_author)] then (w, Answered ''r'') else (w, TimedOut))"

definition lossy_serde :: serde where
  "lossy_serde = \<lparr>sj_write = (\<lambda>_. []), sj_read = (\<lambda>_. Some (events (JObj [(''result'', wire_of_reply demo_reply)])))\<rparr>"

lemma demo_reply_read: "client_read lossy_serde lossy_net [(''body'', demo_author)] (cq_subject demo_request)
    = ([(''body'', demo_author)], Inr demo_reply)"
  by code_simp

lemma lossy_serves: "serves lossy_serde lossy_net id demo_request demo_author"
proof -
  have "client_read lossy_serde lossy_net w (cq_subject demo_request) = (w', Inr r) \<Longrightarrow>
      w = [(''body'', demo_author)]" for w w' r
    by (cases "w = [(''body'', demo_author)]")
      (auto simp: client_read_def client_call_def lossy_net_def READ_def CAS_def split: sum.splits)
  then have read: "client_read lossy_serde lossy_net w (cq_subject demo_request) = (w', Inr r) \<Longrightarrow>
      w' = [(''body'', demo_author)] \<and> r = demo_reply" for w w' r
    using demo_reply_read by fastforce
  show ?thesis unfolding serves_def
    by (auto simp: lossy_net_def client_call_def CAS_def demo_reply_def dest: read)
qed

lemma cas_settled_sound_witness:
  "\<exists>w'. cas_settled lossy_serde lossy_net [] demo_request demo_author (\<lambda>b. Inr b) = (w', Inr (Landed 1))
     \<and> (\<exists>b. w' ! 0 = (b, demo_author))"
proof -
  have c: "cas_settled lossy_serde lossy_net [] demo_request demo_author (\<lambda>b. Inr b) = ([(''body'', demo_author)], Inr (Landed 1))"
    by code_simp
  from cas_settled_sound [OF lossy_serves c] c show ?thesis by auto
qed

end
