(* ===== verification/MoveWire.thy ===== *)
theory MoveWire
  imports RecordClient
begin

text \<open>
  How the two move drivers read and write the record of a move over the record client: the plan
  each has pinned, \<open>read_move\<close> and \<open>cas\<close> of the source
  (\<open>crates/entorhinal-module/src/move_source.rs\<close>), \<open>read_move\<close> and \<open>cas_move\<close> of the receiver
  (\<open>move_receiver.rs\<close>). A failure is its code. What a driver does between these calls is the
  subject of \<open>MoveDriver\<close>.
\<close>

record move_plan =
  pl_agent_id :: string
  pl_from :: string
  pl_to :: string
  pl_claim_version :: nat
  pl_participants :: "move_participant list"
  pl_pin_digest :: "string option"

definition plan_record :: "move_plan \<Rightarrow> string \<Rightarrow> move_record" where
  "plan_record p cut_id = \<lparr>mr_v = 1, mr_cut_id = cut_id, mr_agent_id = pl_agent_id p, mr_from = pl_from p, mr_to = pl_to p,
     mr_state = Published, mr_claim_version = pl_claim_version p, mr_participants = pl_participants p,
     mr_pin_digest = pl_pin_digest p, mr_reason = None, mr_detail = None\<rparr>"

definition move_subject :: "string \<Rightarrow> string" where
  "move_subject cut_id = ''move:'' @ cut_id"

text \<open>\<open>i64::try_from\<close> of a version.\<close>

definition fits_i64 :: "nat \<Rightarrow> bool" where
  "fits_i64 v \<longleftrightarrow> v < 2 ^ 63"

definition verified_move :: "serde \<Rightarrow> string \<Rightarrow> move_record \<Rightarrow> record_reply \<Rightarrow> codec_error + move_record" where
  "verified_move S cut_id plan reply =
    bind_res (decode_move_record S (move_subject cut_id) (case rr_body reply of None \<Rightarrow> [] | Some b \<Rightarrow> b)) (\<lambda>r.
    bind_res (check_record_author r (case rr_author reply of None \<Rightarrow> [] | Some a \<Rightarrow> a)) (\<lambda>_.
    bind_res (check_pinned_plan plan r) (\<lambda>_. Inr r)))"

definition source_view :: "serde \<Rightarrow> string \<Rightarrow> move_plan \<Rightarrow> record_reply \<Rightarrow> string + (move_record \<times> nat) option" where
  "source_view S cut_id plan reply =
    (if rr_stale reply then Inl ''unavailable''
     else if \<not> fits_i64 (rr_version reply) then Inl ''record_version_unknown''
     else if rr_absent reply then Inr None
     else bind_res (map_err codec_code (verified_move S cut_id (plan_record plan cut_id) reply)) (\<lambda>r.
       Inr (Some (r, rr_version reply))))"

definition source_read_move :: "serde \<Rightarrow> 'w net \<Rightarrow> 'w \<Rightarrow> string \<Rightarrow> move_plan \<Rightarrow> 'w \<times> (string + (move_record \<times> nat) option)" where
  "source_read_move S net w cut_id plan =
    (let (w1, r) = client_read S net w (move_subject cut_id) in
     (w1, bind_res (map_err record_code r) (source_view S cut_id plan)))"

definition receiver_view :: "serde \<Rightarrow> string \<Rightarrow> move_record \<Rightarrow> record_reply \<Rightarrow> string + (move_record \<times> nat)" where
  "receiver_view S cut_id plan reply =
    (if rr_stale reply \<or> rr_absent reply then Inl ''unavailable''
     else if \<not> fits_i64 (rr_version reply) then Inl ''record_version_unknown''
     else bind_res (map_err codec_code (verified_move S cut_id plan reply)) (\<lambda>r. Inr (r, rr_version reply)))"

definition receiver_read_move :: "serde \<Rightarrow> 'w net \<Rightarrow> 'w \<Rightarrow> string \<Rightarrow> move_record \<Rightarrow> 'w \<times> (string + (move_record \<times> nat))" where
  "receiver_read_move S net w cut_id plan =
    (let (w1, r) = client_read S net w (move_subject cut_id) in
     (w1, bind_res (map_err record_code r) (receiver_view S cut_id plan)))"

text \<open>The request a side makes for a write, and how it settles.\<close>

definition move_request :: "serde \<Rightarrow> (string \<Rightarrow> char list) \<Rightarrow> string \<Rightarrow> move_side \<Rightarrow> nat \<Rightarrow> move_record \<Rightarrow> string + cas_request" where
  "move_request S blake3 cut_id side version body =
    bind_res (map_err codec_code (encode_move_record S (move_subject cut_id) body)) (\<lambda>bytes.
      Inr \<lparr>cq_subject = move_subject cut_id, cq_expected = version, cq_body = bytes,
        cq_write_id = move_write_id blake3 cut_id side (mr_state body)\<rparr>)"

definition settle_move :: "serde \<Rightarrow> 'w net \<Rightarrow> 'w \<Rightarrow> string \<Rightarrow> cas_request \<Rightarrow> string \<Rightarrow> 'w \<times> (string + cas_settlement)" where
  "settle_move S net w cut_id q author =
    (let (w1, r) = cas_settled S net w q author (\<lambda>b. map_err codec_code (decode_move_record S (move_subject cut_id) b)) in
     (w1, map_err record_code r))"

definition source_cas :: "serde \<Rightarrow> (string \<Rightarrow> char list) \<Rightarrow> 'w net \<Rightarrow> 'w \<Rightarrow> string \<Rightarrow> move_plan \<Rightarrow> move_state option \<Rightarrow> nat
    \<Rightarrow> move_record \<Rightarrow> 'w \<times> (string + cas_settlement)" where
  "source_cas S blake3 net w cut_id plan from version body =
    (case bind_res (map_err codec_code (check_transition from (mr_state body) Source)) (\<lambda>_.
        move_request S blake3 cut_id Source version body) of
       Inl e \<Rightarrow> (w, Inl e)
     | Inr q \<Rightarrow> settle_move S net w cut_id q (pl_from plan))"

definition receiver_body :: "serde \<Rightarrow> move_record \<Rightarrow> move_state \<Rightarrow> string option \<Rightarrow> json option \<Rightarrow> move_record" where
  "receiver_body S plan to reason detail =
    (let body = plan\<lparr>mr_state := to\<rparr> in
     if to = Aborted then body\<lparr>mr_reason := map_option reason_of reason, mr_detail := map_option (bounded_detail S) detail\<rparr>
     else body)"

definition receiver_cas :: "serde \<Rightarrow> (string \<Rightarrow> char list) \<Rightarrow> 'w net \<Rightarrow> 'w \<Rightarrow> string \<Rightarrow> move_record \<Rightarrow> move_state \<Rightarrow> move_state \<Rightarrow>
    string option \<Rightarrow> json option \<Rightarrow> nat \<Rightarrow> 'w \<times> (string + nat)" where
  "receiver_cas S blake3 net w cut_id plan from to reason detail version =
    (case bind_res (map_err codec_code (check_transition (Some from) to Receiver)) (\<lambda>_.
        move_request S blake3 cut_id Receiver version (receiver_body S plan to reason detail)) of
       Inl e \<Rightarrow> (w, Inl e)
     | Inr q \<Rightarrow> (let (w1, r) = settle_move S net w cut_id q (mr_to plan) in
         (w1, bind_res r (\<lambda>x. case x of
            Landed v \<Rightarrow> if fits_i64 v then Inr v else Inl ''record_version_unknown''
          | Moved _ \<Rightarrow> Inl ''version_moved''))))"


section \<open>The inbox loops\<close>

text \<open>
  Both sides read the inbox, change it and write it back, and try again when another write came
  between, at most eight times. The write ids come from the operating system's random source, a
  parameter: the id of each attempt, or none when the source fails.
\<close>

definition inbox_subject :: "string \<Rightarrow> string" where
  "inbox_subject peer = ''inbox:'' @ peer"

definition inbox_view :: "serde \<Rightarrow> record_reply \<Rightarrow> string + (record_reply \<times> inbox_record)" where
  "inbox_view S reply =
    (if rr_stale reply then Inl ''unavailable''
     else if rr_absent reply then Inr (reply, default_inbox)
     else bind_res (map_err codec_code (decode_inbox_record S (case rr_body reply of None \<Rightarrow> [] | Some b \<Rightarrow> b)))
       (\<lambda>b. Inr (reply, b)))"

definition read_inbox :: "serde \<Rightarrow> 'w net \<Rightarrow> 'w \<Rightarrow> string \<Rightarrow> 'w \<times> (string + (record_reply \<times> inbox_record))" where
  "read_inbox S net w peer =
    (let (w1, r) = client_read S net w (inbox_subject peer) in (w1, bind_res (map_err record_code r) (inbox_view S)))"

definition inbox_request :: "serde \<Rightarrow> string \<Rightarrow> nat \<Rightarrow> inbox_record \<Rightarrow> char list option \<Rightarrow> string \<Rightarrow> string + cas_request" where
  "inbox_request S peer version b wid no_id =
    bind_res (ok_or wid no_id) (\<lambda>i. bind_res (map_err codec_code (encode_inbox_record S b)) (\<lambda>bytes.
      Inr \<lparr>cq_subject = inbox_subject peer, cq_expected = version, cq_body = bytes, cq_write_id = i\<rparr>))"

definition append_change :: "serde \<Rightarrow> string \<Rightarrow> move_plan \<Rightarrow> inbox_record \<Rightarrow> string + inbox_record" where
  "append_change S cut_id plan b = map_err codec_code
    (append_inbox S b \<lparr>pm_cut_id = cut_id, pm_from = pl_from plan, pm_agent_id = pl_agent_id plan\<rparr>)"

text \<open>One attempt of the source's append: it is finished, to be tried again, or an error.\<close>

definition append_attempt :: "serde \<Rightarrow> 'w net \<Rightarrow> 'w \<Rightarrow> string \<Rightarrow> move_plan \<Rightarrow> char list option \<Rightarrow> 'w \<times> (string + bool)" where
  "append_attempt S net w cut_id plan wid =
    (let (w1, m) = source_read_move S net w cut_id plan in
     case m of Inl e \<Rightarrow> (w1, Inl e) | Inr None \<Rightarrow> (w1, Inl ''unavailable'')
     | Inr (Some (r, _)) \<Rightarrow>
       if mr_state r \<noteq> Published then (w1, Inr True)
       else let (w2, i) = read_inbox S net w1 (pl_to plan) in
         (case i of Inl e \<Rightarrow> (w2, Inl e)
          | Inr (reply, b) \<Rightarrow>
            if list_ex (\<lambda>p. pm_cut_id p = cut_id) (in_pending b) then (w2, Inr True)
            else (case bind_res (append_change S cut_id plan b)
                (\<lambda>c. inbox_request S (pl_to plan) (rr_version reply) c wid ''unavailable'') of
              Inl e \<Rightarrow> (w2, Inl e)
            | Inr q \<Rightarrow> let (w3, x) = client_cas S net w2 q in
                (w3, case x of Inr _ \<Rightarrow> Inr True
                   | Inl e \<Rightarrow> if record_code e = ''version_moved'' \<or> record_code e = ''unavailable'' then Inr False
                       else Inl (record_code e)))))"

fun append_loop :: "nat \<Rightarrow> serde \<Rightarrow> 'w net \<Rightarrow> 'w \<Rightarrow> string \<Rightarrow> move_plan \<Rightarrow> (nat \<Rightarrow> char list option) \<Rightarrow> 'w \<times> (string + unit)" where
  "append_loop 0 S net w cut_id plan ids = (w, Inl ''unavailable'')"
| "append_loop (Suc n) S net w cut_id plan ids =
    (let (w1, x) = append_attempt S net w cut_id plan (ids n) in
     case x of Inl e \<Rightarrow> (w1, Inl e) | Inr True \<Rightarrow> (w1, Inr ()) | Inr False \<Rightarrow> append_loop n S net w1 cut_id plan ids)"

definition source_append_inbox :: "serde \<Rightarrow> 'w net \<Rightarrow> 'w \<Rightarrow> string \<Rightarrow> move_plan \<Rightarrow> (nat \<Rightarrow> char list option) \<Rightarrow> 'w \<times> (string + unit)" where
  "source_append_inbox = append_loop 8"

definition remove_attempt :: "serde \<Rightarrow> 'w net \<Rightarrow> 'w \<Rightarrow> string \<Rightarrow> string \<Rightarrow> char list option \<Rightarrow> 'w \<times> (string + bool)" where
  "remove_attempt S net w own cut_id wid =
    (let (w1, i) = read_inbox S net w own in
     case i of Inl e \<Rightarrow> (w1, Inl e)
     | Inr (reply, b) \<Rightarrow>
       (case map_err codec_code (remove_inbox b cut_id) of Inl e \<Rightarrow> (w1, Inl e)
        | Inr c \<Rightarrow> if c = b then (w1, Inr True)
          else (case inbox_request S own (rr_version reply) c wid ''storage_error'' of Inl e \<Rightarrow> (w1, Inl e)
          | Inr q \<Rightarrow> let (w2, x) = client_cas S net w1 q in
              (w2, case x of Inr _ \<Rightarrow> Inr True
                 | Inl e \<Rightarrow> if record_code e = ''version_moved'' \<or> e = NoReplied then Inr False
                     else Inl (record_code e)))))"

fun remove_loop :: "nat \<Rightarrow> serde \<Rightarrow> 'w net \<Rightarrow> 'w \<Rightarrow> string \<Rightarrow> string \<Rightarrow> (nat \<Rightarrow> char list option) \<Rightarrow> 'w \<times> (string + unit)" where
  "remove_loop 0 S net w own cut_id ids = (w, Inl ''unavailable'')"
| "remove_loop (Suc n) S net w own cut_id ids =
    (let (w1, x) = remove_attempt S net w own cut_id (ids n) in
     case x of Inl e \<Rightarrow> (w1, Inl e) | Inr True \<Rightarrow> (w1, Inr ()) | Inr False \<Rightarrow> remove_loop n S net w1 own cut_id ids)"

definition receiver_remove_inbox :: "serde \<Rightarrow> 'w net \<Rightarrow> 'w \<Rightarrow> string \<Rightarrow> string \<Rightarrow> (nat \<Rightarrow> char list option) \<Rightarrow> 'w \<times> (string + unit)" where
  "receiver_remove_inbox = remove_loop 8"

section \<open>What a write leaves for the other side\<close>

lemma wire_normal_simps [simp]: "mr_state (wire_normal r) = mr_state r" "mr_from (wire_normal r) = mr_from r"
  "mr_to (wire_normal r) = mr_to r" "mr_agent_id (wire_normal r) = mr_agent_id r"
  "mr_claim_version (wire_normal r) = mr_claim_version r" "mr_participants (wire_normal r) = mr_participants r"
  "mr_pin_digest (wire_normal r) = mr_pin_digest r"
  by (simp_all add: wire_normal_def)

lemma move_request_Inr: "move_request S blake3 cut_id side version body = Inr q \<longleftrightarrow>
    (\<exists>bytes. encode_move_record S (move_subject cut_id) body = Inr bytes
      \<and> q = \<lparr>cq_subject = move_subject cut_id, cq_expected = version, cq_body = bytes,
          cq_write_id = move_write_id blake3 cut_id side (mr_state body)\<rparr>)"
  by (auto simp: move_request_def bind_res_eq_Inr)

lemma source_cas_Inr:
  assumes "source_cas S blake3 net w cut_id plan from version body = (w', Inr x)"
  obtains q where "allowed_transition from (mr_state body) Source" "move_request S blake3 cut_id Source version body = Inr q"
    "cas_settled S net w q (pl_from plan) (\<lambda>b. map_err codec_code (decode_move_record S (move_subject cut_id) b)) = (w', Inr x)"
  using assms unfolding source_cas_def settle_move_def
  by (auto simp: check_transition_def split: sum.splits prod.splits if_splits intro: that)

lemma receiver_cas_Inr:
  assumes "receiver_cas S blake3 net w cut_id plan from to reason detail version = (w', Inr v)"
  obtains q where "allowed_transition (Some from) to Receiver" "fits_i64 v"
    "move_request S blake3 cut_id Receiver version (receiver_body S plan to reason detail) = Inr q"
    "cas_settled S net w q (mr_to plan) (\<lambda>b. map_err codec_code (decode_move_record S (move_subject cut_id) b)) = (w', Inr (Landed v))"
  using assms unfolding receiver_cas_def settle_move_def
  by (auto simp: check_transition_def bind_res_eq_Inr split: sum.splits prod.splits if_splits cas_settlement.splits intro: that)

lemma writer_is_author: "allowed_transition from (mr_state r) side \<Longrightarrow>
    check_record_author r (case side of Source \<Rightarrow> mr_from r | Receiver \<Rightarrow> mr_to r) = Inr ()"
  by (cases "mr_state r"; cases side) (auto simp: allowed_transition_def check_record_author_def required_writer_def)

lemma check_author_normal: "check_record_author (wire_normal r) a = check_record_author r a"
  by (simp add: check_record_author_def split: record_writer.split)

lemma pinned_plan_normal: "check_pinned_plan plan (wire_normal r) = check_pinned_plan plan r"
  by (simp add: check_pinned_plan_def)


definition wrote :: "serde \<Rightarrow> (string \<Rightarrow> char list) \<Rightarrow> 'w net \<Rightarrow> 'w \<Rightarrow> string \<Rightarrow> move_plan \<Rightarrow> move_side \<Rightarrow> move_record \<Rightarrow> 'w \<Rightarrow> nat \<Rightarrow> bool" where
  "wrote S blake3 net w cut_id plan side body w1 v = (case side of
     Source \<Rightarrow> \<exists>from version. source_cas S blake3 net w cut_id plan from version body = (w1, Inr (Landed v))
   | Receiver \<Rightarrow> \<exists>from to reason detail version. body = receiver_body S (plan_record plan cut_id) to reason detail
       \<and> receiver_cas S blake3 net w cut_id (plan_record plan cut_id) from to reason detail version = (w1, Inr v))"

definition side_author :: "move_plan \<Rightarrow> move_side \<Rightarrow> string" where
  "side_author plan side = (case side of Source \<Rightarrow> pl_from plan | Receiver \<Rightarrow> pl_to plan)"

lemma receiver_body_simps [simp]: "mr_state (receiver_body S p to reason detail) = to"
  by (simp add: receiver_body_def Let_def)

lemma wrote_settled:
  assumes "wrote S blake3 net w cut_id plan side body w1 v" and "check_pinned_plan (plan_record plan cut_id) body = Inr ()"
  obtains q where "encode_move_record S (move_subject cut_id) body = Inr (cq_body q)" "cq_subject q = move_subject cut_id"
    "check_record_author body (side_author plan side) = Inr ()"
    "cas_settled S net w q (side_author plan side) (\<lambda>b. map_err codec_code (decode_move_record S (move_subject cut_id) b)) = (w1, Inr (Landed v))"
proof -
  have plan: "mr_from body = pl_from plan" "mr_to body = pl_to plan"
    using assms(2) by (auto simp: check_pinned_plan_def plan_record_def split: if_splits)
  show ?thesis
  proof (cases side)
    case Source
    then obtain st version where "source_cas S blake3 net w cut_id plan st version body = (w1, Inr (Landed v))"
      using assms(1) by (auto simp: wrote_def)
    then obtain q where "allowed_transition st (mr_state body) Source" "move_request S blake3 cut_id Source version body = Inr q"
      "cas_settled S net w q (pl_from plan) (\<lambda>b. map_err codec_code (decode_move_record S (move_subject cut_id) b)) = (w1, Inr (Landed v))"
      by (rule source_cas_Inr)
    then show ?thesis using Source plan writer_is_author [of st body Source]
      by (intro that [of q]) (auto simp: move_request_Inr side_author_def)
  next
    case Receiver
    then obtain st to reason detail version where b: "body = receiver_body S (plan_record plan cut_id) to reason detail"
      and "receiver_cas S blake3 net w cut_id (plan_record plan cut_id) st to reason detail version = (w1, Inr v)"
      using assms(1) by (auto simp: wrote_def)
    from this(2) obtain q where "allowed_transition (Some st) to Receiver"
      "move_request S blake3 cut_id Receiver version (receiver_body S (plan_record plan cut_id) to reason detail) = Inr q"
      "cas_settled S net w q (mr_to (plan_record plan cut_id)) (\<lambda>b. map_err codec_code (decode_move_record S (move_subject cut_id) b)) = (w1, Inr (Landed v))"
      by (rule receiver_cas_Inr)
    then show ?thesis using Receiver plan b writer_is_author [of "Some st" body Receiver]
      by (intro that [of q]) (auto simp: move_request_Inr side_author_def plan_record_def)
  qed
qed

lemma serves_read:
  assumes "serves S net hist q me" and "client_read S net w (cq_subject q) = (w', Inr r)" and "\<not> rr_stale r"
  shows "if rr_absent r then hist w' = []
    else hist w' \<noteq> [] \<and> rr_version r = length (hist w')
      \<and> (\<exists>b a. rr_body r = Some b \<and> rr_author r = Some a \<and> last (hist w') = (b, a))"
  using assms unfolding serves_def by blast

lemma verified_stored:
  assumes dec: "decode_move_record S (move_subject cut_id) b = Inr (wire_normal r)"
    and author: "check_record_author r author = Inr ()" and plan: "check_pinned_plan plan r = Inr ()"
    and reply: "rr_body reply = Some b" "rr_author reply = Some author"
  shows "verified_move S cut_id plan reply = Inr (wire_normal r)"
  using assms by (simp add: verified_move_def check_author_normal pinned_plan_normal)

text \<open>C29. What one side writes, the other reads: when a write of the move record settles as landed at
  the current version, whatever replies were lost on the way, a fresh reply of the service is read by
  both drivers as that very record at that version, with its author and plan verified.\<close>

theorem cas_then_read:
  assumes "wrote S blake3 net w cut_id plan side body w1 v"
    and "\<And>q. cq_subject q = move_subject cut_id \<Longrightarrow> serves S net hist q (side_author plan side)"
    and "\<And>bytes. encode_move_record S (move_subject cut_id) body = Inr bytes \<Longrightarrow> sj_read S bytes = Some (events (move_tree body))"
    and "move_proper body" and "check_pinned_plan (plan_record plan cut_id) body = Inr ()"
    and "client_read S net w1 (move_subject cut_id) = (w2, Inr reply)" and "\<not> rr_stale reply"
    and "hist w2 = hist w1" and "v = length (hist w1)" and "fits_i64 v"
  shows "source_view S cut_id plan reply = Inr (Some (wire_normal body, v))
    \<and> receiver_view S cut_id (plan_record plan cut_id) reply = Inr (wire_normal body, v)"
proof -
  let ?dec = "\<lambda>b. map_err codec_code (decode_move_record S (move_subject cut_id) b)"
  obtain q where enc: "encode_move_record S (move_subject cut_id) body = Inr (cq_body q)" and sub: "cq_subject q = move_subject cut_id"
    and author: "check_record_author body (side_author plan side) = Inr ()"
    and set: "cas_settled S net w q (side_author plan side) ?dec = (w1, Inr (Landed v))"
    using assms(1,5) by (rule wrote_settled)
  note srv = assms(2) [OF sub]
  have own: "decode_move_record S (move_subject cut_id) (cq_body q) = Inr (wire_normal body)"
    using move_roundtrip_aux [OF enc assms(3) [OF enc] assms(4)] .
  obtain b where v: "0 < v" "v \<le> length (hist w1)" and b: "hist w1 ! (v - 1) = (b, side_author plan side)"
    and same: "b = cq_body q \<or> is_ok (?dec b) \<and> ?dec b = ?dec (cq_body q)"
    using cas_settled_sound_aux [OF srv set] by auto
  have dec: "decode_move_record S (move_subject cut_id) b = Inr (wire_normal body)"
    using same own by (cases "decode_move_record S (move_subject cut_id) b") auto
  have "\<not> rr_absent reply \<and> rr_version reply = v \<and> rr_body reply = Some b \<and> rr_author reply = Some (side_author plan side)"
    using serves_read [OF srv, unfolded sub, OF assms(6,7)] assms(8,9) v b by (auto simp: last_conv_nth split: if_splits)
  then show ?thesis using verified_stored [OF dec author assms(5)] assms(7,10)
    by (simp add: source_view_def receiver_view_def)
qed


section \<open>What the inbox loops establish\<close>

lemma append_loop_last: "append_loop n S net w cut_id plan ids = (w', Inr u) \<Longrightarrow>
    \<exists>w0 wid. append_attempt S net w0 cut_id plan wid = (w', Inr True)"
proof (induction n arbitrary: w)
  case (Suc n)
  obtain w1 x where a: "append_attempt S net w cut_id plan (ids n) = (w1, x)" by (cases "append_attempt S net w cut_id plan (ids n)")
  show ?case
  proof (cases x)
    case (Inr fin)
    show ?thesis
    proof (cases fin)
      case True
      then have "append_attempt S net w cut_id plan (ids n) = (w', Inr True)" using Suc.prems a Inr by simp
      then show ?thesis by blast
    next
      case False
      then show ?thesis using Suc a Inr by simp
    qed
  qed (use Suc.prems a in simp)
qed simp

lemma remove_loop_last: "remove_loop n S net w own cut_id ids = (w', Inr u) \<Longrightarrow>
    \<exists>w0 wid. remove_attempt S net w0 own cut_id wid = (w', Inr True)"
proof (induction n arbitrary: w)
  case (Suc n)
  obtain w1 x where a: "remove_attempt S net w own cut_id (ids n) = (w1, x)" by (cases "remove_attempt S net w own cut_id (ids n)")
  show ?case
  proof (cases x)
    case (Inr fin)
    show ?thesis
    proof (cases fin)
      case True
      then have "remove_attempt S net w own cut_id (ids n) = (w', Inr True)" using Suc.prems a Inr by simp
      then show ?thesis by blast
    next
      case False
      then show ?thesis using Suc a Inr by simp
    qed
  qed (use Suc.prems a in simp)
qed simp

lemma inbox_request_Inr: "inbox_request S peer v b wid e = Inr q \<Longrightarrow>
    cq_subject q = inbox_subject peer \<and> cq_expected q = v \<and> encode_inbox_record S b = Inr (cq_body q) \<and> wid = Some (cq_write_id q)"
  by (auto simp: inbox_request_def bind_res_eq_Inr)

lemma read_inbox_Inr:
  assumes "read_inbox S net w peer = (w', Inr (reply, b))"
  shows "client_read S net w (inbox_subject peer) = (w', Inr reply) \<and> \<not> rr_stale reply
    \<and> (if rr_absent reply then b = default_inbox
       else decode_inbox_record S (case rr_body reply of None \<Rightarrow> [] | Some x \<Rightarrow> x) = Inr b)"
  using assms unfolding read_inbox_def inbox_view_def
  by (auto simp: bind_res_eq_Inr split: prod.splits if_splits)

text \<open>A body of the inbox's history, as what it was written from or is read as.\<close>

definition inbox_body :: "serde \<Rightarrow> string \<Rightarrow> inbox_record \<Rightarrow> bool" where
  "inbox_body S body b \<longleftrightarrow> decode_inbox_record S body = Inr b \<or> encode_inbox_record S b = Inr body"

lemma inbox_read_body:
  assumes srv: "\<And>q. cq_subject q = inbox_subject peer \<Longrightarrow> serves S net hist q me"
    and "read_inbox S net w peer = (w', Inr (reply, b))"
  shows "if hist w' = [] then b = default_inbox
    else inbox_body S (fst (last (hist w'))) b"
proof -
  let ?q = "\<lparr>cq_subject = inbox_subject peer, cq_expected = 0, cq_body = [], cq_write_id = []\<rparr>"
  have sub: "cq_subject ?q = inbox_subject peer" by simp
  note r = read_inbox_Inr [OF assms(2)]
  from r have c: "client_read S net w (cq_subject ?q) = (w', Inr reply)" "\<not> rr_stale reply" by simp_all
  show ?thesis using serves_read [OF srv [OF sub] c] r by (auto simp: inbox_body_def split: if_splits)
qed

lemma cas_lands:
  assumes "serves S net hist q me" and "client_cas S net w q = (w', Inr v)"
  shows "0 < v \<and> v \<le> length (hist w') \<and> hist w' ! (v - 1) = (cq_body q, me)"
proof -
  obtain w0 reply where "client_call S net w0 CAS (cas_params q) = (w', Inr reply)" "u64_field reply ''version'' = Some v" "0 < v"
    using assms(2) by (rule client_cas_Inr)
  with assms(1) show ?thesis unfolding serves_def by blast
qed

lemma list_ex_pending: "list_ex (\<lambda>p. pm_cut_id p = k) (in_pending b) \<longleftrightarrow> k \<in> pending_cuts b"
  by (auto simp: pending_cuts_def list_ex_iff)

lemma append_attempt_cases:
  assumes "append_attempt S net w cut_id plan wid = (w', Inr True)"
  obtains (moved) w1 r v where "source_read_move S net w cut_id plan = (w1, Inr (Some (r, v)))" "mr_state r \<noteq> Published"
  | (present) w1 reply b where "read_inbox S net w1 (pl_to plan) = (w', Inr (reply, b))" "cut_id \<in> pending_cuts b"
  | (landed) w2 and reply :: record_reply and b c q v where "append_change S cut_id plan b = Inr c" "cut_id \<notin> pending_cuts b"
      "inbox_request S (pl_to plan) (rr_version reply) c wid ''unavailable'' = Inr q" "client_cas S net w2 q = (w', Inr v)"
  using assms unfolding append_attempt_def list_ex_pending
  by (auto simp: Let_def bind_res_eq_Inr split: prod.splits sum.splits option.splits if_splits)


lemma append_change_Inr: "append_change S cut_id plan b = Inr c \<Longrightarrow> cut_id \<in> pending_cuts c"
  by (auto simp: append_change_def append_inbox_Inr pending_cuts_def split: if_splits)

text \<open>An announcement that succeeds has been made or is no longer needed: when the source's append
  returns, over at most eight attempts and whatever replies were lost, either it verified a move
  record that is past published, or the receiver's inbox has held a body listing the cut.\<close>

theorem append_announces:
  assumes "\<And>q. cq_subject q = inbox_subject (pl_to plan) \<Longrightarrow> serves S net hist q me"
    and "source_append_inbox S net w cut_id plan ids = (w', Inr ())"
  shows "(\<exists>w1 w2 r v. source_read_move S net w1 cut_id plan = (w2, Inr (Some (r, v))) \<and> mr_state r \<noteq> Published)
    \<or> (\<exists>i < length (hist w'). \<exists>b. inbox_body S (fst (hist w' ! i)) b \<and> cut_id \<in> pending_cuts b)"
proof -
  obtain w0 wid where "append_attempt S net w0 cut_id plan wid = (w', Inr True)"
    using append_loop_last [OF assms(2) [unfolded source_append_inbox_def]] by blast
  then show ?thesis
  proof (cases rule: append_attempt_cases)
    case (moved w1 r v)
    then show ?thesis by blast
  next
    case (present w1 reply b)
    then have "hist w' \<noteq> []" using inbox_read_body [OF assms(1) present(1)]
      by (auto simp: default_inbox_def pending_cuts_def)
    with inbox_read_body [OF assms(1) present(1)] present(2) show ?thesis
      by (intro disjI2 exI [of _ "length (hist w') - 1"]) (auto simp: last_conv_nth)
  next
    case (landed w2 reply b c q v)
    have "cq_subject q = inbox_subject (pl_to plan)" "encode_inbox_record S c = Inr (cq_body q)"
      using inbox_request_Inr [OF landed(3)] by simp_all
    with cas_lands [OF assms(1) landed(4)] append_change_Inr [OF landed(1)] show ?thesis
      by (intro disjI2 exI [of _ "v - 1"] exI [of _ c]) (auto simp: inbox_body_def)
  qed
qed

section \<open>A run\<close>

definition move_a :: string where "move_a = replicate 32 CHR ''a''"
definition move_b :: string where "move_b = replicate 32 CHR ''b''"

definition shown_move :: move_record where
  "shown_move = demo_move\<lparr>mr_from := move_a, mr_to := move_b\<rparr>"

definition shown_plan :: move_plan where
  "shown_plan = \<lparr>pl_agent_id = mr_agent_id demo_move, pl_from = move_a, pl_to = move_b, pl_claim_version = mr_claim_version demo_move,
     pl_participants = mr_participants demo_move, pl_pin_digest = None\<rparr>"

definition shown_reply :: record_reply where
  "shown_reply = \<lparr>rr_absent = False, rr_version = 1, rr_body = Some (demo_write (move_tree shown_move)), rr_author = Some move_a,
     rr_self_author = move_a, rr_stale = False\<rparr>"

definition no_reply :: record_reply where
  "no_reply = \<lparr>rr_absent = True, rr_version = 0, rr_body = None, rr_author = None, rr_self_author = move_a, rr_stale = False\<rparr>"

text \<open>A service that answers \<open>m\<close> for the stored move, \<open>a\<close> for an absent record and \<open>v\<close> for a write at version 1.\<close>

definition shown_serde :: serde where
  "shown_serde = \<lparr>sj_write = demo_write, sj_read = (\<lambda>s. Some (events (
     if s = ''m'' then JObj [(''result'', wire_of_reply shown_reply)]
     else if s = ''a'' then JObj [(''result'', wire_of_reply no_reply)]
     else if s = ''v'' then JObj [(''result'', JObj [(''version'', JNum (PosInt 1))])]
     else move_tree shown_move)))\<rparr>"

definition sent_body :: "json \<Rightarrow> string" where
  "sent_body p = (case jget p ''body'' of Some (JStr s) \<Rightarrow> hex_pairs s | _ \<Rightarrow> [])"

type_synonym shown_world = "(string \<times> string) list \<times> (string \<times> string) list"

definition shown_net :: "shown_world net" where
  "shown_net w m p =
    (let s = jidx p ''subject'' in
     if s = JStr (move_subject (mr_cut_id demo_move)) then
       (if m = CAS \<and> fst w = [] then (([(sent_body p, move_a)], snd w), Answered ''v'')
        else if m = READ \<and> fst w = [(demo_write (move_tree shown_move), move_a)] then (w, Answered ''m'')
        else (w, Failed Unavailable))
     else
       (if m = CAS \<and> snd w = [] then ((fst w, [(sent_body p, move_a)]), Answered ''v'')
        else if m = READ \<and> snd w = [] then (w, Answered ''a'')
        else (w, Failed Unavailable)))"

lemma sent_body_cas [simp]: "sent_body (cas_params q) = cq_body q"
  by (simp add: sent_body_def cas_params_def bt_get_def hex_pairs_hex)

lemma cas_params_subject [simp]: "jidx (cas_params q) ''subject'' = JStr (cq_subject q)"
  by (simp add: jidx_def cas_params_def bt_get_def)


lemma v_is_one: "u64_field (JObj [(''version'', JNum (PosInt 1))]) ''version'' = Some 1"
  by (simp add: u64_field_def bt_get_def)

lemma shown_read: "client_read shown_serde shown_net ([(demo_write (move_tree shown_move), move_a)], i)
    (move_subject (mr_cut_id demo_move)) = (([(demo_write (move_tree shown_move), move_a)], i), Inr shown_reply)"
proof -
  have "client_read shown_serde shown_net ([(demo_write (move_tree shown_move), move_a)], [])
    (move_subject (mr_cut_id demo_move)) = (([(demo_write (move_tree shown_move), move_a)], []), Inr shown_reply)"
    by code_simp
  then show ?thesis
    by (auto simp: client_read_def client_call_def shown_net_def READ_def CAS_def Let_def jidx_def bt_get_def split: sum.splits)
qed

lemma shown_absent: "client_read shown_serde shown_net (m, []) (inbox_subject move_b) = ((m, []), Inr no_reply)"
proof -
  have "client_read shown_serde shown_net ([], []) (inbox_subject move_b) = (([], []), Inr no_reply)"
    by code_simp
  then show ?thesis
    by (auto simp: client_read_def client_call_def shown_net_def READ_def CAS_def Let_def jidx_def bt_get_def split: sum.splits)
qed


lemma shown_move_serves:
  assumes "cq_subject q = move_subject (mr_cut_id demo_move)"
  shows "serves shown_serde shown_net fst q (side_author shown_plan Source)"
proof -
  have "client_read shown_serde shown_net w (cq_subject q) = (w', Inr r) \<Longrightarrow>
      fst w = [(demo_write (move_tree shown_move), move_a)]" for w w' r
    using assms by (cases w) (auto simp: client_read_def client_call_def shown_net_def READ_def CAS_def Let_def jidx_def bt_get_def
      split: sum.splits if_splits)
  then have eq: "client_read shown_serde shown_net w (cq_subject q) = (w', Inr r) \<Longrightarrow>
      w' = w \<and> fst w = [(demo_write (move_tree shown_move), move_a)] \<and> r = shown_reply" for w w' r
    using shown_read [of "snd w"] assms by (cases w) fastforce
  have read: "client_read shown_serde shown_net w (cq_subject q) = (w', Inr r) \<and> \<not> rr_stale r \<longrightarrow>
      (if rr_absent r then fst w' = []
       else fst w' \<noteq> [] \<and> rr_version r = length (fst w')
         \<and> (\<exists>b a. rr_body r = Some b \<and> rr_author r = Some a \<and> last (fst w') = (b, a)))" for w w' r
    using eq [of w w' r] by (auto simp: shown_reply_def)
  have cas: "client_call shown_serde shown_net w CAS (cas_params q) = (w', Inr reply) \<and> u64_field reply ''version'' = Some v \<and> 0 < v
      \<longrightarrow> v \<le> length (fst w') \<and> fst w' ! (v - 1) = (cq_body q, side_author shown_plan Source)" for w w' reply v
    using assms by (cases w) (auto simp: client_call_def shown_net_def Let_def READ_def CAS_def shown_serde_def bt_get_def u64_field_def
      side_author_def shown_plan_def split: if_splits)
  have grow: "\<exists>t. fst (fst (shown_net w m p)) = fst w @ t" for w m p
    by (auto simp: shown_net_def Let_def)
  show ?thesis unfolding serves_def using read cas grow by blast
qed

lemma shown_inbox_serves:
  assumes "cq_subject q = inbox_subject (pl_to shown_plan)"
  shows "serves shown_serde shown_net snd q move_a"
proof -
  have "cq_subject q \<noteq> move_subject (mr_cut_id demo_move)"
    using assms by (simp add: inbox_subject_def move_subject_def)
  note other = this
  have "client_read shown_serde shown_net w (cq_subject q) = (w', Inr r) \<Longrightarrow> snd w = []" for w w' r
    using other by (cases w) (auto simp: client_read_def client_call_def shown_net_def READ_def CAS_def Let_def jidx_def bt_get_def
      split: sum.splits if_splits)
  then have eq: "client_read shown_serde shown_net w (cq_subject q) = (w', Inr r) \<Longrightarrow> w' = w \<and> snd w = [] \<and> r = no_reply" for w w' r
    using shown_absent [of "fst w"] assms by (cases w) (fastforce simp: shown_plan_def)
  have read: "client_read shown_serde shown_net w (cq_subject q) = (w', Inr r) \<and> \<not> rr_stale r \<longrightarrow>
      (if rr_absent r then snd w' = []
       else snd w' \<noteq> [] \<and> rr_version r = length (snd w')
         \<and> (\<exists>b a. rr_body r = Some b \<and> rr_author r = Some a \<and> last (snd w') = (b, a)))" for w w' r
    using eq [of w w' r] by (auto simp: no_reply_def)
  have cas: "client_call shown_serde shown_net w CAS (cas_params q) = (w', Inr reply) \<and> u64_field reply ''version'' = Some v \<and> 0 < v
      \<longrightarrow> v \<le> length (snd w') \<and> snd w' ! (v - 1) = (cq_body q, move_a)" for w w' reply v
    using other by (cases w) (auto simp: client_call_def shown_net_def Let_def READ_def CAS_def shown_serde_def bt_get_def u64_field_def
      split: if_splits)
  have grow: "\<exists>t. snd (fst (shown_net w m p)) = snd w @ t" for w m p
    by (auto simp: shown_net_def Let_def)
  show ?thesis unfolding serves_def using read cas grow by blast
qed

lemma cas_then_read_witness:
  "\<exists>w1. source_cas shown_serde (\<lambda>_. replicate 16 CHR ''w'') shown_net ([], []) (mr_cut_id demo_move) shown_plan None 0 shown_move
       = (w1, Inr (Landed 1))
     \<and> receiver_view shown_serde (mr_cut_id demo_move) (plan_record shown_plan (mr_cut_id demo_move)) shown_reply
       = Inr (wire_normal shown_move, 1)"
proof -
  let ?w1 = "([(demo_write (move_tree shown_move), move_a)], [])"
  have c: "source_cas shown_serde (\<lambda>_. replicate 16 CHR ''w'') shown_net ([], []) (mr_cut_id demo_move) shown_plan None 0 shown_move
      = (?w1, Inr (Landed 1))"
    by code_simp
  have enc: "encode_move_record shown_serde (move_subject (mr_cut_id demo_move)) shown_move = Inr (demo_write (move_tree shown_move))"
    by code_simp
  have read: "sj_read shown_serde (demo_write (move_tree shown_move)) = Some (events (move_tree shown_move))"
    by code_simp
  have w: "wrote shown_serde (\<lambda>_. replicate 16 CHR ''w'') shown_net ([], []) (mr_cut_id demo_move) shown_plan Source shown_move ?w1 1"
    using c by (auto simp: wrote_def)
  have p: "move_proper shown_move" by code_simp
  have k: "check_pinned_plan (plan_record shown_plan (mr_cut_id demo_move)) shown_move = Inr ()" by code_simp
  have f: "\<not> rr_stale shown_reply" "fits_i64 1" "1 = length (fst ?w1)" by (simp_all add: shown_reply_def fits_i64_def)
  have "receiver_view shown_serde (mr_cut_id demo_move) (plan_record shown_plan (mr_cut_id demo_move)) shown_reply
      = Inr (wire_normal shown_move, 1)"
    using cas_then_read [OF w shown_move_serves _ p k shown_read f(1) refl f(3) f(2)] enc read by simp
  with c show ?thesis by blast
qed

lemma shown_attempt: "\<exists>w'. append_attempt shown_serde shown_net ([(demo_write (move_tree shown_move), move_a)], []) (mr_cut_id demo_move) shown_plan
       (Some (replicate 16 CHR ''w'')) = (w', Inr True)"
proof -
  let ?w = "([(demo_write (move_tree shown_move), move_a)], [])"
  let ?q = "bind_res (append_change shown_serde (mr_cut_id demo_move) shown_plan default_inbox)
       (\<lambda>c. inbox_request shown_serde (pl_to shown_plan) (rr_version no_reply) c (Some (replicate 16 CHR ''w'')) ''unavailable'')"
  have "source_view shown_serde (mr_cut_id demo_move) shown_plan shown_reply = Inr (Some (wire_normal shown_move, 1))" by code_simp
  then have m: "source_read_move shown_serde shown_net ?w (mr_cut_id demo_move) shown_plan = (?w, Inr (Some (wire_normal shown_move, 1)))"
    by (simp add: source_read_move_def shown_read)
  have i: "read_inbox shown_serde shown_net ?w (pl_to shown_plan) = (?w, Inr (no_reply, default_inbox))"
    by (simp add: read_inbox_def shown_plan_def shown_absent inbox_view_def no_reply_def)
  have "case ?q of Inl _ \<Rightarrow> False | Inr q \<Rightarrow> is_ok (snd (client_cas shown_serde shown_net ?w q))"
    by code_simp
  then obtain q w' v where q: "?q = Inr q" and c: "client_cas shown_serde shown_net ?w q = (w', Inr v)"
    by (auto simp: is_ok_iff split: sum.splits)
      (metis prod.collapse)
  have p: "mr_state (wire_normal shown_move) = Published" "in_pending default_inbox = []"
    by (simp_all add: shown_move_def demo_move_def default_inbox_def)
  from m i q c p have "append_attempt shown_serde shown_net ?w (mr_cut_id demo_move) shown_plan
       (Some (replicate 16 CHR ''w'')) = (w', Inr True)"
    by (simp add: append_attempt_def)
  then show ?thesis by blast
qed

end
