(* ===== verification/Claims.thy ===== *)
theory Claims
  imports RecordClient
begin

text \<open>
  Agent claims: the codec of claim bodies (\<open>crates/entorhinal-module/src/claim_codec.rs\<close>), the local
  cache of what this machine has seen of them (\<open>crates/entorhinal-core/src/claim_cache.rs\<close>) and the
  pass that refreshes it (\<open>crates/entorhinal-module/src/claims.rs\<close>). The tables of the SQLite store
  are maps; a statement on them does not fail here, so storage errors are left out. An i64 is an
  \<open>int\<close>, which every decoder keeps in range.
\<close>

section \<open>Claim bodies\<close>

definition I64_MAX :: int where "I64_MAX = 2 ^ 63 - 1"

definition i64_of :: "json option \<Rightarrow> int option" where
  "i64_of v = (case v of Some (JNum (PosInt n)) \<Rightarrow> if int n \<le> I64_MAX then Some (int n) else None
     | Some (JNum (NegInt i)) \<Rightarrow> Some i | _ \<Rightarrow> None)"

definition u64_of :: "json \<Rightarrow> nat option" where
  "u64_of v = (case v of JNum (PosInt n) \<Rightarrow> Some n | _ \<Rightarrow> None)"

text \<open>A body must be JSON whose \<open>v\<close> is 1; the value keeps the last of duplicate members.\<close>

definition versioned_value :: "serde \<Rightarrow> string \<Rightarrow> string + json" where
  "versioned_value S bytes =
    (case sj_read S bytes of None \<Rightarrow> Inl ''claim_malformed''
     | Some r \<Rightarrow> (let value = value_of_raw r in
         case u64_of (jidx value ''v'') of None \<Rightarrow> Inl ''claim_malformed''
         | Some v \<Rightarrow> if v \<noteq> 1 then Inl ''claim_version_unknown'' else Inr value))"

record agent_claim =
  ac_v :: nat
  ac_agent_id :: string
  ac_holder :: "string option"
  ac_epoch :: int
  ac_cut_id :: "string option"
  ac_reason :: "string option"

definition agent_claim_of :: "json \<Rightarrow> agent_claim option" where
  "agent_claim_of v =
    (if \<not> known_fields [''v'', ''agent_id'', ''holder'', ''epoch'', ''cut_id'', ''reason''] v then None
     else (case (u64_field v ''v'', str_field v ''agent_id'', opt_str_field v ''holder'', i64_of (jget v ''epoch''),
         opt_str_field v ''cut_id'', opt_str_field v ''reason'') of
       (Some n, Some a, Some h, Some e, Some c, Some r) \<Rightarrow>
         Some \<lparr>ac_v = n, ac_agent_id = a, ac_holder = h, ac_epoch = e, ac_cut_id = c, ac_reason = r\<rparr>
     | _ \<Rightarrow> None))"

definition decode_claim :: "serde \<Rightarrow> string \<Rightarrow> string \<Rightarrow> string + agent_claim" where
  "decode_claim S agent bytes =
    bind_res (versioned_value S bytes) (\<lambda>value.
    bind_res (ok_or (agent_claim_of value) ''claim_malformed'') (\<lambda>claim.
      if ac_agent_id claim \<noteq> agent then Inl ''claim_subject_mismatch''
      else if ac_epoch claim < 0 \<or> (1 \<le> ac_epoch claim \<and> \<not> is_some (ac_holder claim))
        \<or> some_and (\<lambda>h. \<not> valid_author h) (ac_holder claim) then Inl ''claim_malformed''
      else Inr claim))"

section \<open>The cache\<close>

record cached_claim =
  cc_holder :: "string option"
  cc_epoch :: int
  cc_cut_id :: "string option"
  cc_version :: int
  cc_read_at :: int
  cc_stale :: bool
  cc_failed :: bool

datatype claim_observation = Present cached_claim string | Absent bool string | IntegrityFailed
  | CodecFailed string | Unreachable

text \<open>The tables the cache reads: its own, the one row of \<open>self_identity\<close>, the display names of
  members, and the state of sharing when it has one.\<close>

record claim_tables =
  ct_claims :: "string \<rightharpoonup> cached_claim"
  ct_self :: "string option"
  ct_names :: "string \<rightharpoonup> string"
  ct_sharing :: "string option"

definition load_claim :: "claim_tables \<Rightarrow> string \<Rightarrow> cached_claim option" where
  "load_claim t agent = ct_claims t agent"

definition holder_name :: "claim_tables \<Rightarrow> string option \<Rightarrow> string option" where
  "holder_name t holder = (case holder of None \<Rightarrow> None | Some h \<Rightarrow> ct_names t h)"

text \<open>The persisted identity is never replaced: another author is a conflict.\<close>

definition learn_self_author :: "claim_tables \<Rightarrow> string \<Rightarrow> claim_tables \<times> bool" where
  "learn_self_author t author = (case ct_self t of
     Some known \<Rightarrow> (t, known = author)
   | None \<Rightarrow> (t\<lparr>ct_self := Some author\<rparr>, True))"

datatype claim_refusal = ClaimIntegrityFailed | HeldElsewhere "string option" "string option" int

definition check_registration_claim :: "claim_tables \<Rightarrow> string \<Rightarrow> claim_refusal + unit" where
  "check_registration_claim t agent = (case load_claim t agent of None \<Rightarrow> Inr ()
   | Some c \<Rightarrow> if cc_failed c then Inl ClaimIntegrityFailed
       else if 1 \<le> cc_epoch c \<and> (cc_holder c = None \<or> cc_holder c \<noteq> ct_self t)
         then Inl (HeldElsewhere (cc_holder c) (holder_name t (cc_holder c)) (cc_epoch c))
       else Inr ())"

definition unclaimed :: "int \<Rightarrow> bool \<Rightarrow> bool \<Rightarrow> cached_claim" where
  "unclaimed now stale failed = \<lparr>cc_holder = None, cc_epoch = 0, cc_cut_id = None, cc_version = 0,
     cc_read_at = now, cc_stale = stale, cc_failed = failed\<rparr>"

definition decide_row :: "cached_claim option \<Rightarrow> claim_observation \<Rightarrow> int \<Rightarrow> cached_claim option" where
  "decide_row old obs now = (case obs of
     IntegrityFailed \<Rightarrow> Some ((case old of None \<Rightarrow> unclaimed now True True | Some c \<Rightarrow> c)\<lparr>cc_failed := True\<rparr>)
   | CodecFailed _ \<Rightarrow> Some ((case old of None \<Rightarrow> unclaimed now True True | Some c \<Rightarrow> c)\<lparr>cc_failed := True\<rparr>)
   | Unreachable \<Rightarrow> map_option (\<lambda>c. c\<lparr>cc_stale := True\<rparr>) old
   | Present claim _ \<Rightarrow> Some (case old of
         Some c \<Rightarrow> if cc_version claim < cc_version c then c\<lparr>cc_stale := True\<rparr>
           else if cc_epoch claim = 0 then unclaimed now (cc_stale claim) False else claim\<lparr>cc_failed := False\<rparr>
       | None \<Rightarrow> if cc_epoch claim = 0 then unclaimed now (cc_stale claim) False else claim\<lparr>cc_failed := False\<rparr>)
   | Absent stale _ \<Rightarrow> Some (case old of
         Some c \<Rightarrow> if stale \<and> 1 \<le> cc_version c then c\<lparr>cc_stale := True\<rparr>
           else unclaimed now stale (stale \<and> cc_failed c)
       | None \<Rightarrow> unclaimed now stale False))"

definition decide :: "cached_claim option \<Rightarrow> claim_observation \<Rightarrow> int \<Rightarrow> cached_claim option" where
  "decide old obs now = map_option (\<lambda>c. c\<lparr>cc_read_at := now\<rparr>) (decide_row old obs now)"

fun observed_author :: "claim_observation \<Rightarrow> string option" where
  "observed_author (Present _ a) = Some a"
| "observed_author (Absent _ a) = Some a"
| "observed_author (CodecFailed a) = Some a"
| "observed_author IntegrityFailed = None"
| "observed_author Unreachable = None"

definition apply_claim :: "claim_tables \<Rightarrow> string \<Rightarrow> claim_observation \<Rightarrow> int \<Rightarrow> claim_tables \<times> bool" where
  "apply_claim t agent obs now =
    (let old = load_claim t agent;
         (t1, conflict) = (case observed_author obs of None \<Rightarrow> (t, False)
           | Some a \<Rightarrow> (let (t1, ok) = learn_self_author t a in (t1, \<not> ok))) in
     case decide old obs now of None \<Rightarrow> (t1, conflict)
     | Some row \<Rightarrow> (t1\<lparr>ct_claims := (ct_claims t1)(agent \<mapsto> row)\<rparr>, conflict))"

fun cache_agent_claims :: "claim_tables \<Rightarrow> (string \<times> claim_observation) list \<Rightarrow> int \<Rightarrow> claim_tables \<times> nat" where
  "cache_agent_claims t [] now = (t, 0)"
| "cache_agent_claims t ((agent, obs) # rest) now =
    (let (t1, conflict) = apply_claim t agent obs now; (t2, n) = cache_agent_claims t1 rest now in
     (t2, (if conflict then 1 else 0) + n))"

section \<open>Views of the cache\<close>

record claim_view =
  cv_known :: bool
  cv_claim :: cached_claim
  cv_own :: "string option"
  cv_read_at :: "int option"

definition view_status :: "claim_view \<Rightarrow> string" where
  "view_status v =
    (if cc_epoch (cv_claim v) = 0 then ''unclaimed''
     else if is_some (cc_holder (cv_claim v)) \<and> cc_holder (cv_claim v) = cv_own v then ''held_here''
     else ''held_elsewhere'')"

definition view_holder_name :: "claim_tables \<Rightarrow> claim_view \<Rightarrow> string option" where
  "view_holder_name t v = (if is_some (cv_own v) then holder_name t (cc_holder (cv_claim v)) else None)"

definition load_claim_view :: "claim_tables \<Rightarrow> string \<Rightarrow> bool \<Rightarrow> claim_view" where
  "load_claim_view t agent foreign =
    (let claim = (if foreign then None else load_claim t agent);
         sharing_off = (\<not> foreign \<and> (case ct_sharing t of None \<Rightarrow> True | Some s \<Rightarrow> s = ''disabled'')) in
     \<lparr>cv_known = (is_some claim \<or> sharing_off),
      cv_claim = (case claim of Some c \<Rightarrow> c | None \<Rightarrow> unclaimed 0 (\<not> sharing_off) False),
      cv_own = ct_self t, cv_read_at = map_option cc_read_at claim\<rparr>)"

record node_self =
  ns_author :: "string option"
  ns_display_name :: "string option"
  ns_sharing :: string

definition node_self :: "claim_tables \<Rightarrow> node_self option" where
  "node_self t = map_option (\<lambda>state. \<lparr>ns_author = ct_self t, ns_display_name = holder_name t (ct_self t),
     ns_sharing = state\<rparr>) (ct_sharing t)"


section \<open>The refresh pass\<close>

text \<open>What one answered or refused entry is: an observation, and whether it counts as refreshed.\<close>

definition claim_subject :: "string \<Rightarrow> string" where
  "claim_subject agent = ''claim:'' @ agent"

definition observe_claim :: "serde \<Rightarrow> string \<Rightarrow> record_error + record_reply \<Rightarrow> claim_observation \<times> bool" where
  "observe_claim S agent entry = (case entry of
     Inr reply \<Rightarrow>
       if rr_absent reply then (Absent (rr_stale reply) (rr_self_author reply), True)
       else (case decode_claim S agent (case rr_body reply of None \<Rightarrow> [] | Some b \<Rightarrow> b) of
         Inr claim \<Rightarrow>
           if int (rr_version reply) \<le> I64_MAX then
             (Present \<lparr>cc_holder = ac_holder claim, cc_epoch = ac_epoch claim, cc_cut_id = ac_cut_id claim,
                cc_version = int (rr_version reply), cc_read_at = 0, cc_stale = rr_stale reply, cc_failed = False\<rparr>
                (rr_self_author reply), True)
           else (CodecFailed (rr_self_author reply), False)
       | Inl _ \<Rightarrow> (CodecFailed (rr_self_author reply), False))
   | Inl e \<Rightarrow> (if record_code e \<in> {''verify_failed'', ''decrypt_failed''} then IntegrityFailed else Unreachable, False))"

record pass_state =
  ps_tables :: claim_tables
  ps_refreshed :: nat
  ps_failed :: nat
  ps_reads :: nat
  ps_conflicts :: nat

definition page_answers :: "nat \<Rightarrow> record_error + ((record_error + record_reply) list \<times> nat option)
    \<Rightarrow> (record_error + record_reply) list \<times> nat option" where
  "page_answers n r = (case r of Inr p \<Rightarrow> p | Inl e \<Rightarrow> (replicate n (Inl e), None))"

definition page_step :: "serde \<Rightarrow> int \<Rightarrow> string list \<Rightarrow> (record_error + record_reply) list \<Rightarrow> pass_state \<Rightarrow> pass_state" where
  "page_step S now ids entries p =
    (let seen = map (\<lambda>(i, e). (i, observe_claim S i e)) (zip ids entries);
         (t, conflicts) = cache_agent_claims (ps_tables p) (map (\<lambda>(i, x, _). (i, x)) seen) now;
         ok = length (filter (\<lambda>(_, _, k). k) seen) in
     \<lparr>ps_tables = t, ps_refreshed = ps_refreshed p + ok, ps_failed = ps_failed p + (length seen - ok),
      ps_reads = ps_reads p + length (filter (\<lambda>(_, e). is_ok e) (zip ids entries)),
      ps_conflicts = ps_conflicts p + conflicts\<rparr>)"

definition next_offset :: "nat \<Rightarrow> nat option \<Rightarrow> nat" where
  "next_offset n nxt = (case nxt of Some k \<Rightarrow> k | None \<Rightarrow> n)"

lemma next_offset_pos:
  assumes "read_many S net w subjects = (w', r)" and "page_answers (length subjects) r = (entries, nxt)" and "subjects \<noteq> []"
  shows "0 < next_offset (length subjects) nxt \<and> next_offset (length subjects) nxt = length entries \<and> length entries \<le> length subjects"
proof (cases r)
  case (Inl e)
  with assms show ?thesis by (auto simp: page_answers_def next_offset_def)
next
  case (Inr p)
  with assms have "read_many S net w subjects = (w', Inr (entries, nxt))" by (simp add: page_answers_def)
  from read_many_prefix [OF this] show ?thesis by (auto simp: next_offset_def)
qed

text \<open>One chunk: ask for what is left of it until each agent has been answered.\<close>

function refresh_chunk :: "serde \<Rightarrow> 'w net \<Rightarrow> ('w \<Rightarrow> int) \<Rightarrow> string list \<Rightarrow> 'w \<Rightarrow> pass_state \<Rightarrow> 'w \<times> pass_state" where
  "refresh_chunk S net clock ids w p =
    (if ids = [] then (w, p)
     else (let (w1, r) = read_many S net w (map claim_subject ids);
               (entries, nxt) = page_answers (length ids) r in
       refresh_chunk S net clock (drop (next_offset (length ids) nxt) ids) w1 (page_step S (clock w1) ids entries p)))"
  by pat_completeness auto
termination
proof (relation "measure (\<lambda>(S, net, clock, ids, w, p). length ids)")
  fix S :: serde and net :: "'w net" and clock :: "'w \<Rightarrow> int" and ids and w :: 'w and p x w1 r y entries nxt
  assume "ids \<noteq> []" "x = read_many S net w (map claim_subject ids)" "(w1, r) = x"
    "y = page_answers (length ids) r" "(entries, nxt) = y"
  with next_offset_pos [of S net w "map claim_subject ids" w1 r entries nxt]
  show "((S, net, clock, drop (next_offset (length ids) nxt) ids, w1, page_step S (clock w1) ids entries p), S, net, clock, ids, w, p)
      \<in> measure (\<lambda>(S, net, clock, ids, w, p). length ids)"
    by (auto simp: length_greater_0_conv [symmetric] simp del: length_greater_0_conv)
qed simp

declare refresh_chunk.simps [simp del]

fun chunks_of :: "nat \<Rightarrow> 'a list \<Rightarrow> 'a list list" where
  "chunks_of n xs = (if xs = [] \<or> n = 0 then [] else take n xs # chunks_of n (drop n xs))"

declare chunks_of.simps [simp del]

fun refresh_chunks :: "serde \<Rightarrow> 'w net \<Rightarrow> ('w \<Rightarrow> int) \<Rightarrow> string list list \<Rightarrow> 'w \<Rightarrow> pass_state \<Rightarrow> 'w \<times> pass_state" where
  "refresh_chunks S net clock [] w p = (w, p)"
| "refresh_chunks S net clock (c # cs) w p = (let (w1, p1) = refresh_chunk S net clock c w p in refresh_chunks S net clock cs w1 p1)"

definition refresh_pass :: "serde \<Rightarrow> 'w net \<Rightarrow> ('w \<Rightarrow> int) \<Rightarrow> bool \<Rightarrow> string list \<Rightarrow> 'w \<Rightarrow> claim_tables
    \<Rightarrow> 'w \<times> claim_tables \<times> (string + (nat \<times> nat))" where
  "refresh_pass S net clock foreign agents w t =
    (if foreign \<or> ct_sharing t \<noteq> Some ''enabled'' then (w, t, Inr (0, 0))
     else (let (w1, p) = refresh_chunks S net clock (chunks_of MANY_CAP agents) w
             \<lparr>ps_tables = t, ps_refreshed = 0, ps_failed = 0, ps_reads = 0, ps_conflicts = 0\<rparr> in
       (w1, ps_tables p, if ps_reads p = 0 \<and> 0 < ps_failed p then Inl ''engram_unavailable''
          else Inr (ps_refreshed p, ps_failed p))))"


section \<open>What the pass establishes\<close>

lemma cache_append: "cache_agent_claims t (a @ b) now =
    (let (t1, n) = cache_agent_claims t a now; (t2, m) = cache_agent_claims t1 b now in (t2, n + m))"
  by (induction t a now rule: cache_agent_claims.induct) (auto simp: Let_def split: prod.splits)

text \<open>One exchange with the service: the agents a request named, the answers that came back for the first of them (each
  the error, when the request failed), and the time the answers were taken.\<close>

record refresh_page =
  pg_asked :: "string list"
  pg_answers :: "(record_error + record_reply) list"
  pg_at :: int

definition pg_seen :: "refresh_page \<Rightarrow> (string \<times> (record_error + record_reply)) list" where
  "pg_seen pg = zip (pg_asked pg) (pg_answers pg)"

definition exchange :: "serde \<Rightarrow> 'w net \<Rightarrow> ('w \<Rightarrow> int) \<Rightarrow> 'w \<Rightarrow> refresh_page \<Rightarrow> 'w \<Rightarrow> bool" where
  "exchange S net clock w pg w' \<longleftrightarrow> pg_asked pg \<noteq> [] \<and> length (pg_answers pg) \<le> length (pg_asked pg) \<and> pg_at pg = clock w'
     \<and> ((\<exists>nxt. read_many S net w (map claim_subject (pg_asked pg)) = (w', Inr (pg_answers pg, nxt)))
        \<or> (\<exists>e. read_many S net w (map claim_subject (pg_asked pg)) = (w', Inl e)
             \<and> pg_answers pg = replicate (length (pg_asked pg)) (Inl e)))"

fun exchanges :: "serde \<Rightarrow> 'w net \<Rightarrow> ('w \<Rightarrow> int) \<Rightarrow> 'w \<Rightarrow> refresh_page list \<Rightarrow> 'w \<Rightarrow> bool" where
  "exchanges S net clock w [] w' \<longleftrightarrow> w' = w"
| "exchanges S net clock w (pg # pgs) w' \<longleftrightarrow> (\<exists>w1. exchange S net clock w pg w1 \<and> exchanges S net clock w1 pgs w')"

definition page_taken :: "serde \<Rightarrow> claim_tables \<Rightarrow> refresh_page \<Rightarrow> claim_tables" where
  "page_taken S t pg = fst (cache_agent_claims t (map (\<lambda>(i, e). (i, fst (observe_claim S i e))) (pg_seen pg)) (pg_at pg))"

definition all_seen :: "refresh_page list \<Rightarrow> (string \<times> (record_error + record_reply)) list" where
  "all_seen pages = concat (map pg_seen pages)"

text \<open>What a run of exchanges adds to the pass.\<close>

definition advanced :: "serde \<Rightarrow> refresh_page list \<Rightarrow> pass_state \<Rightarrow> pass_state \<Rightarrow> bool" where
  "advanced S pages p p' \<longleftrightarrow> ps_tables p' = foldl (page_taken S) (ps_tables p) pages
    \<and> ps_refreshed p' = ps_refreshed p + length (filter (\<lambda>(i, e). snd (observe_claim S i e)) (all_seen pages))
    \<and> ps_refreshed p' + ps_failed p' = ps_refreshed p + ps_failed p + length (all_seen pages)
    \<and> ps_reads p' = ps_reads p + length (filter (\<lambda>(i, e). is_ok e) (all_seen pages))"

lemma advanced_Nil: "advanced S [] p p"
  by (simp add: advanced_def all_seen_def)

lemma advanced_append: "advanced S a p q \<Longrightarrow> advanced S b q r \<Longrightarrow> advanced S (a @ b) p r"
  by (auto simp: advanced_def all_seen_def)

lemma exchanges_append: "exchanges S net clock w a w1 \<Longrightarrow> exchanges S net clock w1 b w2 \<Longrightarrow> exchanges S net clock w (a @ b) w2"
  by (induction a arbitrary: w) auto

lemma page_advanced: "advanced S [pg] p (page_step S (pg_at pg) (pg_asked pg) (pg_answers pg) p)"
proof -
  let ?seen = "map (\<lambda>(i, e). (i, observe_claim S i e)) (pg_seen pg)"
  have obs: "map (\<lambda>(i, x, _). (i, x)) ?seen = map (\<lambda>(i, e). (i, fst (observe_claim S i e))) (pg_seen pg)"
    by (auto split: prod.splits)
  have ok: "length (filter (\<lambda>(_, _, k). k) ?seen) = length (filter (\<lambda>(i, e). snd (observe_claim S i e)) (pg_seen pg))"
    by (simp add: filter_map o_def case_prod_unfold)
  have "length (filter (\<lambda>(_, _, k). k) ?seen) \<le> length ?seen" by (rule length_filter_le)
  then have le: "length (filter (\<lambda>(i, e). snd (observe_claim S i e)) (pg_seen pg)) \<le> length (pg_seen pg)" unfolding ok by simp
  have "k + (m + n - k) = m + n" if "k \<le> n" for k m n :: nat using that by simp
  from this [OF le] have d: "length (filter (\<lambda>(i, e). snd (observe_claim S i e)) (pg_seen pg)) + (ps_failed p + length (pg_seen pg)
      - length (filter (\<lambda>(i, e). snd (observe_claim S i e)) (pg_seen pg))) = ps_failed p + length (pg_seen pg)" .
  obtain t n where "cache_agent_claims (ps_tables p) (map (\<lambda>(i, e). (i, fst (observe_claim S i e))) (pg_seen pg)) (pg_at pg) = (t, n)" by fastforce
  then show ?thesis using ok d unfolding advanced_def page_step_def page_taken_def all_seen_def pg_seen_def [symmetric] Let_def obs by simp
qed

lemma seen_prefix: "length (pg_answers pg) \<le> length (pg_asked pg) \<Longrightarrow> map fst (pg_seen pg) = take (length (pg_answers pg)) (pg_asked pg)"
  by (simp add: pg_seen_def map_fst_zip_take min_def)

lemma chunk_advanced: "refresh_chunk S net clock ids w p = (w', p') \<Longrightarrow>
    \<exists>pages. exchanges S net clock w pages w' \<and> map fst (all_seen pages) = ids \<and> advanced S pages p p'"
proof (induction S net clock ids w p arbitrary: w' p' rule: refresh_chunk.induct)
  case (1 S net clock ids w p)
  show ?case
  proof (cases "ids = []")
    case True
    then show ?thesis using 1(2) advanced_Nil by (intro exI [of _ "[]"]) (auto simp: refresh_chunk.simps all_seen_def)
  next
    case False
    obtain w1 r where r: "read_many S net w (map claim_subject ids) = (w1, r)" by (cases "read_many S net w (map claim_subject ids)")
    obtain entries nxt where e: "page_answers (length ids) r = (entries, nxt)" by (cases "page_answers (length ids) r")
    have off: "next_offset (length ids) nxt = length entries" "length entries \<le> length ids"
      using next_offset_pos [OF r] e False by auto
    define pg where "pg = \<lparr>pg_asked = ids, pg_answers = entries, pg_at = clock w1\<rparr>"
    have ex: "exchange S net clock w pg w1"
      using r e off(2) False by (cases r) (auto simp: exchange_def pg_def page_answers_def)
    have "refresh_chunk S net clock (drop (length entries) ids) w1 (page_step S (clock w1) ids entries p) = (w', p')"
      using 1(2) r e off False by (simp add: refresh_chunk.simps [of S net clock ids])
    then obtain pages where pages: "exchanges S net clock w1 pages w'" "map fst (all_seen pages) = drop (length entries) ids"
        "advanced S pages (page_step S (clock w1) ids entries p) p'"
      using 1(1) [OF False] r e off by (metis (no_types))
    have "advanced S [pg] p (page_step S (clock w1) ids entries p)" using page_advanced [of S pg p] by (simp add: pg_def)
    from advanced_append [OF this pages(3)] have adv: "advanced S (pg # pages) p p'" by simp
    have "map fst (pg_seen pg) = take (length entries) ids" using seen_prefix [of pg] off(2) by (simp add: pg_def)
    then have "map fst (all_seen (pg # pages)) = ids" using pages(2) by (simp add: all_seen_def)
    then show ?thesis using ex pages(1) adv by (intro exI [of _ "pg # pages"]) auto
  qed
qed

lemma chunks_advanced: "refresh_chunks S net clock cs w p = (w', p') \<Longrightarrow>
    \<exists>pages. exchanges S net clock w pages w' \<and> map fst (all_seen pages) = concat cs \<and> advanced S pages p p'"
proof (induction cs arbitrary: w p)
  case Nil
  then show ?case using advanced_Nil by (intro exI [of _ "[]"]) (auto simp: all_seen_def)
next
  case (Cons c cs)
  obtain w1 p1 where c: "refresh_chunk S net clock c w p = (w1, p1)" by (cases "refresh_chunk S net clock c w p")
  with Cons.prems have "refresh_chunks S net clock cs w1 p1 = (w', p')" by simp
  from Cons.IH [OF this] obtain b where b: "exchanges S net clock w1 b w'" "map fst (all_seen b) = concat cs" "advanced S b p1 p'" by blast
  from chunk_advanced [OF c] obtain a where a: "exchanges S net clock w a w1" "map fst (all_seen a) = c" "advanced S a p p1" by blast
  have "map fst (all_seen (a @ b)) = concat (c # cs)" using a(2) b(2) by (simp add: all_seen_def)
  then show ?case using exchanges_append [OF a(1) b(1)] advanced_append [OF a(3) b(3)] by blast
qed

lemma concat_chunks: "0 < n \<Longrightarrow> concat (chunks_of n xs) = xs"
  by (induction n xs rule: chunks_of.induct) (subst chunks_of.simps, simp)

lemma refused_not_counted: "snd (observe_claim S a e) \<Longrightarrow> is_ok e"
  by (cases e) (simp_all add: observe_claim_def)

text \<open>C17. A refresh pass observes every live agent exactly once and in order, however the service pages
  its answers and whatever it refuses. The pass is a run of exchanges with the service: each asks for
  agents that are left, takes the answer at each place for the agent asked at that place, at the time
  the answers came, and a failed request counts as that error for every agent it named. Together the
  exchanges answer for exactly the live agents, the cache the pass leaves is the cache of those
  observations, every agent is counted as refreshed or failed, and the pass is an error exactly when
  no entry was read and one failed.\<close>

theorem refresh_observes_each:
  assumes "refresh_pass S net clock False agents w t = (w', t', r)" and "ct_sharing t = Some ''enabled''"
  shows "\<exists>pages. exchanges S net clock w pages w' \<and> map fst (all_seen pages) = agents \<and> t' = foldl (page_taken S) t pages
    \<and> r = (if (\<forall>(a, e) \<in> set (all_seen pages). \<not> is_ok e) \<and> agents \<noteq> [] then Inl ''engram_unavailable''
        else Inr (length (filter (\<lambda>(a, e). snd (observe_claim S a e)) (all_seen pages)),
          length (filter (\<lambda>(a, e). \<not> snd (observe_claim S a e)) (all_seen pages))))"
proof -
  let ?p0 = "\<lparr>ps_tables = t, ps_refreshed = 0, ps_failed = 0, ps_reads = 0, ps_conflicts = 0\<rparr>" and ?ok = "\<lambda>(a, e). snd (observe_claim S a e)"
  obtain p where run: "refresh_chunks S net clock (chunks_of MANY_CAP agents) w ?p0 = (w', p)" and t': "t' = ps_tables p"
    and r: "r = (if ps_reads p = 0 \<and> 0 < ps_failed p then Inl ''engram_unavailable'' else Inr (ps_refreshed p, ps_failed p))"
    using assms by (auto simp: refresh_pass_def split: prod.splits)
  have "concat (chunks_of MANY_CAP agents) = agents" by (rule concat_chunks) (simp add: MANY_CAP_def)
  then obtain pages where ex: "exchanges S net clock w pages w'" and seen: "map fst (all_seen pages) = agents" and adv: "advanced S pages ?p0 p"
    using chunks_advanced [OF run] by auto
  have len: "length (all_seen pages) = length agents" using seen by (metis length_map)
  have reads: "ps_reads p = length (filter (\<lambda>(a, e). is_ok e) (all_seen pages))"
    and ok: "ps_refreshed p = length (filter ?ok (all_seen pages))" and sum: "ps_refreshed p + ps_failed p = length (all_seen pages)"
    and tab: "ps_tables p = foldl (page_taken S) t pages"
    using adv by (simp_all add: advanced_def)
  have "length (filter ?ok (all_seen pages)) + length (filter (\<lambda>x. \<not> ?ok x) (all_seen pages)) = length (all_seen pages)"
    by (rule sum_length_filter_compl)
  then have failed: "ps_failed p = length (filter (\<lambda>(a, e). \<not> snd (observe_claim S a e)) (all_seen pages))"
    using ok sum by (simp add: case_prod_unfold)
  have none: "ps_reads p = 0 \<longleftrightarrow> (\<forall>(a, e) \<in> set (all_seen pages). \<not> is_ok e)"
    using reads by (auto simp: filter_empty_conv)
  have "0 < ps_failed p \<longleftrightarrow> agents \<noteq> []" if "\<forall>(a, e) \<in> set (all_seen pages). \<not> is_ok e"
  proof -
    have "filter ?ok (all_seen pages) = []"
      using that by (auto simp: filter_empty_conv dest!: refused_not_counted)
    then show ?thesis using ok sum len by auto
  qed
  with none r ok failed tab t' ex seen show ?thesis by (intro exI [of _ pages]) auto
qed

text \<open>Two agents, a page that answers the first, and a second page.\<close>

definition absent_reply :: record_reply where
  "absent_reply = \<lparr>rr_absent = True, rr_version = 0, rr_body = None, rr_author = None, rr_self_author = demo_author, rr_stale = False\<rparr>"

definition paged_serde :: serde where
  "paged_serde = \<lparr>sj_write = (\<lambda>_. []), sj_read = (\<lambda>s. Some (events (JObj [(''result'', JObj
     ((''entries'', JArr [wire_of_reply absent_reply]) # (if s = ''p'' then [(''next'', JNum (PosInt 1))] else [])))])))\<rparr>"

definition paged_net :: "nat net" where
  "paged_net w m p = (Suc w, Answered (if w = 0 then ''p'' else ''q''))"

definition enabled_tables :: claim_tables where
  "enabled_tables = \<lparr>ct_claims = Map.empty, ct_self = None, ct_names = Map.empty, ct_sharing = Some ''enabled''\<rparr>"

lemma paged_run: "fst (refresh_pass paged_serde paged_net int False [''a'', ''b''] 0 enabled_tables) = 2
    \<and> snd (snd (refresh_pass paged_serde paged_net int False [''a'', ''b''] 0 enabled_tables)) = Inr (2, 0)"
  by code_simp

lemma refresh_observes_each_witness:
  "\<exists>t' pages. refresh_pass paged_serde paged_net int False [''a'', ''b''] 0 enabled_tables = (2, t', Inr (2, 0))
     \<and> exchanges paged_serde paged_net int 0 pages 2 \<and> map fst (all_seen pages) = [''a'', ''b'']
     \<and> t' = foldl (page_taken paged_serde) enabled_tables pages"
proof -
  obtain t' where run: "refresh_pass paged_serde paged_net int False [''a'', ''b''] 0 enabled_tables = (2, t', Inr (2, 0))"
    using paged_run by (metis prod.collapse)
  have "ct_sharing enabled_tables = Some ''enabled''" by (simp add: enabled_tables_def)
  from refresh_observes_each [OF run this] obtain pages where "exchanges paged_serde paged_net int 0 pages 2"
    "map fst (all_seen pages) = [''a'', ''b'']" "t' = foldl (page_taken paged_serde) enabled_tables pages" by metis
  then show ?thesis using run by (intro exI [of _ t'] exI [of _ pages]) simp
qed

section \<open>What the cache keeps\<close>

text \<open>The observations that take a cached claim away: a confirmed absence, and a claim at epoch 0 no older than it.\<close>

definition forgets :: "cached_claim \<Rightarrow> claim_observation \<Rightarrow> bool" where
  "forgets c x = (case x of Absent stale _ \<Rightarrow> \<not> stale
     | Present claim _ \<Rightarrow> cc_epoch claim = 0 \<and> cc_version c \<le> cc_version claim | _ \<Rightarrow> False)"

definition replaces :: "cached_claim \<Rightarrow> claim_observation \<Rightarrow> bool" where
  "replaces c x = (case x of Present claim _ \<Rightarrow> cc_version c \<le> cc_version claim | _ \<Rightarrow> False)"

lemma decide_kept:
  assumes "\<not> forgets c x" and "decide (Some c) x now = Some c'"
  shows "cc_version c \<le> cc_version c' \<and> (cc_failed c \<and> \<not> cc_failed c' \<longrightarrow> replaces c x)
    \<and> (\<not> replaces c x \<and> 1 \<le> cc_version c \<longrightarrow> cc_holder c' = cc_holder c \<and> cc_epoch c' = cc_epoch c \<and> cc_version c' = cc_version c)"
  using assms by (cases x) (auto simp: decide_def decide_row_def forgets_def replaces_def unclaimed_def split: if_splits)

lemma decide_row_some: "\<exists>c'. decide (Some c) x now = Some c'"
  by (cases x) (auto simp: decide_def decide_row_def)

lemma learn_claims: "learn_self_author t a = (t1, k) \<Longrightarrow> ct_claims t1 = ct_claims t"
  by (auto simp: learn_self_author_def split: option.splits)

lemma apply_claim_claims: "ct_claims (fst (apply_claim t agent x now)) =
    (case decide (load_claim t agent) x now of None \<Rightarrow> ct_claims t | Some c \<Rightarrow> (ct_claims t)(agent \<mapsto> c))"
  by (auto simp: apply_claim_def Let_def dest!: learn_claims split: option.splits prod.splits)

lemma load_other: "a \<noteq> agent \<Longrightarrow> load_claim (fst (apply_claim t a x now)) agent = load_claim t agent"
  using apply_claim_claims [of t a x now] by (simp add: load_claim_def split: option.splits)

lemma load_same: "load_claim t agent = Some c \<Longrightarrow>
    load_claim (fst (apply_claim t agent x now)) agent = decide (Some c) x now"
  using apply_claim_claims [of t agent x now] decide_row_some [of c x now] by (auto simp: load_claim_def)

lemma cache_Cons: "fst (cache_agent_claims t ((a, x) # rest) now) = fst (cache_agent_claims (fst (apply_claim t a x now)) rest now)"
  by (auto simp: Let_def split: prod.splits)

text \<open>The identity of this machine and the conflicts a page reports.\<close>

lemma apply_claim_self: "apply_claim t agent x now = (t', conflict) \<Longrightarrow>
    ct_self t' = (case ct_self t of Some a \<Rightarrow> Some a | None \<Rightarrow> observed_author x)
    \<and> (conflict \<longleftrightarrow> (\<exists>a b. ct_self t = Some a \<and> observed_author x = Some b \<and> a \<noteq> b))"
  by (auto simp: apply_claim_def learn_self_author_def Let_def split: option.splits prod.splits)

lemma cache_self:
  assumes "ct_self t = Some own"
  shows "ct_self (fst (cache_agent_claims t page now)) = Some own
    \<and> snd (cache_agent_claims t page now) = length (filter (\<lambda>(_, x). observed_author x \<notin> {None, Some own}) page)"
  using assms
proof (induction page arbitrary: t)
  case (Cons p page)
  obtain a x where p: "p = (a, x)" by (cases p)
  obtain t1 k where s: "apply_claim t a x now = (t1, k)" by (cases "apply_claim t a x now")
  have "ct_self t1 = Some own" and "k \<longleftrightarrow> observed_author x \<notin> {None, Some own}"
    using apply_claim_self [OF s] Cons.prems by auto
  with Cons.IH [of t1] p s show ?case by (auto simp: Let_def split: prod.splits)
qed simp

text \<open>What a cached row owes to the row before it and the observations between.\<close>

definition kept_by :: "cached_claim \<Rightarrow> claim_observation set \<Rightarrow> cached_claim \<Rightarrow> bool" where
  "kept_by c X c' \<longleftrightarrow> cc_version c \<le> cc_version c'
    \<and> (cc_failed c \<and> \<not> cc_failed c' \<longrightarrow> (\<exists>x \<in> X. replaces c x))
    \<and> ((\<forall>x \<in> X. \<not> replaces c x) \<and> 1 \<le> cc_version c \<longrightarrow>
        cc_holder c' = cc_holder c \<and> cc_epoch c' = cc_epoch c \<and> cc_version c' = cc_version c)"

lemma kept_refl: "kept_by c {} c"
  by (simp add: kept_by_def)

lemma kept_decide: "\<not> forgets c x \<Longrightarrow> decide (Some c) x now = Some d \<Longrightarrow> kept_by c {x} d"
  using decide_kept [of c x now d] by (auto simp: kept_by_def)

lemma replaces_mono: "cc_version c \<le> cc_version d \<Longrightarrow> replaces d x \<Longrightarrow> replaces c x"
  by (cases x) (auto simp: replaces_def)

lemma forgets_mono: "cc_version c \<le> cc_version d \<Longrightarrow> forgets d x \<Longrightarrow> forgets c x"
  by (cases x) (auto simp: forgets_def)

lemma replaces_cong: "cc_version c = cc_version d \<Longrightarrow> replaces d x = replaces c x"
  by (cases x) (simp_all add: replaces_def)

lemma kept_step:
  assumes "kept_by c {x} d" and "kept_by d X e" shows "kept_by c (insert x X) e"
proof -
  have le: "cc_version c \<le> cc_version d" "cc_version d \<le> cc_version e" using assms by (simp_all add: kept_by_def)
  have mark: "\<exists>y \<in> insert x X. replaces c y" if "cc_failed c" "\<not> cc_failed e"
    using assms that replaces_mono [OF le(1)] by (cases "cc_failed d") (auto simp: kept_by_def)
  have same: "cc_holder e = cc_holder c \<and> cc_epoch e = cc_epoch c \<and> cc_version e = cc_version c"
    if "\<forall>y \<in> insert x X. \<not> replaces c y" "1 \<le> cc_version c"
  proof -
    have d: "cc_holder d = cc_holder c" "cc_epoch d = cc_epoch c" "cc_version d = cc_version c"
      using assms(1) that by (auto simp: kept_by_def)
    with replaces_cong [OF d(3) [symmetric]] that have "\<forall>y \<in> X. \<not> replaces d y" by simp
    with assms(2) d that show ?thesis by (auto simp: kept_by_def)
  qed
  show ?thesis unfolding kept_by_def using le mark same by simp
qed

declare cache_agent_claims.simps(2) [simp del]

lemma cache_present: "load_claim t agent = Some c \<Longrightarrow> \<exists>c'. load_claim (fst (cache_agent_claims t page now)) agent = Some c'"
proof (induction page arbitrary: t c)
  case (Cons p page)
  obtain a x where p: "p = (a, x)" by (cases p)
  have "\<exists>d. load_claim (fst (apply_claim t a x now)) agent = Some d"
    using Cons.prems load_other [of a agent t x now] load_same [of t agent c x now] decide_row_some [of c x now]
    by (cases "a = agent") auto
  then show ?case using Cons.IH by (auto simp: p cache_Cons)
qed simp

lemma cache_kept:
  assumes "load_claim t agent = Some c" and "\<And>x. (agent, x) \<in> set page \<Longrightarrow> \<not> forgets c x"
  shows "\<exists>c'. load_claim (fst (cache_agent_claims t page now)) agent = Some c' \<and> kept_by c {x. (agent, x) \<in> set page} c'"
  using assms
proof (induction page arbitrary: t c)
  case (Cons p page)
  obtain a x where p: "p = (a, x)" by (cases p)
  let ?t = "fst (apply_claim t a x now)" and ?X = "{x. (agent, x) \<in> set page}"
  show ?case
  proof (cases "a = agent")
    case False
    then have "load_claim ?t agent = Some c" using Cons.prems(1) load_other by simp
    with Cons.IH [OF this] Cons.prems(2) False show ?thesis by (simp add: p cache_Cons)
  next
    case True
    obtain d where d: "decide (Some c) x now = Some d" using decide_row_some by blast
    have "\<not> forgets c x" using Cons.prems(2) p True by simp
    then have k: "kept_by c {x} d" using d by (rule kept_decide)
    then have "\<not> forgets d y" if "(agent, y) \<in> set page" for y
      using Cons.prems(2) [of y] forgets_mono [of c d y] that by (auto simp: kept_by_def)
    moreover have "load_claim ?t agent = Some d" using d load_same [OF Cons.prems(1)] True by simp
    ultimately obtain c' where
      "load_claim (fst (cache_agent_claims ?t page now)) agent = Some c'" "kept_by d ?X c'" using Cons.IH [of ?t d] by auto
    moreover have "{y. (agent, y) \<in> set (p # page)} = insert x ?X" using p True by auto
    ultimately show ?thesis using kept_step [OF k] by (auto simp: p cache_Cons)
  qed
qed (use kept_refl in auto)

text \<open>C23. The claim cache is safe against rollback and forgery. Over any page of observations the agent stays
  cached, and unless the page reads its claim as gone, by a confirmed absence or a claim at epoch 0 no
  older than the cached one, the cached version never falls, an integrity mark is cleared only by a
  verified body at least as new, and without such a body the cached holder and epoch stay. Over every
  page the identity of this machine, once learned, is never replaced, and each reply that names
  another author is counted as a conflict.\<close>

theorem claim_cache_safe:
  assumes "load_claim t agent = Some c" and "ct_self t = Some own"
  shows "\<exists>c'. load_claim (fst (cache_agent_claims t page now)) agent = Some c'
    \<and> ((\<exists>x. (agent, x) \<in> set page \<and> forgets c x)
       \<or> cc_version c \<le> cc_version c'
         \<and> (cc_failed c \<and> \<not> cc_failed c' \<longrightarrow> (\<exists>x. (agent, x) \<in> set page \<and> replaces c x))
         \<and> ((\<forall>x. (agent, x) \<in> set page \<longrightarrow> \<not> replaces c x) \<and> 1 \<le> cc_version c \<longrightarrow>
             cc_holder c' = cc_holder c \<and> cc_epoch c' = cc_epoch c \<and> cc_version c' = cc_version c))
    \<and> ct_self (fst (cache_agent_claims t page now)) = Some own
    \<and> snd (cache_agent_claims t page now) = length (filter (\<lambda>(_, x). observed_author x \<notin> {None, Some own}) page)"
proof (cases "\<exists>x. (agent, x) \<in> set page \<and> forgets c x")
  case True
  then show ?thesis using cache_present [OF assms(1)] cache_self [OF assms(2)] by blast
next
  case False
  then show ?thesis using cache_kept [where page = page and now = now, OF assms(1)] cache_self [where page = page and now = now, OF assms(2)]
    unfolding kept_by_def by blast
qed

definition seen_claim :: "string \<Rightarrow> int \<Rightarrow> cached_claim" where
  "seen_claim holder n = \<lparr>cc_holder = Some holder, cc_epoch = n, cc_cut_id = None, cc_version = n, cc_read_at = 0,
     cc_stale = False, cc_failed = False\<rparr>"

definition seen_tables :: claim_tables where
  "seen_tables = \<lparr>ct_claims = [''a'' \<mapsto> seen_claim ''me'' 5], ct_self = Some ''me'', ct_names = Map.empty, ct_sharing = Some ''enabled''\<rparr>"

lemma claim_cache_safe_witness:
  "\<exists>c'. load_claim (fst (cache_agent_claims seen_tables
      [(''a'', Present (seen_claim ''you'' 4) ''me''), (''a'', IntegrityFailed), (''a'', Unreachable)] 9)) ''a'' = Some c'
    \<and> cc_version c' = 5 \<and> cc_holder c' = Some ''me''"
proof -
  let ?page = "[(''a'', Present (seen_claim ''you'' 4) ''me''), (''a'', IntegrityFailed), (''a'', Unreachable)]"
  have c: "load_claim seen_tables ''a'' = Some (seen_claim ''me'' 5)" "ct_self seen_tables = Some ''me''"
    by (simp_all add: load_claim_def seen_tables_def)
  have k: "\<not> forgets (seen_claim ''me'' 5) x" if "(''a'', x) \<in> set ?page" for x
    using that by (auto simp: forgets_def seen_claim_def)
  have r: "\<not> replaces (seen_claim ''me'' 5) x" if "(''a'', x) \<in> set ?page" for x
    using that by (auto simp: replaces_def seen_claim_def)
  have v: "cc_version (seen_claim ''me'' 5) = 5" "cc_holder (seen_claim ''me'' 5) = Some ''me''" by (simp_all add: seen_claim_def)
  obtain c' where c': "load_claim (fst (cache_agent_claims seen_tables ?page 9)) ''a'' = Some c'"
    and or: "(\<exists>x. (''a'', x) \<in> set ?page \<and> forgets (seen_claim ''me'' 5) x) \<or> ((\<forall>x. (''a'', x) \<in> set ?page \<longrightarrow> \<not> replaces (seen_claim ''me'' 5) x)
      \<and> 1 \<le> cc_version (seen_claim ''me'' 5) \<longrightarrow> cc_holder c' = cc_holder (seen_claim ''me'' 5) \<and> cc_version c' = cc_version (seen_claim ''me'' 5))"
    using claim_cache_safe [where page = ?page and now = 9, OF c] by blast
  have "cc_version c' = 5 \<and> cc_holder c' = Some ''me''" using or k r v by (metis one_le_numeral)
  with c' show ?thesis by blast
qed

text \<open>A claim at epoch 0 is cached at version 0, whatever version its record has, so the next
  observation of any older version replaces it: an older body the cache had already passed is
  believed again.\<close>

theorem epoch_zero_forgets_version:
  assumes "cc_epoch gone = 0" and "cc_epoch older \<noteq> 0" and "0 \<le> cc_version older" and "cc_version c \<le> cc_version gone"
    and "load_claim t agent = Some c"
  shows "load_claim (fst (cache_agent_claims t [(agent, Present gone s), (agent, Present older s)] now)) agent
    = Some (older\<lparr>cc_failed := False, cc_read_at := now\<rparr>)"
proof -
  have "load_claim (fst (apply_claim t agent (Present gone s) now)) agent = Some (unclaimed now (cc_stale gone) False)"
    using load_same [OF assms(5)] assms(1,4) by (simp add: decide_def decide_row_def unclaimed_def)
  from load_same [OF this] assms(2,3) show ?thesis
    by (simp add: cache_Cons decide_def decide_row_def unclaimed_def)
qed

end
