(* ===== verification/Roles.thy ===== *)
theory Roles
  imports Claims
begin

text \<open>
  Roles: the local observations of role records and the attempts an operator approved
  (\<open>crates/entorhinal-core/src/role_cache.rs\<close>), the codec of their bodies (\<open>claim_codec.rs\<close>) and
  taking a role (\<open>crates/entorhinal-module/src/roles.rs\<close>). The table of roles is a map in the order
  of its names, as its statements list it; that of attempts is a map by request id. Errors are their
  codes. The operator's answer is a parameter, none or the code of a refusal; a route that closes while a call to the service runs
  is not modelled.
\<close>

section \<open>Role bodies\<close>

record role_claim =
  rc_v :: nat
  rc_role :: string
  rc_holder :: "string option"
  rc_epoch :: int
  rc_reason :: string

definition role_claim_of :: "json \<Rightarrow> role_claim option" where
  "role_claim_of v =
    (if \<not> known_fields [''v'', ''role'', ''holder'', ''epoch'', ''reason''] v then None
     else (case (u64_field v ''v'', str_field v ''role'', opt_str_field v ''holder'', i64_of (jget v ''epoch''), str_field v ''reason'') of
       (Some n, Some a, Some h, Some e, Some r) \<Rightarrow>
         Some \<lparr>rc_v = n, rc_role = a, rc_holder = h, rc_epoch = e, rc_reason = r\<rparr>
     | _ \<Rightarrow> None))"

definition role_tree :: "role_claim \<Rightarrow> json" where
  "role_tree c = JObj [(''v'', JNum (PosInt (rc_v c))), (''role'', JStr (rc_role c)), (''holder'', opt_str (rc_holder c)),
     (''epoch'', JNum (num_of_int (rc_epoch c))), (''reason'', JStr (rc_reason c))]"

definition role_byte :: "char \<Rightarrow> bool" where
  "role_byte c \<longleftrightarrow> is_lower c \<or> is_digit c \<or> c = CHR ''_''"

definition valid_role :: "string \<Rightarrow> bool" where
  "valid_role s \<longleftrightarrow> 1 \<le> length s \<and> length s \<le> 64 \<and> list_all role_byte s"

definition decode_role :: "serde \<Rightarrow> string \<Rightarrow> string \<Rightarrow> string + role_claim" where
  "decode_role S role bytes =
    bind_res (versioned_value S bytes) (\<lambda>value.
    bind_res (ok_or (role_claim_of value) ''claim_malformed'') (\<lambda>claim.
      if rc_role claim \<noteq> role then Inl ''claim_subject_mismatch''
      else if \<not> valid_role (rc_role claim) \<or> rc_epoch claim < 0 \<or> (1 \<le> rc_epoch claim \<and> \<not> is_some (rc_holder claim))
        \<or> some_and (\<lambda>h. \<not> valid_author h) (rc_holder claim) then Inl ''claim_malformed''
      else Inr claim))"

section \<open>Tables\<close>

record role_input =
  ri_role :: string
  ri_expected_epoch :: int
  ri_request_id :: string
  ri_reason :: string

record role_attempt =
  ra_input :: role_input
  ra_expected_version :: int
  ra_body :: string
  ra_epoch :: "int option"

record role_row =
  rl_holder :: "string option"
  rl_epoch :: int
  rl_source :: "string option"
  rl_stale :: bool
  rl_version :: int
  rl_read_at :: "int option"
  rl_failed :: bool

record role_tables =
  rt_base :: claim_tables
  rt_roles :: "(string \<times> role_row) list"
  rt_attempts :: "string \<rightharpoonup> role_attempt"

definition put_role :: "string \<Rightarrow> role_row \<Rightarrow> role_tables \<Rightarrow> role_tables" where
  "put_role role row t = t\<lparr>rt_roles := bt_insert role row (rt_roles t)\<rparr>"

definition fresh_role :: role_row where
  "fresh_role = \<lparr>rl_holder = None, rl_epoch = 0, rl_source = None, rl_stale = True, rl_version = 0, rl_read_at = None, rl_failed = False\<rparr>"

definition ensure_role :: "role_tables \<Rightarrow> string \<Rightarrow> string + role_tables" where
  "ensure_role t role =
    (if \<not> valid_role role then Inl ''invalid_request''
     else if bt_has (rt_roles t) role then Inr t
     else if 256 \<le> length (rt_roles t) then Inl ''role_set_full''
     else Inr (put_role role fresh_role t))"

text \<open>A row no read has filled is no observation.\<close>

definition cached_role :: "role_tables \<Rightarrow> string \<Rightarrow> cached_claim option" where
  "cached_role t role = (case bt_get (rt_roles t) role of None \<Rightarrow> None
   | Some r \<Rightarrow> (case rl_read_at r of None \<Rightarrow> None
     | Some seen \<Rightarrow> Some \<lparr>cc_holder = rl_holder r, cc_epoch = rl_epoch r, cc_cut_id = None, cc_version = rl_version r,
         cc_read_at = seen, cc_stale = rl_stale r, cc_failed = rl_failed r\<rparr>))"

definition write_cache :: "role_tables \<Rightarrow> string \<Rightarrow> cached_claim \<Rightarrow> string option \<Rightarrow> role_tables" where
  "write_cache t role c source = put_role role \<lparr>rl_holder = cc_holder c, rl_epoch = cc_epoch c, rl_source = source,
     rl_stale = cc_stale c, rl_version = cc_version c, rl_read_at = Some (cc_read_at c), rl_failed = cc_failed c\<rparr> t"

definition load_attempt :: "role_tables \<Rightarrow> role_input \<Rightarrow> string + role_attempt option" where
  "load_attempt t input = (case rt_attempts t (ri_request_id input) of None \<Rightarrow> Inr None
   | Some a \<Rightarrow> if ra_input a \<noteq> input then Inl ''id_reused'' else Inr (Some a))"

section \<open>Reads\<close>

record role_reading =
  rd_role :: string
  rd_known :: bool
  rd_held_here :: bool
  rd_epoch :: int
  rd_holder :: "string option"
  rd_holder_name :: "string option"
  rd_source :: "string option"
  rd_stale :: bool

definition read_role :: "role_tables \<Rightarrow> string \<Rightarrow> string + role_reading" where
  "read_role t role =
    (let row = cached_role t role; own = ct_self (rt_base t) in
     if some_and cc_failed row then Inl ''claim_integrity_failed''
     else (case bt_get (rt_roles t) role of None \<Rightarrow> Inl ''storage_error''
     | Some r \<Rightarrow> Inr \<lparr>rd_role = role, rd_known = is_some row,
         rd_held_here = some_and (\<lambda>c. 1 \<le> cc_epoch c \<and> is_some (cc_holder c) \<and> cc_holder c = own) row,
         rd_epoch = (case row of None \<Rightarrow> 0 | Some c \<Rightarrow> cc_epoch c),
         rd_holder = (case row of None \<Rightarrow> None | Some c \<Rightarrow> cc_holder c),
         rd_holder_name = holder_name (rt_base t) (case row of None \<Rightarrow> None | Some c \<Rightarrow> cc_holder c),
         rd_source = rl_source r, rd_stale = none_or cc_stale row\<rparr>))"

definition role_read :: "role_tables \<Rightarrow> bool \<Rightarrow> string \<Rightarrow> role_tables \<times> (string + role_reading)" where
  "role_read t foreign role =
    (if \<not> valid_role role then (t, Inl ''invalid_request'')
     else if foreign then (t, Inr \<lparr>rd_role = role, rd_known = False, rd_held_here = False, rd_epoch = 0, rd_holder = None,
       rd_holder_name = None, rd_source = None, rd_stale = True\<rparr>)
     else if bt_has (rt_roles t) role then (t, read_role t role)
     else (case ensure_role t role of Inl e \<Rightarrow> (t, Inl e)
       | Inr t1 \<Rightarrow> (case read_role t1 role of Inl e \<Rightarrow> (t1, Inl e) | Inr r \<Rightarrow> (t1, Inr r))))"

record role_fencing =
  rf_role :: string
  rf_subject :: string
  rf_version :: int
  rf_epoch :: int
  rf_held_here :: bool
  rf_holder :: "string option"
  rf_stale :: bool

definition role_subject :: "string \<Rightarrow> string" where
  "role_subject role = ''role:'' @ role"

definition role_fence :: "role_tables \<Rightarrow> bool \<Rightarrow> string \<Rightarrow> role_tables \<times> (string + role_fencing)" where
  "role_fence t foreign role =
    (let (t1, r) = role_read t foreign role in
     (t1, bind_res r (\<lambda>d. Inr \<lparr>rf_role = rd_role d, rf_subject = role_subject role,
        rf_version = (case cached_role t1 role of None \<Rightarrow> 0 | Some c \<Rightarrow> cc_version c),
        rf_epoch = rd_epoch d, rf_held_here = rd_held_here d, rf_holder = rd_holder d, rf_stale = rd_stale d\<rparr>)))"

definition role_subjects :: "role_tables \<Rightarrow> string list" where
  "role_subjects t = map fst (rt_roles t)"

section \<open>Observations\<close>

definition stale_roles :: "role_tables \<Rightarrow> role_tables" where
  "stale_roles t = t\<lparr>rt_roles := map (\<lambda>(k, r). (k, r\<lparr>rl_stale := True\<rparr>)) (rt_roles t)\<rparr>"

definition observation_replaces :: "cached_claim option \<Rightarrow> claim_observation \<Rightarrow> bool" where
  "observation_replaces old x = (case x of
     Present claim _ \<Rightarrow> none_or (\<lambda>r. cc_version r \<le> cc_version claim) old
   | Absent stale _ \<Rightarrow> \<not> stale \<or> none_or (\<lambda>r. cc_version r = 0) old
   | _ \<Rightarrow> False)"

definition learn_role_author :: "role_tables \<Rightarrow> claim_observation \<Rightarrow> role_tables \<times> bool" where
  "learn_role_author t x = (case observed_author x of None \<Rightarrow> (t, False)
   | Some a \<Rightarrow> (let (b, ok) = learn_self_author (rt_base t) a in (t\<lparr>rt_base := b\<rparr>, \<not> ok)))"

definition cache_role :: "role_tables \<Rightarrow> string \<Rightarrow> claim_observation \<Rightarrow> int \<Rightarrow> role_tables \<times> bool" where
  "cache_role t role x now =
    (let old = cached_role t role;
         source = (case bt_get (rt_roles t) role of None \<Rightarrow> None | Some r \<Rightarrow> rl_source r);
         (t1, conflict) = learn_role_author t x in
     case decide old x now of None \<Rightarrow> (t1, conflict)
     | Some c \<Rightarrow> (write_cache t1 role c (if observation_replaces old x then Some ''cloud'' else source), conflict))"

fun cache_roles :: "role_tables \<Rightarrow> (string \<times> claim_observation) list \<Rightarrow> int \<Rightarrow> role_tables \<times> nat" where
  "cache_roles t [] now = (t, 0)"
| "cache_roles t ((role, x) # rest) now =
    (let (t1, conflict) = cache_role t role x now; (t2, n) = cache_roles t1 rest now in
     (t2, (if conflict then 1 else 0) + n))"


section \<open>Taking a role\<close>

definition prepare_role_take :: "role_tables \<Rightarrow> role_attempt \<Rightarrow> string \<Rightarrow> int \<Rightarrow> role_tables \<times> (string + role_attempt)" where
  "prepare_role_take t attempt self now =
    (case load_attempt t (ra_input attempt) of
       Inl e \<Rightarrow> (t, Inl e)
     | Inr (Some existing) \<Rightarrow> (t, Inr existing)
     | Inr None \<Rightarrow>
       if some_and (\<lambda>known. known \<noteq> self) (ct_self (rt_base t)) then (t, Inl ''self_author_conflict'')
       else (case ensure_role t (ri_role (ra_input attempt)) of Inl e \<Rightarrow> (t, Inl e)
       | Inr t1 \<Rightarrow> (t1\<lparr>rt_base := fst (learn_self_author (rt_base t1) self),
            rt_attempts := (rt_attempts t1)(ri_request_id (ra_input attempt) \<mapsto> attempt\<lparr>ra_epoch := None\<rparr>)\<rparr>, Inr attempt)))"

definition finish_role_take :: "role_tables \<Rightarrow> role_attempt \<Rightarrow> string \<Rightarrow> int \<Rightarrow> int \<Rightarrow> int \<Rightarrow> role_tables" where
  "finish_role_take t attempt holder epoch version now =
    (let i = ri_request_id (ra_input attempt);
         t1 = t\<lparr>rt_attempts := (case rt_attempts t i of None \<Rightarrow> rt_attempts t
           | Some a \<Rightarrow> (rt_attempts t)(i \<mapsto> a\<lparr>ra_epoch := Some epoch\<rparr>))\<rparr> in
     write_cache t1 (ri_role (ra_input attempt)) \<lparr>cc_holder = Some holder, cc_epoch = epoch, cc_cut_id = None,
       cc_version = version, cc_read_at = now, cc_stale = False, cc_failed = False\<rparr> (Some ''local''))"

fun record_failure :: "record_error \<Rightarrow> string" where
  "record_failure (Refused code detail) = code"
| "record_failure NoReplied = ''engram_unavailable''"
| "record_failure Protocol = ''engram_unavailable''"

definition decoded_role :: "serde \<Rightarrow> string \<Rightarrow> record_reply \<Rightarrow> string + role_claim option" where
  "decoded_role S role reply =
    (if rr_absent reply then Inr None
     else (case decode_role S role (case rr_body reply of None \<Rightarrow> [] | Some b \<Rightarrow> b) of
       Inl _ \<Rightarrow> Inl ''claim_integrity_failed'' | Inr c \<Rightarrow> Inr (Some c)))"

definition claim_epoch :: "role_claim option \<Rightarrow> int" where
  "claim_epoch c = (case c of None \<Rightarrow> 0 | Some x \<Rightarrow> rc_epoch x)"

definition valid_take :: "role_input \<Rightarrow> bool" where
  "valid_take i \<longleftrightarrow> valid_role (ri_role i) \<and> 0 \<le> ri_expected_epoch i \<and> ri_expected_epoch i \<noteq> I64_MAX
    \<and> length (ri_request_id i) = 32 \<and> list_all lower_hex (ri_request_id i)"

text \<open>The attempt of a new request: the body it would write, read against the record as it is now.\<close>

definition role_body :: "role_input \<Rightarrow> string \<Rightarrow> role_claim" where
  "role_body i holder = \<lparr>rc_v = 1, rc_role = ri_role i, rc_holder = Some holder, rc_epoch = ri_expected_epoch i + 1,
     rc_reason = ri_reason i\<rparr>"

definition new_attempt :: "serde \<Rightarrow> role_tables \<Rightarrow> role_input \<Rightarrow> record_reply \<Rightarrow> string + role_attempt" where
  "new_attempt S t i reply =
    bind_res (decoded_role S (ri_role i) reply) (\<lambda>claim.
      if claim_epoch claim \<noteq> ri_expected_epoch i then Inl ''epoch_moved''
      else if some_and (\<lambda>known. known \<noteq> rr_self_author reply) (ct_self (rt_base t)) then Inl ''self_author_conflict''
      else if I64_MAX < int (rr_version reply) then Inl ''claim_integrity_failed''
      else Inr \<lparr>ra_input = i, ra_expected_version = int (rr_version reply),
        ra_body = sj_write S (role_tree (role_body i (case ct_self (rt_base t) of Some own \<Rightarrow> own | None \<Rightarrow> rr_self_author reply))),
        ra_epoch = None\<rparr>)"

definition approve_take :: "serde \<Rightarrow> 'w net \<Rightarrow> 'w \<Rightarrow> role_tables \<Rightarrow> role_input \<Rightarrow> string option \<Rightarrow> int
    \<Rightarrow> 'w \<times> role_tables \<times> (string + role_attempt)" where
  "approve_take S net w t i declined now =
    (case declined of Some code \<Rightarrow> (w, t, Inl code)
     | None \<Rightarrow> (let (w1, r) = client_read S net w (role_subject (ri_role i)) in
       case r of Inl e \<Rightarrow> (w1, t, Inl (record_failure e))
       | Inr reply \<Rightarrow> (case new_attempt S t i reply of Inl e \<Rightarrow> (w1, t, Inl e)
           | Inr a \<Rightarrow> (let (t1, x) = prepare_role_take t a (rr_self_author reply) now in (w1, t1, x)))))"

definition take_request :: "role_attempt \<Rightarrow> cas_request" where
  "take_request a = \<lparr>cq_subject = role_subject (ri_role (ra_input a)), cq_expected = nat (ra_expected_version a),
     cq_body = ra_body a, cq_write_id = hex_pairs (ri_request_id (ra_input a))\<rparr>"

definition settle_take :: "serde \<Rightarrow> 'w net \<Rightarrow> 'w \<Rightarrow> role_tables \<Rightarrow> role_attempt \<Rightarrow> int \<Rightarrow> 'w \<times> role_tables \<times> (string + int)" where
  "settle_take S net w t a now =
    (case ra_epoch a of Some epoch \<Rightarrow> (w, t, Inr epoch)
     | None \<Rightarrow> (case decode_role S (ri_role (ra_input a)) (ra_body a) of Inl _ \<Rightarrow> (w, t, Inl ''storage_error'')
     | Inr claim \<Rightarrow> (case rc_holder claim of None \<Rightarrow> (w, t, Inl ''storage_error'')
     | Some holder \<Rightarrow>
       (let (w1, r) = cas_settled S net w (take_request a) holder (decode_role S (ri_role (ra_input a))) in
        case r of Inl e \<Rightarrow> (w1, t, Inl (record_failure e))
        | Inr (Moved reply) \<Rightarrow> (w1, t, (case decoded_role S (ri_role (ra_input a)) reply of
              Inl e \<Rightarrow> Inl e | Inr _ \<Rightarrow> Inl ''epoch_moved''))
        | Inr (Landed v) \<Rightarrow> if I64_MAX < int v then (w1, t, Inl ''storage_error'')
            else (w1, finish_role_take t a holder (rc_epoch claim) (int v) now, Inr (rc_epoch claim))))))"

definition take_role :: "serde \<Rightarrow> 'w net \<Rightarrow> 'w \<Rightarrow> role_tables \<Rightarrow> role_input \<Rightarrow> string option \<Rightarrow> int \<Rightarrow> 'w \<times> role_tables \<times> (string + int)" where
  "take_role S net w t i declined now =
    (if \<not> valid_take i then (w, t, Inl ''invalid_request'')
     else (case load_attempt t i of Inl e \<Rightarrow> (w, t, Inl e)
     | Inr (Some a) \<Rightarrow> settle_take S net w t a now
     | Inr None \<Rightarrow> (let (w1, t1, x) = approve_take S net w t i declined now in
         case x of Inl e \<Rightarrow> (w1, t1, Inl e) | Inr a \<Rightarrow> settle_take S net w1 t1 a now)))"


section \<open>What a take establishes\<close>

lemma settle_take_epoch:
  assumes "settle_take S net w t a now = (w', t', Inr epoch)" and "ra_epoch a = None"
  obtains claim holder v where "decode_role S (ri_role (ra_input a)) (ra_body a) = Inr claim" "rc_holder claim = Some holder"
    "cas_settled S net w (take_request a) holder (decode_role S (ri_role (ra_input a))) = (w', Inr (Landed v))"
    "t' = finish_role_take t a holder (rc_epoch claim) (int v) now" "epoch = rc_epoch claim" "int v \<le> I64_MAX"
  using assms unfolding settle_take_def
  by (auto simp: Let_def split: sum.splits option.splits prod.splits cas_settlement.splits if_splits intro: that)

lemma settle_take_tables:
  assumes "settle_take S net w t a now = (w', t', r)"
  shows "t' = t \<or> (\<exists>claim holder v. decode_role S (ri_role (ra_input a)) (ra_body a) = Inr claim \<and> ra_epoch a = None
    \<and> t' = finish_role_take t a holder (rc_epoch claim) v now)"
  using assms unfolding settle_take_def
  by (auto simp: Let_def split: sum.splits option.splits prod.splits cas_settlement.splits if_splits)

lemma ensure_role_attempts: "ensure_role t role = Inr t1 \<Longrightarrow> rt_attempts t1 = rt_attempts t \<and> rt_base t1 = rt_base t"
  by (auto simp: ensure_role_def put_role_def split: if_splits)

lemma new_attempt_Inr: "new_attempt S t i reply = Inr a \<Longrightarrow> ct_self (rt_base t) = Some me \<Longrightarrow>
    rr_self_author reply = me \<and> ra_input a = i \<and> ra_body a = sj_write S (role_tree (role_body i me)) \<and> ra_epoch a = None
    \<and> (\<exists>claim. decoded_role S (ri_role i) reply = Inr claim \<and> claim_epoch claim = ri_expected_epoch i)
    \<and> ra_expected_version a = int (rr_version reply)"
  unfolding new_attempt_def bind_res_eq_Inr if_Inl_eq_Inr by auto

lemma prepare_new:
  assumes "prepare_role_take t a self now = (t', r)" and "load_attempt t (ra_input a) = Inr None" and "ct_self (rt_base t) = Some self"
    and "ra_epoch a = None"
  shows "(t' = t \<and> (\<exists>e. r = Inl e)) \<or> (\<exists>t1. ensure_role t (ri_role (ra_input a)) = Inr t1 \<and> r = Inr a
      \<and> rt_attempts t' = (rt_attempts t1)(ri_request_id (ra_input a) \<mapsto> a) \<and> rt_roles t' = rt_roles t1
      \<and> rt_base t' = rt_base t1)"
proof -
  have "a\<lparr>ra_epoch := None\<rparr> = a" using assms(4) by (cases a) simp
  moreover have "fst (learn_self_author (rt_base t1) self) = rt_base t1" if "ensure_role t (ri_role (ra_input a)) = Inr t1" for t1
    using ensure_role_attempts [OF that] assms(3) by (simp add: learn_self_author_def)
  ultimately show ?thesis using assms(1,2,3)
    by (auto simp: prepare_role_take_def split: sum.splits)
qed

lemma approve_take_tables:
  assumes "approve_take S net w t i declined now = (w', t', r)" and "load_attempt t i = Inr None" and "ct_self (rt_base t) = Some me"
  shows "(t' = t \<and> (\<exists>e. r = Inl e)) \<or> (\<exists>t1 a. ensure_role t (ri_role i) = Inr t1 \<and> r = Inr a \<and> ra_input a = i
      \<and> ra_body a = sj_write S (role_tree (role_body i me)) \<and> ra_epoch a = None
      \<and> rt_attempts t' = (rt_attempts t1)(ri_request_id i \<mapsto> a) \<and> rt_roles t' = rt_roles t1 \<and> rt_base t' = rt_base t1)"
proof (cases declined)
  case (Some code)
  then show ?thesis using assms by (auto simp: approve_take_def)
next
  case None
  obtain w1 x where read: "client_read S net w (role_subject (ri_role i)) = (w1, x)" by (cases "client_read S net w (role_subject (ri_role i))")
  show ?thesis
  proof (cases x)
    case (Inl e)
    with None read show ?thesis using assms by (auto simp: approve_take_def)
  next
    case (Inr reply)
    show ?thesis
    proof (cases "new_attempt S t i reply")
      case (Inl e)
      with assms(1) None read Inr have "t' = t \<and> r = Inl e" by (auto simp: approve_take_def)
      then show ?thesis by blast
    next
      case new: (Inr a)
      note n = new_attempt_Inr [OF new assms(3)]
      have "prepare_role_take t a me now = (t', r)"
        using assms(1) None read Inr new n by (auto simp: approve_take_def split: prod.splits)
      from prepare_new [OF this] n assms(2,3) show ?thesis by auto
    qed
  qed
qed

lemma load_attempt_None: "load_attempt t i = Inr None \<longleftrightarrow> rt_attempts t (ri_request_id i) = None"
  by (auto simp: load_attempt_def split: option.splits)

lemma load_attempt_Some: "load_attempt t i = Inr (Some a) \<longleftrightarrow> rt_attempts t (ri_request_id i) = Some a \<and> ra_input a = i"
  by (auto simp: load_attempt_def split: option.splits)

text \<open>The body a decoder reads back.\<close>

lemma role_tree_get:
  "jget (role_tree c) ''v'' = Some (JNum (PosInt (rc_v c)))" "jget (role_tree c) ''role'' = Some (JStr (rc_role c))"
  "jget (role_tree c) ''holder'' = Some (opt_str (rc_holder c))" "jget (role_tree c) ''epoch'' = Some (JNum (num_of_int (rc_epoch c)))"
  "jget (role_tree c) ''reason'' = Some (JStr (rc_reason c))"
  by (simp_all add: role_tree_def bt_get_def)


lemma i64_of_num: "0 \<le> i \<Longrightarrow> i \<le> I64_MAX \<Longrightarrow> i64_of (Some (JNum (num_of_int i))) = Some i"
  by (simp add: i64_of_def num_of_int_def)

lemma decode_role_written:
  assumes law: "sj_read S body = Some (events (role_tree c))" and "rc_v c = 1" "rc_holder c = Some h" "0 \<le> rc_epoch c" "rc_epoch c \<le> I64_MAX"
    and dec: "decode_role S role body = Inr c'"
  shows "c' = c"
proof -
  define m where "m = [(''v'', JNum (PosInt (rc_v c))), (''role'', JStr (rc_role c)), (''holder'', opt_str (rc_holder c)),
     (''epoch'', JNum (num_of_int (rc_epoch c))), (''reason'', JStr (rc_reason c))]"
  have tree: "role_tree c = JObj m" by (simp add: role_tree_def m_def)
  have d: "distinct (map fst m)" by (simp add: m_def)
  define x where "x = value_of_raw (events (role_tree c))"
  have get: "jget x k = map_option (\<lambda>v. value_of_raw (events v)) (map_of m k)" for k
    by (simp add: x_def tree jget_events [OF d])
  have num: "value_of_raw (events (JNum (num_of_int (rc_epoch c)))) = JNum (num_of_int (rc_epoch c))"
    using assms(4) by (simp add: num_of_int_def)
  have fields: "jget x ''v'' = Some (JNum (PosInt 1))" "jget x ''role'' = Some (JStr (rc_role c))"
    "jget x ''holder'' = Some (JStr h)" "jget x ''epoch'' = Some (JNum (num_of_int (rc_epoch c)))"
    "jget x ''reason'' = Some (JStr (rc_reason c))"
    using assms num by (simp_all add: get m_def opt_str_def)
  have "known_fields [''v'', ''role'', ''holder'', ''epoch'', ''reason''] x"
  proof -
    obtain n where n: "x = JObj n" by (simp add: x_def tree)
    have "fst p \<in> fst ` set m" if "p \<in> set n" for p
    proof -
      have "fst p \<in> fst ` set n" using that by simp
      then have "jget x (fst p) \<noteq> None" using bt_get_None [of n "fst p"] by (simp add: n)
      then show ?thesis using get [of "fst p"] by (metis map_of_eq_None_iff option.simps(8))
    qed
    moreover have "fst ` set m = {''v'', ''role'', ''holder'', ''epoch'', ''reason''}" by (simp add: m_def)
    ultimately show ?thesis by (auto simp: known_fields_def n list_all_iff)
  qed
  then have "role_claim_of x = Some c"
    using fields assms i64_of_num [of "rc_epoch c"]
    by (cases c) (simp add: role_claim_of_def u64_field_def str_field_def opt_str_field_def)
  moreover have "versioned_value S body = Inr x"
    using law fields by (simp add: versioned_value_def x_def [symmetric] jidx_def u64_of_def)
  ultimately show ?thesis using dec by (simp add: decode_role_def split: if_splits)
qed


definition attempt_fixed :: "serde \<Rightarrow> string \<Rightarrow> role_tables \<Rightarrow> role_input \<Rightarrow> bool" where
  "attempt_fixed S me t i \<longleftrightarrow> (\<forall>a. load_attempt t i = Inr (Some a) \<longrightarrow>
     ra_body a = sj_write S (role_tree (role_body i me)) \<and> ra_epoch a \<in> {None, Some (ri_expected_epoch i + 1)})"

definition attempts_kept :: "role_tables \<Rightarrow> role_tables \<Rightarrow> bool" where
  "attempts_kept t t' \<longleftrightarrow> (\<forall>j a. rt_attempts t j = Some a \<longrightarrow> (\<exists>e. rt_attempts t' j = Some (a\<lparr>ra_epoch := e\<rparr>)))"

lemma attempts_kept_refl: "attempts_kept t t"
proof -
  have "a = a\<lparr>ra_epoch := ra_epoch a\<rparr>" for a :: role_attempt by simp
  then show ?thesis unfolding attempts_kept_def by metis
qed

lemma attempts_kept_trans:
  assumes "attempts_kept t u" and "attempts_kept u v" shows "attempts_kept t v"
  unfolding attempts_kept_def
proof (intro allI impI)
  fix j a assume "rt_attempts t j = Some a"
  then obtain e where "rt_attempts u j = Some (a\<lparr>ra_epoch := e\<rparr>)" using assms(1) unfolding attempts_kept_def by blast
  then obtain e' where "rt_attempts v j = Some (a\<lparr>ra_epoch := e\<rparr>\<lparr>ra_epoch := e'\<rparr>)" using assms(2) unfolding attempts_kept_def by blast
  then show "\<exists>e. rt_attempts v j = Some (a\<lparr>ra_epoch := e\<rparr>)" by auto
qed

lemma finish_attempts: "rt_attempts (finish_role_take t a holder epoch v now) = (case rt_attempts t (ri_request_id (ra_input a)) of
    None \<Rightarrow> rt_attempts t | Some b \<Rightarrow> (rt_attempts t)(ri_request_id (ra_input a) \<mapsto> b\<lparr>ra_epoch := Some epoch\<rparr>))"
  by (simp add: finish_role_take_def write_cache_def put_role_def Let_def)

lemma finish_kept: "attempts_kept t (finish_role_take t a holder epoch v now)"
  using attempts_kept_refl [of t] by (auto simp: attempts_kept_def finish_attempts split: option.splits)

lemma finish_cached: "cached_role (finish_role_take t a holder epoch v now) (ri_role (ra_input a)) =
    Some \<lparr>cc_holder = Some holder, cc_epoch = epoch, cc_cut_id = None, cc_version = v, cc_read_at = now, cc_stale = False, cc_failed = False\<rparr>"
  by (simp add: finish_role_take_def cached_role_def write_cache_def put_role_def Let_def bt_get_insert)

lemma settle_exact:
  assumes serve: "\<And>q. cq_subject q = role_subject (ri_role i) \<Longrightarrow> serves S net hist q me"
    and law: "sj_read S (sj_write S (role_tree (role_body i me))) = Some (events (role_tree (role_body i me)))"
    and valid: "valid_take i" "ri_expected_epoch i \<le> I64_MAX"
    and load: "load_attempt t i = Inr (Some a)" and fixed: "attempt_fixed S me t i"
    and run: "settle_take S net w t a now = (w', t', r)"
  shows "attempt_fixed S me t' i \<and> attempts_kept t t'
    \<and> (\<forall>epoch. r = Inr epoch \<longrightarrow> epoch = ri_expected_epoch i + 1 \<and> (ra_epoch a = Some epoch
        \<or> (\<exists>v b. 0 < v \<and> v \<le> length (hist w') \<and> hist w' ! (v - 1) = (b, me) \<and> decode_role S (ri_role i) b = Inr (role_body i me)
          \<and> cached_role t' (ri_role i) = Some \<lparr>cc_holder = Some me, cc_epoch = epoch, cc_cut_id = None, cc_version = int v,
              cc_read_at = now, cc_stale = False, cc_failed = False\<rparr>)))"
proof -
  have i: "ra_input a = i" "rt_attempts t (ri_request_id i) = Some a" using load by (auto simp: load_attempt_Some)
  have body: "ra_body a = sj_write S (role_tree (role_body i me))" and ep: "ra_epoch a \<in> {None, Some (ri_expected_epoch i + 1)}"
    using fixed load by (auto simp: attempt_fixed_def)
  have range: "0 \<le> ri_expected_epoch i + 1" "ri_expected_epoch i + 1 \<le> I64_MAX"
    using valid by (auto simp: valid_take_def)
  have claim: "c = role_body i me" if "decode_role S (ri_role i) (ra_body a) = Inr c" for c
    using that by (rule decode_role_written [rotated 5]) (use law body range in \<open>simp_all add: role_body_def\<close>)
  show ?thesis
  proof (cases "\<exists>epoch. r = Inr epoch \<and> ra_epoch a = None")
    case False
    have "t' = t"
    proof (rule ccontr)
      assume "t' \<noteq> t"
      then show False using run False unfolding settle_take_def
        by (auto simp: Let_def split: sum.splits option.splits prod.splits cas_settlement.splits if_splits)
    qed
    moreover have "ra_epoch a = Some epoch" if "r = Inr epoch" for epoch
      using that run False by (auto simp: settle_take_def)
    ultimately show ?thesis using fixed attempts_kept_refl ep by auto
  next
    case True
    then obtain epoch where r: "r = Inr epoch" "ra_epoch a = None" by blast
    obtain c holder v where c: "decode_role S (ri_role i) (ra_body a) = Inr c" "rc_holder c = Some holder"
      and cas: "cas_settled S net w (take_request a) holder (decode_role S (ri_role i)) = (w', Inr (Landed v))"
      and t': "t' = finish_role_take t a holder (rc_epoch c) (int v) now" and e: "epoch = rc_epoch c"
      using settle_take_epoch [OF run [unfolded r(1)] r(2)] i(1) by metis
    have cb: "c = role_body i me" using c(1) by (rule claim)
    then have h: "holder = me" and epoch: "epoch = ri_expected_epoch i + 1" using c(2) e by (simp_all add: role_body_def)
    have "cq_subject (take_request a) = role_subject (ri_role i)" using i(1) by (simp add: take_request_def)
    from cas_settled_sound_aux [OF serve [OF this] cas [unfolded h]]
    obtain b where v: "0 < v" "v \<le> length (hist w')" "hist w' ! (v - 1) = (b, me)"
      and b: "b = cq_body (take_request a) \<or> is_ok (decode_role S (ri_role i) b) \<and> decode_role S (ri_role i) b = decode_role S (ri_role i) (cq_body (take_request a))"
      by auto
    have "cq_body (take_request a) = ra_body a" by (simp add: take_request_def)
    with b c(1) cb have dec: "decode_role S (ri_role i) b = Inr (role_body i me)" by auto
    have att: "rt_attempts t' (ri_request_id i) = Some (a\<lparr>ra_epoch := Some epoch\<rparr>)"
      using i e by (simp add: t' finish_attempts)
    then have "attempt_fixed S me t' i" using body epoch i(1) by (auto simp: attempt_fixed_def load_attempt_Some)
    moreover have "attempts_kept t t'" unfolding t' by (rule finish_kept)
    moreover have "cached_role t' (ri_role i) = Some \<lparr>cc_holder = Some me, cc_epoch = epoch, cc_cut_id = None, cc_version = int v,
        cc_read_at = now, cc_stale = False, cc_failed = False\<rparr>"
      using finish_cached [of t a] i(1) h e by (simp add: t')
    ultimately show ?thesis using r v dec epoch by blast
  qed
qed

text \<open>C15. A role is taken exactly as approved: for one request the body to write is fixed when it is
  approved and survives every later call, whatever happens to it; a take that returns answers the
  approved epoch plus one, and unless an earlier call had already recorded that answer, the
  service's history holds, under this machine's name, a body that claims the role at that epoch, and
  the cache shows it as of that version.\<close>

theorem role_take_exact:
  assumes serve: "\<And>q. cq_subject q = role_subject (ri_role i) \<Longrightarrow> serves S net hist q me"
    and law: "sj_read S (sj_write S (role_tree (role_body i me))) = Some (events (role_tree (role_body i me)))"
    and self: "ct_self (rt_base t) = Some me" and range: "ri_expected_epoch i \<le> I64_MAX" and fixed: "attempt_fixed S me t i"
    and run: "take_role S net w t i declined now = (w', t', r)"
  shows "attempt_fixed S me t' i \<and> attempts_kept t t'
    \<and> (\<forall>epoch. r = Inr epoch \<longrightarrow> epoch = ri_expected_epoch i + 1
        \<and> ((\<exists>a. load_attempt t i = Inr (Some a) \<and> ra_epoch a = Some epoch)
        \<or> (\<exists>v b. 0 < v \<and> v \<le> length (hist w') \<and> hist w' ! (v - 1) = (b, me) \<and> decode_role S (ri_role i) b = Inr (role_body i me)
          \<and> cached_role t' (ri_role i) = Some \<lparr>cc_holder = Some me, cc_epoch = epoch, cc_cut_id = None, cc_version = int v,
              cc_read_at = now, cc_stale = False, cc_failed = False\<rparr>)))"
proof (cases "valid_take i")
  case False
  with run have "t' = t \<and> (\<exists>e. r = Inl e)" by (auto simp: take_role_def)
  then show ?thesis using fixed attempts_kept_refl by auto
next
  case True
  show ?thesis
  proof (cases "load_attempt t i")
    case (Inl e)
    with True run have "t' = t \<and> (\<exists>e. r = Inl e)" by (auto simp: take_role_def)
    then show ?thesis using fixed attempts_kept_refl by auto
  next
    case (Inr x)
    show ?thesis
    proof (cases x)
      case (Some a)
      with True run Inr have "settle_take S net w t a now = (w', t', r)" by (simp add: take_role_def)
      from settle_exact [OF serve law True range Inr [unfolded Some] fixed this] Inr Some show ?thesis by blast
    next
      case None
      obtain w1 t1 y where ap: "approve_take S net w t i declined now = (w1, t1, y)" by (cases "approve_take S net w t i declined now")
      from approve_take_tables [OF ap Inr [unfolded None] self] show ?thesis
      proof (elim disjE exE conjE)
        fix e assume "t1 = t" "y = Inl e"
        with True run Inr None ap have "t' = t \<and> r = Inl e" by (auto simp: take_role_def)
        then show ?thesis using fixed attempts_kept_refl by auto
      next
        fix t0 a assume en: "ensure_role t (ri_role i) = Inr t0" and y: "y = Inr a" and a: "ra_input a = i"
          "ra_body a = sj_write S (role_tree (role_body i me))" "ra_epoch a = None"
          and t1: "rt_attempts t1 = (rt_attempts t0)(ri_request_id i \<mapsto> a)"
        have new: "rt_attempts t1 = (rt_attempts t)(ri_request_id i \<mapsto> a)" "rt_attempts t (ri_request_id i) = None"
          using t1 ensure_role_attempts [OF en] Inr None by (simp_all add: load_attempt_None)
        have load: "load_attempt t1 i = Inr (Some a)" using new a by (simp add: load_attempt_Some)
        then have fix1: "attempt_fixed S me t1 i" using a by (simp add: attempt_fixed_def)
        have run1: "settle_take S net w1 t1 a now = (w', t', r)" using True run Inr None ap y by (simp add: take_role_def)
        have "rt_attempts t1 j = Some b" if "rt_attempts t j = Some b" for j b using that new by auto
        with attempts_kept_refl [of t] have kept1: "attempts_kept t t1" unfolding attempts_kept_def by fastforce
        note s = settle_exact [OF serve law True range load fix1 run1]
        have "attempts_kept t t'" by (rule attempts_kept_trans [OF kept1 conjunct1 [OF conjunct2 [OF s]]])
        with s a(3) show ?thesis by simp
      qed
    qed
  qed
qed


section \<open>Witnesses\<close>

definition demo_input :: role_input where
  "demo_input = \<lparr>ri_role = ''x'', ri_expected_epoch = 0, ri_request_id = replicate 32 CHR ''a'', ri_reason = ''why''\<rparr>"

definition role_serde :: serde where
  "role_serde = \<lparr>sj_write = (\<lambda>_. ''b''), sj_read = (\<lambda>s. Some (events (
     if s = ''a'' then JObj [(''result'', wire_of_reply absent_reply)]
     else if s = ''v'' then JObj [(''result'', JObj [(''version'', JNum (PosInt 1))])]
     else role_tree (role_body demo_input demo_author))))\<rparr>"

definition written_body :: "json \<Rightarrow> string" where
  "written_body p = (case jget p ''body'' of Some (JStr s) \<Rightarrow> hex_pairs s | _ \<Rightarrow> [])"

definition role_net :: "(string \<times> string) list net" where
  "role_net w m p =
    (if m = CAS \<and> w = [] then ([(written_body p, demo_author)], Answered ''v'')
     else if m = READ \<and> w = [] then (w, Answered ''a'') else (w, TimedOut))"

definition role_start :: role_tables where
  "role_start = \<lparr>rt_base = \<lparr>ct_claims = Map.empty, ct_self = Some demo_author, ct_names = Map.empty, ct_sharing = Some ''enabled''\<rparr>,
     rt_roles = [], rt_attempts = Map.empty\<rparr>"

lemma written_body_cas [simp]: "written_body (cas_params q) = cq_body q"
  by (simp add: written_body_def cas_params_def bt_get_def hex_pairs_hex)

lemma role_absent: "client_read role_serde role_net [] (role_subject ''x'') = ([], Inr absent_reply)"
  by code_simp

lemma role_net_serves:
  assumes "cq_subject q = role_subject (ri_role demo_input)"
  shows "serves role_serde role_net id q demo_author"
proof -
  have sub: "cq_subject q = role_subject ''x''" using assms by (simp add: demo_input_def)
  have "client_read role_serde role_net w (cq_subject q) = (w', Inr r) \<Longrightarrow> w = []" for w w' r
    by (auto simp: client_read_def client_call_def role_net_def READ_def CAS_def split: sum.splits if_splits)
  then have eq: "client_read role_serde role_net w (cq_subject q) = (w', Inr r) \<Longrightarrow> w' = [] \<and> r = absent_reply" for w w' r
    using role_absent sub by fastforce
  have read: "client_read role_serde role_net w (cq_subject q) = (w', Inr r) \<and> \<not> rr_stale r \<longrightarrow>
      (if rr_absent r then id w' = []
       else id w' \<noteq> [] \<and> rr_version r = length (id w')
         \<and> (\<exists>b a. rr_body r = Some b \<and> rr_author r = Some a \<and> last (id w') = (b, a)))" for w w' r
    using eq [of w w' r] by (auto simp: absent_reply_def)
  have cas: "client_call role_serde role_net w CAS (cas_params q) = (w', Inr reply) \<and> u64_field reply ''version'' = Some v \<and> 0 < v
      \<longrightarrow> v \<le> length (id w') \<and> id w' ! (v - 1) = (cq_body q, demo_author)" for w w' reply v
    by (auto simp: client_call_def role_net_def READ_def CAS_def role_serde_def bt_get_def u64_field_def split: if_splits)
  have grow: "\<exists>t. id (fst (role_net w m p)) = id w @ t" for w m p
    by (auto simp: role_net_def)
  show ?thesis unfolding serves_def using read cas grow by blast
qed

lemma role_take_run: "snd (snd (take_role role_serde role_net [] role_start demo_input None 7)) = Inr 1"
  by code_simp

lemma role_take_exact_witness:
  "\<exists>w' t' v b. take_role role_serde role_net [] role_start demo_input None 7 = (w', t', Inr 1)
     \<and> w' ! (v - 1) = (b, demo_author) \<and> decode_role role_serde ''x'' b = Inr (role_body demo_input demo_author)"
proof -
  obtain w' t' where run: "take_role role_serde role_net [] role_start demo_input None 7 = (w', t', Inr 1)"
    using role_take_run by (metis prod.collapse)
  have law: "sj_read role_serde (sj_write role_serde (role_tree (role_body demo_input demo_author)))
      = Some (events (role_tree (role_body demo_input demo_author)))" by code_simp
  have t: "ct_self (rt_base role_start) = Some demo_author" "ri_expected_epoch demo_input \<le> I64_MAX"
      "attempt_fixed role_serde demo_author role_start demo_input" "load_attempt role_start demo_input = Inr None"
    by (simp_all add: role_start_def demo_input_def I64_MAX_def attempt_fixed_def load_attempt_def)
  from role_take_exact [OF role_net_serves law t(1,2,3) run] t(4) obtain v b where
    "id w' ! (v - 1) = (b, demo_author)" "decode_role role_serde (ri_role demo_input) b = Inr (role_body demo_input demo_author)"
    by auto
  then show ?thesis using run by (intro exI [of _ w'] exI [of _ t'] exI [of _ v] exI [of _ b]) (simp add: demo_input_def)
qed

text \<open>C40. A take that is retried after its record was superseded goes backwards: when the service answers
  the retry with the version at which it landed before, the answer replaces a newer observation the
  cache already has, and the role reads as fresh and held here again.\<close>

theorem settled_retry_regresses:
  assumes "settle_take S net w t a now = (w', t', Inr epoch)" and "ra_epoch a = None"
    and "client_cas S net w (take_request a) = (w1, Inr v)" and "cached_role t (ri_role (ra_input a)) = Some c"
    and "int v < cc_version c"
  shows "\<exists>c' r. cached_role t' (ri_role (ra_input a)) = Some c' \<and> cc_version c' < cc_version c \<and> \<not> cc_stale c' \<and> \<not> cc_failed c'
    \<and> read_role t' (ri_role (ra_input a)) = Inr r \<and> \<not> rd_stale r \<and> rd_epoch r = epoch
    \<and> rd_held_here r = (1 \<le> epoch \<and> cc_holder c' = ct_self (rt_base t))"
proof -
  obtain claim holder u where "decode_role S (ri_role (ra_input a)) (ra_body a) = Inr claim" "rc_holder claim = Some holder"
      and cas: "cas_settled S net w (take_request a) holder (decode_role S (ri_role (ra_input a))) = (w', Inr (Landed u))"
      and t': "t' = finish_role_take t a holder (rc_epoch claim) (int u) now" and e: "epoch = rc_epoch claim" and "int u \<le> I64_MAX"
    by (rule settle_take_epoch [OF assms(1,2)])
  have u: "u = v" using cas assms(3) by (simp add: cas_settled_def)
  note c' = finish_cached [of t a holder "rc_epoch claim" "int u" now, folded t']
  have row: "bt_get (rt_roles t') (ri_role (ra_input a)) \<noteq> None"
    using c' by (auto simp: cached_role_def split: option.splits)
  have base: "rt_base t' = rt_base t"
    by (simp add: t' finish_role_take_def write_cache_def put_role_def Let_def)
  show ?thesis using c' row base u assms(5) e by (auto simp: read_role_def Let_def)
qed

definition taken_attempt :: role_attempt where
  "taken_attempt = \<lparr>ra_input = demo_input, ra_expected_version = 0, ra_body = ''b'', ra_epoch = None\<rparr>"

text \<open>The landed write was not recorded; another machine took the role at version 2 and a refresh saw it.\<close>

definition superseded :: role_tables where
  "superseded = role_start\<lparr>rt_roles := [(''x'', \<lparr>rl_holder = Some (replicate 32 CHR ''b''), rl_epoch = 2, rl_source = Some ''cloud'',
     rl_stale = False, rl_version = 2, rl_read_at = Some 5, rl_failed = False\<rparr>)], rt_attempts := [replicate 32 CHR ''a'' \<mapsto> taken_attempt]\<rparr>"

definition receipt_net :: "unit net" where
  "receipt_net w m p = (w, if m = CAS then Answered ''v'' else TimedOut)"

lemma receipt_runs: "snd (snd (settle_take role_serde receipt_net () superseded taken_attempt 9)) = Inr 1"
  "snd (client_cas role_serde receipt_net () (take_request taken_attempt)) = Inr 1"
  by code_simp+

lemma settled_retry_regresses_witness:
  "\<exists>t' c' r. settle_take role_serde receipt_net () superseded taken_attempt 9 = ((), t', Inr 1) \<and> cached_role t' ''x'' = Some c'
     \<and> cc_version c' < 2 \<and> read_role t' ''x'' = Inr r \<and> rd_epoch r = 1"
proof -
  obtain t' where run: "settle_take role_serde receipt_net () superseded taken_attempt 9 = ((), t', Inr 1)"
    using receipt_runs(1) by (metis (full_types) prod.collapse unit.exhaust)
  have cas: "client_cas role_serde receipt_net () (take_request taken_attempt) = ((), Inr 1)"
    using receipt_runs(2) by (metis (full_types) prod.collapse unit.exhaust)
  obtain c where c: "cached_role superseded (ri_role (ra_input taken_attempt)) = Some c" "cc_version c = 2"
    by (auto simp: cached_role_def superseded_def taken_attempt_def demo_input_def bt_get_def)
  have n: "ra_epoch taken_attempt = None" "ri_role (ra_input taken_attempt) = ''x''" by (simp_all add: taken_attempt_def demo_input_def)
  from settled_retry_regresses [OF run n(1) cas c(1)] c(2) run n(2) show ?thesis by auto
qed

section \<open>The set of roles stays bounded\<close>

definition roles_inv :: "role_tables \<Rightarrow> bool" where
  "roles_inv t \<longleftrightarrow> bt_inv (rt_roles t) \<and> length (rt_roles t) \<le> 256 \<and> list_all valid_role (role_subjects t)
    \<and> (\<forall>i a. rt_attempts t i = Some a \<longrightarrow> ri_role (ra_input a) \<in> set (role_subjects t))"

lemma length_insert: "bt_inv m \<Longrightarrow> length (bt_insert k v m) = (if k \<in> fst ` set m then length m else Suc (length m))"
proof -
  assume m: "bt_inv m"
  have card: "length n = card (fst ` set n)" if "bt_inv n" for n :: "('k::linorder \<times> 'v) list"
    using distinct_card [OF bt_inv_distinct [OF that]] by simp
  show ?thesis using card [OF m] card [OF bt_inv_insert [OF m]] by (simp add: set_keys_insert card_insert_if)
qed

lemma put_role_inv:
  assumes "roles_inv t" and "role \<in> set (role_subjects t) \<or> valid_role role \<and> length (rt_roles t) < 256"
  shows "roles_inv (put_role role row t)" and "set (role_subjects t) \<subseteq> set (role_subjects (put_role role row t))"
    and "role \<in> set (role_subjects (put_role role row t))" and "rt_attempts (put_role role row t) = rt_attempts t"
  using assms
  by (auto simp: roles_inv_def put_role_def role_subjects_def set_keys_insert length_insert bt_inv_insert list_all_iff)


lemma ensure_role_inv:
  assumes "roles_inv t" and "ensure_role t role = Inr t1"
  shows "roles_inv t1" and "role \<in> set (role_subjects t1)" and "set (role_subjects t) \<subseteq> set (role_subjects t1)"
proof -
  have "roles_inv t1 \<and> role \<in> set (role_subjects t1) \<and> set (role_subjects t) \<subseteq> set (role_subjects t1)"
  proof (cases "bt_has (rt_roles t) role")
    case True
    then show ?thesis using assms by (auto simp: ensure_role_def role_subjects_def split: if_splits)
  next
    case False
    then have t1: "t1 = put_role role fresh_role t" and ok: "role \<in> set (role_subjects t) \<or> valid_role role \<and> length (rt_roles t) < 256"
      using assms(2) by (auto simp: ensure_role_def split: if_splits)
    show ?thesis unfolding t1 using put_role_inv [OF assms(1) ok] by blast
  qed
  then show "roles_inv t1" "role \<in> set (role_subjects t1)" "set (role_subjects t) \<subseteq> set (role_subjects t1)" by blast+
qed

lemma write_cache_inv:
  assumes "roles_inv t" and "role \<in> set (role_subjects t)"
  shows "roles_inv (write_cache t role c source)" and "set (role_subjects t) \<subseteq> set (role_subjects (write_cache t role c source))"
  unfolding write_cache_def using put_role_inv [OF assms(1)] assms(2) by blast+

lemma roles_inv_base: "roles_inv (t\<lparr>rt_base := b\<rparr>) = roles_inv t"
  by (simp add: roles_inv_def role_subjects_def)

lemma cache_role_inv:
  assumes "roles_inv t" and "role \<in> set (role_subjects t)" and "cache_role t role x now = (t', k)"
  shows "roles_inv t' \<and> set (role_subjects t) \<subseteq> set (role_subjects t')"
proof -
  obtain t1 k1 where l: "learn_role_author t x = (t1, k1)" by (cases "learn_role_author t x")
  have t1: "roles_inv t1" "role_subjects t1 = role_subjects t"
    using l assms(1) by (auto simp: learn_role_author_def roles_inv_base role_subjects_def split: option.splits prod.splits)
  have role: "role \<in> set (role_subjects t1)" using assms(2) t1(2) by simp
  show ?thesis
  proof (cases "decide (cached_role t role) x now")
    case None
    then show ?thesis using assms(3) t1 l by (simp add: cache_role_def Let_def)
  next
    case (Some c)
    then obtain source where "t' = write_cache t1 role c source"
      using assms(3) l by (auto simp: cache_role_def Let_def)
    then show ?thesis using write_cache_inv [OF t1(1) role] t1(2) by simp
  qed
qed

lemma cache_roles_inv:
  "roles_inv t \<Longrightarrow> fst ` set page \<subseteq> set (role_subjects t) \<Longrightarrow> roles_inv (fst (cache_roles t page now))"
proof (induction page arbitrary: t)
  case (Cons p page)
  obtain role x where p: "p = (role, x)" by (cases p)
  obtain t1 k where s: "cache_role t role x now = (t1, k)" by (cases "cache_role t role x now")
  have "roles_inv t1 \<and> set (role_subjects t) \<subseteq> set (role_subjects t1)"
    using cache_role_inv [OF Cons.prems(1) _ s] Cons.prems(2) p by auto
  with Cons.IH [of t1] Cons.prems(2) p s show ?case by (auto split: prod.splits)
qed simp

lemma roles_inv_subjects: "roles_inv t \<longleftrightarrow> sorted_wrt (<) (role_subjects t) \<and> length (role_subjects t) \<le> 256
    \<and> list_all valid_role (role_subjects t) \<and> (\<forall>i a. rt_attempts t i = Some a \<longrightarrow> ri_role (ra_input a) \<in> set (role_subjects t))"
  by (simp add: roles_inv_def role_subjects_def bt_inv_def bt_keys_def)

lemma stale_roles_inv: "roles_inv t \<Longrightarrow> roles_inv (stale_roles t)"
proof -
  have "role_subjects (stale_roles t) = role_subjects t" by (auto simp: stale_roles_def role_subjects_def)
  moreover have "rt_attempts (stale_roles t) = rt_attempts t" by (simp add: stale_roles_def)
  ultimately show "roles_inv t \<Longrightarrow> roles_inv (stale_roles t)" by (simp add: roles_inv_subjects)
qed

lemma role_read_inv: "roles_inv t \<Longrightarrow> roles_inv (fst (role_read t foreign role))"
  using ensure_role_inv(1) [of t role] by (auto simp: role_read_def split: sum.splits)

lemma finish_inv:
  assumes "roles_inv t" and "rt_attempts t (ri_request_id (ra_input a)) = Some a"
  shows "roles_inv (finish_role_take t a holder epoch v now)"
proof -
  have role: "ri_role (ra_input a) \<in> set (role_subjects t)" using assms by (auto simp: roles_inv_def)
  let ?t = "t\<lparr>rt_attempts := (rt_attempts t)(ri_request_id (ra_input a) \<mapsto> a\<lparr>ra_epoch := Some epoch\<rparr>)\<rparr>"
  have "roles_inv ?t" "ri_role (ra_input a) \<in> set (role_subjects ?t)"
    using assms role by (auto simp: roles_inv_def role_subjects_def)
  from write_cache_inv(1) [OF this] assms(2) show ?thesis by (simp add: finish_role_take_def Let_def)
qed

lemma settle_take_inv:
  assumes "roles_inv t" and "rt_attempts t (ri_request_id (ra_input a)) = Some a" and "settle_take S net w t a now = (w', t', r)"
  shows "roles_inv t'"
  using settle_take_tables [OF assms(3)] finish_inv [OF assms(1,2)] assms(1) by blast

lemma prepare_inv:
  assumes "roles_inv t" and "prepare_role_take t a self now = (t', Inr b)" and "ra_epoch a = None"
  shows "roles_inv t' \<and> rt_attempts t' (ri_request_id (ra_input b)) = Some b"
proof (cases "load_attempt t (ra_input a)")
  case (Inl e)
  then show ?thesis using assms(2) by (simp add: prepare_role_take_def)
next
  case (Inr x)
  show ?thesis
  proof (cases x)
    case (Some c)
    then show ?thesis using assms Inr by (auto simp: prepare_role_take_def load_attempt_Some)
  next
    case None
    then obtain t1 where t1: "ensure_role t (ri_role (ra_input a)) = Inr t1" and b: "b = a"
      and t': "t' = t1\<lparr>rt_base := fst (learn_self_author (rt_base t1) self),
            rt_attempts := (rt_attempts t1)(ri_request_id (ra_input a) \<mapsto> a\<lparr>ra_epoch := None\<rparr>)\<rparr>"
      using assms(2) Inr by (auto simp: prepare_role_take_def split: if_splits sum.splits)
    have "a\<lparr>ra_epoch := None\<rparr> = a" using assms(3) by (cases a) simp
    with ensure_role_inv [OF assms(1) t1] show ?thesis unfolding t' b
      by (auto simp: roles_inv_def role_subjects_def)
  qed
qed


lemma prepare_Inl: "prepare_role_take t a self now = (t', Inl e) \<Longrightarrow> t' = t"
  by (auto simp: prepare_role_take_def split: sum.splits option.splits if_splits)

lemma approve_inv:
  assumes "roles_inv t" and "approve_take S net w t i declined now = (w1, t1, y)"
  shows "roles_inv t1 \<and> (\<forall>a. y = Inr a \<longrightarrow> rt_attempts t1 (ri_request_id (ra_input a)) = Some a)"
proof (cases "t1 = t \<and> (\<exists>e. y = Inl e)")
  case True
  then show ?thesis using assms(1) by auto
next
  case False
  then obtain reply a where n: "new_attempt S t i reply = Inr a" and p: "prepare_role_take t a (rr_self_author reply) now = (t1, y)"
    using assms(2) unfolding approve_take_def by (auto split: option.splits prod.splits sum.splits) metis
  have "ra_epoch a = None" using n unfolding new_attempt_def bind_res_eq_Inr if_Inl_eq_Inr by auto
  with prepare_inv [OF assms(1)] p assms(1) show ?thesis by (cases y) (auto dest: prepare_Inl)
qed

lemma take_role_inv:
  assumes "roles_inv t" shows "roles_inv (fst (snd (take_role S net w t i declined now)))"
proof (cases "valid_take i")
  case True
  show ?thesis
  proof (cases "load_attempt t i")
    case (Inr x)
    show ?thesis
    proof (cases x)
      case (Some a)
      obtain w' t' r where st: "settle_take S net w t a now = (w', t', r)" by (cases "settle_take S net w t a now")
      have "rt_attempts t (ri_request_id (ra_input a)) = Some a" using Inr Some by (auto simp: load_attempt_Some)
      from settle_take_inv [OF assms this st] show ?thesis using True Inr Some st by (simp add: take_role_def)
    next
      case None
      obtain w1 t1 y where ap: "approve_take S net w t i declined now = (w1, t1, y)" by (cases "approve_take S net w t i declined now")
      note inv = approve_inv [OF assms ap]
      show ?thesis
      proof (cases y)
        case (Inr a)
        obtain w' t' r where st: "settle_take S net w1 t1 a now = (w', t', r)" by (cases "settle_take S net w1 t1 a now")
        from settle_take_inv [of t1 a, OF _ _ st] inv Inr show ?thesis
          using True \<open>load_attempt t i = Inr x\<close> None ap st by (simp add: take_role_def)
      qed (use True Inr None ap inv in \<open>simp add: take_role_def\<close>)
    qed
  qed (use True assms in \<open>simp add: take_role_def\<close>)
qed (use assms in \<open>simp add: take_role_def\<close>)

text \<open>C37. The set of roles this machine follows stays bounded and well formed: reading, fencing, refreshing,
  staling and taking roles keep at most 256 rows, in order and with valid names, and every approved
  attempt is for a role in the set.\<close>

theorem roles_bounded:
  assumes "roles_inv t" and "fst ` set page \<subseteq> set (role_subjects t)"
  shows "roles_inv (fst (role_read t foreign role)) \<and> roles_inv (fst (role_fence t foreign role)) \<and> roles_inv (stale_roles t)
    \<and> roles_inv (fst (cache_roles t page now)) \<and> roles_inv (fst (snd (take_role S net w t i declined now)))"
proof -
  have "fst (role_fence t foreign role) = fst (role_read t foreign role)" by (simp add: role_fence_def case_prod_unfold Let_def)
  then show ?thesis
    using role_read_inv [OF assms(1), of foreign role] stale_roles_inv [OF assms(1)] cache_roles_inv [OF assms, of now]
      take_role_inv [OF assms(1), of S net w i declined now]
    by simp
qed

lemma roles_bounded_witness:
  "roles_inv (fst (snd (take_role role_serde role_net [] superseded demo_input None 7)))"
proof -
  have "roles_inv superseded"
    by (simp add: roles_inv_def superseded_def role_subjects_def valid_role_def role_byte_def is_lower_def taken_attempt_def demo_input_def bt_inv_def bt_keys_def)
  from roles_bounded [where page = "[]" and t = superseded and S = role_serde and net = role_net and w = "[]" and i = demo_input
      and declined = None and now = 7, OF this] show ?thesis by simp
qed

end
