(* ===== verification/Node.thy ===== *)
theory Node
  imports Claims MoveDriver
begin

text \<open>
  The machine's own tables that moves and sessions share, and the store of move checkpoints
  (\<open>crates/entorhinal-core/src/move_store.rs\<close>). A table is a list of rows; an insertion or update that
  would break a unique index fails with \<open>storage_error\<close> and leaves the tables as they are, as the
  transaction it runs in does. A refusal is its code and detail, without the message. The digest of
  an agent's pins is kept as a column the catalog code fills.
\<close>

section \<open>Rows\<close>

record agent_move =
  am_cut_id :: string
  am_agent_id :: string
  am_side :: move_side
  am_peer :: string
  am_step :: move_step
  am_plan :: json
  am_request_body :: "json option"
  am_record_version :: int
  am_claim_version :: "int option"
  am_claim_take_body :: "json option"
  am_claim_take_version :: "int option"
  am_claim_landed_version :: "int option"
  am_seal_sent :: bool
  am_abort_requested :: "json option"
  am_hold :: "json option"
  am_cut_accept :: "json option"
  am_reason :: "string option"
  am_detail :: "json option"
  am_request_key :: "string option"
  am_attempts :: int
  am_activated_at :: "int option"
  am_created_at :: int
  am_updated_at :: int

record session_row =
  sr_agent_id :: string
  sr_ref_kind :: string
  sr_ref :: string
  sr_harness :: "string option"
  sr_session_id :: "string option"
  sr_project_root :: string
  sr_registered_by :: string
  sr_registered_at :: int
  sr_runner :: "string option"
  sr_ended_at :: "int option"
  sr_held_on :: "string option"

record net_entry =
  ne_network :: string
  ne_since :: int

type_synonym session_key = "string \<times> string"

record node =
  nd_cut_over :: bool
  nd_agents :: "string \<rightharpoonup> json option"
  nd_claims :: claim_tables
  nd_moves :: "agent_move list"
  nd_sessions :: "session_row list"
  nd_history :: "(session_key \<times> net_entry) list"
  nd_pin_digest :: "string \<Rightarrow> string option"
  nd_origin :: "string option"

record mutation_error =
  me_code :: string
  me_detail :: "json option"

definition refuse :: "string \<Rightarrow> json option \<Rightarrow> mutation_error" where
  "refuse code detail = \<lparr>me_code = code, me_detail = detail\<rparr>"

definition storage_error :: mutation_error where
  "storage_error = refuse ''storage_error'' None"

definition step_str :: "move_step \<Rightarrow> string" where
  "step_str st = (case st of StPreparing \<Rightarrow> ''preparing'' | StExported \<Rightarrow> ''exported'' | StSealed \<Rightarrow> ''sealed''
     | StPublished \<Rightarrow> ''published'' | StReleasing \<Rightarrow> ''releasing'' | StReleased \<Rightarrow> ''released'' | StAborted \<Rightarrow> ''aborted''
     | StPickedUp \<Rightarrow> ''picked_up'' | StImported \<Rightarrow> ''imported'' | StStaged \<Rightarrow> ''staged'' | StClaimed \<Rightarrow> ''claimed''
     | StActivating \<Rightarrow> ''activating'' | StActivated \<Rightarrow> ''activated'' | StDone \<Rightarrow> ''done'' | StTakenOver \<Rightarrow> ''taken_over'')"

definition move_detail :: "agent_move \<Rightarrow> json" where
  "move_detail m = JObj [(''cut_id'', JStr (am_cut_id m)), (''side'', JStr (side_str (am_side m))), (''step'', JStr (step_str (am_step m)))]"

section \<open>Tables with unique indexes\<close>

text \<open>
  A table has a primary key and unique indexes; \<open>clash\<close> says of two rows that some index forbids them
  side by side. What a statement may do to such a table is the same for moves and for sessions.
\<close>

definition pairwise_free :: "('r \<Rightarrow> 'r \<Rightarrow> bool) \<Rightarrow> 'r list \<Rightarrow> bool" where
  "pairwise_free clash rows \<longleftrightarrow> sorted_wrt (\<lambda>a b. \<not> clash a b) rows"

definition set_row :: "('r \<Rightarrow> 'k) \<Rightarrow> 'r \<Rightarrow> 'r list \<Rightarrow> 'r list" where
  "set_row key m rows = map (\<lambda>x. if key x = key m then m else x) rows"

locale unique_table =
  fixes clash :: "'r \<Rightarrow> 'r \<Rightarrow> bool" and key :: "'r \<Rightarrow> 'k"
  assumes clash_sym: "clash a b \<Longrightarrow> clash b a" and same_key: "key a = key b \<Longrightarrow> clash a b"
begin

lemma free_iff: "pairwise_free clash rows \<longleftrightarrow>
    distinct (map key rows) \<and> (\<forall>a\<in>set rows. \<forall>b\<in>set rows. key a \<noteq> key b \<longrightarrow> \<not> clash a b)"
proof (induction rows)
  case (Cons x xs)
  have "pairwise_free clash (x # xs) \<longleftrightarrow> (\<forall>y\<in>set xs. \<not> clash x y) \<and> pairwise_free clash xs"
    by (auto simp: pairwise_free_def)
  moreover have "(\<forall>y\<in>set xs. \<not> clash x y) \<longleftrightarrow>
      key x \<notin> key ` set xs \<and> (\<forall>y\<in>set xs. key x \<noteq> key y \<longrightarrow> \<not> clash x y \<and> \<not> clash y x)"
    by (auto intro: same_key clash_sym dest: clash_sym simp: image_iff)
  ultimately show ?case using Cons by auto
qed (simp add: pairwise_free_def)

lemma free_pair: "pairwise_free clash rows \<Longrightarrow> a \<in> set rows \<Longrightarrow> b \<in> set rows \<Longrightarrow> key a \<noteq> key b \<Longrightarrow> \<not> clash a b"
  by (simp add: free_iff)

lemma find_key: "pairwise_free clash rows \<Longrightarrow> x \<in> set rows \<Longrightarrow> find (\<lambda>r. key r = key x) rows = Some x"
  by (induction rows) (auto simp: pairwise_free_def intro: same_key)

lemma find_unique:
  assumes "pairwise_free clash rows" "x \<in> set rows" "P x" "\<And>y. y \<in> set rows \<Longrightarrow> P y \<Longrightarrow> clash x y"
  shows "find P rows = Some x"
proof -
  obtain y where y: "find P rows = Some y" using assms(2,3) by (cases "find P rows") (auto simp: find_None_iff)
  then have "y \<in> set rows" "P y" by (auto simp: find_Some_iff)
  then have "key x = key y" using assms free_pair by blast
  then have "y = x" using assms(1,2) \<open>y \<in> set rows\<close> by (auto simp: free_iff distinct_map inj_on_def)
  then show ?thesis using y by simp
qed

lemma free_append: "pairwise_free clash (rows @ [m]) \<longleftrightarrow> pairwise_free clash rows \<and> (\<forall>x\<in>set rows. \<not> clash m x)"
  using clash_sym by (auto simp: pairwise_free_def sorted_wrt_append)

lemma free_set_row:
  assumes "pairwise_free clash rows" "\<And>x. x \<in> set rows \<Longrightarrow> key x \<noteq> key m \<Longrightarrow> \<not> clash m x"
  shows "pairwise_free clash (set_row key m rows)"
proof -
  have "map key (set_row key m rows) = map key rows" by (auto simp: set_row_def)
  then have "distinct (map key (set_row key m rows))" using assms(1) by (simp add: free_iff)
  moreover have "\<not> clash a b" if ab: "a \<in> set (set_row key m rows)" "b \<in> set (set_row key m rows)" "key a \<noteq> key b" for a b
  proof -
    have *: "x = m \<or> x \<in> set rows \<and> key x \<noteq> key m" if "x \<in> set (set_row key m rows)" for x
      using that by (auto simp: set_row_def split: if_splits)
    show ?thesis using *[OF ab(1)] *[OF ab(2)] ab(3) assms free_pair clash_sym by blast
  qed
  ultimately show ?thesis by (simp add: free_iff)
qed

lemma free_subset: "pairwise_free clash rows \<Longrightarrow> pairwise_free clash (filter P rows)"
  by (simp add: pairwise_free_def sorted_wrt_filter)

end

section \<open>The table of moves\<close>

definition is_open :: "agent_move \<Rightarrow> bool" where
  "is_open m \<longleftrightarrow> \<not> is_terminal (am_step m)"

definition open_moves :: "node \<Rightarrow> agent_move list" where
  "open_moves n = sort_key am_cut_id (filter is_open (nd_moves n))"

definition load_move :: "node \<Rightarrow> string \<Rightarrow> agent_move option" where
  "load_move n cut_id = find (\<lambda>m. am_cut_id m = cut_id) (nd_moves n)"

text \<open>The unique indexes: the cut, the request key, and the agent of an open move.\<close>

definition collides :: "agent_move \<Rightarrow> agent_move \<Rightarrow> bool" where
  "collides a b \<longleftrightarrow> am_cut_id a = am_cut_id b \<or> (am_request_key a \<noteq> None \<and> am_request_key a = am_request_key b)
     \<or> (is_open a \<and> is_open b \<and> am_agent_id a = am_agent_id b)"

definition insert_move :: "node \<Rightarrow> agent_move \<Rightarrow> node option" where
  "insert_move n m = (if list_ex (collides m) (nd_moves n) then None else Some (n\<lparr>nd_moves := nd_moves n @ [m]\<rparr>))"

definition update_move :: "node \<Rightarrow> agent_move \<Rightarrow> (node \<times> bool) option" where
  "update_move n m =
    (if load_move n (am_cut_id m) = None then Some (n, False)
     else if list_ex (\<lambda>x. am_cut_id x \<noteq> am_cut_id m \<and> collides m x) (nd_moves n) then None
     else Some (n\<lparr>nd_moves := set_row am_cut_id m (nd_moves n)\<rparr>, True))"

definition bound_refs :: "node \<Rightarrow> string \<Rightarrow> move_ref list" where
  "bound_refs n agent = sort (map (\<lambda>r. MoveRef (sr_ref_kind r) (sr_ref r))
     (filter (\<lambda>r. sr_agent_id r = agent \<and> sr_ended_at r = None) (nd_sessions n)))"

section \<open>Admission\<close>

definition check_slot :: "node \<Rightarrow> agent_move \<Rightarrow> mutation_error + unit" where
  "check_slot n m =
    (case find (\<lambda>x. am_agent_id x = am_agent_id m) (open_moves n) of
       Some x \<Rightarrow> Inl (refuse ''move_in_progress'' (Some (move_detail x)))
     | None \<Rightarrow> if 4 \<le> length (open_moves n) then Inl (refuse ''move_cap'' None) else Inr ())"

definition place_move :: "node \<Rightarrow> agent_move \<Rightarrow> node \<times> (mutation_error + agent_move)" where
  "place_move n m = (case insert_move n m of None \<Rightarrow> (n, Inl storage_error) | Some n' \<Rightarrow> (n', Inr m))"

definition check_source_move :: "node \<Rightarrow> agent_move \<Rightarrow> move_ref list \<Rightarrow> mutation_error + unit" where
  "check_source_move n m refs =
    (if bound_refs n (am_agent_id m) \<noteq> refs then Inl (refuse ''agent_busy'' None)
     else if 256 < length refs then
       Inl (refuse ''live_ref_cap'' (Some (JObj [(''cap'', JNum (PosInt 256)), (''live_refs'', JNum (PosInt (length refs)))])))
     else if as_str (jidx (am_plan m) ''pin_digest'') \<noteq> nd_pin_digest n (am_agent_id m) then Inl (refuse ''agent_busy'' None)
     else check_slot n m)"

definition admit_agent_move :: "node \<Rightarrow> agent_move \<Rightarrow> move_ref list \<Rightarrow> node \<times> (mutation_error + agent_move)" where
  "admit_agent_move n m refs =
    (if am_side m \<noteq> Source \<or> am_step m \<noteq> StPreparing \<or> am_request_key m = None \<or> am_request_body m = None
     then (n, Inl (refuse ''invalid_request'' None))
     else (case find (\<lambda>x. am_request_key x = am_request_key m) (nd_moves n) of
       Some x \<Rightarrow> (n, if am_request_body x = am_request_body m then Inr x else Inl (refuse ''request_key_reused'' None))
     | None \<Rightarrow> (case check_source_move n m refs of Inl e \<Rightarrow> (n, Inl e) | Inr _ \<Rightarrow> place_move n m)))"

definition admit_received_move :: "node \<Rightarrow> agent_move \<Rightarrow> node \<times> (mutation_error + agent_move)" where
  "admit_received_move n m =
    (if am_side m \<noteq> Receiver \<or> am_step m \<notin> {StPickedUp, StAborted} then (n, Inl (refuse ''invalid_request'' None))
     else (case load_move n (am_cut_id m) of
       Some x \<Rightarrow> (n, Inr x)
     | None \<Rightarrow> (case check_slot n m of Inl e \<Rightarrow> (n, Inl e) | Inr _ \<Rightarrow> place_move n m)))"

section \<open>Checkpoints\<close>

definition abort_stuck :: "agent_move \<Rightarrow> bool" where
  "abort_stuck m \<longleftrightarrow> am_abort_requested m \<noteq> None
     \<and> some_and (\<lambda>h. jidx h ''state'' = JStr ''stuck'' \<and> jidx h ''op'' = JStr ''agent_data.abort'') (am_hold m)"

definition pending_release :: json where
  "pending_release = JObj [(''attempts'', JNum (PosInt 0)), (''retry_at_ms'', JNum (PosInt 0)), (''state'', JStr ''pending'')]"

definition next_checkpoint :: "agent_move \<Rightarrow> agent_move \<Rightarrow> bool \<Rightarrow> agent_move" where
  "next_checkpoint current m clear =
    (let a = m\<lparr>am_abort_requested := (if clear then None
           else if am_abort_requested current \<noteq> None then am_abort_requested current else am_abort_requested m)\<rparr>;
         b = a\<lparr>am_cut_accept := am_cut_accept current\<rparr> in
     case jget (am_plan current) ''_cut_release'' of
       Some rel \<Rightarrow> b\<lparr>am_plan := jset (am_plan b) ''_cut_release'' rel\<rparr>
     | None \<Rightarrow> if am_side b = Source \<and> am_step b = StAborted \<and> am_seal_sent b
           \<and> jidx (jidx (am_plan b) ''_source'') ''seal_refused'' = JNull
         then b\<lparr>am_plan := jset (am_plan b) ''_cut_release'' pending_release\<rparr> else b)"

definition checkpoint_agent_move :: "node \<Rightarrow> agent_move \<Rightarrow> bool \<Rightarrow> node \<times> (mutation_error + agent_move)" where
  "checkpoint_agent_move n m clear =
    (case load_move n (am_cut_id m) of None \<Rightarrow> (n, Inl storage_error)
     | Some current \<Rightarrow>
       if am_step m = StActivating \<and> am_step current = StClaimed \<and> am_abort_requested current \<noteq> None then (n, Inr current)
       else (case update_move n (next_checkpoint current m clear) of None \<Rightarrow> (n, Inl storage_error)
         | Some (n', _) \<Rightarrow> (n', Inr (next_checkpoint current m clear))))"

definition operator_request :: json where
  "operator_request = JObj [(''detail'', JNull), (''reason'', JStr ''operator'')]"

definition request_agent_move_abort :: "node \<Rightarrow> string \<Rightarrow> int \<Rightarrow> node \<times> (mutation_error + agent_move)" where
  "request_agent_move_abort n cut_id now =
    (case load_move n cut_id of None \<Rightarrow> (n, Inl storage_error)
     | Some m \<Rightarrow>
       if am_step m = StAborted then (n, Inr m)
       else if \<not> before_boundary (am_side m) (am_step m) then (n, Inl (refuse ''invalid_state'' (Some (move_detail m))))
       else if abort_stuck m \<and> as_object (case am_abort_requested m of None \<Rightarrow> JNull | Some r \<Rightarrow> r) = None then (n, Inl storage_error)
       else if \<not> abort_stuck m \<and> am_abort_requested m \<noteq> None then (n, Inr m)
       else (let m' = m\<lparr>am_abort_requested := (if abort_stuck m
                 then map_option (\<lambda>r. jset r ''retry_pending'' (JBool True)) (am_abort_requested m) else Some operator_request),
               am_updated_at := now\<rparr> in
         case update_move n m' of None \<Rightarrow> (n, Inl storage_error) | Some (n', _) \<Rightarrow> (n', Inr m')))"

definition consume_move_abort_retry :: "node \<Rightarrow> string \<Rightarrow> node \<times> (mutation_error + bool)" where
  "consume_move_abort_retry n cut_id =
    (case load_move n cut_id of None \<Rightarrow> (n, Inl storage_error)
     | Some m \<Rightarrow> (case am_abort_requested m of
         Some (JObj r) \<Rightarrow>
           if bt_get r ''retry_pending'' = Some (JBool True) then
             (case update_move n (m\<lparr>am_abort_requested := Some (JObj (bt_remove ''retry_pending'' r))\<rparr>) of
                None \<Rightarrow> (n, Inl storage_error) | Some (n', _) \<Rightarrow> (n', Inr True))
           else (n, Inr False)
       | _ \<Rightarrow> (n, Inr False)))"

definition set_move_cut_accept :: "node \<Rightarrow> string \<Rightarrow> json \<Rightarrow> int \<Rightarrow> node" where
  "set_move_cut_accept n cut_id accept now = n\<lparr>nd_moves := map (\<lambda>m. if am_cut_id m = cut_id
     then m\<lparr>am_cut_accept := Some accept, am_updated_at := now\<rparr> else m) (nd_moves n)\<rparr>"

definition set_move_cut_release :: "node \<Rightarrow> string \<Rightarrow> json \<Rightarrow> node option" where
  "set_move_cut_release n cut_id rel =
    (case load_move n cut_id of None \<Rightarrow> None
     | Some m \<Rightarrow> map_option fst (update_move n (m\<lparr>am_plan := jset (am_plan m) ''_cut_release'' rel\<rparr>)))"

definition list_pending_cut_accepts :: "node \<Rightarrow> agent_move list" where
  "list_pending_cut_accepts n = filter (\<lambda>m. am_side m = Receiver
     \<and> some_and (\<lambda>a. jidx a ''state'' = JStr ''pending'') (am_cut_accept m)) (sort_key am_created_at (sort_key am_cut_id (nd_moves n)))"



section \<open>What the unique indexes keep\<close>

definition moves_ok :: "node \<Rightarrow> bool" where
  "moves_ok n \<longleftrightarrow> pairwise_free collides (nd_moves n) \<and> length (filter is_open (nd_moves n)) \<le> 4"

interpretation mv: unique_table collides am_cut_id
  by unfold_locales (unfold collides_def, metis, simp)

lemma load_move_Some: "load_move n c = Some m \<Longrightarrow> m \<in> set (nd_moves n) \<and> am_cut_id m = c"
  by (auto simp: load_move_def find_Some_iff)

lemma load_move_None: "load_move n c = None \<longleftrightarrow> c \<notin> am_cut_id ` set (nd_moves n)"
  by (auto simp: load_move_def find_None_iff)

lemma load_move_in: "moves_ok n \<Longrightarrow> x \<in> set (nd_moves n) \<Longrightarrow> load_move n (am_cut_id x) = Some x"
  by (simp add: load_move_def moves_ok_def mv.find_key)

lemma insert_move_Some:
  "insert_move n m = Some n' \<longleftrightarrow> (\<forall>x\<in>set (nd_moves n). \<not> collides m x) \<and> n' = n\<lparr>nd_moves := nd_moves n @ [m]\<rparr>"
  by (auto simp: insert_move_def list_ex_iff)

lemma update_move_Some:
  "update_move n m = Some (n', b) \<longleftrightarrow> (if load_move n (am_cut_id m) = None then n' = n \<and> \<not> b else
     (\<forall>x\<in>set (nd_moves n). am_cut_id x \<noteq> am_cut_id m \<longrightarrow> \<not> collides m x) \<and> b
     \<and> n' = n\<lparr>nd_moves := set_row am_cut_id m (nd_moves n)\<rparr>)"
  by (auto simp: update_move_def list_ex_iff)

lemma insert_move_ok:
  assumes "moves_ok n" "insert_move n m = Some n'" "length (open_moves n) < 4"
  shows "moves_ok n'"
  using assms by (auto simp: moves_ok_def insert_move_Some mv.free_append open_moves_def)

lemma set_row_open:
  assumes "pairwise_free collides rows" "current \<in> set rows" "am_cut_id current = am_cut_id m" "is_open m \<Longrightarrow> is_open current"
  shows "length (filter is_open (set_row am_cut_id m rows)) \<le> length (filter is_open rows)"
proof -
  have eq: "x = current" if "x \<in> set rows" "am_cut_id x = am_cut_id m" for x
    using assms(1-3) that by (auto simp: mv.free_iff distinct_map inj_on_def)
  have "length (filter is_open (set_row am_cut_id m rs)) \<le> length (filter is_open rs)" if "set rs \<subseteq> set rows" for rs
    using that by (induction rs) (use eq assms(4) in \<open>auto simp: set_row_def\<close>)
  then show ?thesis by simp
qed

lemma update_move_ok:
  assumes "moves_ok n" "update_move n m = Some (n', b)" "load_move n (am_cut_id m) = Some current" "is_open m \<Longrightarrow> is_open current"
  shows "moves_ok n'"
proof -
  have "current \<in> set (nd_moves n)" "am_cut_id current = am_cut_id m" using load_move_Some [OF assms(3)] by simp_all
  then show ?thesis using assms set_row_open [of "nd_moves n" current m] mv.free_set_row [of "nd_moves n" m]
    by (auto simp: moves_ok_def update_move_Some)
qed


lemma find_set_row:
  assumes "key m \<in> key ` set rows"
  shows "find (\<lambda>x. key x = d) (set_row key m rows) = (if d = key m then Some m else find (\<lambda>x. key x = d) rows)"
proof -
  have "find (\<lambda>x. key x = key m) (set_row key m rows) = Some m"
    using assms by (induction rows) (auto simp: set_row_def)
  moreover have "find (\<lambda>x. key x = d) (set_row key m rows) = find (\<lambda>x. key x = d) rows" if "d \<noteq> key m"
    using that by (induction rows) (auto simp: set_row_def)
  ultimately show ?thesis by simp
qed

lemma update_move_same:
  assumes ok: "moves_ok n" and cur: "load_move n (am_cut_id m) = Some current"
    and same: "am_agent_id m = am_agent_id current" "am_request_key m = am_request_key current" "is_open m \<Longrightarrow> is_open current"
  obtains n' where "update_move n m = Some (n', True)" "n' = n\<lparr>nd_moves := set_row am_cut_id m (nd_moves n)\<rparr>" "moves_ok n'"
    "\<And>d. load_move n' d = (if d = am_cut_id m then Some m else load_move n d)"
proof -
  have c: "current \<in> set (nd_moves n)" "am_cut_id current = am_cut_id m" using load_move_Some [OF cur] by simp_all
  have "\<not> collides m x" if x: "x \<in> set (nd_moves n)" "am_cut_id x \<noteq> am_cut_id m" for x
  proof -
    have "\<not> collides current x" using ok c x by (intro mv.free_pair [of "nd_moves n"]) (auto simp: moves_ok_def)
    then show ?thesis using x(2) c(2) same by (auto simp: collides_def)
  qed
  then have u: "update_move n m = Some (n\<lparr>nd_moves := set_row am_cut_id m (nd_moves n)\<rparr>, True)"
    using cur by (simp add: update_move_Some)
  have "am_cut_id m \<in> am_cut_id ` set (nd_moves n)" using c by (metis image_eqI)
  then have "load_move (n\<lparr>nd_moves := set_row am_cut_id m (nd_moves n)\<rparr>) d = (if d = am_cut_id m then Some m else load_move n d)" for d
    by (simp add: load_move_def find_set_row)
  then show ?thesis using that [OF u refl update_move_ok [OF ok u cur same(3)]] by simp
qed

section \<open>Admission\<close>

lemma find_SomeD: "find P xs = Some x \<Longrightarrow> x \<in> set xs \<and> P x"
  by (auto simp: find_Some_iff)

lemma find_append: "find P (xs @ ys) = (case find P xs of None \<Rightarrow> find P ys | Some x \<Rightarrow> Some x)"
  by (induction xs) auto

lemma check_slot_Inr: "check_slot n m = Inr u \<longleftrightarrow>
    (\<forall>x\<in>set (nd_moves n). is_open x \<longrightarrow> am_agent_id x \<noteq> am_agent_id m) \<and> length (open_moves n) < 4"
  by (auto simp: check_slot_def find_None_iff open_moves_def dest!: find_SomeD split: option.splits)

lemma place_move_result:
  assumes "place_move n m = (n', r)"
  shows "(\<exists>e. r = Inl e \<and> n' = n) \<or> r = Inr m \<and> insert_move n m = Some n'"
  using assms by (auto simp: place_move_def split: option.splits)

lemma admit_agent_move_cases:
  assumes "admit_agent_move n m refs = (n', r)"
  obtains (refused) e where "r = Inl e" "n' = n"
  | (known) x where "r = Inr x" "n' = n" "find (\<lambda>x. am_request_key x = am_request_key m) (nd_moves n) = Some x"
      "am_request_body x = am_request_body m"
  | (admitted) "r = Inr m" "insert_move n m = Some n'" "am_step m = StPreparing" "am_request_key m \<noteq> None"
      "find (\<lambda>x. am_request_key x = am_request_key m) (nd_moves n) = None"
      "bound_refs n (am_agent_id m) = refs" "length refs \<le> 256" "check_slot n m = Inr ()"
proof -
  show ?thesis
    using assms unfolding admit_agent_move_def check_source_move_def
    by (auto split: if_splits option.splits sum.splits dest!: place_move_result intro: that)
qed

lemma admit_again:
  assumes "admit_agent_move n m refs = (n', Inr x)"
  shows "admit_agent_move n' m refs' = (n', Inr x)" "x \<in> set (nd_moves n')"
proof -
  have g: "am_side m = Source \<and> am_step m = StPreparing \<and> am_request_key m \<noteq> None \<and> am_request_body m \<noteq> None"
    using assms by (auto simp: admit_agent_move_def split: if_splits)
  have *: "find (\<lambda>x. am_request_key x = am_request_key m) (nd_moves n') = Some x \<and> am_request_body x = am_request_body m"
  proof (cases rule: admit_agent_move_cases [OF assms])
    case 3
    then show ?thesis by (simp add: insert_move_Some find_append)
  qed auto
  show "admit_agent_move n' m refs' = (n', Inr x)" using * g by (simp add: admit_agent_move_def)
  show "x \<in> set (nd_moves n')" using * by (auto simp: find_Some_iff)
qed

lemma admit_agent_move_ok:
  assumes "moves_ok n" "admit_agent_move n m refs = (n', r)"
  shows "moves_ok n'"
  using assms(1) by (cases rule: admit_agent_move_cases [OF assms(2)]) (auto simp: check_slot_Inr intro: insert_move_ok)

lemma admit_received_cases:
  assumes "admit_received_move n m = (n', r)"
  obtains (refused) e where "r = Inl e" "n' = n"
  | (known) x where "r = Inr x" "n' = n" "load_move n (am_cut_id m) = Some x"
  | (admitted) "r = Inr m" "insert_move n m = Some n'" "am_step m \<in> {StPickedUp, StAborted}"
      "load_move n (am_cut_id m) = None" "check_slot n m = Inr ()"
  using assms unfolding admit_received_move_def
  by (auto split: if_splits option.splits sum.splits dest!: place_move_result intro: that)

lemma admit_received_ok:
  assumes "moves_ok n" "admit_received_move n m = (n', r)"
  shows "moves_ok n'"
  using assms(1) by (cases rule: admit_received_cases [OF assms(2)]) (auto simp: check_slot_Inr intro: insert_move_ok)

lemma receive_again:
  assumes "admit_received_move n m = (n', Inr x)"
  shows "admit_received_move n' m = (n', Inr x)" "x \<in> set (nd_moves n')"
proof -
  have g: "am_side m = Receiver \<and> am_step m \<in> {StPickedUp, StAborted}"
    using assms by (auto simp: admit_received_move_def split: if_splits)
  have *: "load_move n' (am_cut_id m) = Some x"
    by (cases rule: admit_received_cases [OF assms]) (auto simp: insert_move_Some load_move_def find_append)
  show "admit_received_move n' m = (n', Inr x)" using * g by (simp add: admit_received_move_def)
  show "x \<in> set (nd_moves n')" using load_move_Some [OF *] by simp
qed

section \<open>Checkpoints against the driver's model\<close>

text \<open>What \<open>MoveDriver\<close> keeps of a stored row.\<close>

definition row_of :: "agent_move \<Rightarrow> mv_row" where
  "row_of m = \<lparr>row_step = am_step m, row_abort = (am_abort_requested m \<noteq> None)\<rparr>"

lemma next_checkpoint_keeps [simp]:
  "am_cut_id (next_checkpoint c m clear) = am_cut_id m" "am_agent_id (next_checkpoint c m clear) = am_agent_id m"
  "am_request_key (next_checkpoint c m clear) = am_request_key m" "am_side (next_checkpoint c m clear) = am_side m"
  "am_step (next_checkpoint c m clear) = am_step m" "is_open (next_checkpoint c m clear) = is_open m"
  "am_cut_accept (next_checkpoint c m clear) = am_cut_accept c"
  "am_abort_requested (next_checkpoint c m clear) = (if clear then None
     else if am_abort_requested c \<noteq> None then am_abort_requested c else am_abort_requested m)"
  by (auto simp: next_checkpoint_def Let_def is_open_def split: option.split)

lemma next_checkpoint_release:
  assumes "jget (am_plan c) ''_cut_release'' = Some rel" "as_object (am_plan m) \<noteq> None"
  shows "jget (am_plan (next_checkpoint c m clear)) ''_cut_release'' = Some rel"
  using assms by (cases "am_plan m") (simp_all add: next_checkpoint_def Let_def jset_def bt_get_insert)

lemma checkpoint_result:
  assumes "moves_ok n" "load_move n (am_cut_id m) = Some current" "am_agent_id m = am_agent_id current"
    "am_request_key m = am_request_key current" "is_open m \<Longrightarrow> is_open current"
  obtains n' x where "checkpoint_agent_move n m clear = (n', Inr x)" "moves_ok n'"
    "x = (if am_step m = StActivating \<and> am_step current = StClaimed \<and> am_abort_requested current \<noteq> None
          then current else next_checkpoint current m clear)"
    "\<And>d. load_move n' d = (if d = am_cut_id m then Some x else load_move n d)"
    "nd_sessions n' = nd_sessions n" "nd_history n' = nd_history n"
proof (cases "am_step m = StActivating \<and> am_step current = StClaimed \<and> am_abort_requested current \<noteq> None")
  case True
  then show ?thesis using assms(1,2) by (intro that [of n current]) (auto simp: checkpoint_agent_move_def)
next
  case False
  obtain n' where n': "update_move n (next_checkpoint current m clear) = Some (n', True)"
    "n' = n\<lparr>nd_moves := set_row am_cut_id (next_checkpoint current m clear) (nd_moves n)\<rparr>" "moves_ok n'"
    "\<And>d. load_move n' d = (if d = am_cut_id m then Some (next_checkpoint current m clear) else load_move n d)"
    using assms by (elim update_move_same [of n "next_checkpoint current m clear" current, simplified]) simp_all
  have e: "checkpoint_agent_move n m clear = (n', Inr (next_checkpoint current m clear))"
    using False assms(2) n'(1) by (auto simp: checkpoint_agent_move_def)
  have x: "next_checkpoint current m clear = (if am_step m = StActivating \<and> am_step current = StClaimed \<and> am_abort_requested current \<noteq> None
      then current else next_checkpoint current m clear)" using False by argo
  show ?thesis by (rule that [OF e n'(3) x n'(4)]) (simp_all add: n'(2))
qed

definition aborting :: "agent_move \<Rightarrow> int \<Rightarrow> agent_move" where
  "aborting m now = m\<lparr>am_abort_requested := (if abort_stuck m
     then map_option (\<lambda>r. jset r ''retry_pending'' (JBool True)) (am_abort_requested m) else Some operator_request),
     am_updated_at := now\<rparr>"

lemma aborting_keeps [simp]:
  "am_cut_id (aborting m now) = am_cut_id m" "am_agent_id (aborting m now) = am_agent_id m"
  "am_request_key (aborting m now) = am_request_key m" "am_step (aborting m now) = am_step m" "is_open (aborting m now) = is_open m"
  "\<exists>y. am_abort_requested (aborting m now) = Some y"
  by (auto simp: aborting_def is_open_def abort_stuck_def)

lemma abort_result:
  assumes ok: "moves_ok n" and cur: "load_move n cut_id = Some m"
  obtains (kept) "request_agent_move_abort n cut_id now = (n, Inr m)" "request_abort (am_side m) (row_of m) = row_of m"
      "am_step m = StAborted \<or> am_abort_requested m \<noteq> None"
  | (past) "request_agent_move_abort n cut_id now = (n, Inl (refuse ''invalid_state'' (Some (move_detail m))))"
      "\<not> before_boundary (am_side m) (am_step m)"
  | (broken) "request_agent_move_abort n cut_id now = (n, Inl storage_error)" "am_abort_requested m \<noteq> None"
  | (asked) n' where "request_agent_move_abort n cut_id now = (n', Inr (aborting m now))" "moves_ok n'"
      "before_boundary (am_side m) (am_step m)"
      "\<And>d. load_move n' d = (if d = cut_id then Some (aborting m now) else load_move n d)"
      "n' = n\<lparr>nd_moves := set_row am_cut_id (aborting m now) (nd_moves n)\<rparr>"
proof -
  have c: "am_cut_id m = cut_id" using load_move_Some [OF cur] by simp
  obtain n' where n': "update_move n (aborting m now) = Some (n', True)" "moves_ok n'"
    "\<And>d. load_move n' d = (if d = cut_id then Some (aborting m now) else load_move n d)"
    "n' = n\<lparr>nd_moves := set_row am_cut_id (aborting m now) (nd_moves n)\<rparr>"
    using ok cur c by (elim update_move_same [of n "aborting m now" m, simplified]) simp_all
  consider "am_step m = StAborted" | "am_step m \<noteq> StAborted" "\<not> before_boundary (am_side m) (am_step m)"
    | "am_step m \<noteq> StAborted" "before_boundary (am_side m) (am_step m)" "abort_stuck m" "as_object (case am_abort_requested m of None \<Rightarrow> JNull | Some r \<Rightarrow> r) = None"
    | "am_step m \<noteq> StAborted" "before_boundary (am_side m) (am_step m)" "\<not> abort_stuck m" "am_abort_requested m \<noteq> None"
    | "am_step m \<noteq> StAborted" "before_boundary (am_side m) (am_step m)" "\<not> (abort_stuck m \<and> as_object (case am_abort_requested m of None \<Rightarrow> JNull | Some r \<Rightarrow> r) = None)"
       "\<not> (\<not> abort_stuck m \<and> am_abort_requested m \<noteq> None)" by argo
  then show ?thesis
  proof cases
    case 1
    then show ?thesis using cur by (intro kept) (simp_all add: request_agent_move_abort_def request_abort_def row_of_def before_boundary_def split: move_side.split)
  next
    case 2
    then show ?thesis using cur by (intro past) (simp_all add: request_agent_move_abort_def)
  next
    case 3
    then show ?thesis using cur by (intro broken) (simp_all add: request_agent_move_abort_def abort_stuck_def)
  next
    case 4
    then show ?thesis using cur by (intro kept) (simp_all add: request_agent_move_abort_def request_abort_def row_of_def)
  next
    case 5
    have "request_agent_move_abort n cut_id now = (n', Inr (aborting m now))"
      using 5 cur n'(1) unfolding request_agent_move_abort_def aborting_def [symmetric] by (auto simp: Let_def)
    then show ?thesis using asked n' 5(2) by blast
  qed
qed

text \<open>C9. Writing a checkpoint of a move implements the abstract checkpoint the drivers are verified over. It
  always succeeds for a driver's row of a known move and leaves the move table well formed; an abort the operator
  asked for meanwhile survives it and wins against activation; the columns written in the background (the accept
  notice and the pending release) are kept; no other move changes.\<close>

theorem checkpoint_refines:
  assumes "moves_ok n" "load_move n (am_cut_id m) = Some current" "am_agent_id m = am_agent_id current"
    "am_request_key m = am_request_key current" "is_open m \<Longrightarrow> is_open current"
    "am_abort_requested m \<noteq> None \<Longrightarrow> am_abort_requested current \<noteq> None"
  shows "\<exists>n' x. checkpoint_agent_move n m clear = (n', Inr x) \<and> moves_ok n'
    \<and> row_of x = checkpoint (row_of current) (am_step m) clear
    \<and> am_cut_accept x = am_cut_accept current
    \<and> (as_object (am_plan m) = None \<or> jget (am_plan current) ''_cut_release'' \<in> {None, jget (am_plan x) ''_cut_release''})
    \<and> (\<forall>d. load_move n' d = (if d = am_cut_id m then Some x else load_move n d))"
proof -
  obtain n' x where r: "checkpoint_agent_move n m clear = (n', Inr x)" "moves_ok n'"
    "x = (if am_step m = StActivating \<and> am_step current = StClaimed \<and> am_abort_requested current \<noteq> None
          then current else next_checkpoint current m clear)"
    "\<And>d. load_move n' d = (if d = am_cut_id m then Some x else load_move n d)"
    using checkpoint_result [OF assms(1-5)] by metis
  have "row_of x = checkpoint (row_of current) (am_step m) clear"
    using assms(6) by (cases "am_abort_requested current"; cases "am_abort_requested m") (auto simp: r(3) row_of_def checkpoint_def)
  moreover have "as_object (am_plan m) = None \<or> jget (am_plan current) ''_cut_release'' \<in> {None, jget (am_plan x) ''_cut_release''}"
    using next_checkpoint_release [of current _ m clear]
    by (cases "jget (am_plan current) ''_cut_release''"; cases "as_object (am_plan m)") (auto simp: r(3))
  ultimately show ?thesis using r by (metis next_checkpoint_keeps(7))
qed

theorem abort_request_refines:
  assumes "moves_ok n" "load_move n cut_id = Some m"
  shows "case request_agent_move_abort n cut_id now of (n', r) \<Rightarrow> moves_ok n'
    \<and> map_option row_of (load_move n' cut_id) = Some (request_abort (am_side m) (row_of m))
    \<and> (\<forall>d. d = cut_id \<or> load_move n' d = load_move n d)
    \<and> (case r of Inr x \<Rightarrow> load_move n' cut_id = Some x \<and> (am_step x = StAborted \<or> am_abort_requested x \<noteq> None)
       | Inl e \<Rightarrow> n' = n \<and> (\<not> before_boundary (am_side m) (am_step m) \<or> am_abort_requested m \<noteq> None))"
proof -
  show ?thesis
  proof (cases rule: abort_result [OF assms, of now])
    case 1
    then show ?thesis using assms by (auto simp: row_of_def request_abort_def before_boundary_def split: if_splits move_side.splits)
  qed (use assms in \<open>auto simp: row_of_def request_abort_def\<close>)
qed

text \<open>C5. Admission is exclusive and repeatable. Admitting a source move or receiving an incoming one keeps the table
  well formed (one row per cut and per request key, one open move per agent, at most four open moves); a refusal
  writes nothing; a newly admitted source move names exactly the live references of its agent; and asking again,
  with any references, answers with the same row and writes nothing.\<close>

theorem admission_exclusive:
  assumes "moves_ok n"
  shows "(case admit_agent_move n m refs of (n', r) \<Rightarrow> moves_ok n' \<and> (case r of Inl e \<Rightarrow> n' = n
      | Inr x \<Rightarrow> x \<in> set (nd_moves n') \<and> am_request_key x = am_request_key m \<and> am_request_body x = am_request_body m
          \<and> (n' = n \<or> x = m \<and> bound_refs n (am_agent_id m) = refs \<and> nd_moves n' = nd_moves n @ [m])
          \<and> (\<forall>refs'. admit_agent_move n' m refs' = (n', Inr x))))
    \<and> (case admit_received_move n m of (n', r) \<Rightarrow> moves_ok n' \<and> (case r of Inl e \<Rightarrow> n' = n
      | Inr x \<Rightarrow> x \<in> set (nd_moves n') \<and> am_cut_id x = am_cut_id m \<and> (n' = n \<or> x = m \<and> nd_moves n' = nd_moves n @ [m])
          \<and> admit_received_move n' m = (n', Inr x)))"
proof -
  obtain n1 r1 n2 r2 where a: "admit_agent_move n m refs = (n1, r1)" and b: "admit_received_move n m = (n2, r2)"
    by (metis prod.exhaust)
  have "case r1 of Inl e \<Rightarrow> n1 = n
      | Inr x \<Rightarrow> x \<in> set (nd_moves n1) \<and> am_request_key x = am_request_key m \<and> am_request_body x = am_request_body m
          \<and> (n1 = n \<or> x = m \<and> bound_refs n (am_agent_id m) = refs \<and> nd_moves n1 = nd_moves n @ [m])
          \<and> (\<forall>refs'. admit_agent_move n1 m refs' = (n1, Inr x))"
    by (cases rule: admit_agent_move_cases [OF a]) (use a in \<open>auto dest: find_SomeD admit_again simp: insert_move_Some\<close>)
  moreover have "case r2 of Inl e \<Rightarrow> n2 = n
      | Inr x \<Rightarrow> x \<in> set (nd_moves n2) \<and> am_cut_id x = am_cut_id m \<and> (n2 = n \<or> x = m \<and> nd_moves n2 = nd_moves n @ [m])
          \<and> admit_received_move n2 m = (n2, Inr x)"
    by (cases rule: admit_received_cases [OF b]) (use b in \<open>auto dest: load_move_Some receive_again simp: insert_move_Some\<close>)
  ultimately show ?thesis using admit_agent_move_ok [OF assms a] admit_received_ok [OF assms b] by (simp add: a b)
qed

section \<open>Examples\<close>

definition example_move :: agent_move where
  "example_move = \<lparr>am_cut_id = ''c1'', am_agent_id = ''a1'', am_side = Source, am_peer = ''p'', am_step = StPreparing,
     am_plan = JObj [(''pin_digest'', JNull)], am_request_body = Some JNull, am_record_version = 0, am_claim_version = None,
     am_claim_take_body = None, am_claim_take_version = None, am_claim_landed_version = None, am_seal_sent = False,
     am_abort_requested = None, am_hold = None, am_cut_accept = None, am_reason = None, am_detail = None,
     am_request_key = Some ''k1'', am_attempts = 0, am_activated_at = None, am_created_at = 5, am_updated_at = 5\<rparr>"

definition example_node :: node where
  "example_node = \<lparr>nd_cut_over = True, nd_agents = [''a1'' \<mapsto> None, ''a2'' \<mapsto> None], nd_claims = enabled_tables, nd_moves = [],
     nd_sessions = [], nd_history = [], nd_pin_digest = (\<lambda>_. None), nd_origin = Some ''m1''\<rparr>"

lemma admission_exclusive_witness:
  "snd (admit_agent_move example_node example_move []) = Inr example_move
   \<and> fst (admit_agent_move (fst (admit_agent_move example_node example_move [])) example_move [MoveRef ''k'' ''r''])
     = fst (admit_agent_move example_node example_move [])"
proof -
  have ok: "moves_ok example_node" by (simp add: moves_ok_def pairwise_free_def example_node_def)
  have r: "snd (admit_agent_move example_node example_move []) = Inr example_move" by code_simp
  then have "admit_agent_move example_node example_move [] = (fst (admit_agent_move example_node example_move []), Inr example_move)"
    by (metis prod.collapse)
  with admission_exclusive [OF ok, of example_move "[]"] r show ?thesis by (auto split: prod.splits)
qed

definition admitted_node :: node where
  "admitted_node = example_node\<lparr>nd_moves := [example_move\<lparr>am_abort_requested := Some operator_request\<rparr>]\<rparr>"

lemma admitted_ok: "moves_ok admitted_node"
  by (simp add: moves_ok_def pairwise_free_def admitted_node_def)

lemma admitted_load: "load_move admitted_node ''c1'' = Some (example_move\<lparr>am_abort_requested := Some operator_request\<rparr>)"
  by (simp add: load_move_def admitted_node_def example_move_def)

lemma checkpoint_refines_witness:
  "\<exists>n' x. checkpoint_agent_move admitted_node (example_move\<lparr>am_step := StExported\<rparr>) False = (n', Inr x)
    \<and> row_of x = checkpoint (row_of (example_move\<lparr>am_abort_requested := Some operator_request\<rparr>)) StExported False"
  using checkpoint_refines [OF admitted_ok, of "example_move\<lparr>am_step := StExported\<rparr>" "example_move\<lparr>am_abort_requested := Some operator_request\<rparr>" False] admitted_load
  by (auto simp: example_move_def is_open_def is_terminal_def)

lemma abort_request_refines_witness:
  "map_option row_of (load_move (fst (request_agent_move_abort admitted_node ''c1'' 9)) ''c1'')
   = Some \<lparr>row_step = StPreparing, row_abort = True\<rparr>"
  using abort_request_refines [OF admitted_ok admitted_load, of 9]
  by (auto simp: example_move_def request_abort_def row_of_def before_boundary_def split: prod.splits)

end
