(* ===== verification/Sessions.thy ===== *)
theory Sessions
  imports Node
begin

text \<open>
  Session bindings: \<open>session_network.rs\<close>, \<open>session_lifecycle.rs\<close>, and \<open>register_session\<close> of
  \<open>crates/entorhinal-core/src/lib.rs\<close>, over the tables of \<open>Node\<close>. A statement that breaks an index, a
  check or, at the end of its transaction, the foreign key of the network history fails, and the
  transaction leaves the tables as they were. A clock is the time it returns when it is read.
\<close>

section \<open>The session tables\<close>

definition sr_key :: "session_row \<Rightarrow> session_key" where
  "sr_key r = (sr_ref_kind r, sr_ref r)"

definition host_key :: "session_row \<Rightarrow> (string \<times> string) option" where
  "host_key r = (case (sr_harness r, sr_session_id r) of (Some h, Some s) \<Rightarrow> Some (h, s) | _ \<Rightarrow> None)"

definition runner_key :: "session_row \<Rightarrow> (string \<times> string) option" where
  "runner_key r = (case (sr_runner r, sr_session_id r) of (Some h, Some s) \<Rightarrow> Some (h, s) | _ \<Rightarrow> None)"

text \<open>The primary key and the two unique indexes; a key with a null part is in no index.\<close>

definition session_clash :: "session_row \<Rightarrow> session_row \<Rightarrow> bool" where
  "session_clash a b \<longleftrightarrow> sr_key a = sr_key b \<or> (host_key a \<noteq> None \<and> host_key a = host_key b)
     \<or> (runner_key a \<noteq> None \<and> runner_key a = runner_key b)"

definition row_check :: "session_row \<Rightarrow> bool" where
  "row_check r \<longleftrightarrow> sr_registered_by r \<in> set [''orchestrator'', ''host'', ''move'']"

definition put_sessions :: "session_row list \<Rightarrow> node \<Rightarrow> node option" where
  "put_sessions rows n = (if pairwise_free session_clash rows \<and> list_all row_check rows then Some (n\<lparr>nd_sessions := rows\<rparr>) else None)"

definition network_values :: "string list" where
  "network_values = [''yes'', ''no'', ''unknown'']"

text \<open>The primary key of a history row is the binding and the time.\<close>

definition entry_clash :: "session_key \<times> net_entry \<Rightarrow> session_key \<times> net_entry \<Rightarrow> bool" where
  "entry_clash a b \<longleftrightarrow> fst a = fst b \<and> ne_since (snd a) = ne_since (snd b)"

definition put_history :: "(session_key \<times> net_entry) list \<Rightarrow> node \<Rightarrow> node option" where
  "put_history h n = (if pairwise_free entry_clash h \<and> list_all (\<lambda>e. ne_network (snd e) \<in> set network_values) h
     then Some (n\<lparr>nd_history := h\<rparr>) else None)"

text \<open>Each history row names a binding. The key is checked when the transaction ends.\<close>

definition commit_sessions :: "node \<Rightarrow> node option" where
  "commit_sessions n = (if list_all (\<lambda>e. fst e \<in> sr_key ` set (nd_sessions n)) (nd_history n) then Some n else None)"

definition find_ref :: "node \<Rightarrow> session_key \<Rightarrow> session_row option" where
  "find_ref n k = find (\<lambda>r. sr_key r = k) (nd_sessions n)"

definition find_host :: "node \<Rightarrow> string \<Rightarrow> string \<Rightarrow> session_row option" where
  "find_host n harness session = find (\<lambda>r. host_key r = Some (harness, session)) (nd_sessions n)"

definition runner_session_owner :: "node \<Rightarrow> string \<Rightarrow> string \<Rightarrow> session_row option" where
  "runner_session_owner n runner session = find (\<lambda>r. runner_key r = Some (runner, session)) (nd_sessions n)"

section \<open>Network history\<close>

datatype network_change = Recorded net_entry | UnchangedAt net_entry

datatype network_plan = KeepEntry net_entry | AppendAfter "int option"

definition history_max :: nat where "history_max = 1024"

definition i64_max :: int where "i64_max = 2 ^ 63 - 1"

definition check_network :: "string \<Rightarrow> mutation_error + unit" where
  "check_network network = (if network \<in> set network_values then Inr () else Inl (refuse ''invalid_request'' None))"

definition network_history :: "node \<Rightarrow> session_key \<Rightarrow> net_entry list" where
  "network_history n k = sort_key ne_since (map snd (filter (\<lambda>e. fst e = k) (nd_history n)))"

definition current_entry :: "node \<Rightarrow> session_key \<Rightarrow> net_entry option" where
  "current_entry n k = (case network_history n k of [] \<Rightarrow> None | es \<Rightarrow> Some (last es))"

definition plan_network :: "node \<Rightarrow> session_key \<Rightarrow> string \<Rightarrow> mutation_error + network_plan" where
  "plan_network n k network = bind_res (check_network network) (\<lambda>_.
     let current = current_entry n k;
       append = (if history_max \<le> length (network_history n k) then Inl (refuse ''network_history_full'' None)
         else Inr (AppendAfter (map_option ne_since current))) in
     case current of None \<Rightarrow> append | Some e \<Rightarrow> if ne_network e = network then Inr (KeepEntry e) else append)"

definition entry_time :: "int option \<Rightarrow> int \<Rightarrow> int" where
  "entry_time previous now = (case previous of None \<Rightarrow> now | Some p \<Rightarrow> max now (min (p + 1) i64_max))"

definition apply_network_plan :: "node \<Rightarrow> session_key \<Rightarrow> string \<Rightarrow> network_plan \<Rightarrow> int \<Rightarrow> (node \<times> network_change) option" where
  "apply_network_plan n k network plan now = (case plan of
     KeepEntry e \<Rightarrow> Some (n, UnchangedAt e)
   | AppendAfter previous \<Rightarrow>
       let e = \<lparr>ne_network = network, ne_since = entry_time previous now\<rparr> in
       map_option (\<lambda>n'. (n', Recorded e)) (put_history (nd_history n @ [(k, e)]) n))"

definition set_session_network :: "node \<Rightarrow> string \<Rightarrow> string \<Rightarrow> string \<Rightarrow> int \<Rightarrow> node \<times> (mutation_error + network_change)" where
  "set_session_network n harness session network now =
    (case check_network network of Inl e \<Rightarrow> (n, Inl e)
     | Inr _ \<Rightarrow> (case find_host n harness session of None \<Rightarrow> (n, Inl (refuse ''not_found'' None))
       | Some r \<Rightarrow> (case plan_network n (sr_key r) network of Inl e \<Rightarrow> (n, Inl e)
         | Inr plan \<Rightarrow> (case apply_network_plan n (sr_key r) network plan now of None \<Rightarrow> (n, Inl storage_error)
           | Some (n', c) \<Rightarrow> (n', Inr c)))))"

section \<open>Registration\<close>

record registration =
  rg_agent :: string
  rg_ref_kind :: string
  rg_ref :: string
  rg_harness :: string
  rg_session :: string
  rg_root :: "string option"
  rg_by :: string
  rg_runner :: "string option"
  rg_network :: "(string \<times> int) option"
  rg_now :: int

record session_binding =
  sb_agent :: string
  sb_ref_kind :: string
  sb_ref :: string
  sb_harness :: "string option"
  sb_session :: "string option"
  sb_root :: "string option"
  sb_by :: string
  sb_at :: int
  sb_held_on :: "string option"
  sb_runner :: "string option"

definition binding_of :: "session_row \<Rightarrow> session_binding" where
  "binding_of r = \<lparr>sb_agent = sr_agent_id r, sb_ref_kind = sr_ref_kind r, sb_ref = sr_ref r, sb_harness = sr_harness r,
     sb_session = sr_session_id r, sb_root = (if sr_project_root r = [] then None else Some (sr_project_root r)),
     sb_by = sr_registered_by r, sb_at = sr_registered_at r, sb_held_on = sr_held_on r, sb_runner = sr_runner r\<rparr>"

definition rg_key :: "registration \<Rightarrow> session_key" where
  "rg_key q = (rg_ref_kind q, rg_ref q)"

text \<open>\<open>check_moving_registration\<close>: an open move fences its agent, and at a receiver also the
  references of its plan, which may not be bound to its agent yet.\<close>

definition plan_names :: "json \<Rightarrow> registration \<Rightarrow> bool" where
  "plan_names plan q = some_and (list_ex (\<lambda>p. some_and (list_ex (\<lambda>r.
     Option.bind (jget r ''ref_kind'') as_str = Some (rg_ref_kind q) \<and> Option.bind (jget r ''ref'') as_str = Some (rg_ref q)))
     (Option.bind (jget p ''refs'') as_array))) (Option.bind (jget plan ''participants'') as_array)"

definition blocks_agent :: "agent_move \<Rightarrow> string \<Rightarrow> bool" where
  "blocks_agent m agent \<longleftrightarrow> am_agent_id m = agent
     \<and> (am_side m = Source \<or> am_step m \<in> set [StPickedUp, StImported, StStaged, StClaimed, StActivating])"

definition reserves_ref :: "agent_move \<Rightarrow> registration \<Rightarrow> bool" where
  "reserves_ref m q \<longleftrightarrow> am_side m = Receiver \<and> (before_boundary Receiver (am_step m) \<or> am_step m = StActivating)
     \<and> am_agent_id m \<noteq> rg_agent q \<and> plan_names (am_plan m) q"

definition check_moving_registration :: "node \<Rightarrow> registration \<Rightarrow> mutation_error + unit" where
  "check_moving_registration n q =
    (case find (\<lambda>m. blocks_agent m (rg_agent q) \<or> reserves_ref m q) (open_moves n) of
       Some m \<Rightarrow> Inl (refuse ''agent_moving'' (Some (move_detail m))) | None \<Rightarrow> Inr ())"

definition on_other_machine :: "string \<Rightarrow> mutation_error" where
  "on_other_machine machine = refuse ''session_on_other_machine'' (Some (JObj [(''machine_id'', JStr machine)]))"

definition text_or_null :: "string option \<Rightarrow> json" where
  "text_or_null x = (case x of None \<Rightarrow> JNull | Some t \<Rightarrow> JStr t)"

definition claim_error :: "claim_refusal \<Rightarrow> mutation_error" where
  "claim_error e = (case e of ClaimIntegrityFailed \<Rightarrow> refuse ''claim_integrity_failed'' None
     | HeldElsewhere holder name epoch \<Rightarrow> refuse ''held_elsewhere'' (Some (JObj [(''epoch'', JNum (PosInt (nat epoch))),
         (''holder'', text_or_null holder), (''holder_name'', text_or_null name)])))"

text \<open>The checks of who may register: the agent, data held elsewhere, open moves, the claim.\<close>

definition check_agent :: "node \<Rightarrow> registration \<Rightarrow> mutation_error + unit" where
  "check_agent n q =
    (if \<not> nd_cut_over n then Inl (refuse ''authority_not_cut_over'' None)
     else (case nd_agents n (rg_agent q) of None \<Rightarrow> Inl (refuse ''unknown_agent'' None)
     | Some (Some gone) \<Rightarrow> Inl (refuse ''gone'' (Some gone))
     | Some None \<Rightarrow>
       (case find (\<lambda>r. sr_held_on r \<noteq> None \<and> (sr_key r = rg_key q \<or> host_key r = Some (rg_harness q, rg_session q))) (nd_sessions n) of
          Some r \<Rightarrow> Inl (on_other_machine (the (sr_held_on r)))
        | None \<Rightarrow> bind_res (check_moving_registration n q) (\<lambda>_.
            map_err claim_error (check_registration_claim (nd_claims n) (rg_agent q))))))"

definition agent_detail :: "session_row \<Rightarrow> json" where
  "agent_detail r = JObj [(''agent_id'', JStr (sr_agent_id r))]"

definition bound_elsewhere :: "session_row \<Rightarrow> mutation_error" where
  "bound_elsewhere r = refuse ''session_bound_elsewhere'' (Some (JObj [(''agent_id'', JStr (sr_agent_id r)),
     (''ref'', JStr (sr_ref r)), (''ref_kind'', JStr (sr_ref_kind r))]))"

text \<open>The binding a registration takes over under a new reference or a new host kind.\<close>

datatype takeover = InPlace | Rekeyed session_row | HostChanged session_row

definition host_change :: "node \<Rightarrow> registration \<Rightarrow> mutation_error + takeover" where
  "host_change n q = (case rg_runner q of None \<Rightarrow> Inr InPlace
     | Some runner \<Rightarrow> (case runner_session_owner n runner (rg_session q) of None \<Rightarrow> Inr InPlace
       | Some r \<Rightarrow> if sr_agent_id r = rg_agent q \<and> sr_ref_kind r \<noteq> rg_ref_kind q then
            (case sr_held_on r of Some machine \<Rightarrow> Inl (on_other_machine machine) | None \<Rightarrow> Inr (HostChanged r))
          else Inr InPlace))"

definition find_takeover :: "node \<Rightarrow> registration \<Rightarrow> mutation_error + takeover" where
  "find_takeover n q =
    (let by_ref = find_ref n (rg_key q); by_session = find_host n (rg_harness q) (rg_session q) in
     if some_and (\<lambda>r. sr_agent_id r \<noteq> rg_agent q) by_ref then
       Inl (refuse ''ref_bound_elsewhere'' (map_option agent_detail by_ref))
     else (case by_session of
       Some r \<Rightarrow>
         if sr_agent_id r \<noteq> rg_agent q \<or> sr_ref_kind r \<noteq> rg_ref_kind q then Inl (bound_elsewhere r)
         else if sr_ref r = rg_ref q then Inr InPlace
         else if by_ref \<noteq> None then Inl (refuse ''ref_bound_elsewhere'' (map_option agent_detail by_ref))
         else Inr (Rekeyed r)
     | None \<Rightarrow> if by_ref = None then host_change n q else Inr InPlace))"

definition previous_key :: "registration \<Rightarrow> takeover \<Rightarrow> session_key" where
  "previous_key q t = (case t of HostChanged r \<Rightarrow> sr_key r | Rekeyed r \<Rightarrow> (rg_ref_kind q, sr_ref r) | InPlace \<Rightarrow> rg_key q)"

definition check_runner :: "node \<Rightarrow> registration \<Rightarrow> takeover \<Rightarrow> mutation_error + unit" where
  "check_runner n q t =
    (case (case rg_runner q of Some r \<Rightarrow> Some r
           | None \<Rightarrow> Option.bind (find_ref n (rg_ref_kind q, snd (previous_key q t))) sr_runner) of
       None \<Rightarrow> Inr ()
     | Some runner \<Rightarrow> (case runner_session_owner n runner (rg_session q) of None \<Rightarrow> Inr ()
       | Some r \<Rightarrow> if sr_key r \<noteq> previous_key q t then Inl (bound_elsewhere r) else Inr ()))"

definition plan_registration :: "node \<Rightarrow> registration \<Rightarrow> mutation_error + takeover \<times> network_plan option" where
  "plan_registration n q =
    bind_res (check_agent n q) (\<lambda>_. bind_res (find_takeover n q) (\<lambda>t. bind_res (check_runner n q t) (\<lambda>_.
      case rg_network q of None \<Rightarrow> Inr (t, None)
      | Some (network, _) \<Rightarrow> bind_res (plan_network n (previous_key q t) network) (\<lambda>p. Inr (t, Some p)))))"

text \<open>The writes. Renaming a binding renames its history with it.\<close>

definition rename_history :: "session_key \<Rightarrow> session_key \<Rightarrow> node \<Rightarrow> node option" where
  "rename_history old new n = put_history (map (\<lambda>(k, e). (if k = old then new else k, e)) (nd_history n)) n"

definition rename_binding :: "registration \<Rightarrow> takeover \<Rightarrow> node \<Rightarrow> node option" where
  "rename_binding q t n = (case t of InPlace \<Rightarrow> Some n
     | HostChanged r \<Rightarrow> Option.bind (put_sessions (map (\<lambda>x. if sr_key x = sr_key r
           then x\<lparr>sr_ref_kind := rg_ref_kind q, sr_ref := rg_ref q, sr_harness := Some (rg_harness q)\<rparr> else x) (nd_sessions n)) n)
         (rename_history (sr_key r) (rg_key q))
     | Rekeyed r \<Rightarrow> Option.bind (put_sessions (map (\<lambda>x. if sr_key x = (rg_ref_kind q, sr_ref r)
           then x\<lparr>sr_ref := rg_ref q\<rparr> else x) (nd_sessions n)) n)
         (rename_history (rg_ref_kind q, sr_ref r) (rg_key q)))"

definition registered_by :: "registration \<Rightarrow> takeover \<Rightarrow> node \<Rightarrow> string" where
  "registered_by q t n = (case t of InPlace \<Rightarrow> rg_by q | Rekeyed r \<Rightarrow> sr_registered_by r
     | HostChanged _ \<Rightarrow> (case find_ref n (rg_key q) of Some r \<Rightarrow> sr_registered_by r | None \<Rightarrow> rg_by q))"

definition updated_row :: "registration \<Rightarrow> string \<Rightarrow> session_row \<Rightarrow> session_row" where
  "updated_row q by r = r\<lparr>sr_harness := Some (rg_harness q), sr_session_id := Some (rg_session q),
     sr_project_root := (case rg_root q of Some p \<Rightarrow> p | None \<Rightarrow> sr_project_root r), sr_registered_by := by,
     sr_registered_at := rg_now q, sr_runner := (case rg_runner q of Some x \<Rightarrow> Some x | None \<Rightarrow> sr_runner r), sr_ended_at := None\<rparr>"

definition inserted_row :: "registration \<Rightarrow> string \<Rightarrow> session_row" where
  "inserted_row q by = \<lparr>sr_agent_id = rg_agent q, sr_ref_kind = rg_ref_kind q, sr_ref = rg_ref q, sr_harness = Some (rg_harness q),
     sr_session_id = Some (rg_session q), sr_project_root = (case rg_root q of Some p \<Rightarrow> p | None \<Rightarrow> []), sr_registered_by = by,
     sr_registered_at = rg_now q, sr_runner = rg_runner q, sr_ended_at = None, sr_held_on = None\<rparr>"

definition upsert_binding :: "registration \<Rightarrow> string \<Rightarrow> node \<Rightarrow> node option" where
  "upsert_binding q by n = put_sessions (case find_ref n (rg_key q) of
     Some r \<Rightarrow> set_row sr_key (updated_row q by r) (nd_sessions n) | None \<Rightarrow> nd_sessions n @ [inserted_row q by]) n"

definition write_registration :: "registration \<Rightarrow> takeover \<Rightarrow> network_plan option \<Rightarrow> node \<Rightarrow> (node \<times> session_binding) option" where
  "write_registration q t plan n =
    Option.bind (rename_binding q t n) (\<lambda>n1. Option.bind (upsert_binding q (registered_by q t n1) n1) (\<lambda>n2.
    Option.bind (case (rg_network q, plan) of
        (Some (network, now), Some p) \<Rightarrow> map_option fst (apply_network_plan n2 (rg_key q) network p now) | _ \<Rightarrow> Some n2) (\<lambda>n3.
    Option.bind (commit_sessions n3) (\<lambda>n4. map_option (\<lambda>r. (n4, binding_of r)) (find_ref n4 (rg_key q))))))"

definition register_session :: "node \<Rightarrow> registration \<Rightarrow> node \<times> (mutation_error + session_binding)" where
  "register_session n q = (case plan_registration n q of Inl e \<Rightarrow> (n, Inl e)
     | Inr (t, plan) \<Rightarrow> (case write_registration q t plan n of None \<Rightarrow> (n, Inl storage_error)
       | Some (n', b) \<Rightarrow> (n', Inr b)))"

section \<open>The end of a session\<close>

datatype session_end = EndNotFound | Ended int | AlreadyEnded int

definition end_session :: "node \<Rightarrow> string \<Rightarrow> string \<Rightarrow> string option \<Rightarrow> int \<Rightarrow> node \<times> (mutation_error + session_end)" where
  "end_session n harness session runner now =
    (case find_host n harness session of None \<Rightarrow> (n, Inr EndNotFound)
     | Some r \<Rightarrow>
       if sr_runner r \<noteq> None \<and> runner \<noteq> None \<and> sr_runner r \<noteq> runner then
         (n, Inl (refuse ''runner_mismatch'' (Some (JObj [(''runner'', text_or_null (sr_runner r))]))))
       else (case sr_ended_at r of Some t \<Rightarrow> (n, Inr (AlreadyEnded t))
       | None \<Rightarrow>
         let filled = (case runner of None \<Rightarrow> None
             | Some x \<Rightarrow> if sr_runner r = None \<and> runner_session_owner n x session \<noteq> None then None else runner);
           r' = r\<lparr>sr_ended_at := Some now, sr_runner := (case sr_runner r of None \<Rightarrow> filled | Some x \<Rightarrow> Some x)\<rparr> in
         (case put_sessions (set_row sr_key r' (nd_sessions n)) n of
            None \<Rightarrow> (n, Inl storage_error) | Some n' \<Rightarrow> (n', Inr (Ended now)))))"

record gone_session =
  gs_harness :: string
  gs_session :: string
  gs_runner :: "string option"
  gs_ended_at :: int

definition stamps :: "gone_session \<Rightarrow> session_row \<Rightarrow> bool" where
  "stamps g r \<longleftrightarrow> host_key r = Some (gs_harness g, gs_session g) \<and> sr_ended_at r = None
     \<and> (gs_runner g = None \<or> sr_runner r = None \<or> sr_runner r = gs_runner g)"

fun stamp_gone_sessions :: "node \<Rightarrow> gone_session list \<Rightarrow> node \<times> nat" where
  "stamp_gone_sessions n [] = (n, 0)"
| "stamp_gone_sessions n (g # gs) =
    (let (n', k) = stamp_gone_sessions (n\<lparr>nd_sessions := map (\<lambda>r. if stamps g r then r\<lparr>sr_ended_at := Some (gs_ended_at g)\<rparr> else r) (nd_sessions n)\<rparr>) gs in
     (n', length (filter (stamps g) (nd_sessions n)) + k))"

section \<open>Retention\<close>

definition retention_ms :: int where "retention_ms = 30 * 24 * 60 * 60 * 1000"

definition prune_batch :: nat where "prune_batch = 500"

definition expired :: "node \<Rightarrow> int \<Rightarrow> session_row \<Rightarrow> bool" where
  "expired n cutoff r \<longleftrightarrow> some_and (\<lambda>t. t < cutoff) (sr_ended_at r)
     \<and> sr_agent_id r \<notin> am_agent_id ` set (filter is_open (nd_moves n))"

fun drop_first :: "nat \<Rightarrow> ('a \<Rightarrow> bool) \<Rightarrow> 'a list \<Rightarrow> 'a list" where
  "drop_first k p [] = []"
| "drop_first k p (x # xs) = (if p x \<and> 0 < k then drop_first (k - 1) p xs else x # drop_first k p xs)"

text \<open>A deleted binding takes its history with it. Which rows of a batch go first is the database's
  choice; here the first ones.\<close>

definition prune_once :: "node \<Rightarrow> int \<Rightarrow> node" where
  "prune_once n cutoff =
    (let rows = drop_first prune_batch (expired n cutoff) (nd_sessions n) in
     n\<lparr>nd_sessions := rows, nd_history := filter (\<lambda>e. fst e \<in> sr_key ` set rows) (nd_history n)\<rparr>)"

definition cutoff_at :: "int \<Rightarrow> int" where
  "cutoff_at now = max (now - retention_ms) (- (2 ^ 63))"

function prune_loop :: "int \<Rightarrow> node \<Rightarrow> node \<times> nat" where
  "prune_loop cutoff n =
    (let n' = prune_once n cutoff; deleted = length (nd_sessions n) - length (nd_sessions n') in
     if deleted < prune_batch then (n', deleted)
     else (let (n'', k) = prune_loop cutoff n' in (n'', deleted + k)))"
  by pat_completeness auto
termination
  by (relation "measure (\<lambda>(_, n). length (nd_sessions n))") (auto simp: prune_batch_def)

declare prune_loop.simps [simp del]

definition prune_ended_sessions :: "node \<Rightarrow> int \<Rightarrow> node \<times> nat" where
  "prune_ended_sessions n now = prune_loop (cutoff_at now) n"

section \<open>The sessions of an agent\<close>

record session_cursor =
  cr_registered_at :: int
  cr_ref_kind :: string
  cr_ref :: string

record agent_session =
  as_runner :: "string option"
  as_session :: "string option"
  as_harness :: "string option"
  as_ref_kind :: string
  as_ref :: string
  as_project_root :: "string option"
  as_registered_at :: int
  as_ended_at :: "int option"
  as_network :: string
  as_held_on :: "string option"

definition network_absent :: string where "network_absent = ''unknown''"

definition current_network :: "node \<Rightarrow> session_key \<Rightarrow> string" where
  "current_network n k = (case current_entry n k of None \<Rightarrow> network_absent | Some e \<Rightarrow> ne_network e)"

definition agent_session_of :: "node \<Rightarrow> session_row \<Rightarrow> agent_session" where
  "agent_session_of n r = \<lparr>as_runner = sr_runner r, as_session = sr_session_id r, as_harness = sr_harness r,
     as_ref_kind = sr_ref_kind r, as_ref = sr_ref r, as_project_root = sb_root (binding_of r),
     as_registered_at = sr_registered_at r, as_ended_at = sr_ended_at r, as_network = current_network n (sr_key r),
     as_held_on = sr_held_on r\<rparr>"

definition after_cursor :: "session_cursor option \<Rightarrow> session_row \<Rightarrow> bool" where
  "after_cursor after r = (case after of None \<Rightarrow> True | Some c \<Rightarrow> sr_registered_at r < cr_registered_at c
     \<or> sr_registered_at r = cr_registered_at c \<and> (cr_ref_kind c < sr_ref_kind r
        \<or> sr_ref_kind r = cr_ref_kind c \<and> cr_ref c < sr_ref r))"

definition in_list_order :: "session_row list \<Rightarrow> session_row list" where
  "in_list_order rows = sort_key (\<lambda>r. - sr_registered_at r) (sort_key sr_ref_kind (sort_key sr_ref rows))"

definition agent_sessions_filtered ::
  "node \<Rightarrow> string \<Rightarrow> session_cursor option \<Rightarrow> nat \<Rightarrow> bool \<Rightarrow> mutation_error + agent_session list \<times> session_cursor option" where
  "agent_sessions_filtered n agent after limit only_open =
    (if nd_agents n agent = None then Inl (refuse ''unknown_agent'' None)
     else (let rows = take (Suc limit) (in_list_order (filter (\<lambda>r. sr_agent_id r = agent
             \<and> (only_open \<longrightarrow> sr_ended_at r = None) \<and> after_cursor after r) (nd_sessions n)));
           page = take limit rows in
         Inr (map (agent_session_of n) page,
           if length rows \<le> limit \<or> page = [] then None
           else Some \<lparr>cr_registered_at = sr_registered_at (last page), cr_ref_kind = sr_ref_kind (last page), cr_ref = sr_ref (last page)\<rparr>)))"


section \<open>What the indexes and the foreign key keep\<close>

definition subst_row :: "('r \<Rightarrow> 'k) \<Rightarrow> 'k \<Rightarrow> 'r \<Rightarrow> 'r list \<Rightarrow> 'r list" where
  "subst_row key k m rows = map (\<lambda>x. if key x = k then m else x) rows"

lemma set_row_subst: "set_row key m rows = subst_row key (key m) m rows"
  by (simp add: set_row_def subst_row_def)

lemma subst_row_absent: "(\<And>x. x \<in> set rows \<Longrightarrow> key x \<noteq> k) \<Longrightarrow> subst_row key k m rows = rows"
  by (induction rows) (auto simp: subst_row_def)

lemma set_subst_row: "x \<in> set (subst_row key k m rows) \<longleftrightarrow> (x \<in> set rows \<and> key x \<noteq> k) \<or> (x = m \<and> k \<in> key ` set rows)"
  by (auto simp: subst_row_def split: if_splits)

context unique_table begin

lemma free_subst: "pairwise_free clash rows \<Longrightarrow> (\<And>x. x \<in> set rows \<Longrightarrow> key x \<noteq> k \<Longrightarrow> \<not> clash m x) \<Longrightarrow>
    pairwise_free clash (subst_row key k m rows)"
proof (induction rows)
  case (Cons x xs)
  have free: "pairwise_free clash xs" "\<And>y. y \<in> set xs \<Longrightarrow> \<not> clash x y" using Cons.prems(1) by (auto simp: pairwise_free_def)
  show ?case
  proof (cases "key x = k")
    case True
    then have k: "key y \<noteq> k" if "y \<in> set xs" for y using free(2) that same_key by metis
    then have "subst_row key k m xs = xs" by (rule subst_row_absent)
    then show ?thesis using True free(1) k Cons.prems(2) by (simp add: subst_row_def pairwise_free_def)
  next
    case False
    have "\<not> clash x y" if "y \<in> set (subst_row key k m xs)" for y
      using that free(2) Cons.prems(2) [of x] False clash_sym by (auto simp: set_subst_row)
    then show ?thesis using False Cons.IH [OF free(1)] Cons.prems(2) by (simp add: subst_row_def pairwise_free_def)
  qed
qed (simp add: subst_row_def pairwise_free_def)

end

interpretation ss: unique_table session_clash sr_key
  by unfold_locales (unfold session_clash_def, metis, simp)

definition entry_key :: "session_key \<times> net_entry \<Rightarrow> session_key \<times> int" where
  "entry_key e = (fst e, ne_since (snd e))"

lemma entry_clash_key: "entry_clash a b \<longleftrightarrow> entry_key a = entry_key b"
  by (auto simp: entry_clash_def entry_key_def)

interpretation hs: unique_table entry_clash entry_key
  by unfold_locales (simp_all add: entry_clash_key)

lemma entries_free: "pairwise_free entry_clash h \<longleftrightarrow> distinct (map entry_key h)"
  by (auto simp: hs.free_iff entry_clash_key)

definition sessions_ok :: "node \<Rightarrow> bool" where
  "sessions_ok n \<longleftrightarrow> pairwise_free session_clash (nd_sessions n) \<and> list_all row_check (nd_sessions n)
     \<and> pairwise_free entry_clash (nd_history n) \<and> list_all (\<lambda>e. ne_network (snd e) \<in> set network_values) (nd_history n)
     \<and> list_all (\<lambda>e. fst e \<in> sr_key ` set (nd_sessions n)) (nd_history n)
     \<and> (\<forall>k. length (network_history n k) \<le> history_max)"

lemma find_ref_Some: "find_ref n k = Some r \<Longrightarrow> r \<in> set (nd_sessions n) \<and> sr_key r = k"
  by (auto simp: find_ref_def dest!: find_SomeD)

lemma find_ref_None: "find_ref n k = None \<longleftrightarrow> k \<notin> sr_key ` set (nd_sessions n)"
  by (auto simp: find_ref_def find_None_iff)

lemma find_ref_in: "pairwise_free session_clash (nd_sessions n) \<Longrightarrow> r \<in> set (nd_sessions n) \<Longrightarrow> find_ref n (sr_key r) = Some r"
  by (simp add: find_ref_def ss.find_key)

lemma same_session:
  "pairwise_free session_clash rows \<Longrightarrow> x \<in> set rows \<Longrightarrow> r \<in> set rows \<Longrightarrow> sr_key x = sr_key r \<Longrightarrow> x = r"
  by (simp add: ss.free_iff distinct_map inj_on_def)

lemma find_host_Some: "find_host n h s = Some r \<Longrightarrow> r \<in> set (nd_sessions n) \<and> host_key r = Some (h, s)"
  by (auto simp: find_host_def dest!: find_SomeD)

lemma find_host_in: "pairwise_free session_clash (nd_sessions n) \<Longrightarrow> r \<in> set (nd_sessions n) \<Longrightarrow> host_key r = Some (h, s) \<Longrightarrow> find_host n h s = Some r"
  unfolding find_host_def by (rule ss.find_unique) (auto simp: session_clash_def)

lemma owner_Some: "runner_session_owner n x s = Some r \<Longrightarrow> r \<in> set (nd_sessions n) \<and> runner_key r = Some (x, s)"
  by (auto simp: runner_session_owner_def dest!: find_SomeD)

lemma owner_in: "pairwise_free session_clash (nd_sessions n) \<Longrightarrow> r \<in> set (nd_sessions n) \<Longrightarrow> runner_key r = Some (x, s) \<Longrightarrow> runner_session_owner n x s = Some r"
  unfolding runner_session_owner_def by (rule ss.find_unique) (auto simp: session_clash_def)

section \<open>The history of one binding\<close>

lemma set_network_history: "e \<in> set (network_history n k) \<longleftrightarrow> (k, e) \<in> set (nd_history n)"
  by (force simp: network_history_def)

lemma history_rising:
  assumes "pairwise_free entry_clash (nd_history n)"
  shows "sorted_wrt (<) (map ne_since (network_history n k))"
proof -
  have "distinct (map ne_since (map snd (filter (\<lambda>e. fst e = k) h)))" if "distinct (map entry_key h)" for h
    using that by (induction h) (auto simp: entry_key_def image_iff)
  then have "distinct (map ne_since (network_history n k))"
    using assms by (simp add: entries_free network_history_def distinct_map inj_on_def)
  then show ?thesis by (simp add: strict_sorted_iff network_history_def)
qed

lemma current_entry_last: "current_entry n k = (if network_history n k = [] then None else Some (last (network_history n k)))"
  by (simp add: current_entry_def split: list.split)

lemma sort_key_snoc:
  assumes "\<And>x. x \<in> set xs \<Longrightarrow> f x \<le> f y"
  shows "sort_key f (xs @ [y]) = sort_key f xs @ [y]"
proof (rule properties_for_sort_key)
  have *: "filter (\<lambda>x. f k = f x) (sort_key f xs) = filter (\<lambda>x. f k = f x) xs" for k
    using sort_key_stable [of f "f k" xs] by (simp add: eq_commute)
  show "filter (\<lambda>x. f k = f x) (sort_key f xs @ [y]) = filter (\<lambda>x. f k = f x) (xs @ [y])" if "k \<in> set (sort_key f xs @ [y])" for k
    by (simp add: *)
qed (use assms in \<open>auto simp: sorted_append\<close>)

lemma network_history_snoc:
  assumes "\<And>x. x \<in> set (network_history n k) \<Longrightarrow> ne_since x \<le> ne_since e"
  shows "network_history (n\<lparr>nd_history := nd_history n @ [(k, e)]\<rparr>) k = network_history n k @ [e]"
  using assms unfolding set_network_history
  by (simp add: network_history_def) (rule sort_key_snoc, auto)

lemma network_history_other: "k \<noteq> k' \<Longrightarrow> network_history (n\<lparr>nd_history := nd_history n @ [(k, e)]\<rparr>) k' = network_history n k'"
  by (simp add: network_history_def)

text \<open>A plan made on a history, and carried out on it: the plan never fails unless the clock is at its
  end, and keeps the history rising and within its cap.\<close>

definition clock_left :: "node \<Rightarrow> bool" where
  "clock_left n \<longleftrightarrow> list_all (\<lambda>e. ne_since (snd e) < i64_max) (nd_history n)"

lemma sorted_last: "sorted (map f xs) \<Longrightarrow> x \<in> set xs \<Longrightarrow> f x \<le> f (last xs)"
  by (induction xs rule: rev_induct) (auto simp: sorted_append)

lemma last_largest: "current_entry n k = Some c \<Longrightarrow> x \<in> set (network_history n k) \<Longrightarrow> ne_since x \<le> ne_since c"
  using sorted_last [of ne_since "network_history n k" x]
  by (simp add: current_entry_last split: if_splits) (simp add: network_history_def)

definition history_grows :: "net_entry list \<Rightarrow> string \<Rightarrow> network_change \<Rightarrow> int \<Rightarrow> net_entry list \<Rightarrow> bool" where
  "history_grows old network change now new \<longleftrightarrow> (case change of
     UnchangedAt e \<Rightarrow> new = old \<and> old \<noteq> [] \<and> e = last old \<and> ne_network e = network
   | Recorded e \<Rightarrow> new = old @ [e] \<and> ne_network e = network \<and> now \<le> ne_since e \<and> (\<forall>x\<in>set old. ne_since x < ne_since e)
       \<and> (old = [] \<or> ne_network (last old) \<noteq> network) \<and> length new \<le> history_max)"

lemma plan_network_Inr:
  assumes "plan_network n k network = Inr plan"
  shows "network \<in> set network_values"
    "plan = KeepEntry e \<Longrightarrow> current_entry n k = Some e \<and> ne_network e = network"
    "plan = AppendAfter prev \<Longrightarrow> prev = map_option ne_since (current_entry n k) \<and> length (network_history n k) < history_max
       \<and> (\<forall>c. current_entry n k = Some c \<longrightarrow> ne_network c \<noteq> network)"
  using assms by (auto simp: plan_network_def check_network_def bind_res_eq_Inr Let_def split: if_splits option.splits)

lemma apply_plan_ok:
  assumes free: "pairwise_free entry_clash (nd_history n)" and plan: "plan_network n k network = Inr plan" and clock: "clock_left n"
    and vals: "list_all (\<lambda>e. ne_network (snd e) \<in> set network_values) (nd_history n)"
  obtains n' c where "apply_network_plan n k network plan now = Some (n', c)"
    "history_grows (network_history n k) network c now (network_history n' k)"
    "\<And>k'. k' \<noteq> k \<Longrightarrow> network_history n' k' = network_history n k'"
    "pairwise_free entry_clash (nd_history n')" "list_all (\<lambda>e. ne_network (snd e) \<in> set network_values) (nd_history n')"
    "n' = n\<lparr>nd_history := nd_history n'\<rparr>" "set (map fst (nd_history n')) \<subseteq> insert k (set (map fst (nd_history n)))"
proof (cases plan)
  case (KeepEntry e)
  then have "current_entry n k = Some e" "ne_network e = network" using plan_network_Inr(2) [OF plan] by simp_all
  then show ?thesis using free vals KeepEntry
    by (intro that [of n "UnchangedAt e"]) (auto simp: apply_network_plan_def history_grows_def current_entry_last split: if_splits)
next
  case (AppendAfter prev)
  define e where "e = \<lparr>ne_network = network, ne_since = entry_time prev now\<rparr>"
  define n' where "n' = n\<lparr>nd_history := nd_history n @ [(k, e)]\<rparr>"
  have p: "prev = map_option ne_since (current_entry n k)" "length (network_history n k) < history_max"
    "\<forall>c. current_entry n k = Some c \<longrightarrow> ne_network c \<noteq> network" using plan_network_Inr(3) [OF plan AppendAfter] by simp_all
  have later: "ne_since x < ne_since e" if x: "x \<in> set (network_history n k)" for x
  proof -
    obtain c where c: "current_entry n k = Some c" using x by (cases "current_entry n k") (auto simp: current_entry_last split: if_splits)
    then have "(k, c) \<in> set (nd_history n)" by (auto simp: current_entry_last set_network_history [symmetric] split: if_splits)
    then have "ne_since c < i64_max" using clock by (auto simp: clock_left_def list_all_iff)
    then show ?thesis using last_largest [OF c x] by (simp add: e_def p(1) c entry_time_def)
  qed
  then have "(k, x) \<in> set (nd_history n) \<Longrightarrow> ne_since x < ne_since e" for x by (simp add: set_network_history)
  then have f: "pairwise_free entry_clash (nd_history n @ [(k, e)])"
    using free by (fastforce simp: hs.free_append entry_clash_def)
  have v: "list_all (\<lambda>e. ne_network (snd e) \<in> set network_values) (nd_history n @ [(k, e)])"
    using vals plan_network_Inr(1) [OF plan] by (simp add: e_def)
  have h: "network_history n' k = network_history n k @ [e]"
    unfolding n'_def by (rule network_history_snoc) (use later in force)
  have now: "now \<le> ne_since e" by (simp add: e_def entry_time_def split: option.split)
  have ap: "apply_network_plan n k network plan now = Some (n', Recorded e)"
    using f v by (simp add: apply_network_plan_def AppendAfter put_history_def n'_def e_def [symmetric] Let_def)
  have g: "history_grows (network_history n k) network (Recorded e) now (network_history n' k)"
    using h later now p by (auto simp: history_grows_def e_def current_entry_last split: if_splits)
  show ?thesis by (rule that [OF ap g]) (use f v in \<open>auto simp: n'_def network_history_other\<close>)
qed

section \<open>What a registration takes over\<close>

definition effective_runner :: "node \<Rightarrow> registration \<Rightarrow> takeover \<Rightarrow> string option" where
  "effective_runner n q t = (case rg_runner q of Some r \<Rightarrow> Some r
     | None \<Rightarrow> Option.bind (find_ref n (rg_ref_kind q, snd (previous_key q t))) sr_runner)"

lemma check_runner_alt: "check_runner n q t = (case effective_runner n q t of None \<Rightarrow> Inr ()
     | Some runner \<Rightarrow> (case runner_session_owner n runner (rg_session q) of None \<Rightarrow> Inr ()
       | Some r \<Rightarrow> if sr_key r \<noteq> previous_key q t then Inl (bound_elsewhere r) else Inr ()))"
  by (simp add: check_runner_def effective_runner_def)

text \<open>The row a registration goes on from, and what every other row leaves free for it.\<close>

definition leaves_free :: "node \<Rightarrow> registration \<Rightarrow> takeover \<Rightarrow> session_row \<Rightarrow> bool" where
  "leaves_free n q t x \<longleftrightarrow> sr_key x \<noteq> rg_key q \<and> host_key x \<noteq> Some (rg_harness q, rg_session q)
     \<and> (\<forall>run. effective_runner n q t = Some run \<longrightarrow> runner_key x \<noteq> Some (run, rg_session q))"

definition takes_over :: "node \<Rightarrow> registration \<Rightarrow> takeover \<Rightarrow> bool" where
  "takes_over n q t \<longleftrightarrow> (case t of InPlace \<Rightarrow> True
     | Rekeyed r \<Rightarrow> r \<in> set (nd_sessions n) \<and> sr_ref_kind r = rg_ref_kind q \<and> host_key r = Some (rg_harness q, rg_session q)
         \<and> rg_key q \<notin> sr_key ` set (nd_sessions n)
     | HostChanged r \<Rightarrow> r \<in> set (nd_sessions n) \<and> rg_runner q \<noteq> None \<and> sr_session_id r = Some (rg_session q)
         \<and> rg_key q \<notin> sr_key ` set (nd_sessions n))
   \<and> (\<forall>x\<in>set (nd_sessions n). if sr_key x = previous_key q t then sr_agent_id x = rg_agent q \<and> sr_held_on x = None else leaves_free n q t x)"

lemma check_agent_Inr:
  assumes "check_agent n q = Inr u"
  shows "nd_cut_over n" "nd_agents n (rg_agent q) = Some None" "check_moving_registration n q = Inr ()"
    "check_registration_claim (nd_claims n) (rg_agent q) = Inr ()"
    "\<And>x. x \<in> set (nd_sessions n) \<Longrightarrow> sr_key x = rg_key q \<or> host_key x = Some (rg_harness q, rg_session q) \<Longrightarrow> sr_held_on x = None"
  using assms by (auto simp: check_agent_def bind_res_eq_Inr find_None_iff map_err_def split: if_splits option.splits sum.splits)

lemma find_takeover_Inr:
  assumes free: "pairwise_free session_clash (nd_sessions n)" and t: "find_takeover n q = Inr t"
    and held: "\<And>x. x \<in> set (nd_sessions n) \<Longrightarrow> sr_key x = rg_key q \<or> host_key x = Some (rg_harness q, rg_session q) \<Longrightarrow> sr_held_on x = None"
    and run: "check_runner n q t = Inr u"
  shows "takes_over n q t"
proof -
  let ?h = "find_host n (rg_harness q) (rg_session q)"
  have ref: "sr_agent_id x = rg_agent q" if "x \<in> set (nd_sessions n)" "sr_key x = rg_key q" for x
    using t find_ref_in [OF free that(1)] that(2) by (auto simp: find_takeover_def Let_def split: if_splits)
  have runner: "runner_key x \<noteq> Some (r, rg_session q)" if "effective_runner n q t = Some r" "x \<in> set (nd_sessions n)" "sr_key x \<noteq> previous_key q t" for x r
    using run that owner_in [OF free that(2), of r "rg_session q"] by (auto simp: check_runner_alt)
  have host: "sr_key x = sr_key r" if "?h = Some r" "x \<in> set (nd_sessions n)" "host_key x = Some (rg_harness q, rg_session q)" for x r
    using find_host_in [OF free that(2,3)] that(1) by simp
  show ?thesis
  proof (cases t)
    case InPlace
    have "sr_key x = rg_key q" if "x \<in> set (nd_sessions n)" "host_key x = Some (rg_harness q, rg_session q)" for x
      using find_host_in [OF free that] t InPlace
      by (auto simp: find_takeover_def Let_def sr_key_def rg_key_def split: if_splits)
    then show ?thesis using InPlace ref held runner by (auto simp: takes_over_def leaves_free_def previous_key_def)
  next
    case (Rekeyed r)
    then have r: "?h = Some r" "sr_agent_id r = rg_agent q" "sr_ref_kind r = rg_ref_kind q" "find_ref n (rg_key q) = None"
      using t by (auto simp: find_takeover_def host_change_def Let_def split: if_splits option.splits)
    have p: "previous_key q t = sr_key r" by (simp add: Rekeyed previous_key_def sr_key_def r(3))
    have m: "r \<in> set (nd_sessions n)" "host_key r = Some (rg_harness q, rg_session q)" using find_host_Some [OF r(1)] by simp_all
    moreover have "sr_agent_id x = rg_agent q \<and> sr_held_on x = None" if x: "x \<in> set (nd_sessions n)" "sr_key x = sr_key r" for x
    proof -
      have "x = r" by (rule same_session [OF free x(1) m(1) x(2)])
      then show ?thesis using r(2) held [OF m(1)] m(2) by simp
    qed
    moreover have "leaves_free n q t x" if x: "x \<in> set (nd_sessions n)" "sr_key x \<noteq> sr_key r" for x
      using runner [OF _ x(1)] host [OF r(1) x(1)] x r(4) by (auto simp: leaves_free_def p find_ref_None image_iff)
    ultimately show ?thesis using r(3,4) unfolding takes_over_def p by (simp add: Rekeyed find_ref_None)
  next
    case (HostChanged r)
    then have r: "?h = None" "find_ref n (rg_key q) = None" "host_change n q = Inr t"
      using t by (auto simp: find_takeover_def Let_def split: if_splits option.splits)
    then obtain x where x: "rg_runner q = Some x" "runner_session_owner n x (rg_session q) = Some r" "sr_agent_id r = rg_agent q" "sr_held_on r = None"
      using HostChanged by (auto simp: host_change_def split: if_splits option.splits)
    have p: "previous_key q t = sr_key r" by (simp add: HostChanged previous_key_def)
    have m: "r \<in> set (nd_sessions n)" "sr_session_id r = Some (rg_session q)"
      using owner_Some [OF x(2)] by (auto simp: runner_key_def split: option.splits)
    moreover have "sr_agent_id y = rg_agent q \<and> sr_held_on y = None" if y: "y \<in> set (nd_sessions n)" "sr_key y = sr_key r" for y
    proof -
      have "y = r" by (rule same_session [OF free y(1) m(1) y(2)])
      then show ?thesis using x by simp
    qed
    moreover have "leaves_free n q t y" if y: "y \<in> set (nd_sessions n)" "sr_key y \<noteq> sr_key r" for y
      using runner [OF _ y(1)] find_host_in [OF free y(1)] r(1,2) y by (auto simp: leaves_free_def p find_ref_None image_iff)
    ultimately show ?thesis using r(2) x(1) unfolding takes_over_def p by (simp add: HostChanged find_ref_None)
  qed
qed

lemma plan_registration_Inr:
  assumes free: "pairwise_free session_clash (nd_sessions n)" and p: "plan_registration n q = Inr (t, plan)"
  shows "takes_over n q t" "check_agent n q = Inr ()" "rg_network q = None \<Longrightarrow> plan = None"
    "rg_network q = Some (network, now) \<Longrightarrow> \<exists>np. plan = Some np \<and> plan_network n (previous_key q t) network = Inr np"
  using p find_takeover_Inr [OF free _ check_agent_Inr(5)]
  by (auto simp: plan_registration_def bind_res_eq_Inr split: option.splits)

section \<open>The writes of a registration\<close>

definition moved_row :: "registration \<Rightarrow> takeover \<Rightarrow> session_row \<Rightarrow> session_row" where
  "moved_row q t r = (case t of InPlace \<Rightarrow> r | Rekeyed _ \<Rightarrow> r\<lparr>sr_ref := rg_ref q\<rparr>
     | HostChanged _ \<Rightarrow> r\<lparr>sr_ref_kind := rg_ref_kind q, sr_ref := rg_ref q, sr_harness := Some (rg_harness q)\<rparr>)"

lemma moved_row_keeps [simp]:
  "sr_agent_id (moved_row q t r) = sr_agent_id r" "sr_session_id (moved_row q t r) = sr_session_id r"
  "sr_runner (moved_row q t r) = sr_runner r" "sr_held_on (moved_row q t r) = sr_held_on r"
  "sr_registered_by (moved_row q t r) = sr_registered_by r" "row_check (moved_row q t r) = row_check r"
  "sr_project_root (moved_row q t r) = sr_project_root r" "runner_key (moved_row q t r) = runner_key r"
  by (auto simp: moved_row_def row_check_def runner_key_def split: takeover.split option.split)

definition moved_history :: "registration \<Rightarrow> takeover \<Rightarrow> (session_key \<times> net_entry) list \<Rightarrow> (session_key \<times> net_entry) list" where
  "moved_history q t h = map (\<lambda>(k, e). (if k = previous_key q t then rg_key q else k, e)) h"

lemma previous_in:
  assumes "takes_over n q t" "t \<noteq> InPlace"
  obtains r where "r \<in> set (nd_sessions n)" "sr_key r = previous_key q t" "rg_key q \<notin> sr_key ` set (nd_sessions n)"
    "t = Rekeyed r \<or> t = HostChanged r" "sr_key (moved_row q t r) = rg_key q"
proof (cases t)
  case (Rekeyed r)
  then show ?thesis using assms by (intro that [of r]) (auto simp: takes_over_def previous_key_def sr_key_def rg_key_def moved_row_def)
next
  case (HostChanged r)
  then show ?thesis using assms by (intro that [of r]) (auto simp: takes_over_def previous_key_def sr_key_def rg_key_def moved_row_def)
qed (use assms in simp)

lemma moved_history_free:
  assumes ok: "sessions_ok n" and t: "takes_over n q t"
  shows "pairwise_free entry_clash (moved_history q t (nd_history n))"
    "list_all (\<lambda>e. ne_network (snd e) \<in> set network_values) (moved_history q t (nd_history n))"
proof -
  have keys: "fst e \<in> sr_key ` set (nd_sessions n)" if "e \<in> set (nd_history n)" for e
    using ok that by (auto simp: sessions_ok_def list_all_iff)
  let ?f = "\<lambda>k. if k = previous_key q t then rg_key q else k"
  have f: "inj_on ?f (sr_key ` set (nd_sessions n))"
  proof (cases "t = InPlace")
    case False
    obtain r where "rg_key q \<notin> sr_key ` set (nd_sessions n)" using previous_in [OF t False] by blast
    then show ?thesis by (fastforce simp: inj_on_def image_iff)
  qed (simp add: previous_key_def inj_on_def)
  have "map entry_key (moved_history q t (nd_history n)) = map (map_prod ?f id) (map entry_key (nd_history n))"
    by (auto simp: moved_history_def entry_key_def)
  moreover have "inj_on (map_prod ?f id) (set (map entry_key (nd_history n)))"
    using keys by (intro inj_on_subset [OF map_prod_inj_on [OF f inj_on_id [of UNIV]]]) (auto simp: entry_key_def)
  moreover have "distinct (map entry_key (nd_history n))" using ok by (simp add: sessions_ok_def entries_free)
  ultimately show "pairwise_free entry_clash (moved_history q t (nd_history n))"
    unfolding entries_free by (simp only: distinct_map [where f = "map_prod ?f id"] simp_thms)
  show "list_all (\<lambda>e. ne_network (snd e) \<in> set network_values) (moved_history q t (nd_history n))"
    using ok by (auto simp: sessions_ok_def moved_history_def list_all_iff)
qed

lemma map_one_row:
  assumes "pairwise_free session_clash rows" "r \<in> set rows" "sr_key r = k"
  shows "map (\<lambda>x. if sr_key x = k then f x else x) rows = subst_row sr_key k (f r) rows"
  using same_session [OF assms(1) _ assms(2)] assms(3) by (auto simp: subst_row_def)

lemma rename_binding_alt: "t \<noteq> InPlace \<Longrightarrow> rename_binding q t n =
    Option.bind (put_sessions (map (\<lambda>x. if sr_key x = previous_key q t then moved_row q t x else x) (nd_sessions n)) n)
      (rename_history (previous_key q t) (rg_key q))"
  by (cases t) (simp_all add: rename_binding_def moved_row_def previous_key_def cong: if_cong)

lemma rename_result:
  assumes ok: "sessions_ok n" and t: "takes_over n q t"
  obtains n1 where "rename_binding q t n = Some n1" "nd_history n1 = moved_history q t (nd_history n)"
    "n1 = n\<lparr>nd_sessions := nd_sessions n1, nd_history := nd_history n1\<rparr>"
    "pairwise_free session_clash (nd_sessions n1)" "list_all row_check (nd_sessions n1)"
    "\<And>x. x \<in> set (nd_sessions n1) \<and> sr_key x \<noteq> rg_key q \<longleftrightarrow> x \<in> set (nd_sessions n) \<and> sr_key x \<noteq> previous_key q t"
    "find_ref n1 (rg_key q) = map_option (moved_row q t) (find_ref n (previous_key q t))"
proof (cases "t = InPlace")
  case True
  then have "moved_history q t h = h" for h by (auto simp: moved_history_def previous_key_def intro: map_idI)
  moreover have "find_ref n (rg_key q) = map_option (moved_row q InPlace) (find_ref n (rg_key q))"
    by (cases "find_ref n (rg_key q)") (simp_all add: moved_row_def)
  ultimately show ?thesis using ok True
    by (intro that [of n]) (auto simp: rename_binding_def sessions_ok_def previous_key_def)
next
  case False
  obtain r where r: "r \<in> set (nd_sessions n)" "sr_key r = previous_key q t" "rg_key q \<notin> sr_key ` set (nd_sessions n)"
    "t = Rekeyed r \<or> t = HostChanged r" "sr_key (moved_row q t r) = rg_key q" using previous_in [OF t False] by metis
  define rows where "rows = subst_row sr_key (previous_key q t) (moved_row q t r) (nd_sessions n)"
  have free: "pairwise_free session_clash (nd_sessions n)" "list_all row_check (nd_sessions n)" using ok by (simp_all add: sessions_ok_def)
  have rest: "leaves_free n q t x" if "x \<in> set (nd_sessions n)" "sr_key x \<noteq> previous_key q t" for x
    using t that unfolding takes_over_def by metis
  have "\<not> session_clash (moved_row q t r) x" if x: "x \<in> set (nd_sessions n)" "sr_key x \<noteq> previous_key q t" for x
  proof -
    have "\<not> session_clash r x" using ss.free_pair [OF free(1) r(1) x(1)] r(2) x(2) by simp
    moreover have "host_key (moved_row q t r) = host_key r \<or> host_key (moved_row q t r) = Some (rg_harness q, rg_session q)"
      using r(4) t by (auto simp: moved_row_def host_key_def takes_over_def split: option.splits)
    ultimately show ?thesis using rest [OF x] r(5) unfolding session_clash_def leaves_free_def by (metis moved_row_keeps(8))
  qed
  then have f: "pairwise_free session_clash rows" unfolding rows_def by (rule ss.free_subst [OF free(1)])
  have c: "list_all row_check rows" using free(2) r(1) by (auto simp: rows_def list_all_iff set_subst_row)
  have put: "put_sessions rows n = Some (n\<lparr>nd_sessions := rows\<rparr>)" using f c by (simp add: put_sessions_def)
  have h: "put_history (moved_history q t (nd_history n)) (n\<lparr>nd_sessions := rows\<rparr>)
      = Some (n\<lparr>nd_sessions := rows, nd_history := moved_history q t (nd_history n)\<rparr>)"
    using moved_history_free [OF ok t] by (simp add: put_history_def)
  have ren: "rename_binding q t n = Some (n\<lparr>nd_sessions := rows, nd_history := moved_history q t (nd_history n)\<rparr>)"
    using put h map_one_row [OF free(1) r(1,2), of "moved_row q t"]
    by (simp add: rename_binding_alt [OF False] rename_history_def rows_def moved_history_def)
  have prev: "previous_key q t \<in> sr_key ` set (nd_sessions n)" using r(1,2) by (metis image_eqI)
  then have "moved_row q t r \<in> set rows" by (simp add: rows_def set_subst_row)
  then have "find (\<lambda>x. sr_key x = rg_key q) rows = Some (moved_row q t r)" using ss.find_key [OF f] r(5) by metis
  moreover have "find_ref n (previous_key q t) = Some r" using find_ref_in [OF free(1) r(1)] r(2) by simp
  moreover have "x \<in> set rows \<and> sr_key x \<noteq> rg_key q \<longleftrightarrow> x \<in> set (nd_sessions n) \<and> sr_key x \<noteq> previous_key q t" for x
    using r(3,5) by (auto simp: rows_def set_subst_row image_iff)
  ultimately show ?thesis using f c by (intro that [OF ren]) (simp_all add: find_ref_def)
qed

lemma upsert_result:
  assumes free: "pairwise_free session_clash (nd_sessions n1)" "list_all row_check (nd_sessions n1)"
    and m: "m = (case find_ref n1 (rg_key q) of Some r \<Rightarrow> updated_row q by r | None \<Rightarrow> inserted_row q by)"
    and rest: "\<And>x. x \<in> set (nd_sessions n1) \<Longrightarrow> sr_key x \<noteq> rg_key q \<Longrightarrow> \<not> session_clash m x" and "row_check m"
  obtains n2 where "upsert_binding q by n1 = Some n2" "n2 = n1\<lparr>nd_sessions := nd_sessions n2\<rparr>"
    "pairwise_free session_clash (nd_sessions n2)" "list_all row_check (nd_sessions n2)"
    "find_ref n2 (rg_key q) = Some m"
    "\<And>x. x \<in> set (nd_sessions n2) \<longleftrightarrow> x = m \<or> x \<in> set (nd_sessions n1) \<and> sr_key x \<noteq> rg_key q"
proof -
  define rows where "rows = (case find_ref n1 (rg_key q) of Some r \<Rightarrow> set_row sr_key m (nd_sessions n1) | None \<Rightarrow> nd_sessions n1 @ [m])"
  have k: "sr_key m = rg_key q"
    using m by (auto simp: updated_row_def inserted_row_def sr_key_def rg_key_def dest!: find_ref_Some split: option.splits)
  have f: "pairwise_free session_clash rows"
    using free(1) rest k by (auto simp: rows_def find_ref_None ss.free_append image_iff intro!: ss.free_set_row split: option.split)
  have s: "x \<in> set rows \<longleftrightarrow> x = m \<or> x \<in> set (nd_sessions n1) \<and> sr_key x \<noteq> rg_key q" for x
  proof (cases "find_ref n1 (rg_key q)")
    case None
    then have "sr_key x \<noteq> rg_key q" if "x \<in> set (nd_sessions n1)" for x using that by (metis find_ref_None image_eqI)
    then show ?thesis using None by (auto simp: rows_def)
  next
    case (Some r)
    have "rg_key q \<in> sr_key ` set (nd_sessions n1)" using find_ref_Some [OF Some] by (metis image_eqI)
    then show ?thesis using Some k by (auto simp: rows_def set_row_subst set_subst_row)
  qed
  have c: "list_all row_check rows" using free(2) \<open>row_check m\<close> s by (auto simp: list_all_iff)
  have "upsert_binding q by n1 = Some (n1\<lparr>nd_sessions := rows\<rparr>)"
    using f c by (auto simp: upsert_binding_def rows_def m put_sessions_def split: option.splits)
  moreover have "find (\<lambda>x. sr_key x = rg_key q) rows = Some m" using ss.find_key [OF f, of m] s k by metis
  ultimately show ?thesis using f c s by (intro that [of "n1\<lparr>nd_sessions := rows\<rparr>"]) (simp_all add: find_ref_def)
qed

lemma moved_network_history:
  assumes ok: "sessions_ok n" and t: "takes_over n q t" and h: "nd_history n1 = moved_history q t (nd_history n)"
  shows "network_history n1 (rg_key q) = network_history n (previous_key q t)"
    "k \<noteq> rg_key q \<Longrightarrow> k \<noteq> previous_key q t \<Longrightarrow> network_history n1 k = network_history n k"
    "previous_key q t \<noteq> rg_key q \<Longrightarrow> network_history n1 (previous_key q t) = []"
proof -
  let ?f = "\<lambda>e. (if fst e = previous_key q t then rg_key q else fst e, snd e)"
  have m: "nd_history n1 = map ?f (nd_history n)" by (auto simp: h moved_history_def)
  have snd_f: "map snd (filter P (map ?f xs)) = map snd (filter (P \<circ> ?f) xs)" for P xs by (induction xs) auto
  have "fst (?f e) = rg_key q \<longleftrightarrow> fst e = previous_key q t" if "e \<in> set (nd_history n)" for e
  proof (cases "t = InPlace")
    case False
    have "fst e \<in> sr_key ` set (nd_sessions n)" using ok that by (auto simp: sessions_ok_def list_all_iff)
    moreover obtain r where "rg_key q \<notin> sr_key ` set (nd_sessions n)" using previous_in [OF t False] by blast
    ultimately show ?thesis by auto
  qed (simp add: previous_key_def)
  then show "network_history n1 (rg_key q) = network_history n (previous_key q t)"
    unfolding network_history_def m snd_f by (intro arg_cong [where f = "sort_key ne_since"] arg_cong [where f = "map snd"] filter_cong) auto
  show "network_history n1 k = network_history n k" if "k \<noteq> rg_key q" "k \<noteq> previous_key q t"
    unfolding network_history_def m snd_f using that
    by (intro arg_cong [where f = "sort_key ne_since"] arg_cong [where f = "map snd"] filter_cong) auto
  show "network_history n1 (previous_key q t) = []" if "previous_key q t \<noteq> rg_key q"
    unfolding network_history_def m snd_f using that by (simp add: filter_empty_conv)
qed

definition real_refusal :: "'e + 'a \<Rightarrow> ('e \<Rightarrow> string) \<Rightarrow> bool" where
  "real_refusal r code \<longleftrightarrow> (case r of Inl e \<Rightarrow> code e \<noteq> ''storage_error'' | Inr _ \<Rightarrow> True)"

lemma real_refusal_simps [simp]: "real_refusal (Inl e) code \<longleftrightarrow> code e \<noteq> ''storage_error''" "real_refusal (Inr x) code"
  by (simp_all add: real_refusal_def)

lemma real_refusal_bind: "real_refusal r code \<Longrightarrow> (\<And>x. r = Inr x \<Longrightarrow> real_refusal (f x) code) \<Longrightarrow> real_refusal (bind_res r f) code"
  by (cases r) (simp_all add: bind_res_def)

lemma me_code_refuse [simp]: "me_code (refuse c d) = c"
  by (simp add: refuse_def)

lemma registration_refusals:
  "real_refusal (check_moving_registration n q) me_code" "real_refusal (check_agent n q) me_code"
  "real_refusal (find_takeover n q) me_code" "real_refusal (check_runner n q t) me_code"
  "real_refusal (plan_network n k v) me_code" "real_refusal (plan_registration n q) me_code"
proof -
  show moving: "real_refusal (check_moving_registration n q) me_code"
    by (simp add: check_moving_registration_def split: option.split)
  have "real_refusal (map_err claim_error (check_registration_claim (nd_claims n) (rg_agent q))) me_code"
    by (auto simp: map_err_def claim_error_def split: sum.split claim_refusal.split)
  then show agent: "real_refusal (check_agent n q) me_code" unfolding check_agent_def
    using moving by (auto simp: on_other_machine_def intro!: real_refusal_bind split: option.split)
  have "real_refusal (host_change n q) me_code" by (auto simp: host_change_def on_other_machine_def split: option.split)
  then show take: "real_refusal (find_takeover n q) me_code"
    by (auto simp: find_takeover_def Let_def bound_elsewhere_def split: option.split)
  show runner: "real_refusal (check_runner n q t) me_code" for t
    by (auto simp: check_runner_alt bound_elsewhere_def split: option.split)
  show net: "real_refusal (plan_network n k v) me_code" for k v
    by (auto simp: plan_network_def check_network_def Let_def intro!: real_refusal_bind split: option.split)
  show "real_refusal (plan_registration n q) me_code" unfolding plan_registration_def
    by (auto intro!: real_refusal_bind agent take runner net split: option.split)
qed


definition registered :: "registration \<Rightarrow> session_row \<Rightarrow> bool" where
  "registered q r \<longleftrightarrow> sr_key r = rg_key q \<and> sr_agent_id r = rg_agent q \<and> host_key r = Some (rg_harness q, rg_session q)
     \<and> sr_ended_at r = None \<and> sr_held_on r = None \<and> sr_registered_at r = rg_now q \<and> (rg_runner q = None \<or> sr_runner r = rg_runner q)"

lemma registered_row:
  assumes ok: "sessions_ok n" and t: "takes_over n q t" and who: "by \<in> set [''orchestrator'', ''host'', ''move'']"
    and m: "m = (case map_option (moved_row q t) (find_ref n (previous_key q t)) of
      Some r \<Rightarrow> updated_row q by r | None \<Rightarrow> inserted_row q by)"
    and kept: "\<And>r. find_ref n (previous_key q t) = Some r \<Longrightarrow> sr_key (moved_row q t r) = rg_key q"
  shows "registered q m" "row_check m" "\<And>x. x \<in> set (nd_sessions n) \<Longrightarrow> sr_key x \<noteq> previous_key q t \<Longrightarrow> \<not> session_clash m x"
proof -
  have free: "pairwise_free session_clash (nd_sessions n)" using ok by (simp add: sessions_ok_def)
  have old: "sr_agent_id r = rg_agent q" "sr_held_on r = None" if "find_ref n (previous_key q t) = Some r" for r
    using t find_ref_Some [OF that] unfolding takes_over_def by metis+
  show reg: "registered q m"
  proof (cases "find_ref n (previous_key q t)")
    case None
    then show ?thesis by (simp add: m registered_def inserted_row_def host_key_def sr_key_def rg_key_def)
  next
    case (Some r)
    have "sr_key (updated_row q by r') = sr_key r'" for r' by (simp add: updated_row_def sr_key_def)
    then show ?thesis using old [OF Some] kept [OF Some] Some
      by (simp add: m registered_def host_key_def) (simp add: updated_row_def split: option.split)
  qed
  show "row_check m" using who by (auto simp: m row_check_def updated_row_def inserted_row_def split: option.split)
  show "\<not> session_clash m x" if x: "x \<in> set (nd_sessions n)" "sr_key x \<noteq> previous_key q t" for x
  proof -
    have l: "leaves_free n q t x" using t x unfolding takes_over_def by metis
    have "runner_key m = map_option (\<lambda>r. (r, rg_session q)) (effective_runner n q t)"
    proof (cases "rg_runner q")
      case None
      then have "previous_key q t = (rg_ref_kind q, snd (previous_key q t))"
        using t by (auto simp: takes_over_def previous_key_def rg_key_def sr_key_def split: takeover.splits)
      then show ?thesis using None
        by (auto simp: m runner_key_def updated_row_def inserted_row_def effective_runner_def split: option.split)
    qed (auto simp: m runner_key_def updated_row_def inserted_row_def effective_runner_def split: option.split)
    then show ?thesis using l reg by (auto simp: session_clash_def registered_def leaves_free_def)
  qed
qed

lemma kept_key:
  assumes "takes_over n q t" "pairwise_free session_clash (nd_sessions n)" "find_ref n (previous_key q t) = Some r"
  shows "sr_key (moved_row q t r) = rg_key q"
proof (cases "t = InPlace")
  case True
  then show ?thesis using find_ref_Some [OF assms(3)] by (simp add: moved_row_def previous_key_def)
next
  case False
  obtain r' where r': "r' \<in> set (nd_sessions n)" "sr_key r' = previous_key q t" "sr_key (moved_row q t r') = rg_key q"
    using previous_in [OF assms(1) False] by metis
  have "r' = r" using find_ref_in [OF assms(2) r'(1)] r'(2) assms(3) by simp
  then show ?thesis using r'(3) by simp
qed

lemma plan_network_cong: "network_history n k = network_history n' k' \<Longrightarrow> plan_network n k v = plan_network n' k' v"
  by (simp add: plan_network_def current_entry_def)

lemma network_history_cong: "nd_history n = nd_history n' \<Longrightarrow> network_history n k = network_history n' k"
  by (simp add: network_history_def)

lemma find_ref_same:
  assumes "pairwise_free session_clash (nd_sessions n)" "pairwise_free session_clash (nd_sessions n')"
    "\<And>x. sr_key x = k \<Longrightarrow> x \<in> set (nd_sessions n) \<longleftrightarrow> x \<in> set (nd_sessions n')"
  shows "find_ref n k = find_ref n' k"
proof (cases "find_ref n k")
  case None
  then have "find_ref n' k = None" using assms(3) unfolding find_ref_None by (metis imageE image_eqI)
  then show ?thesis using None by simp
next
  case (Some x)
  then have "x \<in> set (nd_sessions n')" "sr_key x = k" using find_ref_Some [OF Some] assms(3) by blast+
  then show ?thesis using find_ref_in [OF assms(2)] Some by metis
qed

text \<open>The network step and the end of the transaction.\<close>

lemma network_step:
  assumes ok: "sessions_ok n" and clock: "clock_left n2" and free: "pairwise_free entry_clash (nd_history n2)"
    and vals: "list_all (\<lambda>e. ne_network (snd e) \<in> set network_values) (nd_history n2)"
    and same: "network_history n2 k = network_history n p"
    and none: "net = None \<Longrightarrow> plan = None"
    and some: "\<And>network now. net = Some (network, now) \<Longrightarrow> \<exists>np. plan = Some np \<and> plan_network n p network = Inr np"
  obtains n3 where "(case (net, plan) of (Some (network, now), Some np) \<Rightarrow> map_option fst (apply_network_plan n2 k network np now) | _ \<Rightarrow> Some n2) = Some n3"
    "n3 = n2\<lparr>nd_history := nd_history n3\<rparr>" "pairwise_free entry_clash (nd_history n3)"
    "list_all (\<lambda>e. ne_network (snd e) \<in> set network_values) (nd_history n3)"
    "case net of None \<Rightarrow> network_history n3 k = network_history n p
     | Some (network, now) \<Rightarrow> \<exists>c. history_grows (network_history n p) network c now (network_history n3 k)"
    "\<And>k'. k' \<noteq> k \<Longrightarrow> network_history n3 k' = network_history n2 k'"
    "length (network_history n3 k) \<le> history_max"
    "set (map fst (nd_history n3)) \<subseteq> insert k (set (map fst (nd_history n2)))"
proof -
  have cap: "length (network_history n p) \<le> history_max" using ok by (cases p) (simp add: sessions_ok_def)
  show ?thesis
  proof (cases net)
    case None
    then show ?thesis using none same free vals cap by (intro that [of n2]) auto
  next
    case (Some v)
    obtain network now where v: "v = (network, now)" by (cases v)
    obtain np where np: "plan = Some np" "plan_network n p network = Inr np" using some Some v by blast
    have "plan_network n2 k network = Inr np" using np(2) plan_network_cong [OF same] by simp
    then obtain n3 c where n3: "apply_network_plan n2 k network np now = Some (n3, c)"
      "history_grows (network_history n2 k) network c now (network_history n3 k)"
      "\<And>k'. k' \<noteq> k \<Longrightarrow> network_history n3 k' = network_history n2 k'"
      "pairwise_free entry_clash (nd_history n3)" "list_all (\<lambda>e. ne_network (snd e) \<in> set network_values) (nd_history n3)"
      "n3 = n2\<lparr>nd_history := nd_history n3\<rparr>" "set (map fst (nd_history n3)) \<subseteq> insert k (set (map fst (nd_history n2)))"
      using apply_plan_ok [OF free _ clock vals, of k network np now] by metis
    have "length (network_history n3 k) \<le> history_max"
      using n3(2) same cap by (auto simp: history_grows_def split: network_change.splits)
    moreover have "\<exists>c. history_grows (network_history n p) network c now (network_history n3 k)" using n3(2) same by auto
    ultimately show ?thesis using n3 Some v np(1) by (intro that [of n3]) auto
  qed
qed

lemma write_registration_result:
  assumes ok: "sessions_ok n" and clock: "clock_left n" and t: "takes_over n q t" and who: "rg_by q \<in> set [''orchestrator'', ''host'']"
    and none: "rg_network q = None \<Longrightarrow> plan = None"
    and some: "\<And>network now. rg_network q = Some (network, now) \<Longrightarrow> \<exists>np. plan = Some np \<and> plan_network n (previous_key q t) network = Inr np"
  obtains n' r where "write_registration q t plan n = Some (n', binding_of r)" "sessions_ok n'" "find_ref n' (rg_key q) = Some r" "registered q r"
    "case rg_network q of None \<Rightarrow> network_history n' (rg_key q) = network_history n (previous_key q t)
     | Some (network, now) \<Rightarrow> \<exists>c. history_grows (network_history n (previous_key q t)) network c now (network_history n' (rg_key q))"
    "\<And>k. k \<noteq> rg_key q \<Longrightarrow> k \<noteq> previous_key q t \<Longrightarrow> find_ref n' k = find_ref n k \<and> network_history n' k = network_history n k"
    "\<And>x. x \<in> set (nd_sessions n') \<longleftrightarrow> x = r \<or> x \<in> set (nd_sessions n) \<and> sr_key x \<noteq> previous_key q t"
    "n' = n\<lparr>nd_sessions := nd_sessions n', nd_history := nd_history n'\<rparr>"
proof -
  have free: "pairwise_free session_clash (nd_sessions n)" and checks: "list_all row_check (nd_sessions n)" using ok by (simp_all add: sessions_ok_def)
  obtain n1 where n1: "rename_binding q t n = Some n1" "nd_history n1 = moved_history q t (nd_history n)"
    "n1 = n\<lparr>nd_sessions := nd_sessions n1, nd_history := nd_history n1\<rparr>"
    "pairwise_free session_clash (nd_sessions n1)" "list_all row_check (nd_sessions n1)"
    "\<And>x. x \<in> set (nd_sessions n1) \<and> sr_key x \<noteq> rg_key q \<longleftrightarrow> x \<in> set (nd_sessions n) \<and> sr_key x \<noteq> previous_key q t"
    "find_ref n1 (rg_key q) = map_option (moved_row q t) (find_ref n (previous_key q t))"
    using rename_result [OF ok t] by metis
  define r where "r = (case find_ref n1 (rg_key q) of Some r \<Rightarrow> updated_row q (registered_by q t n1) r | None \<Rightarrow> inserted_row q (registered_by q t n1))"
  have who1: "registered_by q t n1 \<in> set [''orchestrator'', ''host'', ''move'']"
  proof -
    have "sr_registered_by x \<in> set [''orchestrator'', ''host'', ''move'']" if "x \<in> set (nd_sessions n)" for x
      using checks that by (auto simp: list_all_iff row_check_def)
    moreover have "sr_registered_by x \<in> set [''orchestrator'', ''host'', ''move'']" if "find_ref n1 (rg_key q) = Some x" for x
      using n1(5) find_ref_Some [OF that] by (auto simp: list_all_iff row_check_def)
    moreover have "x \<in> set (nd_sessions n)" if "t = Rekeyed x" for x using t that by (simp add: takes_over_def)
    ultimately show ?thesis using who unfolding registered_by_def by (cases t) (auto split: option.split)
  qed
  note reg = registered_row [OF ok t who1 r_def [unfolded n1(7)] kept_key [OF t free]]
  obtain n2 where n2: "upsert_binding q (registered_by q t n1) n1 = Some n2" "n2 = n1\<lparr>nd_sessions := nd_sessions n2\<rparr>"
    "pairwise_free session_clash (nd_sessions n2)" "list_all row_check (nd_sessions n2)" "find_ref n2 (rg_key q) = Some r"
    "\<And>x. x \<in> set (nd_sessions n2) \<longleftrightarrow> x = r \<or> x \<in> set (nd_sessions n1) \<and> sr_key x \<noteq> rg_key q"
    using upsert_result [OF n1(4,5) r_def _ reg(2)] reg(3) n1(6) by metis
  have h2: "nd_history n2 = moved_history q t (nd_history n)" using n2(2) n1(2) by (metis node.select_convs(6) node.surjective node.update_convs(5))
  note moved = moved_network_history [OF ok t h2]
  have clock2: "clock_left n2" using clock by (auto simp: clock_left_def h2 moved_history_def list_all_iff)
  obtain n3 where n3: "(case (rg_network q, plan) of (Some (network, now), Some np) \<Rightarrow> map_option fst (apply_network_plan n2 (rg_key q) network np now) | _ \<Rightarrow> Some n2) = Some n3"
    "n3 = n2\<lparr>nd_history := nd_history n3\<rparr>" "pairwise_free entry_clash (nd_history n3)"
    "list_all (\<lambda>e. ne_network (snd e) \<in> set network_values) (nd_history n3)"
    "case rg_network q of None \<Rightarrow> network_history n3 (rg_key q) = network_history n (previous_key q t)
     | Some (network, now) \<Rightarrow> \<exists>c. history_grows (network_history n (previous_key q t)) network c now (network_history n3 (rg_key q))"
    "\<And>k'. k' \<noteq> rg_key q \<Longrightarrow> network_history n3 k' = network_history n2 k'" "length (network_history n3 (rg_key q)) \<le> history_max"
    "set (map fst (nd_history n3)) \<subseteq> insert (rg_key q) (set (map fst (nd_history n2)))"
    by (rule network_step [OF ok clock2 moved_history_free [OF ok t, folded h2] moved(1)], erule none, erule some, rule that)
  have s3: "nd_sessions n3 = nd_sessions n2" using n3(2) by (metis node.select_convs(5) node.surjective node.update_convs(6))
  have rows: "x \<in> set (nd_sessions n3) \<longleftrightarrow> x = r \<or> x \<in> set (nd_sessions n) \<and> sr_key x \<noteq> previous_key q t" for x
    using n2(6) n1(6) s3 by metis
  have k: "sr_key r = rg_key q" using find_ref_Some [OF n2(5)] by simp
  have fk: "fst e \<in> sr_key ` set (nd_sessions n3)" if e: "e \<in> set (nd_history n3)" for e
  proof (cases "fst e = rg_key q")
    case True
    then show ?thesis using rows k by (metis image_eqI)
  next
    case False
    then have "fst e \<in> fst ` set (moved_history q t (nd_history n))" using n3(8) e by (auto simp: h2)
    then obtain e' where e': "e' \<in> set (nd_history n)" "fst e' = fst e" "fst e \<noteq> previous_key q t"
      using False by (auto simp: moved_history_def split: if_splits)
    then obtain x where "x \<in> set (nd_sessions n)" "sr_key x = fst e" using ok by (auto simp: sessions_ok_def list_all_iff)
    then show ?thesis using rows e'(3) by (metis image_eqI)
  qed
  have cap: "length (network_history n3 k') \<le> history_max" for k'
  proof -
    have "length (network_history n k') \<le> history_max" by (cases k') (use ok in \<open>simp add: sessions_ok_def\<close>)
    then show ?thesis using n3(6,7) moved(2,3) by (cases "k' = rg_key q"; cases "k' = previous_key q t") (simp_all add: history_max_def)
  qed
  have ok3: "sessions_ok n3" using n2(3,4) n3(3,4) fk cap by (simp add: sessions_ok_def s3 list_all_iff)
  have f3: "find_ref n3 (rg_key q) = Some r" using n2(5) by (simp add: find_ref_def s3)
  have "commit_sessions n3 = Some n3" using fk by (simp add: commit_sessions_def list_all_iff)
  then have w: "write_registration q t plan n = Some (n3, binding_of r)"
    using n1(1) n2(1) n3(1) f3 by (simp add: write_registration_def)
  have others: "find_ref n3 k' = find_ref n k' \<and> network_history n3 k' = network_history n k'" if "k' \<noteq> rg_key q" "k' \<noteq> previous_key q t" for k'
  proof
    show "find_ref n3 k' = find_ref n k'"
    proof (rule find_ref_same)
      show "x \<in> set (nd_sessions n3) \<longleftrightarrow> x \<in> set (nd_sessions n)" if x: "sr_key x = k'" for x
        unfolding rows using x k \<open>k' \<noteq> rg_key q\<close> \<open>k' \<noteq> previous_key q t\<close> by metis
    qed (use ok3 free in \<open>simp_all add: sessions_ok_def\<close>)
    show "network_history n3 k' = network_history n k'" using n3(6) moved(2) that by simp
  qed
  have frame: "n3 = n\<lparr>nd_sessions := nd_sessions n3, nd_history := nd_history n3\<rparr>"
  proof -
    obtain s1 h1 where a: "n1 = n\<lparr>nd_sessions := s1, nd_history := h1\<rparr>" using n1(3) by blast
    obtain s2 where b: "n2 = n1\<lparr>nd_sessions := s2\<rparr>" using n2(2) by blast
    obtain h3 where c: "n3 = n2\<lparr>nd_history := h3\<rparr>" using n3(2) by blast
    show ?thesis by (simp add: a b c)
  qed
  show ?thesis by (rule that [OF w ok3 f3 reg(1) n3(5) others rows frame])
qed

lemma register_result:
  assumes ok: "sessions_ok n" and clock: "clock_left n" and who: "rg_by q \<in> set [''orchestrator'', ''host'']"
  obtains (refused) e where "register_session n q = (n, Inl e)" "me_code e \<noteq> ''storage_error''" "plan_registration n q = Inl e"
  | (bound) n' t r where "register_session n q = (n', Inr (binding_of r))" "find_takeover n q = Inr t" "takes_over n q t" "check_agent n q = Inr ()"
      "sessions_ok n'" "find_ref n' (rg_key q) = Some r" "registered q r"
      "case rg_network q of None \<Rightarrow> network_history n' (rg_key q) = network_history n (previous_key q t)
       | Some (network, now) \<Rightarrow> \<exists>c. history_grows (network_history n (previous_key q t)) network c now (network_history n' (rg_key q))"
      "\<And>k. k \<noteq> rg_key q \<Longrightarrow> k \<noteq> previous_key q t \<Longrightarrow> find_ref n' k = find_ref n k \<and> network_history n' k = network_history n k"
      "\<And>x. x \<in> set (nd_sessions n') \<longleftrightarrow> x = r \<or> x \<in> set (nd_sessions n) \<and> sr_key x \<noteq> previous_key q t"
      "n' = n\<lparr>nd_sessions := nd_sessions n', nd_history := nd_history n'\<rparr>"
proof (cases "plan_registration n q")
  case (Inl e)
  then show ?thesis using registration_refusals(6) [of n q] by (intro refused [of e]) (simp_all add: register_session_def)
next
  case (Inr p)
  obtain t plan where p: "p = (t, plan)" by (cases p)
  have free: "pairwise_free session_clash (nd_sessions n)" using ok by (simp add: sessions_ok_def)
  note i = plan_registration_Inr [OF free Inr [unfolded p]]
  have t: "find_takeover n q = Inr t"
    using Inr by (auto simp: p plan_registration_def bind_res_eq_Inr split: option.splits)
  obtain n' r where w: "write_registration q t plan n = Some (n', binding_of r)" "sessions_ok n'" "find_ref n' (rg_key q) = Some r" "registered q r"
    "case rg_network q of None \<Rightarrow> network_history n' (rg_key q) = network_history n (previous_key q t)
     | Some (network, now) \<Rightarrow> \<exists>c. history_grows (network_history n (previous_key q t)) network c now (network_history n' (rg_key q))"
    "\<And>k. k \<noteq> rg_key q \<Longrightarrow> k \<noteq> previous_key q t \<Longrightarrow> find_ref n' k = find_ref n k \<and> network_history n' k = network_history n k"
    "\<And>x. x \<in> set (nd_sessions n') \<longleftrightarrow> x = r \<or> x \<in> set (nd_sessions n) \<and> sr_key x \<noteq> previous_key q t"
    "n' = n\<lparr>nd_sessions := nd_sessions n', nd_history := nd_history n'\<rparr>"
    by (rule write_registration_result [OF ok clock i(1) who], erule i(3), erule i(4), rule that)
  have "register_session n q = (n', Inr (binding_of r))" using Inr w(1) by (simp add: register_session_def p)
  from bound [OF this t i(1,2) w(2-8)] show ?thesis .
qed

text \<open>C3. Registering a session either refuses with a reason other than a storage error and writes nothing, or binds exactly
  the reference asked for. It takes over the binding that the same reference, host session or runner session had,
  together with its network history, extends that history by the network the host reported, and leaves every
  other binding, history and move as it was.\<close>

theorem register_session_exact:
  assumes "sessions_ok n" "clock_left n" "rg_by q \<in> set [''orchestrator'', ''host'']"
  shows "case register_session n q of (n', r) \<Rightarrow> (case r of
      Inl e \<Rightarrow> n' = n \<and> me_code e \<noteq> ''storage_error''
    | Inr b \<Rightarrow> sessions_ok n' \<and> nd_moves n' = nd_moves n \<and> (\<exists>t x. find_takeover n q = Inr t \<and> find_ref n' (rg_key q) = Some x \<and> b = binding_of x \<and> registered q x
        \<and> (case rg_network q of None \<Rightarrow> network_history n' (rg_key q) = network_history n (previous_key q t)
           | Some (network, now) \<Rightarrow> \<exists>c. history_grows (network_history n (previous_key q t)) network c now (network_history n' (rg_key q)))
        \<and> (\<forall>k. k \<in> {rg_key q, previous_key q t} \<or> find_ref n' k = find_ref n k \<and> network_history n' k = network_history n k)))"
proof (cases rule: register_result [OF assms])
  case 1
  then show ?thesis by simp
next
  case (2 n' t r)
  have "nd_moves n' = nd_moves n" by (subst 2(11)) simp
  moreover have "k \<in> {rg_key q, previous_key q t} \<or> find_ref n' k = find_ref n k \<and> network_history n' k = network_history n k" for k
    using 2(9) by blast
  ultimately show ?thesis unfolding 2(1) prod.case sum.case using 2(2,5-8) by blast
qed

section \<open>Changes that keep the references\<close>

lemma sessions_ok_rows:
  assumes "sessions_ok n" "pairwise_free session_clash rows" "list_all row_check rows" "sr_key ` set (nd_sessions n) \<subseteq> sr_key ` set rows"
  shows "sessions_ok (n\<lparr>nd_sessions := rows\<rparr>)"
  using assms by (auto simp: sessions_ok_def list_all_iff network_history_def)

lemma free_map_same:
  assumes "\<And>r. sr_key (f r) = sr_key r" "\<And>r. host_key (f r) = host_key r" "\<And>r. runner_key (f r) = runner_key r"
  shows "pairwise_free session_clash (map f rows) \<longleftrightarrow> pairwise_free session_clash rows"
  by (simp add: pairwise_free_def sorted_wrt_map session_clash_def assms)

lemma same_keys: "map sr_key rows' = map sr_key rows \<Longrightarrow> sr_key ` set rows' = sr_key ` set rows"
  by (metis list.set_map)

lemma set_row_keys: "map sr_key (set_row sr_key m rows) = map sr_key rows"
  by (auto simp: set_row_def)

lemma end_result:
  assumes ok: "sessions_ok n"
  obtains (kept) r where "end_session n harness session runner now = (n, r)" "\<And>t. r \<noteq> Inr (Ended t)" "\<And>e. r = Inl e \<Longrightarrow> me_code e \<noteq> ''storage_error''"
  | (ended) n' r r' where "end_session n harness session runner now = (n', Inr (Ended now))" "find_host n harness session = Some r" "sr_ended_at r = None"
      "n' = n\<lparr>nd_sessions := set_row sr_key r' (nd_sessions n)\<rparr>" "sessions_ok n'" "sr_key r' = sr_key r" "sr_agent_id r' = sr_agent_id r"
      "sr_ended_at r' = Some now" "host_key r' = host_key r" "sr_held_on r' = sr_held_on r"
proof -
  have free: "pairwise_free session_clash (nd_sessions n)" and checks: "list_all row_check (nd_sessions n)" using ok by (simp_all add: sessions_ok_def)
  show ?thesis
  proof (cases "find_host n harness session")
    case None
    then show ?thesis by (intro kept [of "Inr EndNotFound"]) (simp_all add: end_session_def)
  next
    case (Some r)
    have r: "r \<in> set (nd_sessions n)" "host_key r = Some (harness, session)" using find_host_Some [OF Some] by simp_all
    define mismatch where "mismatch \<longleftrightarrow> sr_runner r \<noteq> None \<and> runner \<noteq> None \<and> sr_runner r \<noteq> runner"
    define filled where "filled = (case runner of None \<Rightarrow> None
       | Some x \<Rightarrow> if sr_runner r = None \<and> runner_session_owner n x session \<noteq> None then None else runner)"
    define r' where "r' = r\<lparr>sr_ended_at := Some now, sr_runner := (case sr_runner r of None \<Rightarrow> filled | Some x \<Rightarrow> Some x)\<rparr>"
    have e: "end_session n harness session runner now = (if mismatch then (n, Inl (refuse ''runner_mismatch'' (Some (JObj [(''runner'', text_or_null (sr_runner r))]))))
        else (case sr_ended_at r of Some t \<Rightarrow> (n, Inr (AlreadyEnded t))
          | None \<Rightarrow> (case put_sessions (set_row sr_key r' (nd_sessions n)) n of None \<Rightarrow> (n, Inl storage_error) | Some n' \<Rightarrow> (n', Inr (Ended now)))))"
      unfolding end_session_def Some option.case mismatch_def r'_def filled_def Let_def by (rule refl)
    have same: "sr_key r' = sr_key r" "host_key r' = host_key r" "sr_agent_id r' = sr_agent_id r" "row_check r' = row_check r" "sr_held_on r' = sr_held_on r"
      by (simp_all add: r'_def sr_key_def host_key_def row_check_def)
    have "\<not> session_clash r' x" if x: "x \<in> set (nd_sessions n)" "sr_key x \<noteq> sr_key r'" for x
    proof -
      have nc: "\<not> session_clash r x" using ss.free_pair [OF free r(1) x(1)] x(2) same(1) by simp
      have "runner_key r' = runner_key r \<or> (\<exists>y. runner_key r' = Some (y, session) \<and> runner_session_owner n y session = None)"
        using r(2) by (auto simp: r'_def runner_key_def filled_def host_key_def split: option.splits if_splits)
      then show ?thesis using nc x(2) same(1,2) owner_in [OF free x(1)] unfolding session_clash_def by (metis option.distinct(1))
    qed
    then have f: "pairwise_free session_clash (set_row sr_key r' (nd_sessions n))" by (rule ss.free_set_row [OF free])
    have "row_check r" using checks r(1) by (simp add: list_all_iff)
    then have c: "list_all row_check (set_row sr_key r' (nd_sessions n))" using checks same(4) by (auto simp: set_row_def list_all_iff)
    have "sr_key ` set (set_row sr_key r' (nd_sessions n)) = sr_key ` set (nd_sessions n)" by (rule same_keys [OF set_row_keys])
    then have ok': "sessions_ok (n\<lparr>nd_sessions := set_row sr_key r' (nd_sessions n)\<rparr>)" by (intro sessions_ok_rows [OF ok f c]) simp
    have put: "put_sessions (set_row sr_key r' (nd_sessions n)) n = Some (n\<lparr>nd_sessions := set_row sr_key r' (nd_sessions n)\<rparr>)"
      using f c by (simp add: put_sessions_def)
    consider "mismatch" | t where "\<not> mismatch" "sr_ended_at r = Some t" | "\<not> mismatch" "sr_ended_at r = None" by (cases "sr_ended_at r") auto
    then show ?thesis
    proof cases
      case 3
      then have "end_session n harness session runner now = (n\<lparr>nd_sessions := set_row sr_key r' (nd_sessions n)\<rparr>, Inr (Ended now))" using e put by simp
      then show ?thesis by (rule ended [OF _ Some 3(2) refl ok' same(1) same(3) _ same(2) same(5)]) (simp add: r'_def)
    qed (use e in \<open>auto intro: kept\<close>)
  qed
qed

lemma stamped_same:
  "sr_key (if stamps g r then r\<lparr>sr_ended_at := e\<rparr> else r) = sr_key r"
  "host_key (if stamps g r then r\<lparr>sr_ended_at := e\<rparr> else r) = host_key r"
  "runner_key (if stamps g r then r\<lparr>sr_ended_at := e\<rparr> else r) = runner_key r"
  "sr_agent_id (if stamps g r then r\<lparr>sr_ended_at := e\<rparr> else r) = sr_agent_id r"
  by (auto simp: sr_key_def host_key_def runner_key_def split: option.split)

lemma stamp_one_ok:
  assumes "sessions_ok n"
  shows "sessions_ok (n\<lparr>nd_sessions := map (\<lambda>r. if stamps g r then r\<lparr>sr_ended_at := e\<rparr> else r) (nd_sessions n)\<rparr>)"
proof (rule sessions_ok_rows [OF assms])
  show "pairwise_free session_clash (map (\<lambda>r. if stamps g r then r\<lparr>sr_ended_at := e\<rparr> else r) (nd_sessions n))"
    using assms free_map_same [where f = "\<lambda>r. if stamps g r then r\<lparr>sr_ended_at := e\<rparr> else r", OF stamped_same(1-3)] by (simp add: sessions_ok_def)
  show "list_all row_check (map (\<lambda>r. if stamps g r then r\<lparr>sr_ended_at := e\<rparr> else r) (nd_sessions n))"
    using assms by (auto simp: sessions_ok_def list_all_iff row_check_def)
  show "sr_key ` set (nd_sessions n) \<subseteq> sr_key ` set (map (\<lambda>r. if stamps g r then r\<lparr>sr_ended_at := e\<rparr> else r) (nd_sessions n))"
    by (rule equalityD2 [OF same_keys]) (simp add: stamped_same)
qed

lemma set_network_result:
  assumes ok: "sessions_ok n" and clock: "clock_left n"
  obtains (refused) e where "set_session_network n h s v now = (n, Inl e)" "me_code e \<noteq> ''storage_error''"
  | (set) n' c r where "set_session_network n h s v now = (n', Inr c)" "find_host n h s = Some r" "sessions_ok n'"
      "history_grows (network_history n (sr_key r)) v c now (network_history n' (sr_key r))"
      "\<And>k. k \<noteq> sr_key r \<Longrightarrow> network_history n' k = network_history n k" "n' = n\<lparr>nd_history := nd_history n'\<rparr>"
proof -
  have h: "pairwise_free entry_clash (nd_history n)" "list_all (\<lambda>e. ne_network (snd e) \<in> set network_values) (nd_history n)"
    using ok by (simp_all add: sessions_ok_def)
  consider (bad) e where "check_network v = Inl e" | (none) "check_network v = Inr ()" "find_host n h s = None"
    | (full) r e where "check_network v = Inr ()" "find_host n h s = Some r" "plan_network n (sr_key r) v = Inl e"
    | (plan) r p where "check_network v = Inr ()" "find_host n h s = Some r" "plan_network n (sr_key r) v = Inr p"
    by (cases "check_network v"; cases "find_host n h s"; cases "plan_network n (sr_key (the (find_host n h s))) v") auto
  then show ?thesis
  proof cases
    case bad
    then show ?thesis by (intro refused [of e]) (auto simp: set_session_network_def check_network_def split: if_splits)
  next
    case none
    then show ?thesis by (intro refused [of "refuse ''not_found'' None"]) (simp_all add: set_session_network_def)
  next
    case full
    then show ?thesis using registration_refusals(5) [of n "sr_key r" v]
      by (intro refused [of e]) (simp_all add: set_session_network_def)
  next
    case plan
    obtain n' c where n': "apply_network_plan n (sr_key r) v p now = Some (n', c)"
      "history_grows (network_history n (sr_key r)) v c now (network_history n' (sr_key r))"
      "\<And>k'. k' \<noteq> sr_key r \<Longrightarrow> network_history n' k' = network_history n k'"
      "pairwise_free entry_clash (nd_history n')" "list_all (\<lambda>e. ne_network (snd e) \<in> set network_values) (nd_history n')"
      "n' = n\<lparr>nd_history := nd_history n'\<rparr>" "set (map fst (nd_history n')) \<subseteq> insert (sr_key r) (set (map fst (nd_history n)))"
      by (rule apply_plan_ok [OF h(1) plan(3) clock h(2), of now], rule that)
    have s: "nd_sessions n' = nd_sessions n" by (subst n'(6)) simp
    have r: "r \<in> set (nd_sessions n)" using find_host_Some [OF plan(2)] by simp
    have "fst e \<in> sr_key ` set (nd_sessions n)" if "e \<in> set (nd_history n')" for e
    proof -
      have "fst e = sr_key r \<or> fst e \<in> fst ` set (nd_history n)" using n'(7) that by auto
      then show ?thesis using r ok by (auto simp: sessions_ok_def list_all_iff)
    qed
    moreover have "length (network_history n' k) \<le> history_max" for k
    proof -
      have "length (network_history n k) \<le> history_max" by (cases k) (use ok in \<open>simp add: sessions_ok_def\<close>)
      then show ?thesis using n'(2,3) by (cases "k = sr_key r") (auto simp: history_grows_def split: network_change.splits)
    qed
    ultimately have "sessions_ok n'" using ok n'(4,5) by (simp add: sessions_ok_def s list_all_iff)
    moreover have "set_session_network n h s v now = (n', Inr c)" using plan n'(1) by (simp add: set_session_network_def)
    ultimately show ?thesis using set [OF _ plan(2) _ n'(2,3,6)] by blast
  qed
qed

text \<open>A history that ends at the last time there is cannot change any more: the next entry would be at
  the same time.\<close>

lemma full_clock_aux:
  assumes ok: "sessions_ok n" and r: "find_host n h s = Some r" and e: "current_entry n (sr_key r) = Some e" "ne_since e = i64_max"
    and v: "v \<in> set network_values" "v \<noteq> ne_network e" and room: "length (network_history n (sr_key r)) < history_max" and now: "now \<le> i64_max"
  shows "set_session_network n h s v now = (n, Inl storage_error)"
proof -
  have plan: "plan_network n (sr_key r) v = Inr (AppendAfter (Some i64_max))"
    using e v room by (simp add: plan_network_def check_network_def bind_res_def)
  have "entry_time (Some i64_max) now = i64_max" using now by (simp add: entry_time_def)
  moreover have "(sr_key r, e) \<in> set (nd_history n)" using e(1) by (auto simp: current_entry_last set_network_history [symmetric] split: if_splits)
  ultimately have "\<not> pairwise_free entry_clash (nd_history n @ [(sr_key r, \<lparr>ne_network = v, ne_since = entry_time (Some i64_max) now\<rparr>)])"
    using e(2) by (auto simp: hs.free_append entry_clash_def intro!: bexI [of _ "(sr_key r, e)"])
  then show ?thesis using v(1) r plan by (simp add: set_session_network_def check_network_def apply_network_plan_def put_history_def Let_def)
qed

section \<open>Retention deletes exactly what expired\<close>

lemma drop_first_sub: "set (drop_first k p xs) \<subseteq> set xs"
  by (induction k p xs rule: drop_first.induct) auto

lemma drop_first_sorted: "sorted_wrt R xs \<Longrightarrow> sorted_wrt R (drop_first k p xs)"
  by (induction k p xs rule: drop_first.induct) (auto dest: subsetD [OF drop_first_sub])

lemma drop_first_filter: "filter (\<lambda>x. \<not> p x) (drop_first k p xs) = filter (\<lambda>x. \<not> p x) xs"
  by (induction k p xs rule: drop_first.induct) auto

lemma drop_first_all: "length (filter p xs) \<le> k \<Longrightarrow> drop_first k p xs = filter (\<lambda>x. \<not> p x) xs"
  by (induction k p xs rule: drop_first.induct) auto

lemma drop_first_length: "length xs - length (drop_first k p xs) = min k (length (filter p xs))"
  "length (drop_first k p xs) \<le> length xs"
proof -
  have "length (drop_first k p xs) + min k (length (filter p xs)) = length xs"
    by (induction k p xs rule: drop_first.induct) auto
  then show "length xs - length (drop_first k p xs) = min k (length (filter p xs))" "length (drop_first k p xs) \<le> length xs" by simp_all
qed

definition pruned :: "node \<Rightarrow> int \<Rightarrow> node" where
  "pruned n cutoff = (let rows = filter (\<lambda>r. \<not> expired n cutoff r) (nd_sessions n) in
     n\<lparr>nd_sessions := rows, nd_history := filter (\<lambda>e. fst e \<in> sr_key ` set rows) (nd_history n)\<rparr>)"

lemma prune_loop_exact: "prune_loop cutoff n = (pruned n cutoff, length (filter (expired n cutoff) (nd_sessions n)))"
proof (induction cutoff n rule: prune_loop.induct)
  case (1 cutoff n)
  define n' where "n' = prune_once n cutoff"
  define rows where "rows = drop_first prune_batch (expired n cutoff) (nd_sessions n)"
  have n': "nd_sessions n' = rows" "nd_moves n' = nd_moves n" "nd_history n' = filter (\<lambda>e. fst e \<in> sr_key ` set rows) (nd_history n)"
    by (simp_all add: n'_def prune_once_def rows_def Let_def)
  have ex: "expired n' cutoff = expired n cutoff" by (simp add: expired_def n' fun_eq_iff)
  have len: "length (nd_sessions n) - length rows = min prune_batch (length (filter (expired n cutoff) (nd_sessions n)))"
    by (simp add: rows_def drop_first_length)
  show ?case
  proof (cases "length (nd_sessions n) - length rows < prune_batch")
    case True
    then have "rows = filter (\<lambda>r. \<not> expired n cutoff r) (nd_sessions n)" using len drop_first_all [of "expired n cutoff" "nd_sessions n" prune_batch] by (simp add: rows_def)
    then have p: "pruned n cutoff = n'" by (simp add: n'_def prune_once_def pruned_def rows_def Let_def)
    show ?thesis unfolding prune_loop.simps [of cutoff n] n'_def [symmetric] Let_def n'(1) p using True len by (simp add: min_def split: if_splits)
  next
    case False
    define live where "live = filter (\<lambda>r. \<not> expired n cutoff r) (nd_sessions n)"
    have l: "filter (\<lambda>r. \<not> expired n cutoff r) rows = live" by (simp add: rows_def drop_first_filter live_def)
    then have "sr_key ` set live \<subseteq> sr_key ` set rows" by (metis filter_is_subset image_mono)
    then have "filter (\<lambda>e. fst e \<in> sr_key ` set live) (filter (\<lambda>e. fst e \<in> sr_key ` set rows) (nd_history n))
        = filter (\<lambda>e. fst e \<in> sr_key ` set live) (nd_history n)"
      unfolding filter_filter by (intro filter_cong refl) blast
    then have "pruned n' cutoff = n'\<lparr>nd_sessions := live, nd_history := filter (\<lambda>e. fst e \<in> sr_key ` set live) (nd_history n)\<rparr>"
      by (simp only: pruned_def ex n' l Let_def)
    also have "\<dots> = pruned n cutoff"
      by (simp add: n'_def prune_once_def pruned_def live_def [symmetric] Let_def)
    finally have "pruned n' cutoff = pruned n cutoff" .
    moreover have "length rows + length (filter (expired n cutoff) (nd_sessions n)) = length (filter (expired n cutoff) rows) + length (nd_sessions n)"
      using sum_length_filter_compl [of "expired n cutoff" rows] sum_length_filter_compl [of "expired n cutoff" "nd_sessions n"]
        drop_first_filter [of "expired n cutoff" prune_batch "nd_sessions n"] by (simp add: rows_def [symmetric])
    moreover have "length rows \<le> length (nd_sessions n)" by (simp add: rows_def drop_first_length)
    moreover have "prune_loop cutoff n' = (pruned n' cutoff, length (filter (expired n' cutoff) (nd_sessions n')))"
      using 1 False by (simp add: n'_def [symmetric] n'(1))
    ultimately show ?thesis unfolding prune_loop.simps [of cutoff n] n'_def [symmetric] Let_def n'(1) ex using False by simp
  qed
qed

lemma length_network_history: "length (network_history n k) = length (filter (\<lambda>e. fst e = k) (nd_history n))"
  by (simp add: network_history_def)

lemma pruned_ok:
  assumes "sessions_ok n"
  shows "sessions_ok (pruned n cutoff)"
proof -
  define live where "live = filter (\<lambda>r. \<not> expired n cutoff r) (nd_sessions n)"
  define h where "h = filter (\<lambda>e. fst e \<in> sr_key ` set live) (nd_history n)"
  have p: "pruned n cutoff = n\<lparr>nd_sessions := live, nd_history := h\<rparr>" by (simp add: pruned_def live_def h_def Let_def)
  have cap: "length (network_history (n\<lparr>nd_sessions := live, nd_history := h\<rparr>) k) \<le> history_max" for k
  proof -
    have "length (filter P (filter Q xs)) \<le> length (filter P xs)" for P Q and xs :: "(session_key \<times> net_entry) list"
      by (induction xs) auto
    then have "length (filter (\<lambda>e. fst e = k) h) \<le> length (network_history n k)" by (simp add: h_def length_network_history del: filter_filter)
    also have "\<dots> \<le> history_max" by (cases k) (use assms in \<open>simp add: sessions_ok_def\<close>)
    finally show ?thesis by (simp add: length_network_history)
  qed
  have "pairwise_free session_clash live" "pairwise_free entry_clash h"
    unfolding live_def h_def using assms by (auto simp: sessions_ok_def intro: ss.free_subset hs.free_subset)
  moreover have "list_all row_check live" "list_all (\<lambda>e. ne_network (snd e) \<in> set network_values) h"
    "list_all (\<lambda>e. fst e \<in> sr_key ` set live) h"
    using assms by (auto simp: sessions_ok_def live_def h_def list_all_iff)
  ultimately show ?thesis using cap by (simp add: p sessions_ok_def)
qed

lemma pruned_history:
  assumes "r \<in> set (nd_sessions (pruned n cutoff))"
  shows "network_history (pruned n cutoff) (sr_key r) = network_history n (sr_key r)"
proof -
  have "filter (\<lambda>e. fst e = sr_key r) (nd_history (pruned n cutoff)) = filter (\<lambda>e. fst e = sr_key r) (nd_history n)"
    using assms by (auto simp: pruned_def Let_def intro!: filter_cong)
  then show ?thesis by (simp add: network_history_def)
qed

text \<open>C19. Pruning ended sessions finishes and deletes exactly the bindings that ended longer ago than the retention time
  and whose agent has no open move; the count it reports is the number deleted, and the bindings that stay keep
  their network histories.\<close>

theorem prune_exact:
  assumes "sessions_ok n" and "list_all (\<lambda>r. case sr_ended_at r of None \<Rightarrow> True | Some t \<Rightarrow> - (2 ^ 63) \<le> t) (nd_sessions n)"
  shows "case prune_ended_sessions n now of (n', k) \<Rightarrow>
    nd_sessions n' = filter (\<lambda>r. case sr_ended_at r of None \<Rightarrow> True | Some t \<Rightarrow> now - t \<le> retention_ms
      \<or> (\<exists>m\<in>set (nd_moves n). is_open m \<and> am_agent_id m = sr_agent_id r)) (nd_sessions n)
    \<and> k + length (nd_sessions n') = length (nd_sessions n) \<and> sessions_ok n' \<and> nd_moves n' = nd_moves n
    \<and> (\<forall>r\<in>set (nd_sessions n'). network_history n' (sr_key r) = network_history n (sr_key r))"
proof -
  have "\<not> expired n (cutoff_at now) r \<longleftrightarrow> (case sr_ended_at r of None \<Rightarrow> True | Some t \<Rightarrow> now - t \<le> retention_ms
      \<or> (\<exists>m\<in>set (nd_moves n). is_open m \<and> am_agent_id m = sr_agent_id r))" if "r \<in> set (nd_sessions n)" for r
    using assms(2) that by (force simp: list_all_iff expired_def cutoff_at_def split: option.split)
  then have "nd_sessions (pruned n (cutoff_at now)) = filter (\<lambda>r. case sr_ended_at r of None \<Rightarrow> True | Some t \<Rightarrow> now - t \<le> retention_ms
      \<or> (\<exists>m\<in>set (nd_moves n). is_open m \<and> am_agent_id m = sr_agent_id r)) (nd_sessions n)"
    by (auto simp: pruned_def Let_def intro!: filter_cong)
  moreover have "length (filter (expired n (cutoff_at now)) (nd_sessions n)) + length (nd_sessions (pruned n (cutoff_at now))) = length (nd_sessions n)"
    by (simp add: pruned_def Let_def sum_length_filter_compl)
  moreover have "nd_moves (pruned n (cutoff_at now)) = nd_moves n" by (simp add: pruned_def Let_def)
  ultimately show ?thesis using pruned_ok [OF assms(1)] pruned_history by (simp add: prune_ended_sessions_def prune_loop_exact)
qed

section \<open>Pages of sessions\<close>

text \<open>A client that asks for pages until there is no next one.\<close>

fun all_pages :: "nat \<Rightarrow> node \<Rightarrow> string \<Rightarrow> nat \<Rightarrow> bool \<Rightarrow> session_cursor option \<Rightarrow> agent_session list option" where
  "all_pages 0 n agent limit only_open after = None"
| "all_pages (Suc fuel) n agent limit only_open after =
    (case agent_sessions_filtered n agent after limit only_open of Inl _ \<Rightarrow> None
     | Inr (page, None) \<Rightarrow> Some page
     | Inr (page, Some c) \<Rightarrow> map_option (append page) (all_pages fuel n agent limit only_open (Some c)))"

definition before :: "session_row \<Rightarrow> session_row \<Rightarrow> bool" where
  "before a b \<longleftrightarrow> sr_registered_at b < sr_registered_at a
     \<or> sr_registered_at b = sr_registered_at a \<and> (sr_ref_kind a < sr_ref_kind b
        \<or> sr_ref_kind b = sr_ref_kind a \<and> sr_ref a < sr_ref b)"

definition cursor_of :: "session_row \<Rightarrow> session_cursor" where
  "cursor_of r = \<lparr>cr_registered_at = sr_registered_at r, cr_ref_kind = sr_ref_kind r, cr_ref = sr_ref r\<rparr>"

lemma after_cursor_of: "after_cursor (Some (cursor_of a)) b \<longleftrightarrow> before a b"
  by (simp add: after_cursor_def cursor_of_def before_def)

lemma in_list_order_simps [simp]: "set (in_list_order rows) = set rows" "length (in_list_order rows) = length rows"
  by (simp_all add: in_list_order_def)

lemma filter_in_list_order: "filter P (in_list_order rows) = in_list_order (filter P rows)"
  by (simp add: in_list_order_def filter_sort)

lemma insort_layers:
  fixes f :: "'a \<Rightarrow> 'b :: linorder"
  assumes "sorted_wrt (\<lambda>a b. f a < f b \<or> f a = f b \<and> R a b) zs" "sorted (map f zs)" "\<And>x. x \<in> set zs \<Longrightarrow> R y x"
  shows "sorted_wrt (\<lambda>a b. f a < f b \<or> f a = f b \<and> R a b) (insort_key f y zs)"
  using assms
proof (induction zs)
  case (Cons z zs)
  have "f z \<le> f x" if "x \<in> set zs" for x using Cons.prems(2) that by simp
  then have first: "f y < f x \<or> f y = f x \<and> R y x" if "f y \<le> f z" "x \<in> set (z # zs)" for x
  proof -
    have "f y \<le> f x" using \<open>\<And>x. x \<in> set zs \<Longrightarrow> f z \<le> f x\<close> [of x] that by (auto intro: order_trans)
    then show ?thesis using Cons.prems(3) [OF that(2)] by (auto simp: order.order_iff_strict)
  qed
  show ?case
  proof (cases "f y \<le> f z")
    case True
    then show ?thesis using Cons.prems(1) first by simp
  next
    case False
    then show ?thesis using Cons by (auto simp: set_insort_key)
  qed
qed simp

lemma sort_key_layers:
  fixes f :: "'a \<Rightarrow> 'b :: linorder"
  shows
  "sorted_wrt R ys \<Longrightarrow> sorted_wrt (\<lambda>a b. f a < f b \<or> f a = f b \<and> R a b) (sort_key f ys)"
  by (induction ys) (auto intro: insort_layers)

lemma in_list_order_sorted:
  assumes "distinct (map sr_key rows)"
  shows "sorted_wrt before (in_list_order rows)"
proof -
  have "sorted_wrt (\<lambda>a b. sr_key a \<noteq> sr_key b) rows" using assms by (induction rows) (auto simp: image_iff)
  from sort_key_layers [where f = "\<lambda>r. - sr_registered_at r", OF sort_key_layers [where f = sr_ref_kind, OF sort_key_layers [where f = sr_ref, OF this]]]
  show ?thesis unfolding in_list_order_def by (rule sorted_wrt_mono_rel [rotated]) (auto simp: before_def sr_key_def)
qed

definition listed :: "node \<Rightarrow> string \<Rightarrow> bool \<Rightarrow> session_row list" where
  "listed n agent only_open = in_list_order (filter (\<lambda>r. sr_agent_id r = agent \<and> (only_open \<longrightarrow> sr_ended_at r = None)) (nd_sessions n))"

lemma before_irrefl: "\<not> before a a" by (simp add: before_def)

lemma before_asym: "before a b \<Longrightarrow> \<not> before b a" by (auto simp: before_def)

lemma filter_after:
  assumes "sorted_wrt before (xs @ a # ys)"
  shows "filter (before a) (xs @ a # ys) = ys"
proof -
  have "filter (before a) xs = []" using assms before_asym by (auto simp: sorted_wrt_append filter_empty_conv)
  moreover have "filter (before a) ys = ys" using assms by (auto simp: sorted_wrt_append filter_id_conv)
  ultimately show ?thesis by (simp add: before_irrefl)
qed

lemma sessions_after:
  "agent_sessions_filtered n agent after limit only_open = (if nd_agents n agent = None then Inl (refuse ''unknown_agent'' None)
     else (let rest = filter (after_cursor after) (listed n agent only_open); page = take limit rest in
       Inr (map (agent_session_of n) page, if length rest \<le> limit \<or> page = [] then None else Some (cursor_of (last page)))))"
proof -
  have f: "in_list_order (filter (\<lambda>r. sr_agent_id r = agent \<and> (only_open \<longrightarrow> sr_ended_at r = None) \<and> after_cursor after r) (nd_sessions n))
      = filter (after_cursor after) (listed n agent only_open)"
    by (simp add: listed_def filter_in_list_order conj_ac)
  show ?thesis unfolding agent_sessions_filtered_def f Let_def
    by (simp add: cursor_of_def min_def)
qed

lemma pages_from:
  assumes sorted: "sorted_wrt before (listed n agent only_open)" and known: "nd_agents n agent \<noteq> None" and limit: "0 < limit"
    and "filter (after_cursor after) (listed n agent only_open) = rest" "\<exists>xs. listed n agent only_open = xs @ rest" "length rest < fuel"
  shows "all_pages fuel n agent limit only_open after = Some (map (agent_session_of n) rest)"
  using assms(4-)
proof (induction fuel arbitrary: after rest)
  case (Suc fuel)
  show ?case
  proof (cases "length rest \<le> limit")
    case True
    then show ?thesis using Suc.prems(1) known by (simp add: sessions_after Let_def)
  next
    case False
    define page where "page = take limit rest"
    have page: "page \<noteq> []" "rest = page @ drop limit rest" using False limit by (auto simp: page_def)
    obtain xs where xs: "listed n agent only_open = xs @ rest" using Suc.prems(2) by blast
    have split: "listed n agent only_open = (xs @ butlast page) @ last page # drop limit rest"
      using xs page by (metis append.assoc append_Cons append_Nil append_butlast_last_id)
    then have "filter (before (last page)) (listed n agent only_open) = drop limit rest" using filter_after sorted by metis
    moreover have "after_cursor (Some (cursor_of (last page))) = before (last page)" by (simp add: after_cursor_of fun_eq_iff)
    ultimately have "filter (after_cursor (Some (cursor_of (last page)))) (listed n agent only_open) = drop limit rest" by simp
    moreover have "\<exists>xs. listed n agent only_open = xs @ drop limit rest" using xs page(2) by (metis append.assoc)
    ultimately have "all_pages fuel n agent limit only_open (Some (cursor_of (last page))) = Some (map (agent_session_of n) (drop limit rest))"
    proof (rule Suc.IH)
      show "length (drop limit rest) < fuel" using Suc.prems(3) limit False by simp
    qed
    moreover have "agent_sessions_filtered n agent after limit only_open = Inr (map (agent_session_of n) page, Some (cursor_of (last page)))"
      unfolding sessions_after Suc.prems(1) Let_def page_def [symmetric] using known False page(1) by simp
    moreover have "map (agent_session_of n) rest = map (agent_session_of n) page @ map (agent_session_of n) (drop limit rest)"
      by (metis map_append page(2))
    ultimately show ?thesis by simp
  qed
qed simp

text \<open>C21. Following the cursor from page to page of an agent's sessions ends, whatever the page size, and returns each
  session once and none twice, newest registration first.\<close>

theorem pages_complete:
  assumes "sessions_ok n" "nd_agents n agent \<noteq> None" "0 < limit" "length (nd_sessions n) < fuel"
  shows "all_pages fuel n agent limit only_open None = Some (map (agent_session_of n) (listed n agent only_open))
    \<and> sorted_wrt before (listed n agent only_open)
    \<and> set (listed n agent only_open) = {r \<in> set (nd_sessions n). sr_agent_id r = agent \<and> (only_open \<longrightarrow> sr_ended_at r = None)}"
proof -
  have "distinct (map sr_key (filter P (nd_sessions n)))" for P
    using assms(1) by (simp add: sessions_ok_def ss.free_iff distinct_map_filter)
  then have "sorted_wrt before (listed n agent only_open)" by (simp add: listed_def in_list_order_sorted)
  moreover have "length (listed n agent only_open) < fuel"
    using assms(4) length_filter_le le_less_trans unfolding listed_def in_list_order_simps by blast
  moreover have "filter (after_cursor None) (listed n agent only_open) = listed n agent only_open" by (simp add: after_cursor_def)
  ultimately show ?thesis using pages_from [OF _ assms(2,3), of only_open None] by (auto simp: listed_def)
qed

text \<open>C39. A network history whose last entry is at the largest representable time refuses every later change with a storage
  error: the next time saturates to the same value and collides with the entry that is there.\<close>

theorem full_clock_blocks:
  assumes "sessions_ok n" "find_host n h s = Some r" "current_entry n (sr_key r) = Some e" "ne_since e = i64_max"
    "v \<in> set network_values" "v \<noteq> ne_network e" "length (network_history n (sr_key r)) < history_max" "now \<le> i64_max"
  shows "set_session_network n h s v now = (n, Inl storage_error)"
  using assms by (rule full_clock_aux)

lemma sessions_ok_cong: "nd_sessions n' = nd_sessions n \<Longrightarrow> nd_history n' = nd_history n \<Longrightarrow> sessions_ok n' = sessions_ok n"
  by (simp add: sessions_ok_def network_history_def)

section \<open>Session examples\<close>

definition example_row :: session_row where
  "example_row = \<lparr>sr_agent_id = ''a1'', sr_ref_kind = ''k'', sr_ref = ''r1'', sr_harness = Some ''h'', sr_session_id = Some ''s'',
     sr_project_root = ''p'', sr_registered_by = ''host'', sr_registered_at = 10, sr_runner = Some ''broca'', sr_ended_at = None, sr_held_on = None\<rparr>"

definition bound_node :: "int \<Rightarrow> node" where
  "bound_node since = example_node\<lparr>nd_sessions := [example_row], nd_history := [((''k'', ''r1''), \<lparr>ne_network = ''yes'', ne_since = since\<rparr>)]\<rparr>"

lemma bound_node_ok: "sessions_ok (bound_node since)"
proof -
  have "length (network_history (bound_node since) k) \<le> history_max" for k
    using length_filter_le [of "\<lambda>e. fst e = k" "nd_history (bound_node since)"]
    by (simp add: length_network_history bound_node_def history_max_def)
  then show ?thesis
    by (simp add: sessions_ok_def) (simp add: bound_node_def pairwise_free_def row_check_def network_values_def example_row_def sr_key_def)
qed

definition rekey_request :: registration where
  "rekey_request = \<lparr>rg_agent = ''a1'', rg_ref_kind = ''k'', rg_ref = ''r2'', rg_harness = ''h'', rg_session = ''s'', rg_root = None,
     rg_by = ''orchestrator'', rg_runner = None, rg_network = Some (''no'', 3), rg_now = 20\<rparr>"

lemma register_session_exact_witness:
  "is_ok (snd (register_session (bound_node 5) rekey_request)) \<and> sessions_ok (fst (register_session (bound_node 5) rekey_request))
   \<and> map ne_since (network_history (fst (register_session (bound_node 5) rekey_request)) (''k'', ''r2'')) = [5, 6]"
proof -
  have c: "clock_left (bound_node 5)" "rg_by rekey_request \<in> set [''orchestrator'', ''host'']" by code_simp+
  have r: "is_ok (snd (register_session (bound_node 5) rekey_request))" by code_simp
  have h: "map ne_since (network_history (fst (register_session (bound_node 5) rekey_request)) (''k'', ''r2'')) = [5, 6]" by code_simp
  from register_session_exact [OF bound_node_ok c] r h show ?thesis by (auto simp: is_ok_def split: prod.splits sum.splits)
qed

lemma full_clock_blocks_witness:
  "snd (set_session_network (bound_node i64_max) ''h'' ''s'' ''no'' 7) = Inl storage_error"
proof -
  have r: "find_host (bound_node i64_max) ''h'' ''s'' = Some example_row"
    by (simp add: find_host_def bound_node_def example_row_def host_key_def)
  have h: "network_history (bound_node i64_max) (sr_key example_row) = [\<lparr>ne_network = ''yes'', ne_since = i64_max\<rparr>]"
    by (simp add: network_history_def bound_node_def example_row_def sr_key_def)
  have c: "current_entry (bound_node i64_max) (sr_key example_row) = Some \<lparr>ne_network = ''yes'', ne_since = i64_max\<rparr>"
    by (simp add: current_entry_def h)
  have "set_session_network (bound_node i64_max) ''h'' ''s'' ''no'' 7 = (bound_node i64_max, Inl storage_error)"
    by (rule full_clock_blocks [OF bound_node_ok r c]) (simp_all add: network_values_def h history_max_def, simp add: i64_max_def)
  then show ?thesis by simp
qed

definition ended_node :: node where
  "ended_node = example_node\<lparr>nd_sessions := [example_row\<lparr>sr_ended_at := Some 0\<rparr>, example_row\<lparr>sr_ref := ''r2'', sr_session_id := None\<rparr>]\<rparr>"

lemma ended_node_ok: "sessions_ok ended_node"
  by (simp add: sessions_ok_def ended_node_def example_node_def network_history_def pairwise_free_def row_check_def example_row_def sr_key_def
      session_clash_def host_key_def runner_key_def)

lemma prune_exact_witness:
  "length (nd_sessions (fst (prune_ended_sessions ended_node (retention_ms + 1)))) = 1 \<and> snd (prune_ended_sessions ended_node (retention_ms + 1)) = 1"
proof -
  have t: "list_all (\<lambda>r. case sr_ended_at r of None \<Rightarrow> True | Some t \<Rightarrow> - (2 ^ 63) \<le> t) (nd_sessions ended_node)"
    by (simp add: ended_node_def example_row_def)
  have m: "nd_moves ended_node = []" by (simp add: ended_node_def example_node_def)
  obtain n' k where p: "prune_ended_sessions ended_node (retention_ms + 1) = (n', k)" by (metis prod.exhaust)
  have f: "nd_sessions n' = filter (\<lambda>r. case sr_ended_at r of None \<Rightarrow> True | Some t \<Rightarrow> retention_ms + 1 - t \<le> retention_ms
      \<or> (\<exists>m\<in>set (nd_moves ended_node). is_open m \<and> am_agent_id m = sr_agent_id r)) (nd_sessions ended_node)"
    "k + length (nd_sessions n') = length (nd_sessions ended_node)"
    using prune_exact [where now = "retention_ms + 1", OF ended_node_ok t] unfolding p prod.case by blast+
  have "length (nd_sessions n') = 1" unfolding f(1) m by (simp add: ended_node_def example_row_def)
  moreover have "length (nd_sessions ended_node) = 2" by (simp add: ended_node_def)
  ultimately show ?thesis using f(2) p by simp
qed

lemma pages_complete_witness:
  "map (map as_ref) (case all_pages 3 ended_node ''a1'' 1 False None of None \<Rightarrow> [] | Some xs \<Rightarrow> [xs]) = [[''r1'', ''r2'']]"
proof -
  have "nd_agents ended_node ''a1'' \<noteq> None" "length (nd_sessions ended_node) < 3" by code_simp+
  moreover have "map sr_ref (listed ended_node ''a1'' False) = [''r1'', ''r2'']" by code_simp
  moreover have "as_ref (agent_session_of n r) = sr_ref r" for n r by (simp add: agent_session_of_def)
  ultimately show ?thesis using pages_complete [OF ended_node_ok, of "''a1''" 1 3 False] by (simp add: comp_def)
qed

end
