(* ===== verification/Carry.thy ===== *)
theory Carry
  imports Sessions
begin

text \<open>
  Carrying an agent's bindings with a move (\<open>crates/entorhinal-core/src/session_carry.rs\<close>) and activating
  the move at the receiver (\<open>activate_agent_move_carrying\<close> of \<open>move_store.rs\<close>): what the source exports,
  what the receiver installs, and that the two compose to the bindings the source had, with their
  network histories.
\<close>

section \<open>Carried bindings\<close>

definition session_bindings_kind :: string where "session_bindings_kind = ''session-bindings''"

definition package_closure_kind :: string where "package_closure_kind = ''package-closure''"

definition is_binding_ref_kind :: "string \<Rightarrow> bool" where
  "is_binding_ref_kind k \<longleftrightarrow> k \<noteq> ''agent'' \<and> k \<noteq> package_closure_kind \<and> k \<noteq> session_bindings_kind"

record carried_binding =
  cb_ref_kind :: string
  cb_ref :: string
  cb_runner :: "string option"
  cb_harness :: "string option"
  cb_session_id :: "string option"
  cb_project_root :: string
  cb_registered_by :: string
  cb_registered_at :: int
  cb_ended_at :: "int option"
  cb_history :: "net_entry list"
  cb_held_on :: "string option"

definition cb_key :: "carried_binding \<Rightarrow> session_key" where
  "cb_key c = (cb_ref_kind c, cb_ref c)"

datatype carried_fault = EmptyRef | NotBindingKind string | UnknownRegistrar string | HalfHostSession
  | BadHolder | HistoryOverCap | UnknownNetwork string | NotRising

fun history_fault :: "int option \<Rightarrow> net_entry list \<Rightarrow> carried_fault option" where
  "history_fault previous [] = None"
| "history_fault previous (e # es) =
    (if ne_network e \<notin> set network_values then Some (UnknownNetwork (ne_network e))
     else if some_and (\<lambda>p. ne_since e \<le> p) previous then Some NotRising
     else history_fault (Some (ne_since e)) es)"

definition check_carried :: "carried_binding \<Rightarrow> carried_fault option" where
  "check_carried c =
    (if cb_ref_kind c = [] \<or> cb_ref c = [] then Some EmptyRef
     else if \<not> is_binding_ref_kind (cb_ref_kind c) then Some (NotBindingKind (cb_ref_kind c))
     else if cb_registered_by c \<notin> set [''orchestrator'', ''host'', ''move''] then Some (UnknownRegistrar (cb_registered_by c))
     else if (cb_harness c = None) \<noteq> (cb_session_id c = None) then Some HalfHostSession
     else if cb_held_on c = Some [] \<or> (cb_held_on c \<noteq> None \<and> cb_ended_at c = None) then Some BadHolder
     else if history_max < length (cb_history c) then Some HistoryOverCap
     else history_fault None (cb_history c))"

record carried_install =
  ci_installed :: nat
  ci_placeholders :: nat
  ci_kept :: nat
  ci_skipped :: "(session_key \<times> session_key) list"

section \<open>What the source sends\<close>

text \<open>\<open>from_value::<MoveRef>\<close>: a struct is read from an object with its fields or from an array of them.\<close>

definition ref_of_json :: "json \<Rightarrow> session_key option" where
  "ref_of_json v = (case v of
     JObj m \<Rightarrow> if set (map fst m) \<subseteq> {''ref_kind'', ''ref''} then
         Option.bind (Option.bind (jget v ''ref_kind'') as_str) (\<lambda>k. map_option (Pair k) (Option.bind (jget v ''ref'') as_str))
       else None
   | JArr [JStr k, JStr r] \<Rightarrow> Some (k, r)
   | _ \<Rightarrow> None)"

definition or_empty :: "'a list option \<Rightarrow> 'a list" where
  "or_empty xs = (case xs of None \<Rightarrow> [] | Some ys \<Rightarrow> ys)"

definition plan_binding_refs :: "json \<Rightarrow> session_key list" where
  "plan_binding_refs plan = sort (remdups (filter (\<lambda>k. is_binding_ref_kind (fst k))
     (List.map_filter ref_of_json (concat (map (\<lambda>p. or_empty (Option.bind (jget p ''refs'') as_array))
       (or_empty (Option.bind (jget plan ''participants'') as_array)))))))"

definition carried_row :: "node \<Rightarrow> session_row \<Rightarrow> carried_binding" where
  "carried_row n r = \<lparr>cb_ref_kind = sr_ref_kind r, cb_ref = sr_ref r, cb_runner = sr_runner r, cb_harness = sr_harness r,
     cb_session_id = sr_session_id r, cb_project_root = sr_project_root r, cb_registered_by = sr_registered_by r,
     cb_registered_at = sr_registered_at r, cb_ended_at = sr_ended_at r, cb_history = network_history n (sr_key r),
     cb_held_on = sr_held_on r\<rparr>"

definition carried_rows :: "node \<Rightarrow> string \<Rightarrow> carried_binding list" where
  "carried_rows n agent = map (carried_row n) (sort_key sr_key (filter (\<lambda>r. sr_agent_id r = agent) (nd_sessions n)))"

definition freezing :: "agent_move \<Rightarrow> string \<Rightarrow> bool" where
  "freezing m agent \<longleftrightarrow> am_agent_id m = agent \<and> am_side m = Source \<and> am_step m \<in> set [StPreparing, StExported, StSealed]"

definition stays_behind :: "session_key list \<Rightarrow> carried_binding \<Rightarrow> bool" where
  "stays_behind planned c \<longleftrightarrow> cb_key c \<notin> set planned \<and> cb_held_on c = None"

definition export_session_bindings :: "node \<Rightarrow> string \<Rightarrow> string \<Rightarrow> mutation_error + carried_binding list" where
  "export_session_bindings n cut_id agent =
    (case load_move n cut_id of None \<Rightarrow> Inl (refuse ''invalid_state'' None)
     | Some m \<Rightarrow>
       if \<not> freezing m agent then Inl (refuse ''invalid_state'' None)
       else (let rows = carried_rows n agent; planned = plan_binding_refs (am_plan m) in
         if \<not> set planned \<subseteq> set (map cb_key rows) \<or> list_ex (\<lambda>c. cb_ended_at c = None \<and> cb_key c \<notin> set planned) rows
         then Inl (refuse ''invalid_state'' None)
         else if nd_origin n = None \<and> list_ex (stays_behind planned) rows then Inl (refuse ''invalid_state'' None)
         else Inr (map (\<lambda>c. if stays_behind planned c then c\<lparr>cb_held_on := nd_origin n\<rparr> else c) rows)))"

section \<open>What the receiver installs\<close>

definition carried_at :: "carried_binding list \<Rightarrow> session_key \<Rightarrow> carried_binding option" where
  "carried_at cs k = find (\<lambda>c. cb_key c = k) (rev cs)"

definition metadata_keys :: "carried_binding list \<Rightarrow> session_key list" where
  "metadata_keys cs = filter (\<lambda>k. some_and (\<lambda>c. cb_held_on c \<noteq> None) (carried_at cs k)) (sort (remdups (map cb_key cs)))"

definition placeholder_row :: "string \<Rightarrow> int \<Rightarrow> session_key \<Rightarrow> session_row" where
  "placeholder_row agent activated k = \<lparr>sr_agent_id = agent, sr_ref_kind = fst k, sr_ref = snd k, sr_harness = None,
     sr_session_id = None, sr_project_root = [], sr_registered_by = ''move'', sr_registered_at = activated, sr_runner = None,
     sr_ended_at = None, sr_held_on = None\<rparr>"

definition installed_row :: "node \<Rightarrow> string \<Rightarrow> carried_binding \<Rightarrow> session_row" where
  "installed_row n agent c = \<lparr>sr_agent_id = agent, sr_ref_kind = cb_ref_kind c, sr_ref = cb_ref c, sr_harness = cb_harness c,
     sr_session_id = cb_session_id c, sr_project_root = cb_project_root c, sr_registered_by = cb_registered_by c,
     sr_registered_at = cb_registered_at c, sr_runner = cb_runner c, sr_ended_at = cb_ended_at c,
     sr_held_on = (if cb_held_on c = nd_origin n then None else cb_held_on c)\<rparr>"

definition same_session_key :: "carried_binding \<Rightarrow> session_row \<Rightarrow> bool" where
  "same_session_key c r \<longleftrightarrow> cb_session_id c \<noteq> None \<and> sr_session_id r = cb_session_id c
     \<and> (cb_harness c \<noteq> None \<and> sr_harness r = cb_harness c \<or> cb_runner c \<noteq> None \<and> sr_runner r = cb_runner c)"

definition carried_collides :: "node \<Rightarrow> carried_binding \<Rightarrow> bool" where
  "carried_collides n c \<longleftrightarrow> list_ex (same_session_key c) (nd_sessions n)"

definition insert_placeholder :: "node \<Rightarrow> string \<Rightarrow> int option \<Rightarrow> session_key \<Rightarrow> node option" where
  "insert_placeholder n agent activated k = (case activated of None \<Rightarrow> None
     | Some t \<Rightarrow> put_sessions (nd_sessions n @ [placeholder_row agent t k]) n)"

definition install_history :: "session_key \<Rightarrow> carried_binding \<Rightarrow> node \<Rightarrow> node option" where
  "install_history k c n = put_history (nd_history n @ map (Pair k) (cb_history c)) n"

definition install_one :: "string \<Rightarrow> int option \<Rightarrow> carried_binding list \<Rightarrow> session_key \<Rightarrow> node \<times> carried_install \<Rightarrow> (node \<times> carried_install) option" where
  "install_one agent activated cs k s = (case s of (n, out) \<Rightarrow>
    if find_ref n k \<noteq> None then Some (n, if carried_at cs k = None then out else out\<lparr>ci_kept := Suc (ci_kept out)\<rparr>)
    else (case carried_at cs k of
      None \<Rightarrow> map_option (\<lambda>n'. (n', out)) (insert_placeholder n agent activated k)
    | Some c \<Rightarrow>
      if carried_collides n c then
        (if cb_held_on c \<noteq> None then
           Some (n, out\<lparr>ci_kept := Suc (ci_kept out),
             ci_skipped := ci_skipped out @ [(k, sr_key (hd (sort_key sr_key (filter (same_session_key c) (nd_sessions n)))))]\<rparr>)
         else map_option (\<lambda>n'. (n', out\<lparr>ci_placeholders := Suc (ci_placeholders out)\<rparr>))
           (Option.bind (insert_placeholder n agent activated k) (install_history k c)))
      else map_option (\<lambda>n'. (n', out\<lparr>ci_installed := Suc (ci_installed out)\<rparr>))
        (Option.bind (put_sessions (nd_sessions n @ [installed_row n agent c]) n) (install_history k c))))"

fun install_refs :: "string \<Rightarrow> int option \<Rightarrow> carried_binding list \<Rightarrow> session_key list \<Rightarrow> session_key list \<Rightarrow> node \<times> carried_install \<Rightarrow> (node \<times> carried_install) option" where
  "install_refs agent activated cs seen [] s = Some s"
| "install_refs agent activated cs seen (k # ks) s =
    (if k \<in> set seen then install_refs agent activated cs seen ks s
     else Option.bind (install_one agent activated cs k s) (install_refs agent activated cs (k # seen) ks))"

definition nothing_installed :: carried_install where
  "nothing_installed = \<lparr>ci_installed = 0, ci_placeholders = 0, ci_kept = 0, ci_skipped = []\<rparr>"

definition install_moved_bindings :: "node \<Rightarrow> string \<Rightarrow> int option \<Rightarrow> session_key list \<Rightarrow> carried_binding list \<Rightarrow> (node \<times> carried_install) option" where
  "install_moved_bindings n agent activated refs cs = install_refs agent activated cs [] (refs @ metadata_keys cs) (n, nothing_installed)"

definition pending_state :: json where "pending_state = pending_release"

definition activated_row :: "agent_move \<Rightarrow> agent_move \<Rightarrow> agent_move" where
  "activated_row current m = m\<lparr>am_abort_requested := am_abort_requested current, am_cut_accept := Some pending_state,
     am_plan := jset (am_plan m) ''_cut_release'' pending_state\<rparr>"

definition owned_elsewhere :: "node \<Rightarrow> string \<Rightarrow> session_key \<Rightarrow> bool" where
  "owned_elsewhere n agent k \<longleftrightarrow> some_and (\<lambda>r. sr_agent_id r \<noteq> agent) (find_ref n k)"

definition activate_agent_move_carrying ::
  "node \<Rightarrow> agent_move \<Rightarrow> session_key list \<Rightarrow> carried_binding list \<Rightarrow> node \<times> (mutation_error + agent_move \<times> carried_install)" where
  "activate_agent_move_carrying n m refs cs =
    (case load_move n (am_cut_id m) of None \<Rightarrow> (n, Inl storage_error)
     | Some current \<Rightarrow>
       if am_side current \<noteq> Receiver \<or> am_step current \<noteq> StActivating \<or> am_step m \<noteq> StActivated \<or> am_activated_at m = None
       then (n, Inl (refuse ''invalid_state'' (Some (move_detail current))))
       else (case find (owned_elsewhere n (am_agent_id m)) refs of
         Some k \<Rightarrow> (n, Inl (refuse ''ref_bound_elsewhere'' (Some (JObj [(''ref'', JStr (snd k)), (''ref_kind'', JStr (fst k))]))))
       | None \<Rightarrow>
         (case Option.bind (install_moved_bindings n (am_agent_id m) (am_activated_at m) refs cs) (\<lambda>(n1, out).
             Option.bind (update_move n1 (activated_row current m)) (\<lambda>(n2, _). map_option (\<lambda>n3. (n3, out)) (commit_sessions n2))) of
            None \<Rightarrow> (n, Inl storage_error)
          | Some (n', out) \<Rightarrow> (n', Inr (activated_row current m, out)))))"

section \<open>Installing keeps the tables\<close>

lemma history_fault_None:
  "history_fault previous h = None \<Longrightarrow> list_all (\<lambda>e. ne_network e \<in> set network_values) h \<and> sorted_wrt (<) (map ne_since h)
    \<and> (\<forall>p. previous = Some p \<longrightarrow> (\<forall>e\<in>set h. p < ne_since e))"
  by (induction previous h rule: history_fault.induct) (fastforce split: if_splits)+

lemma check_carried_None:
  assumes "check_carried c = None"
  shows "list_all (\<lambda>e. ne_network e \<in> set network_values) (cb_history c)" "sorted_wrt (<) (map ne_since (cb_history c))"
    "length (cb_history c) \<le> history_max" "cb_registered_by c \<in> set [''orchestrator'', ''host'', ''move'']"
    "cb_held_on c \<noteq> None \<Longrightarrow> cb_ended_at c \<noteq> None"
  using assms history_fault_None [of None "cb_history c"] by (auto simp: check_carried_def split: if_splits)

lemma carried_at_Some: "carried_at cs k = Some c \<Longrightarrow> c \<in> set cs \<and> cb_key c = k"
  by (auto simp: carried_at_def dest!: find_SomeD)

text \<open>A node grows by one binding with its history.\<close>

lemma find_ref_absent: "find_ref n k = None \<longleftrightarrow> (\<forall>x\<in>set (nd_sessions n). sr_key x \<noteq> k)"
  by (auto simp: find_ref_def find_None_iff)

lemma new_binding:
  assumes ok: "sessions_ok n" and fresh: "find_ref n (sr_key r) = None" and rc: "row_check r"
    and free: "\<And>x. x \<in> set (nd_sessions n) \<Longrightarrow> \<not> session_clash r x"
    and h: "list_all (\<lambda>e. ne_network e \<in> set network_values) h" "sorted_wrt (<) (map ne_since h)" "length h \<le> history_max"
    and n': "n' = n\<lparr>nd_sessions := nd_sessions n @ [r], nd_history := nd_history n @ map (Pair (sr_key r)) h\<rparr>"
  shows "put_sessions (nd_sessions n @ [r]) n = Some (n\<lparr>nd_sessions := nd_sessions n @ [r]\<rparr>)"
    "put_history (nd_history n @ map (Pair (sr_key r)) h) (n\<lparr>nd_sessions := nd_sessions n @ [r]\<rparr>) = Some n'"
    "sessions_ok n'" "network_history n' (sr_key r) = h" "k \<noteq> sr_key r \<Longrightarrow> network_history n' k = network_history n k"
proof -
  have old: "e \<in> set (nd_history n) \<Longrightarrow> fst e \<noteq> sr_key r" for e
    using ok fresh by (fastforce simp: sessions_ok_def list_all_iff find_ref_absent)
  have s: "pairwise_free session_clash (nd_sessions n @ [r])" "list_all row_check (nd_sessions n @ [r])"
    using ok free rc by (simp_all add: sessions_ok_def ss.free_append)
  then show "put_sessions (nd_sessions n @ [r]) n = Some (n\<lparr>nd_sessions := nd_sessions n @ [r]\<rparr>)" by (simp add: put_sessions_def)
  have "distinct (map entry_key (map (Pair (sr_key r)) h))"
    using h(2) by (simp add: comp_def entry_key_def strict_sorted_iff distinct_map inj_on_def)
  moreover have "x \<notin> set (map entry_key (map (Pair (sr_key r)) h))" if "x \<in> set (map entry_key (nd_history n))" for x
  proof
    assume "x \<in> set (map entry_key (map (Pair (sr_key r)) h))"
    then have "fst x = sr_key r" by (auto simp: entry_key_def)
    moreover have "x \<in> entry_key ` set (nd_history n)" using that by simp
    then obtain e where "x = entry_key e" "e \<in> set (nd_history n)" by (rule imageE)
    ultimately show False using old [of e] by (simp add: entry_key_def)
  qed
  moreover have "distinct (map entry_key (nd_history n))" using ok by (simp add: sessions_ok_def entries_free)
  ultimately have f: "pairwise_free entry_clash (nd_history n @ map (Pair (sr_key r)) h)"
    unfolding entries_free map_append distinct_append by blast
  have v: "list_all (\<lambda>e. ne_network (snd e) \<in> set network_values) (nd_history n @ map (Pair (sr_key r)) h)"
    using ok h(1) by (auto simp: sessions_ok_def list_all_iff)
  show "put_history (nd_history n @ map (Pair (sr_key r)) h) (n\<lparr>nd_sessions := nd_sessions n @ [r]\<rparr>) = Some n'"
    using f v by (simp add: put_history_def n')
  have "filter (\<lambda>e. fst e = sr_key r) (nd_history n) = []" using old by (simp add: filter_empty_conv)
  then have "network_history n' (sr_key r) = sort_key ne_since h" by (simp add: network_history_def n' filter_map comp_def)
  also have "\<dots> = h" using h(2) by (intro sort_key_id_if_sorted) (simp add: strict_sorted_iff)
  finally show new: "network_history n' (sr_key r) = h" .
  show other: "network_history n' k = network_history n k" if "k \<noteq> sr_key r" for k
    using that by (simp add: network_history_def n' filter_map comp_def)
  have "length (network_history n' k) \<le> history_max" for k
  proof (cases "k = sr_key r")
    case False
    then show ?thesis using other ok by (cases k) (simp add: sessions_ok_def)
  qed (use new h(3) in simp)
  then show "sessions_ok n'" using s f v ok old by (auto simp: sessions_ok_def n' list_all_iff)
qed

definition grown :: "string \<Rightarrow> node \<Rightarrow> node \<Rightarrow> bool" where
  "grown agent n n' \<longleftrightarrow> sessions_ok n' \<and> n' = n\<lparr>nd_sessions := nd_sessions n', nd_history := nd_history n'\<rparr>
     \<and> (\<exists>rows. nd_sessions n' = nd_sessions n @ rows \<and> (\<forall>r\<in>set rows. sr_agent_id r = agent))
     \<and> (\<forall>r\<in>set (nd_sessions n). network_history n' (sr_key r) = network_history n (sr_key r))"

lemma grown_refl: "sessions_ok n \<Longrightarrow> grown agent n n"
  by (simp add: grown_def)

lemma grown_trans: "grown agent a b \<Longrightarrow> grown agent b c \<Longrightarrow> grown agent a c"
proof -
  assume ab: "grown agent a b" and bc: "grown agent b c"
  obtain s1 h1 s2 h2 where e: "b = a\<lparr>nd_sessions := s1, nd_history := h1\<rparr>" "c = b\<lparr>nd_sessions := s2, nd_history := h2\<rparr>"
    using ab bc unfolding grown_def by blast
  then have "c = a\<lparr>nd_sessions := nd_sessions c, nd_history := nd_history c\<rparr>" by simp
  moreover obtain r1 r2 where "nd_sessions b = nd_sessions a @ r1" "\<forall>r\<in>set r1. sr_agent_id r = agent"
    "nd_sessions c = nd_sessions b @ r2" "\<forall>r\<in>set r2. sr_agent_id r = agent" using ab bc unfolding grown_def by blast
  ultimately show ?thesis using ab bc unfolding grown_def by auto
qed

lemma installed_free:
  assumes "find_ref n (cb_key c) = None" "\<not> carried_collides n c" "x \<in> set (nd_sessions n)"
  shows "\<not> session_clash (installed_row n agent c) x"
proof -
  have "\<not> same_session_key c x" using assms(2,3) by (simp add: carried_collides_def list_ex_iff)
  moreover have "sr_key x \<noteq> cb_key c" using assms(1,3) by (simp add: find_ref_absent)
  ultimately show ?thesis
    by (auto simp: session_clash_def same_session_key_def installed_row_def sr_key_def cb_key_def host_key_def runner_key_def split: option.splits)
qed

definition from_carried :: "node \<Rightarrow> string \<Rightarrow> carried_binding list \<Rightarrow> session_key list \<Rightarrow> session_row \<Rightarrow> bool" where
  "from_carried n agent cs refs r \<longleftrightarrow> (sr_key r \<in> set refs \<or> sr_ended_at r \<noteq> None)
     \<and> ((\<exists>c\<in>set cs. r = installed_row n agent c) \<or> (\<exists>t. r = placeholder_row agent t (sr_key r)))"

lemma insert_binding:
  assumes ok: "sessions_ok n" and fresh: "find_ref n (sr_key r) = None" and rc: "row_check r" and agent: "sr_agent_id r = agent"
    and free: "\<And>x. x \<in> set (nd_sessions n) \<Longrightarrow> \<not> session_clash r x"
    and h: "list_all (\<lambda>e. ne_network e \<in> set network_values) h" "sorted_wrt (<) (map ne_since h)" "length h \<le> history_max"
  obtains n' where "put_sessions (nd_sessions n @ [r]) n = Some (n\<lparr>nd_sessions := nd_sessions n @ [r]\<rparr>)"
    "put_history (nd_history n @ map (Pair (sr_key r)) h) (n\<lparr>nd_sessions := nd_sessions n @ [r]\<rparr>) = Some n'"
    "grown agent n n'" "nd_sessions n' = nd_sessions n @ [r]" "find_ref n' (sr_key r) = Some r" "network_history n' (sr_key r) = h"
proof -
  define n' where "n' = n\<lparr>nd_sessions := nd_sessions n @ [r], nd_history := nd_history n @ map (Pair (sr_key r)) h\<rparr>"
  note new = new_binding [OF ok fresh rc free h n'_def]
  have s: "nd_sessions n' = nd_sessions n @ [r]" by (simp add: n'_def)
  have "pairwise_free session_clash (nd_sessions n')" using new(3) by (simp add: sessions_ok_def)
  then have f: "find_ref n' (sr_key r) = Some r" by (rule find_ref_in) (simp add: s)
  have "grown agent n n'" unfolding grown_def using new(3,5) fresh agent by (auto simp: n'_def find_ref_absent)
  then show ?thesis using new(1,2,4) s f by (intro that)
qed

lemma install_one_ok:
  assumes ok: "sessions_ok n" and checked: "\<And>c. c \<in> set cs \<Longrightarrow> check_carried c = None"
    and k: "k \<in> set refs \<or> some_and (\<lambda>c. cb_held_on c \<noteq> None) (carried_at cs k)"
    and live: "\<And>c. carried_at cs k = Some c \<Longrightarrow> k \<in> set refs \<Longrightarrow> cb_held_on c = None"
  obtains n' out' where "install_one agent (Some t) cs k (n, out) = Some (n', out')" "grown agent n n'"
    "k \<in> set refs \<Longrightarrow> find_ref n' k \<noteq> None"
    "\<And>r. r \<in> set (nd_sessions n') \<Longrightarrow> r \<in> set (nd_sessions n) \<or> sr_key r = k \<and> from_carried n agent cs refs r"
    "\<And>c. carried_at cs k = Some c \<Longrightarrow> find_ref n k = None \<Longrightarrow> \<not> carried_collides n c \<Longrightarrow>
       find_ref n' k = Some (installed_row n agent c) \<and> network_history n' k = cb_history c"
proof (cases "find_ref n k")
  case (Some r)
  then show ?thesis using ok by (intro that) (auto simp: install_one_def grown_refl)
next
  case None
  define pl where "pl = placeholder_row agent t k"
  have pkey: "sr_key pl = k" by (simp add: pl_def placeholder_row_def sr_key_def)
  have fresh: "find_ref n (sr_key pl) = None" using None pkey by simp
  have pfree: "\<not> session_clash pl x" if "x \<in> set (nd_sessions n)" for x
  proof -
    have "sr_key x \<noteq> k" using None that by (simp add: find_ref_absent)
    moreover have "host_key pl = None" "runner_key pl = None" by (simp_all add: pl_def placeholder_row_def host_key_def runner_key_def)
    ultimately show ?thesis by (simp add: session_clash_def pkey)
  qed
  have pcheck: "row_check pl" "sr_agent_id pl = agent"
    by (simp_all add: row_check_def placeholder_row_def pl_def)
  show ?thesis
  proof (cases "carried_at cs k")
    case no: None
    then have r: "k \<in> set refs" using k by simp
    have none: "list_all (\<lambda>e. ne_network e \<in> set network_values) []" "sorted_wrt (<) (map ne_since [])" "length ([] :: net_entry list) \<le> history_max" by simp_all
    obtain n' where n': "put_sessions (nd_sessions n @ [pl]) n = Some (n\<lparr>nd_sessions := nd_sessions n @ [pl]\<rparr>)"
      "put_history (nd_history n @ map (Pair (sr_key pl)) []) (n\<lparr>nd_sessions := nd_sessions n @ [pl]\<rparr>) = Some n'"
      "grown agent n n'" "nd_sessions n' = nd_sessions n @ [pl]" "find_ref n' (sr_key pl) = Some pl"
      by (rule insert_binding [OF ok fresh pcheck pfree none], assumption, rule that)
    have "n\<lparr>nd_sessions := nd_sessions n @ [pl]\<rparr> = n'" using n'(2) by (simp add: put_history_def split: if_splits)
    then have "install_one agent (Some t) cs k (n, out) = Some (n', out)"
      using None no n'(1) by (simp add: install_one_def insert_placeholder_def pl_def)
    then show ?thesis using n'(3-5) r pkey no
      by (intro that) (auto simp: from_carried_def pl_def)
  next
    case (Some c)
    have c: "check_carried c = None" "cb_key c = k" using carried_at_Some [OF Some] checked by simp_all
    note h = check_carried_None(1-3) [OF c(1)]
    show ?thesis
    proof (cases "carried_collides n c")
      case True
      show ?thesis
      proof (cases "cb_held_on c")
        case live: None
        then have r: "k \<in> set refs" using k Some by simp
        obtain n' where n': "put_sessions (nd_sessions n @ [pl]) n = Some (n\<lparr>nd_sessions := nd_sessions n @ [pl]\<rparr>)"
          "put_history (nd_history n @ map (Pair (sr_key pl)) (cb_history c)) (n\<lparr>nd_sessions := nd_sessions n @ [pl]\<rparr>) = Some n'"
          "grown agent n n'" "nd_sessions n' = nd_sessions n @ [pl]" "find_ref n' (sr_key pl) = Some pl"
          by (rule insert_binding [OF ok fresh pcheck pfree h], assumption, rule that)
        have "install_one agent (Some t) cs k (n, out) = Some (n', out\<lparr>ci_placeholders := Suc (ci_placeholders out)\<rparr>)"
          using None Some True live n'(1,2) pkey by (simp add: install_one_def insert_placeholder_def install_history_def pl_def [symmetric])
        then show ?thesis using n'(3-5) r pkey Some True
          by (intro that) (auto simp: from_carried_def pl_def)
      next
        case held: (Some m)
        then have "k \<notin> set refs" using assms(4) [OF Some] by auto
        then show ?thesis using None Some True held ok by (intro that) (auto simp: install_one_def grown_refl)
      qed
    next
      case False
      define r where "r = installed_row n agent c"
      have rk: "sr_key r = k" using c(2) by (simp add: r_def installed_row_def sr_key_def cb_key_def)
      have rc: "row_check r" using check_carried_None(4) [OF c(1)] by (simp add: r_def installed_row_def row_check_def)
      have ra: "sr_agent_id r = agent" by (simp add: r_def installed_row_def)
      have rf: "\<not> session_clash r x" if "x \<in> set (nd_sessions n)" for x
        unfolding r_def by (rule installed_free [OF _ False that]) (simp add: c(2) None)
      have fr: "find_ref n (sr_key r) = None" using None rk by simp
      obtain n' where n': "put_sessions (nd_sessions n @ [r]) n = Some (n\<lparr>nd_sessions := nd_sessions n @ [r]\<rparr>)"
        "put_history (nd_history n @ map (Pair (sr_key r)) (cb_history c)) (n\<lparr>nd_sessions := nd_sessions n @ [r]\<rparr>) = Some n'"
        "grown agent n n'" "nd_sessions n' = nd_sessions n @ [r]" "find_ref n' (sr_key r) = Some r" "network_history n' (sr_key r) = cb_history c"
        by (rule insert_binding [OF ok fr rc ra rf h], assumption, rule that)
      have "install_one agent (Some t) cs k (n, out) = Some (n', out\<lparr>ci_installed := Suc (ci_installed out)\<rparr>)"
        using None Some False n'(1,2) rk by (simp add: install_one_def install_history_def r_def [symmetric])
      moreover have "from_carried n agent cs refs r"
      proof -
        have "sr_ended_at r \<noteq> None" if "k \<notin> set refs"
          using k that Some check_carried_None(5) [OF c(1)] by (simp add: r_def installed_row_def)
        then show ?thesis using carried_at_Some [OF Some] rk by (auto simp: from_carried_def r_def)
      qed
      ultimately show ?thesis using n'(3-6) rk Some by (intro that) (auto simp: r_def)
    qed
  qed
qed

lemma from_carried_cong: "nd_origin n = nd_origin n' \<Longrightarrow> from_carried n agent cs refs r = from_carried n' agent cs refs r"
  by (simp add: from_carried_def installed_row_def)

lemma grown_origin: "grown agent n n' \<Longrightarrow> nd_origin n' = nd_origin n"
  unfolding grown_def by (metis node.select_convs(8) node.surjective node.update_convs(5,6))

lemma grown_ok: "grown agent n n' \<Longrightarrow> sessions_ok n'"
  by (simp add: grown_def)

lemma grown_find:
  assumes "grown agent n n'" "find_ref n k = Some r"
  shows "find_ref n' k = Some r" "network_history n' k = network_history n k"
proof -
  have "r \<in> set (nd_sessions n')" "sr_key r = k" using assms find_ref_Some [OF assms(2)] by (auto simp: grown_def)
  then show "find_ref n' k = Some r" using find_ref_in [of n' r] grown_ok [OF assms(1)] by (simp add: sessions_ok_def)
  show "network_history n' k = network_history n k" using assms(1) find_ref_Some [OF assms(2)] by (auto simp: grown_def)
qed

lemma install_refs_ok:
  assumes "sessions_ok n" and checked: "\<And>c. c \<in> set cs \<Longrightarrow> check_carried c = None"
    and ks: "\<And>k. k \<in> set ks \<Longrightarrow> k \<in> set refs \<or> some_and (\<lambda>c. cb_held_on c \<noteq> None) (carried_at cs k)"
    and live: "\<And>k c. carried_at cs k = Some c \<Longrightarrow> k \<in> set refs \<Longrightarrow> cb_held_on c = None"
  shows "\<exists>n' out'. install_refs agent (Some t) cs seen ks (n, out) = Some (n', out') \<and> grown agent n n'
    \<and> (\<forall>k\<in>set ks. k \<in> set refs \<longrightarrow> k \<in> set seen \<or> find_ref n' k \<noteq> None)
    \<and> (\<forall>r\<in>set (nd_sessions n'). r \<in> set (nd_sessions n) \<or> from_carried n agent cs refs r)"
  using assms(1) ks
proof (induction ks arbitrary: n seen out)
  case Nil
  then show ?case by (simp add: grown_refl)
next
  case (Cons k ks)
  show ?case
  proof (cases "k \<in> set seen")
    case True
    then show ?thesis using Cons.IH [of n seen out] Cons.prems by auto
  next
    case False
    have kk: "k \<in> set refs \<or> some_and (\<lambda>c. cb_held_on c \<noteq> None) (carried_at cs k)" using Cons.prems(2) by simp
    obtain n1 out1 where n1: "install_one agent (Some t) cs k (n, out) = Some (n1, out1)" "grown agent n n1"
      "k \<in> set refs \<Longrightarrow> find_ref n1 k \<noteq> None"
      "\<And>r. r \<in> set (nd_sessions n1) \<Longrightarrow> r \<in> set (nd_sessions n) \<or> sr_key r = k \<and> from_carried n agent cs refs r"
      by (rule install_one_ok [where k = k and cs = cs, OF Cons.prems(1)], erule checked, rule kk, erule (1) live, rule that)
    obtain n' out' where n': "install_refs agent (Some t) cs (k # seen) ks (n1, out1) = Some (n', out')" "grown agent n1 n'"
      "\<forall>k'\<in>set ks. k' \<in> set refs \<longrightarrow> k' \<in> set (k # seen) \<or> find_ref n' k' \<noteq> None"
      "\<forall>r\<in>set (nd_sessions n'). r \<in> set (nd_sessions n1) \<or> from_carried n1 agent cs refs r"
      using Cons.IH [OF grown_ok [OF n1(2)], of "k # seen" out1] Cons.prems(2) by auto
    have "find_ref n' k \<noteq> None" if "k \<in> set refs" using n1(3) [OF that] grown_find(1) [OF n'(2)] by (metis not_None_eq)
    then have a: "\<forall>k'\<in>set (k # ks). k' \<in> set refs \<longrightarrow> k' \<in> set seen \<or> find_ref n' k' \<noteq> None" using n'(3) by auto
    have b: "\<forall>r\<in>set (nd_sessions n'). r \<in> set (nd_sessions n) \<or> from_carried n agent cs refs r"
      using n'(4) n1(4) from_carried_cong [OF grown_origin [OF n1(2)]] by blast
    have "install_refs agent (Some t) cs seen (k # ks) (n, out) = Some (n', out')" using False n1(1) n'(1) by simp
    then show ?thesis using grown_trans [OF n1(2) n'(2)] a b by blast
  qed
qed

lemma same_session_clash: "same_session_key c x \<Longrightarrow> session_clash (installed_row n agent c) x"
  by (auto simp: same_session_key_def session_clash_def installed_row_def host_key_def runner_key_def)

lemma install_exact:
  assumes "sessions_ok n" and checked: "\<And>c. c \<in> set cs \<Longrightarrow> check_carried c = None"
    and ks: "\<And>k. k \<in> set ks \<Longrightarrow> k \<in> set refs \<or> some_and (\<lambda>c. cb_held_on c \<noteq> None) (carried_at cs k)"
    and live: "\<And>k c. carried_at cs k = Some c \<Longrightarrow> k \<in> set refs \<Longrightarrow> cb_held_on c = None"
    and at: "\<And>k. k \<in> set ks \<Longrightarrow> carried_at cs k = Some (f k)"
    and fresh: "\<And>k. k \<in> set ks \<Longrightarrow> k \<notin> set seen \<Longrightarrow> find_ref n k = None \<and> \<not> carried_collides n (f k)"
    and apart: "\<And>k k'. k \<in> set ks \<Longrightarrow> k' \<in> set ks \<Longrightarrow> k \<noteq> k' \<Longrightarrow> \<not> same_session_key (f k) (installed_row n agent (f k'))"
  shows "\<exists>n' out'. install_refs agent (Some t) cs seen ks (n, out) = Some (n', out') \<and> grown agent n n'
    \<and> (\<forall>k\<in>set ks. k \<in> set seen \<or> find_ref n' k = Some (installed_row n agent (f k)) \<and> network_history n' k = cb_history (f k))"
  using assms(1) ks at fresh apart
proof (induction ks arbitrary: n seen out)
  case Nil
  then show ?case by (simp add: grown_refl)
next
  case (Cons k ks)
  show ?case
  proof (cases "k \<in> set seen")
    case True
    then show ?thesis using Cons.IH [of n seen out] Cons.prems by auto
  next
    case False
    have kk: "k \<in> set refs \<or> some_and (\<lambda>c. cb_held_on c \<noteq> None) (carried_at cs k)" using Cons.prems(2) by simp
    obtain n1 out1 where n1: "install_one agent (Some t) cs k (n, out) = Some (n1, out1)" "grown agent n n1"
      "\<And>r. r \<in> set (nd_sessions n1) \<Longrightarrow> r \<in> set (nd_sessions n) \<or> sr_key r = k \<and> from_carried n agent cs refs r"
      "\<And>c. carried_at cs k = Some c \<Longrightarrow> find_ref n k = None \<Longrightarrow> \<not> carried_collides n c \<Longrightarrow>
         find_ref n1 k = Some (installed_row n agent c) \<and> network_history n1 k = cb_history c"
      by (rule install_one_ok [where k = k and cs = cs, OF Cons.prems(1)], erule checked, rule kk, erule (1) live, rule that)
    have k: "find_ref n1 k = Some (installed_row n agent (f k))" "network_history n1 k = cb_history (f k)"
      using n1(4) [of "f k"] Cons.prems(3,4) False by simp_all
    have o: "installed_row n1 agent = installed_row n agent" using grown_origin [OF n1(2)] by (simp add: installed_row_def fun_eq_iff)
    have ok1: "sessions_ok n1" using grown_ok [OF n1(2)] .
    have rows: "r = installed_row n agent (f k)" if "r \<in> set (nd_sessions n1)" "r \<notin> set (nd_sessions n)" for r
    proof -
      have "sr_key r = k" using n1(3) that by blast
      then show ?thesis using find_ref_in [of n1 r] ok1 that(1) k(1) by (simp add: sessions_ok_def)
    qed
    have fresh1: "find_ref n1 k' = None \<and> \<not> carried_collides n1 (f k')" if k': "k' \<in> set ks" "k' \<notin> set (k # seen)" for k'
    proof -
      have old: "find_ref n k' = None" "\<not> carried_collides n (f k')" "k' \<noteq> k" using Cons.prems(4) k' by auto
      have "sr_key r \<noteq> k'" if "r \<in> set (nd_sessions n1)" for r using n1(3) [OF that] old(1,3) by (auto simp: find_ref_absent)
      moreover have "\<not> same_session_key (f k') r" if "r \<in> set (nd_sessions n1)" for r
        using rows [OF that] old(2) Cons.prems(5) [of k' k] k'(1) old(3) by (cases "r \<in> set (nd_sessions n)") (auto simp: carried_collides_def list_ex_iff)
      ultimately show ?thesis by (auto simp: find_ref_absent carried_collides_def list_ex_iff)
    qed
    have "\<exists>n' out'. install_refs agent (Some t) cs (k # seen) ks (n1, out1) = Some (n', out') \<and> grown agent n1 n'
      \<and> (\<forall>k'\<in>set ks. k' \<in> set (k # seen) \<or> find_ref n' k' = Some (installed_row n1 agent (f k')) \<and> network_history n' k' = cb_history (f k'))"
      using fresh1 Cons.prems(2,3,5) by (intro Cons.IH [OF ok1]) (auto simp: o)
    then obtain n' out' where n': "install_refs agent (Some t) cs (k # seen) ks (n1, out1) = Some (n', out')" "grown agent n1 n'"
      "\<forall>k'\<in>set ks. k' \<in> set (k # seen) \<or> find_ref n' k' = Some (installed_row n agent (f k')) \<and> network_history n' k' = cb_history (f k')"
      unfolding o by blast
    have "find_ref n' k = Some (installed_row n agent (f k)) \<and> network_history n' k = cb_history (f k)"
      using grown_find [OF n'(2) k(1)] k(2) by simp
    moreover have "install_refs agent (Some t) cs seen (k # ks) (n, out) = Some (n', out')" using False n1(1) n'(1) by simp
    ultimately show ?thesis using grown_trans [OF n1(2) n'(2)] n'(3) by auto
  qed
qed

section \<open>Activation\<close>

definition valid_carry :: "session_key list \<Rightarrow> carried_binding list \<Rightarrow> bool" where
  "valid_carry refs cs \<longleftrightarrow> list_all (\<lambda>c. check_carried c = None \<and> (cb_key c \<in> set refs \<longrightarrow> cb_held_on c = None)) cs"

lemma metadata_held: "k \<in> set (metadata_keys cs) \<Longrightarrow> some_and (\<lambda>c. cb_held_on c \<noteq> None) (carried_at cs k)"
  by (simp add: metadata_keys_def)

lemma install_moved_ok:
  assumes "sessions_ok n" "valid_carry refs cs"
  obtains n' out where "install_moved_bindings n agent (Some t) refs cs = Some (n', out)" "grown agent n n'"
    "\<And>k. k \<in> set refs \<Longrightarrow> find_ref n' k \<noteq> None"
    "\<And>r. r \<in> set (nd_sessions n') \<Longrightarrow> r \<in> set (nd_sessions n) \<or> from_carried n agent cs refs r"
proof -
  have "\<exists>n' out. install_refs agent (Some t) cs [] (refs @ metadata_keys cs) (n, nothing_installed) = Some (n', out) \<and> grown agent n n'
    \<and> (\<forall>k\<in>set (refs @ metadata_keys cs). k \<in> set refs \<longrightarrow> k \<in> set [] \<or> find_ref n' k \<noteq> None)
    \<and> (\<forall>r\<in>set (nd_sessions n'). r \<in> set (nd_sessions n) \<or> from_carried n agent cs refs r)"
    using assms(2) carried_at_Some metadata_held
    by (intro install_refs_ok [OF assms(1)]) (fastforce simp: valid_carry_def list_all_iff)+
  then show ?thesis using that unfolding install_moved_bindings_def by auto
qed

lemma commit_ok: "sessions_ok n \<Longrightarrow> commit_sessions n = Some n"
  by (simp add: sessions_ok_def commit_sessions_def)

lemma moves_ok_cong: "nd_moves n' = nd_moves n \<Longrightarrow> moves_ok n' = moves_ok n"
  by (simp add: moves_ok_def)

lemma load_move_cong: "nd_moves n' = nd_moves n \<Longrightarrow> load_move n' c = load_move n c"
  by (simp add: load_move_def)

lemma find_ref_cong: "nd_sessions n' = nd_sessions n \<Longrightarrow> find_ref n' k = find_ref n k"
  by (simp add: find_ref_def)

lemma activate_result:
  assumes ok: "sessions_ok n" "moves_ok n" and cur: "load_move n (am_cut_id m) = Some current"
    and same: "am_agent_id m = am_agent_id current" "am_request_key m = am_request_key current" and carry: "valid_carry refs cs"
  obtains (refused) e where "activate_agent_move_carrying n m refs cs = (n, Inl e)" "me_code e \<noteq> ''storage_error''"
  | (activated) n' out n1 where "activate_agent_move_carrying n m refs cs = (n', Inr (activated_row current m, out))"
      "am_side current = Receiver" "am_step current = StActivating" "am_step m = StActivated"
      "grown (am_agent_id m) n n1" "nd_sessions n' = nd_sessions n1" "nd_history n' = nd_history n1" "nd_origin n' = nd_origin n" "moves_ok n'"
      "\<And>d. load_move n' d = (if d = am_cut_id m then Some (activated_row current m) else load_move n d)"
      "\<And>k. k \<in> set refs \<Longrightarrow> find_ref n k = None \<or> some_and (\<lambda>r. sr_agent_id r = am_agent_id m) (find_ref n k)"
      "\<And>k. k \<in> set refs \<Longrightarrow> find_ref n1 k \<noteq> None"
      "\<And>r. r \<in> set (nd_sessions n1) \<Longrightarrow> r \<in> set (nd_sessions n) \<or> from_carried n (am_agent_id m) cs refs r"
proof (cases "am_side current \<noteq> Receiver \<or> am_step current \<noteq> StActivating \<or> am_step m \<noteq> StActivated \<or> am_activated_at m = None")
  case True
  then show ?thesis using cur by (intro refused [of "refuse ''invalid_state'' (Some (move_detail current))"]) (simp_all add: activate_agent_move_carrying_def)
next
  case False
  then obtain t where t: "am_activated_at m = Some t" by auto
  have st: "am_side current = Receiver" "am_step current = StActivating" "am_step m = StActivated" using False by simp_all
  show ?thesis
  proof (cases "find (owned_elsewhere n (am_agent_id m)) refs")
    case (Some k)
    then show ?thesis using cur False t
      by (intro refused [of "refuse ''ref_bound_elsewhere'' (Some (JObj [(''ref'', JStr (snd k)), (''ref_kind'', JStr (fst k))]))"])
        (simp_all add: activate_agent_move_carrying_def)
  next
    case None
    have owned: "find_ref n k = None \<or> some_and (\<lambda>r. sr_agent_id r = am_agent_id m) (find_ref n k)" if "k \<in> set refs" for k
    proof -
      have "\<not> owned_elsewhere n (am_agent_id m) k" using None that unfolding find_None_iff by blast
      then show ?thesis by (cases "find_ref n k") (simp_all add: owned_elsewhere_def)
    qed
    obtain n1 out where n1: "install_moved_bindings n (am_agent_id m) (Some t) refs cs = Some (n1, out)" "grown (am_agent_id m) n n1"
      "\<And>k. k \<in> set refs \<Longrightarrow> find_ref n1 k \<noteq> None"
      "\<And>r. r \<in> set (nd_sessions n1) \<Longrightarrow> r \<in> set (nd_sessions n) \<or> from_carried n (am_agent_id m) cs refs r"
      by (rule install_moved_ok [OF ok(1) carry], rule that)
    obtain s h where f: "n1 = n\<lparr>nd_sessions := s, nd_history := h\<rparr>" using n1(2) unfolding grown_def by blast
    then have mv: "nd_moves n1 = nd_moves n" by simp
    have ok1: "moves_ok n1" using ok(2) moves_ok_cong [OF mv] by simp
    have x: "am_cut_id (activated_row current m) = am_cut_id m" "am_agent_id (activated_row current m) = am_agent_id current"
      "am_request_key (activated_row current m) = am_request_key current" "am_step (activated_row current m) = StActivated"
      using same st by (simp_all add: activated_row_def)
    have o: "is_open current" using st by (simp add: is_open_def is_terminal_def)
    have cur1: "load_move n1 (am_cut_id (activated_row current m)) = Some current" using cur x(1) load_move_cong [OF mv] by simp
    obtain n2 where n2: "update_move n1 (activated_row current m) = Some (n2, True)" "n2 = n1\<lparr>nd_moves := set_row am_cut_id (activated_row current m) (nd_moves n1)\<rparr>"
      "moves_ok n2" "\<And>d. load_move n2 d = (if d = am_cut_id (activated_row current m) then Some (activated_row current m) else load_move n1 d)"
      by (rule update_move_same [OF ok1 cur1 x(2,3) o], rule that)
    have orig: "nd_origin n2 = nd_origin n" by (simp add: n2(2) f)
    have same2: "nd_sessions n2 = nd_sessions n1" "nd_history n2 = nd_history n1" by (simp_all add: n2(2))
    then have "commit_sessions n2 = Some n2" using grown_ok [OF n1(2)] sessions_ok_cong [OF same2] by (intro commit_ok) simp
    then have "activate_agent_move_carrying n m refs cs = (n2, Inr (activated_row current m, out))"
      using cur False None t n1(1) n2(1) by (simp add: activate_agent_move_carrying_def)
    moreover have "load_move n2 d = (if d = am_cut_id m then Some (activated_row current m) else load_move n d)" for d
      using n2(4) load_move_cong [OF mv] by (simp add: x(1))
    ultimately show ?thesis using activated [OF _ st n1(2) same2 orig n2(3) _ owned n1(3,4)] by blast
  qed
qed

text \<open>C8. Activating a received move either refuses with a reason other than a storage error and writes
  nothing, or leaves the tables well formed with the row activated: an abort request made meanwhile is kept,
  every reference of the move is bound to the moved agent, no earlier binding or history is changed, and
  what is added belongs to the agent and is one of the references or a binding that has ended.\<close>

theorem activation_exact:
  assumes "sessions_ok n" "moves_ok n" "load_move n (am_cut_id m) = Some current" "am_agent_id m = am_agent_id current"
    "am_request_key m = am_request_key current" "valid_carry refs cs"
  shows "case activate_agent_move_carrying n m refs cs of (n', r) \<Rightarrow> (case r of
      Inl e \<Rightarrow> n' = n \<and> me_code e \<noteq> ''storage_error''
    | Inr (x, out) \<Rightarrow> sessions_ok n' \<and> moves_ok n' \<and> load_move n' (am_cut_id m) = Some x \<and> am_step x = StActivated
        \<and> am_abort_requested x = am_abort_requested current
        \<and> (\<forall>k\<in>set refs. some_and (\<lambda>r. sr_agent_id r = am_agent_id m) (find_ref n' k))
        \<and> (\<exists>rows. nd_sessions n' = nd_sessions n @ rows \<and> (\<forall>r\<in>set rows. sr_agent_id r = am_agent_id m \<and> (sr_key r \<in> set refs \<or> sr_ended_at r \<noteq> None)))
        \<and> (\<forall>r\<in>set (nd_sessions n). network_history n' (sr_key r) = network_history n (sr_key r)))"
proof (cases rule: activate_result [OF assms])
  case (2 n' out n1)
  have s: "sessions_ok n'" using grown_ok [OF 2(5)] sessions_ok_cong [OF 2(6,7)] by simp
  have h: "network_history n' k = network_history n1 k" for k by (rule network_history_cong [OF 2(7)])
  obtain rows where rows: "nd_sessions n1 = nd_sessions n @ rows" "\<forall>r\<in>set rows. sr_agent_id r = am_agent_id m"
    using 2(5) unfolding grown_def by blast
  have new: "sr_key r \<in> set refs \<or> sr_ended_at r \<noteq> None" if "r \<in> set rows" for r
  proof -
    have "r \<notin> set (nd_sessions n)" using s that rows(1) 2(6) by (auto simp: sessions_ok_def ss.free_iff distinct_map)
    then show ?thesis using 2(13) [of r] that rows(1) by (auto simp: from_carried_def)
  qed
  have own: "some_and (\<lambda>r. sr_agent_id r = am_agent_id m) (find_ref n' k)" if k: "k \<in> set refs" for k
  proof -
    obtain r where r: "find_ref n' k = Some r" using 2(12) [OF k] find_ref_cong [OF 2(6)] by auto
    then have "r \<in> set (nd_sessions n) \<or> r \<in> set rows" using find_ref_Some [OF r] rows(1) 2(6) by auto
    moreover have "sr_agent_id r = am_agent_id m" if "r \<in> set (nd_sessions n)"
    proof -
      have "find_ref n k = Some r" using find_ref_in [of n r] assms(1) that find_ref_Some [OF r] by (simp add: sessions_ok_def)
      then show ?thesis using 2(11) [OF k] by simp
    qed
    ultimately show ?thesis using r rows(2) by auto
  qed
  have "am_step (activated_row current m) = StActivated" "am_abort_requested (activated_row current m) = am_abort_requested current"
    using 2(4) by (simp_all add: activated_row_def)
  then show ?thesis unfolding 2(1) using s 2(9,10) own rows new h 2(5,6) by (auto simp: grown_def)
qed simp

section \<open>Bindings survive the move\<close>

lemma export_Inr:
  assumes "export_session_bindings n cut_id agent = Inr cs"
  obtains m where "load_move n cut_id = Some m" "freezing m agent"
    "set (plan_binding_refs (am_plan m)) \<subseteq> cb_key ` set (carried_rows n agent)"
    "cs = map (\<lambda>c. if stays_behind (plan_binding_refs (am_plan m)) c then c\<lparr>cb_held_on := nd_origin n\<rparr> else c) (carried_rows n agent)"
    "\<And>c. c \<in> set (carried_rows n agent) \<Longrightarrow> stays_behind (plan_binding_refs (am_plan m)) c \<Longrightarrow> nd_origin n \<noteq> None"
  using assms by (auto simp: export_session_bindings_def Let_def list_ex_iff split: option.splits if_splits)

lemma carried_row_key [simp]: "cb_key (carried_row n r) = sr_key r"
  by (simp add: carried_row_def cb_key_def sr_key_def)

definition held_after :: "node \<Rightarrow> session_key list \<Rightarrow> session_row \<Rightarrow> string option" where
  "held_after n planned r = (if sr_key r \<notin> set planned \<and> sr_held_on r = None then nd_origin n else sr_held_on r)"

definition sent_binding :: "node \<Rightarrow> session_key list \<Rightarrow> session_row \<Rightarrow> carried_binding" where
  "sent_binding n planned r = (carried_row n r)\<lparr>cb_held_on := held_after n planned r\<rparr>"

lemma sent_binding_simps [simp]: "cb_key (sent_binding n p r) = sr_key r" "cb_held_on (sent_binding n p r) = held_after n p r"
  "cb_history (sent_binding n p r) = network_history n (sr_key r)"
  by (simp_all add: sent_binding_def carried_row_def cb_key_def sr_key_def)

definition arrived_row :: "node \<Rightarrow> node \<Rightarrow> session_key list \<Rightarrow> session_row \<Rightarrow> session_row" where
  "arrived_row s t planned r = r\<lparr>sr_held_on := (if held_after s planned r = nd_origin t then None else held_after s planned r)\<rparr>"

lemma installed_sent: "installed_row t (sr_agent_id r) (sent_binding s p r) = arrived_row s t p r"
  by (simp add: installed_row_def sent_binding_def carried_row_def arrived_row_def)

lemma arrived_clash: "session_clash (arrived_row s t p a) b \<longleftrightarrow> session_clash a b" "session_clash a (arrived_row s t p b) \<longleftrightarrow> session_clash a b"
  "sr_key (arrived_row s t p a) = sr_key a"
  by (simp_all add: session_clash_def arrived_row_def sr_key_def host_key_def runner_key_def)

lemma export_sends:
  assumes ok: "sessions_ok n" and e: "export_session_bindings n cut_id agent = Inr cs" and m: "load_move n cut_id = Some m"
  shows "set cs = sent_binding n (plan_binding_refs (am_plan m)) ` {r \<in> set (nd_sessions n). sr_agent_id r = agent}"
    "\<And>r. r \<in> set (nd_sessions n) \<Longrightarrow> sr_agent_id r = agent \<Longrightarrow> carried_at cs (sr_key r) = Some (sent_binding n (plan_binding_refs (am_plan m)) r)"
    "set (plan_binding_refs (am_plan m)) \<subseteq> sr_key ` {r \<in> set (nd_sessions n). sr_agent_id r = agent}"
    "\<And>r. r \<in> set (nd_sessions n) \<Longrightarrow> sr_agent_id r = agent \<Longrightarrow> sr_key r \<notin> set (plan_binding_refs (am_plan m)) \<Longrightarrow>
       held_after n (plan_binding_refs (am_plan m)) r \<noteq> None"
proof -
  let ?p = "plan_binding_refs (am_plan m)"
  define rows where "rows = sort_key sr_key (filter (\<lambda>r. sr_agent_id r = agent) (nd_sessions n))"
  have rows: "set rows = {r \<in> set (nd_sessions n). sr_agent_id r = agent}" "carried_rows n agent = map (carried_row n) rows"
    by (auto simp: rows_def carried_rows_def)
  obtain m' where m': "load_move n cut_id = Some m'" "set (plan_binding_refs (am_plan m')) \<subseteq> cb_key ` set (carried_rows n agent)"
    "cs = map (\<lambda>c. if stays_behind (plan_binding_refs (am_plan m')) c then c\<lparr>cb_held_on := nd_origin n\<rparr> else c) (carried_rows n agent)"
    "\<And>c. c \<in> set (carried_rows n agent) \<Longrightarrow> stays_behind (plan_binding_refs (am_plan m')) c \<Longrightarrow> nd_origin n \<noteq> None"
    by (rule export_Inr [OF e], rule that)
  have mm: "m' = m" using m m'(1) by simp
  have "(if stays_behind ?p c then c\<lparr>cb_held_on := nd_origin n\<rparr> else c) = sent_binding n ?p r" if "c = carried_row n r" for c r
    by (auto simp: that stays_behind_def sent_binding_def held_after_def carried_row_key) (simp_all add: carried_row_def)
  then have cs: "cs = map (sent_binding n ?p) rows" using m'(3) rows(2) mm by simp
  show "set cs = sent_binding n ?p ` {r \<in> set (nd_sessions n). sr_agent_id r = agent}" using cs rows(1) by simp
  show "set ?p \<subseteq> sr_key ` {r \<in> set (nd_sessions n). sr_agent_id r = agent}"
    using m'(2) by (simp add: mm rows(2) rows(1) [symmetric] image_image)
  show "held_after n ?p r \<noteq> None" if "r \<in> set (nd_sessions n)" "sr_agent_id r = agent" "sr_key r \<notin> set ?p" for r
  proof -
    have "carried_row n r \<in> set (carried_rows n agent)" using that(1,2) rows by simp
    from m'(4) [OF this] that(3) show ?thesis by (simp add: mm held_after_def stays_behind_def) (simp add: carried_row_def)
  qed
  have d: "distinct (map cb_key (rev cs))"
  proof -
    have "distinct (map sr_key (filter (\<lambda>r. sr_agent_id r = agent) (nd_sessions n)))"
      using ok by (simp add: sessions_ok_def ss.free_iff distinct_map_filter)
    then have "distinct (map sr_key rows)" by (simp add: rows_def distinct_map)
    then show ?thesis by (simp add: cs rev_map [symmetric] comp_def)
  qed
  show "carried_at cs (sr_key r) = Some (sent_binding n ?p r)" if "r \<in> set (nd_sessions n)" "sr_agent_id r = agent" for r
  proof -
    have "sent_binding n ?p r \<in> set (rev cs)" using that rows(1) cs by simp
    then have "find (\<lambda>c. cb_key c = cb_key (sent_binding n ?p r)) (rev cs) = Some (sent_binding n ?p r)" by (rule find_injective [OF d])
    then show ?thesis by (simp add: carried_at_def)
  qed
qed

lemma plan_refs_distinct: "distinct (plan_binding_refs plan)"
  by (simp add: plan_binding_refs_def)

text \<open>C7. Bindings survive the move. What a source machine exports for an agent installs on any receiver that has no
  binding in conflict with it: every binding of the agent arrives as it was with its network history,
  held on the machine that kept it when the move does not name it, and the receiver's own bindings and
  histories are unchanged.\<close>

theorem carry_roundtrip:
  assumes "sessions_ok s" "export_session_bindings s cut_id agent = Inr cs" "load_move s cut_id = Some m"
    and "valid_carry (plan_binding_refs (am_plan m)) cs" and "sessions_ok t"
    and "list_all (\<lambda>r. sr_agent_id r = agent \<longrightarrow> list_all (\<lambda>x. \<not> session_clash r x) (nd_sessions t)) (nd_sessions s)"
  shows "\<exists>t' out. install_moved_bindings t agent (Some now) (plan_binding_refs (am_plan m)) cs = Some (t', out) \<and> sessions_ok t'
    \<and> (\<forall>r\<in>set (nd_sessions s). sr_agent_id r = agent \<longrightarrow>
        find_ref t' (sr_key r) = Some (arrived_row s t (plan_binding_refs (am_plan m)) r) \<and> network_history t' (sr_key r) = network_history s (sr_key r))
    \<and> (\<forall>x\<in>set (nd_sessions t). x \<in> set (nd_sessions t') \<and> network_history t' (sr_key x) = network_history t (sr_key x))"
proof -
  let ?p = "plan_binding_refs (am_plan m)"
  define mine where "mine = {r \<in> set (nd_sessions s). sr_agent_id r = agent}"
  note sent = export_sends [OF assms(1,2,3), folded mine_def]
  have inj: "inj_on sr_key mine" using assms(1) by (auto simp: mine_def sessions_ok_def ss.free_iff distinct_map inj_on_def)
  define row where "row k = (THE r. r \<in> mine \<and> sr_key r = k)" for k
  have row: "row (sr_key r) = r" if "r \<in> mine" for r using inj that by (auto simp: row_def inj_on_def)
  define f where "f k = sent_binding s ?p (row k)" for k
  define ks where "ks = ?p @ metadata_keys cs"
  have keys: "\<exists>r\<in>mine. k = sr_key r" if "k \<in> set ks" for k
  proof (cases "k \<in> set ?p")
    case True
    then show ?thesis using sent(3) by auto
  next
    case False
    then have "k \<in> cb_key ` set cs" using that by (auto simp: ks_def metadata_keys_def)
    then show ?thesis using sent(1) by auto
  qed
  have at: "carried_at cs (sr_key r) = Some (sent_binding s ?p r)" if "r \<in> mine" for r using sent(2) that by (simp add: mine_def)
  have inst: "installed_row t agent (sent_binding s ?p r) = arrived_row s t ?p r" if "r \<in> mine" for r
    using that installed_sent [of t r s ?p] by (simp add: mine_def)
  have clash: "\<not> session_clash r x" if "r \<in> mine" "x \<in> set (nd_sessions t)" for r x
    using assms(6) that by (auto simp: list_all_iff mine_def)
  have "\<exists>n' out'. install_refs agent (Some now) cs [] ks (t, nothing_installed) = Some (n', out') \<and> grown agent t n'
    \<and> (\<forall>k\<in>set ks. k \<in> set [] \<or> find_ref n' k = Some (installed_row t agent (f k)) \<and> network_history n' k = cb_history (f k))"
  proof (rule install_exact [OF assms(5), where refs = ?p])
    show "check_carried c = None" if "c \<in> set cs" for c using assms(4) that by (simp add: valid_carry_def list_all_iff)
    show "k \<in> set ?p \<or> some_and (\<lambda>c. cb_held_on c \<noteq> None) (carried_at cs k)" if "k \<in> set ks" for k
      using that metadata_held [of k cs] unfolding ks_def set_append by blast
    show "cb_held_on c = None" if "carried_at cs k = Some c" "k \<in> set ?p" for k c
      using assms(4) carried_at_Some [OF that(1)] that(2) by (auto simp: valid_carry_def list_all_iff)
    show "carried_at cs k = Some (f k)" if "k \<in> set ks" for k using keys [OF that] at row by (auto simp: f_def)
    show "find_ref t k = None \<and> \<not> carried_collides t (f k)" if kk: "k \<in> set ks" "k \<notin> set []" for k
    proof -
      obtain r where r: "r \<in> mine" "k = sr_key r" using keys [OF kk(1)] by blast
      have "sr_key x \<noteq> k" if "x \<in> set (nd_sessions t)" for x using clash [OF r(1) that] r(2) by (auto simp: session_clash_def)
      moreover have "\<not> same_session_key (f k) x" if "x \<in> set (nd_sessions t)" for x
        using clash [OF r(1) that] same_session_clash [of "f k" x t agent] inst [OF r(1)] row [OF r(1)] r(2) by (auto simp: f_def arrived_clash)
      ultimately show ?thesis by (auto simp: find_ref_absent carried_collides_def list_ex_iff)
    qed
    show "\<not> same_session_key (f k) (installed_row t agent (f k'))" if kk: "k \<in> set ks" "k' \<in> set ks" "k \<noteq> k'" for k k'
    proof
      obtain r r' where r: "r \<in> mine" "k = sr_key r" "r' \<in> mine" "k' = sr_key r'" using keys [OF kk(1)] keys [OF kk(2)] by blast
      assume "same_session_key (f k) (installed_row t agent (f k'))"
      then have "session_clash (installed_row t agent (f k)) (installed_row t agent (f k'))" by (rule same_session_clash)
      then have "session_clash r r'" using inst r row by (simp add: f_def arrived_clash)
      moreover have "\<not> session_clash r r'" using assms(1) r kk(3) by (intro ss.free_pair [of "nd_sessions s"]) (auto simp: sessions_ok_def mine_def)
      ultimately show False by simp
    qed
  qed
  then obtain t' out where t': "install_refs agent (Some now) cs [] ks (t, nothing_installed) = Some (t', out)" "grown agent t t'"
    "\<forall>k\<in>set ks. find_ref t' k = Some (installed_row t agent (f k)) \<and> network_history t' k = cb_history (f k)" by auto
  have all: "sr_key r \<in> set ks" if r: "r \<in> mine" for r
  proof (cases "sr_key r \<in> set ?p")
    case False
    then have "held_after s ?p r \<noteq> None" using sent(4) r by (simp add: mine_def)
    moreover have "sr_key r \<in> cb_key ` set cs" using sent(1) r by (metis image_eqI sent_binding_simps(1))
    ultimately show ?thesis using at [OF r] by (simp add: ks_def metadata_keys_def)
  qed (simp add: ks_def)
  have "find_ref t' (sr_key r) = Some (arrived_row s t ?p r) \<and> network_history t' (sr_key r) = network_history s (sr_key r)" if "r \<in> mine" for r
    using t'(3) all [OF that] inst [OF that] row [OF that] by (simp add: f_def)
  moreover have "x \<in> set (nd_sessions t') \<and> network_history t' (sr_key x) = network_history t (sr_key x)" if "x \<in> set (nd_sessions t)" for x
    using t'(2) that by (auto simp: grown_def)
  ultimately show ?thesis using t'(1) grown_ok [OF t'(2)] unfolding install_moved_bindings_def ks_def [symmetric] mine_def by auto
qed

section \<open>Examples\<close>

definition planned_move :: agent_move where
  "planned_move = example_move\<lparr>am_plan := JObj [(''participants'', JArr [JObj [(''refs'',
     JArr [JObj [(''ref'', JStr ''r1''), (''ref_kind'', JStr ''k'')]])]]), (''pin_digest'', JNull)]\<rparr>"

definition moving_node :: node where
  "moving_node = fst (admit_agent_move (bound_node 5) planned_move [MoveRef ''k'' ''r1''])"

definition received_move :: agent_move where
  "received_move = example_move\<lparr>am_side := Receiver, am_step := StActivating\<rparr>"

definition receiving_node :: node where
  "receiving_node = example_node\<lparr>nd_moves := [received_move]\<rparr>"

definition finished_move :: agent_move where
  "finished_move = received_move\<lparr>am_step := StActivated, am_activated_at := Some 7\<rparr>"

definition sent_row :: carried_binding where
  "sent_row = carried_row (bound_node 5) example_row"

lemma receiving_ok: "sessions_ok receiving_node" "moves_ok receiving_node" "load_move receiving_node (am_cut_id finished_move) = Some received_move"
proof -
  have "length (network_history receiving_node k) \<le> history_max" for k
    by (simp add: length_network_history receiving_node_def example_node_def)
  then show "sessions_ok receiving_node" by (simp add: sessions_ok_def) (simp add: receiving_node_def example_node_def pairwise_free_def)
qed (simp_all add: moves_ok_def pairwise_free_def receiving_node_def load_move_def finished_move_def)

lemma activation_exact_witness:
  "map_option sr_agent_id (find_ref (fst (activate_agent_move_carrying receiving_node finished_move [(''k'', ''r1'')] [sent_row])) (''k'', ''r1''))
   = Some ''a1''"
proof -
  have r: "is_ok (snd (activate_agent_move_carrying receiving_node finished_move [(''k'', ''r1'')] [sent_row]))" by code_simp
  have v: "valid_carry [(''k'', ''r1'')] [sent_row]" by code_simp
  have m: "am_agent_id finished_move = am_agent_id received_move" "am_request_key finished_move = am_request_key received_move"
    by (simp_all add: finished_move_def)
  from activation_exact [OF receiving_ok m v] r show ?thesis
    by (auto simp: is_ok_def some_and_def finished_move_def received_move_def example_move_def split: prod.splits sum.splits option.splits)
qed

lemma carry_roundtrip_witness:
  "\<exists>t' out. install_moved_bindings receiving_node ''a1'' (Some 7) [(''k'', ''r1'')] [sent_row] = Some (t', out)
     \<and> network_history t' (''k'', ''r1'') = [\<lparr>ne_network = ''yes'', ne_since = 5\<rparr>]"
proof -
  have e: "export_session_bindings moving_node ''c1'' ''a1'' = Inr [sent_row]" by code_simp
  have l: "load_move moving_node ''c1'' = Some planned_move" by code_simp
  have p: "plan_binding_refs (am_plan planned_move) = [(''k'', ''r1'')]" by code_simp
  have v: "valid_carry (plan_binding_refs (am_plan planned_move)) [sent_row]" unfolding p by code_simp
  have ss: "nd_sessions moving_node = [example_row]" by code_simp
  have hh: "nd_history moving_node = nd_history (bound_node 5)" by code_simp
  have ok: "sessions_ok moving_node" using sessions_ok_cong [OF _ hh] bound_node_ok ss by (simp add: bound_node_def)
  have f: "list_all (\<lambda>r. sr_agent_id r = ''a1'' \<longrightarrow> list_all (\<lambda>x. \<not> session_clash r x) (nd_sessions receiving_node)) (nd_sessions moving_node)"
    by (simp add: receiving_node_def example_node_def list_all_iff)
  have k: "sr_key example_row = (''k'', ''r1'')" "sr_agent_id example_row = ''a1''" by (simp_all add: sr_key_def example_row_def)
  have h: "network_history moving_node (''k'', ''r1'') = [\<lparr>ne_network = ''yes'', ne_since = 5\<rparr>]" by code_simp
  from carry_roundtrip [OF ok e l v receiving_ok(1) f, of 7] ss k h p show ?thesis by auto
qed

end
