(* ===== verification/NodeSteps.thy ===== *)
theory NodeSteps
  imports Carry
begin

text \<open>
  All operations on a machine's own tables together: one step is any of the operations of \<open>Node\<close>,
  \<open>Sessions\<close> and \<open>Carry\<close>, and the invariants hold on every reachable state. While a source move is open,
  the bindings it was admitted with stay exportable.
\<close>

section \<open>All operations together\<close>

text \<open>
  One step of the machine: any operation on its tables, with any arguments. The driver's own duties are
  the guards of a checkpoint and an activation: the row keeps its agent, key, side and references and is
  not reopened. A registration reads a clock that has time left.
\<close>

inductive node_step :: "node \<Rightarrow> node \<Rightarrow> bool" where
  st_register: "clock_left n \<Longrightarrow> rg_by q \<in> set [''orchestrator'', ''host''] \<Longrightarrow> node_step n (fst (register_session n q))"
| st_network: "clock_left n \<Longrightarrow> node_step n (fst (set_session_network n harness session network now))"
| st_end: "node_step n (fst (end_session n harness session runner now))"
| st_gone: "node_step n (fst (stamp_gone_sessions n gs))"
| st_prune: "node_step n (fst (prune_ended_sessions n now))"
| st_admit: "node_step n (fst (admit_agent_move n m refs))"
| st_receive: "node_step n (fst (admit_received_move n m))"
| st_checkpoint: "load_move n (am_cut_id m) = Some current \<Longrightarrow> am_agent_id m = am_agent_id current \<Longrightarrow>
    am_request_key m = am_request_key current \<Longrightarrow> am_side m = am_side current \<Longrightarrow> (is_open m \<Longrightarrow> is_open current) \<Longrightarrow>
    plan_binding_refs (am_plan m) = plan_binding_refs (am_plan current) \<Longrightarrow> node_step n (fst (checkpoint_agent_move n m clear))"
| st_abort: "node_step n (fst (request_agent_move_abort n cut_id now))"
| st_retry: "node_step n (fst (consume_move_abort_retry n cut_id))"
| st_accept: "node_step n (set_move_cut_accept n cut_id accept now)"
| st_release: "set_move_cut_release n cut_id rel = Some n' \<Longrightarrow> node_step n n'"
| st_activate: "load_move n (am_cut_id m) = Some current \<Longrightarrow> am_agent_id m = am_agent_id current \<Longrightarrow>
    am_request_key m = am_request_key current \<Longrightarrow> valid_carry refs cs \<Longrightarrow> node_step n (fst (activate_agent_move_carrying n m refs cs))"
| st_other: "node_step n (n\<lparr>nd_cut_over := c, nd_agents := a, nd_claims := t, nd_pin_digest := d\<rparr>)"

definition node_ok :: "node \<Rightarrow> bool" where
  "node_ok n \<longleftrightarrow> sessions_ok n \<and> moves_ok n"

definition keys_of :: "node \<Rightarrow> string \<Rightarrow> session_key set" where
  "keys_of n agent = sr_key ` {r \<in> set (nd_sessions n). sr_agent_id r = agent}"

definition live_of :: "node \<Rightarrow> string \<Rightarrow> session_key set" where
  "live_of n agent = sr_key ` {r \<in> set (nd_sessions n). sr_agent_id r = agent \<and> sr_ended_at r = None}"

definition same_move :: "agent_move \<Rightarrow> agent_move \<Rightarrow> bool" where
  "same_move m m' \<longleftrightarrow> am_agent_id m' = am_agent_id m \<and> am_side m' = am_side m
     \<and> plan_binding_refs (am_plan m') = plan_binding_refs (am_plan m) \<and> (is_open m' \<longrightarrow> is_open m)"

definition moves_kept :: "node \<Rightarrow> node \<Rightarrow> bool" where
  "moves_kept n n' \<longleftrightarrow> (\<forall>c m. load_move n c = Some m \<and> am_side m = Source \<longrightarrow> (\<exists>m'. load_move n' c = Some m' \<and> same_move m m'))"

definition frozen :: "node \<Rightarrow> string \<Rightarrow> bool" where
  "frozen n agent \<longleftrightarrow> (\<exists>m\<in>set (nd_moves n). am_agent_id m = agent \<and> am_side m = Source \<and> is_open m)"

definition bindings_kept :: "node \<Rightarrow> node \<Rightarrow> bool" where
  "bindings_kept n n' \<longleftrightarrow> (\<forall>agent. frozen n agent \<longrightarrow> keys_of n' agent = keys_of n agent \<and> live_of n' agent \<subseteq> live_of n agent)"

lemma same_move_refl [simp]: "same_move m m" by (simp add: same_move_def)

lemma moves_kept_same: "nd_moves n' = nd_moves n \<Longrightarrow> moves_kept n n'"
  by (simp add: moves_kept_def load_move_def)

lemma moves_kept_replace:
  assumes "load_move n c = Some m" "\<And>d. load_move n' d = (if d = c then Some m' else load_move n d)" "same_move m m'"
  shows "moves_kept n n'"
  using assms by (auto simp: moves_kept_def)

lemma moves_kept_append:
  assumes "nd_moves n' = nd_moves n @ ms"
  shows "moves_kept n n'"
  using assms by (auto simp: moves_kept_def load_move_def find_append)

lemma bindings_kept_same: "nd_sessions n' = nd_sessions n \<Longrightarrow> bindings_kept n n'"
  by (simp add: bindings_kept_def keys_of_def live_of_def)

lemma bindings_kept_rows:
  assumes "\<And>agent. frozen n agent \<Longrightarrow> {r \<in> set (nd_sessions n'). sr_agent_id r = agent} = {r \<in> set (nd_sessions n). sr_agent_id r = agent}"
  shows "bindings_kept n n'"
proof -
  have "r \<in> set (nd_sessions n') \<and> sr_agent_id r = agent \<longleftrightarrow> r \<in> set (nd_sessions n) \<and> sr_agent_id r = agent" if "frozen n agent" for agent r
    using assms [OF that] by blast
  then show ?thesis unfolding bindings_kept_def keys_of_def live_of_def by blast
qed

lemma frozen_blocks:
  assumes "frozen n (rg_agent q)"
  shows "check_moving_registration n q \<noteq> Inr ()"
proof -
  obtain m where m: "m \<in> set (nd_moves n)" "am_agent_id m = rg_agent q" "am_side m = Source" "is_open m" using assms by (auto simp: frozen_def)
  then have "m \<in> set (open_moves n)" "blocks_agent m (rg_agent q)" by (simp_all add: open_moves_def blocks_agent_def)
  then show ?thesis by (auto simp: check_moving_registration_def find_None_iff split: option.split)
qed

lemma register_kept:
  assumes "sessions_ok n" "clock_left n" "rg_by q \<in> set [''orchestrator'', ''host'']" and n': "n' = fst (register_session n q)"
  shows "sessions_ok n'" "nd_moves n' = nd_moves n" "nd_origin n' = nd_origin n" "bindings_kept n n'"
proof -
  have "sessions_ok n' \<and> nd_moves n' = nd_moves n \<and> nd_origin n' = nd_origin n \<and> bindings_kept n n'"
  proof (cases rule: register_result [OF assms(1-3)])
    case 1
    then show ?thesis using assms(1) by (simp add: n' bindings_kept_same)
  next
    case (2 m t r)
    have m: "n' = m" using 2(1) by (simp add: n')
    have "{x \<in> set (nd_sessions m). sr_agent_id x = agent} = {x \<in> set (nd_sessions n). sr_agent_id x = agent}" if f: "frozen n agent" for agent
    proof -
      have "agent \<noteq> rg_agent q" using f frozen_blocks [of n q] check_agent_Inr(3) [OF 2(4)] by auto
      moreover have "sr_agent_id r = rg_agent q" using 2(7) by (simp add: registered_def)
      moreover have "sr_agent_id x = rg_agent q" if "x \<in> set (nd_sessions n)" "sr_key x = previous_key q t" for x
        using 2(3) that unfolding takes_over_def by metis
      ultimately have "x \<in> set (nd_sessions m) \<and> sr_agent_id x = agent \<longleftrightarrow> x \<in> set (nd_sessions n) \<and> sr_agent_id x = agent" for x
        using 2(10) [of x] by metis
      then show ?thesis by (intro Collect_cong)
    qed
    then have b: "bindings_kept n m" by (rule bindings_kept_rows)
    obtain s h where "m = n\<lparr>nd_sessions := s, nd_history := h\<rparr>" using 2(11) by blast
    then show ?thesis using 2(5) b m by simp
  qed
  then show "sessions_ok n'" "nd_moves n' = nd_moves n" "nd_origin n' = nd_origin n" "bindings_kept n n'" by simp_all
qed

lemma bindings_kept_map:
  assumes "nd_sessions n' = map f (nd_sessions n)" "\<And>r. sr_key (f r) = sr_key r" "\<And>r. sr_agent_id (f r) = sr_agent_id r"
    "\<And>r. sr_ended_at (f r) = None \<Longrightarrow> sr_ended_at r = None"
  shows "bindings_kept n n'"
proof -
  have "keys_of n' agent = keys_of n agent" for agent
  proof -
    have "{r \<in> set (nd_sessions n'). sr_agent_id r = agent} = f ` {r \<in> set (nd_sessions n). sr_agent_id r = agent}"
      by (auto simp: assms(1,3))
    then show ?thesis by (simp add: keys_of_def image_image assms(2))
  qed
  moreover have "live_of n' agent \<subseteq> live_of n agent" for agent
  proof -
    have "{r \<in> set (nd_sessions n'). sr_agent_id r = agent \<and> sr_ended_at r = None} \<subseteq> f ` {r \<in> set (nd_sessions n). sr_agent_id r = agent \<and> sr_ended_at r = None}"
      by (auto simp: assms(1,3) dest: assms(4))
    then have "live_of n' agent \<subseteq> sr_key ` f ` {r \<in> set (nd_sessions n). sr_agent_id r = agent \<and> sr_ended_at r = None}"
      unfolding live_of_def by (rule image_mono)
    then show ?thesis by (simp add: live_of_def image_image assms(2))
  qed
  ultimately show ?thesis by (simp add: bindings_kept_def)
qed

lemma frozen_cong: "nd_moves n' = nd_moves n \<Longrightarrow> frozen n' = frozen n"
  by (simp add: frozen_def fun_eq_iff)

lemma bindings_kept_trans: "bindings_kept a b \<Longrightarrow> nd_moves b = nd_moves a \<Longrightarrow> bindings_kept b c \<Longrightarrow> bindings_kept a c"
  unfolding bindings_kept_def by (metis frozen_cong subset_trans)

lemma gone_kept:
  assumes "sessions_ok n"
  shows "sessions_ok (fst (stamp_gone_sessions n gs)) \<and> nd_moves (fst (stamp_gone_sessions n gs)) = nd_moves n
    \<and> nd_origin (fst (stamp_gone_sessions n gs)) = nd_origin n \<and> bindings_kept n (fst (stamp_gone_sessions n gs))"
  using assms
proof (induction n gs rule: stamp_gone_sessions.induct)
  case (2 n g gs)
  define n1 where "n1 = n\<lparr>nd_sessions := map (\<lambda>r. if stamps g r then r\<lparr>sr_ended_at := Some (gs_ended_at g)\<rparr> else r) (nd_sessions n)\<rparr>"
  have ok: "sessions_ok n1" unfolding n1_def by (rule stamp_one_ok [OF 2(2)])
  have "bindings_kept n n1"
    by (rule bindings_kept_map [where f = "\<lambda>r. if stamps g r then r\<lparr>sr_ended_at := Some (gs_ended_at g)\<rparr> else r"])
      (auto simp: n1_def stamped_same split: if_splits)
  moreover have "nd_moves n1 = nd_moves n" "nd_origin n1 = nd_origin n" by (simp_all add: n1_def)
  moreover note 2(1) [folded n1_def, OF ok]
  moreover have "fst (stamp_gone_sessions n (g # gs)) = fst (stamp_gone_sessions n1 gs)" by (simp add: n1_def split: prod.split)
  ultimately show ?case using bindings_kept_trans [of n n1] by simp
qed (simp add: bindings_kept_same)

lemma end_kept:
  assumes "sessions_ok n" and n': "n' = fst (end_session n h s runner now)"
  shows "sessions_ok n' \<and> nd_moves n' = nd_moves n \<and> nd_origin n' = nd_origin n \<and> bindings_kept n n'"
proof (cases rule: end_result [OF assms(1), of h s runner now])
  case (1 r)
  then show ?thesis using assms(1) by (simp add: n' bindings_kept_same)
next
  case (2 m r r')
  have m: "n' = m" using 2(1) by (simp add: n')
  have r: "r \<in> set (nd_sessions n)" using find_host_Some [OF 2(2)] by simp
  have eq: "x = r" if "x \<in> set (nd_sessions n)" "sr_key x = sr_key r'" for x
    using same_session [OF _ that(1) r] assms(1) that(2) 2(6) by (simp add: sessions_ok_def)
  let ?f = "\<lambda>x. if x = r then r' else x"
  have "nd_sessions m = map ?f (nd_sessions n)" using eq 2(6) by (auto simp: 2(4) set_row_def)
  then have "bindings_kept n m" by (rule bindings_kept_map) (auto simp: 2(6-8) split: if_splits)
  moreover have "nd_moves m = nd_moves n" "nd_origin m = nd_origin n" by (simp_all add: 2(4))
  ultimately show ?thesis using 2(5) m by simp
qed

lemma network_kept:
  assumes "sessions_ok n" "clock_left n" and n': "n' = fst (set_session_network n h s v now)"
  shows "sessions_ok n' \<and> nd_moves n' = nd_moves n \<and> nd_origin n' = nd_origin n \<and> bindings_kept n n'"
proof (cases rule: set_network_result [OF assms(1,2), of h s v now])
  case (1 e)
  then show ?thesis using assms(1) by (simp add: n' bindings_kept_same)
next
  case (2 m c r)
  obtain x where "m = n\<lparr>nd_history := x\<rparr>" using 2(6) by blast
  then show ?thesis using 2(1,3) by (simp add: n' bindings_kept_same)
qed

lemma prune_kept:
  assumes "sessions_ok n" and n': "n' = fst (prune_ended_sessions n now)"
  shows "sessions_ok n' \<and> nd_moves n' = nd_moves n \<and> nd_origin n' = nd_origin n \<and> bindings_kept n n'"
proof -
  have p: "n' = pruned n (cutoff_at now)" by (simp add: n' prune_ended_sessions_def prune_loop_exact)
  have "\<not> expired n cutoff r" if "frozen n agent" "sr_agent_id r = agent" for agent r cutoff
    using that by (force simp: expired_def frozen_def)
  then have "bindings_kept n n'" by (intro bindings_kept_rows) (auto simp: p pruned_def Let_def)
  moreover have "nd_moves n' = nd_moves n" "nd_origin n' = nd_origin n" by (simp_all add: p pruned_def Let_def)
  ultimately show ?thesis using pruned_ok [OF assms(1)] p by simp
qed

lemma insert_kept: "insert_move n m = Some n' \<Longrightarrow> moves_kept n n' \<and> nd_sessions n' = nd_sessions n \<and> nd_history n' = nd_history n \<and> nd_origin n' = nd_origin n"
  by (auto simp: insert_move_Some intro: moves_kept_append)

lemma admit_kept:
  assumes "moves_ok n" and n': "n' = fst (admit_agent_move n m refs)"
  shows "moves_ok n' \<and> moves_kept n n' \<and> nd_sessions n' = nd_sessions n \<and> nd_history n' = nd_history n \<and> nd_origin n' = nd_origin n"
proof -
  obtain r where r: "admit_agent_move n m refs = (n', r)" by (simp add: n' prod_eq_iff)
  have "moves_ok n'" by (rule admit_agent_move_ok [OF assms(1) r])
  then show ?thesis by (cases rule: admit_agent_move_cases [OF r]) (auto simp: moves_kept_same dest: insert_kept)
qed

lemma receive_kept:
  assumes "moves_ok n" and n': "n' = fst (admit_received_move n m)"
  shows "moves_ok n' \<and> moves_kept n n' \<and> nd_sessions n' = nd_sessions n \<and> nd_history n' = nd_history n \<and> nd_origin n' = nd_origin n"
proof -
  obtain r where r: "admit_received_move n m = (n', r)" by (simp add: n' prod_eq_iff)
  have "moves_ok n'" by (rule admit_received_ok [OF assms(1) r])
  then show ?thesis by (cases rule: admit_received_cases [OF r]) (auto simp: moves_kept_same dest: insert_kept)
qed

lemma plan_refs_release: "plan_binding_refs (jset plan ''_cut_release'' x) = plan_binding_refs plan"
  by (cases plan) (simp_all add: plan_binding_refs_def jset_def bt_get_insert)

text \<open>A change of one row that keeps its agent, side, references and step.\<close>

lemma update_kept:
  assumes "moves_ok n" "load_move n (am_cut_id m) = Some current" "am_agent_id m = am_agent_id current"
    "am_request_key m = am_request_key current" "am_side m = am_side current" "is_open m \<Longrightarrow> is_open current"
    "plan_binding_refs (am_plan m) = plan_binding_refs (am_plan current)"
  obtains n' where "update_move n m = Some (n', True)" "moves_ok n'" "moves_kept n n'" "nd_sessions n' = nd_sessions n"
    "nd_history n' = nd_history n" "nd_origin n' = nd_origin n"
proof -
  obtain n' where n': "update_move n m = Some (n', True)" "n' = n\<lparr>nd_moves := set_row am_cut_id m (nd_moves n)\<rparr>" "moves_ok n'"
    "\<And>d. load_move n' d = (if d = am_cut_id m then Some m else load_move n d)"
    by (rule update_move_same [OF assms(1-4,6)], assumption, rule that)
  have "same_move current m" using assms(3,5-7) by (simp add: same_move_def)
  then have "moves_kept n n'" by (rule moves_kept_replace [OF assms(2) n'(4)])
  then show ?thesis using n'(1,3) by (intro that [of n']) (simp_all add: n'(2))
qed

lemma retry_kept:
  assumes "moves_ok n" and n': "n' = fst (consume_move_abort_retry n cut_id)"
  shows "moves_ok n' \<and> moves_kept n n' \<and> nd_sessions n' = nd_sessions n \<and> nd_history n' = nd_history n \<and> nd_origin n' = nd_origin n"
proof -
  have same: ?thesis if "n' = n" using that assms(1) by (simp add: moves_kept_same)
  show ?thesis
  proof (cases "load_move n cut_id")
    case None
    then show ?thesis by (intro same) (simp add: n' consume_move_abort_retry_def)
  next
    case (Some m)
    have c: "am_cut_id m = cut_id" using load_move_Some [OF Some] by simp
    show ?thesis
    proof (cases "\<exists>r. am_abort_requested m = Some (JObj r) \<and> bt_get r ''retry_pending'' = Some (JBool True)")
      case True
      then obtain r where r: "am_abort_requested m = Some (JObj r)" "bt_get r ''retry_pending'' = Some (JBool True)" by blast
      let ?m = "m\<lparr>am_abort_requested := Some (JObj (bt_remove ''retry_pending'' r))\<rparr>"
      obtain n2 where n2: "update_move n ?m = Some (n2, True)" "moves_ok n2" "moves_kept n n2" "nd_sessions n2 = nd_sessions n"
        "nd_history n2 = nd_history n" "nd_origin n2 = nd_origin n"
        by (rule update_kept [OF assms(1), of ?m m]) (use Some c in \<open>simp_all add: is_open_def\<close>)
      then show ?thesis using Some r by (simp add: n' consume_move_abort_retry_def)
    next
      case False
      then show ?thesis using Some by (intro same) (auto simp: n' consume_move_abort_retry_def split: option.split json.split)
    qed
  qed
qed

lemma accept_kept:
  assumes "moves_ok n"
  shows "moves_ok (set_move_cut_accept n cut_id accept now) \<and> moves_kept n (set_move_cut_accept n cut_id accept now)"
proof -
  let ?f = "\<lambda>m. if am_cut_id m = cut_id then m\<lparr>am_cut_accept := Some accept, am_updated_at := now\<rparr> else m"
  have k: "am_cut_id (?f m) = am_cut_id m" "am_agent_id (?f m) = am_agent_id m" "am_request_key (?f m) = am_request_key m"
    "is_open (?f m) = is_open m" "am_side (?f m) = am_side m" "am_plan (?f m) = am_plan m" for m by (simp_all add: is_open_def)
  have m: "nd_moves (set_move_cut_accept n cut_id accept now) = map ?f (nd_moves n)" by (simp add: set_move_cut_accept_def)
  have "collides (?f a) (?f b) = collides a b" for a b unfolding collides_def k by simp
  then have "pairwise_free collides (map ?f (nd_moves n)) = pairwise_free collides (nd_moves n)"
    by (simp add: pairwise_free_def sorted_wrt_map)
  moreover have "length (filter is_open (map ?f xs)) = length (filter is_open xs)" for xs
    by (induction xs) (simp_all add: is_open_def)
  ultimately have "moves_ok (set_move_cut_accept n cut_id accept now)" using assms by (simp add: moves_ok_def m)
  moreover have "find (\<lambda>m. am_cut_id m = c) (map ?f xs) = map_option ?f (find (\<lambda>m. am_cut_id m = c) xs)" for c xs
    by (induction xs) auto
  then have "load_move (set_move_cut_accept n cut_id accept now) c = map_option ?f (load_move n c)" for c by (simp add: load_move_def m)
  then have "moves_kept n (set_move_cut_accept n cut_id accept now)" unfolding moves_kept_def same_move_def using k by simp
  ultimately show ?thesis ..
qed

lemma activate_kept:
  assumes ok: "node_ok n" and cur: "load_move n (am_cut_id m) = Some current" "am_agent_id m = am_agent_id current"
    "am_request_key m = am_request_key current" and carry: "valid_carry refs cs"
    and n': "n' = fst (activate_agent_move_carrying n m refs cs)"
  shows "node_ok n' \<and> moves_kept n n' \<and> nd_origin n' = nd_origin n \<and> bindings_kept n n'"
proof -
  have oks: "sessions_ok n" "moves_ok n" using ok by (simp_all add: node_ok_def)
  show ?thesis
  proof (cases rule: activate_result [OF oks cur carry])
    case 1
    then show ?thesis using ok by (simp add: n' moves_kept_same bindings_kept_same)
  next
    case (2 x out n1)
    have x: "n' = x" using 2(1) by (simp add: n')
    obtain rows where rows: "nd_sessions x = nd_sessions n @ rows" "\<forall>r\<in>set rows. sr_agent_id r = am_agent_id m"
      using 2(5,6) unfolding grown_def by auto
    have "sessions_ok x" using grown_ok [OF 2(5)] sessions_ok_cong [OF 2(6,7)] by simp
    moreover have "moves_kept n x" using cur(1) 2(2,10) by (auto simp: moves_kept_def)
    moreover have "bindings_kept n x"
    proof (rule bindings_kept_rows)
      fix agent assume "frozen n agent"
      then obtain f where f: "f \<in> set (nd_moves n)" "am_agent_id f = agent" "am_side f = Source" "is_open f" by (auto simp: frozen_def)
      have c: "current \<in> set (nd_moves n)" "is_open current" using load_move_Some [OF cur(1)] 2(3) by (simp_all add: is_open_def is_terminal_def)
      have "am_cut_id f \<noteq> am_cut_id current" using load_move_in [OF oks(2)] f(1,3) c(1) 2(2) by (metis move_side.distinct(1) option.inject)
      then have "\<not> collides f current" using oks(2) f(1) c(1) by (intro mv.free_pair [of "nd_moves n"]) (simp_all add: moves_ok_def)
      then have "agent \<noteq> am_agent_id m" using f c cur(2) by (auto simp: collides_def)
      then show "{r \<in> set (nd_sessions x). sr_agent_id r = agent} = {r \<in> set (nd_sessions n). sr_agent_id r = agent}"
        using rows by auto
    qed
    ultimately show ?thesis using 2(8,9) x by (simp add: node_ok_def)
  qed
qed

definition step_good :: "node \<Rightarrow> node \<Rightarrow> bool" where
  "step_good n n' \<longleftrightarrow> node_ok n' \<and> moves_kept n n' \<and> nd_origin n' = nd_origin n \<and> bindings_kept n n'"

lemma node_okD: "node_ok n \<Longrightarrow> sessions_ok n" "node_ok n \<Longrightarrow> moves_ok n" by (simp_all add: node_ok_def)

lemma good_sessions:
  assumes "node_ok n" "sessions_ok n' \<and> nd_moves n' = nd_moves n \<and> nd_origin n' = nd_origin n \<and> bindings_kept n n'"
  shows "step_good n n'"
  using assms moves_ok_cong [of n' n] by (simp add: step_good_def node_ok_def moves_kept_same)

lemma good_moves:
  assumes "node_ok n" "moves_ok n' \<and> moves_kept n n' \<and> nd_sessions n' = nd_sessions n \<and> nd_history n' = nd_history n \<and> nd_origin n' = nd_origin n"
  shows "step_good n n'"
  using assms sessions_ok_cong [of n' n] by (simp add: step_good_def node_ok_def bindings_kept_same)

lemma step_is_good:
  assumes "node_step n n'" "node_ok n"
  shows "step_good n n'"
  using assms
proof (induction rule: node_step.induct)
  case (st_register n q)
  then show ?case using register_kept [OF node_okD(1) [OF st_register(3)] st_register(1,2) refl]
    by (intro good_sessions [OF st_register(3)]) (intro conjI)
next
  case (st_network n h s v now)
  show ?case by (rule good_sessions [OF st_network(2) network_kept [OF node_okD(1) [OF st_network(2)] st_network(1) refl]])
next
  case (st_end n h s runner now)
  show ?case by (rule good_sessions [OF st_end(1) end_kept [OF node_okD(1) [OF st_end(1)] refl]])
next
  case (st_gone n gs)
  show ?case by (rule good_sessions [OF st_gone(1) gone_kept [OF node_okD(1) [OF st_gone(1)]]])
next
  case (st_prune n now)
  show ?case by (rule good_sessions [OF st_prune(1) prune_kept [OF node_okD(1) [OF st_prune(1)] refl]])
next
  case (st_admit n m refs)
  show ?case by (rule good_moves [OF st_admit(1) admit_kept [OF node_okD(2) [OF st_admit(1)] refl]])
next
  case (st_receive n m)
  show ?case by (rule good_moves [OF st_receive(1) receive_kept [OF node_okD(2) [OF st_receive(1)] refl]])
next
  case (st_checkpoint n m current clear)
  have ok: "moves_ok n" using st_checkpoint by (simp add: node_ok_def)
  show ?case
  proof (cases "am_step m = StActivating \<and> am_step current = StClaimed \<and> am_abort_requested current \<noteq> None")
    case True
    then have "fst (checkpoint_agent_move n m clear) = n" using st_checkpoint(1) by (simp add: checkpoint_agent_move_def)
    then show ?thesis using st_checkpoint by (simp add: step_good_def moves_kept_same bindings_kept_same)
  next
    case False
    have plan: "plan_binding_refs (am_plan (next_checkpoint current m clear)) = plan_binding_refs (am_plan current)"
      using st_checkpoint(6) by (simp add: next_checkpoint_def Let_def plan_refs_release split: option.split)
    obtain n2 where n2: "update_move n (next_checkpoint current m clear) = Some (n2, True)" "moves_ok n2" "moves_kept n n2"
      "nd_sessions n2 = nd_sessions n" "nd_history n2 = nd_history n" "nd_origin n2 = nd_origin n"
      by (rule update_kept [OF ok, of "next_checkpoint current m clear" current]) (use st_checkpoint(1-5) plan in \<open>simp_all only: next_checkpoint_keeps\<close>)
    have "fst (checkpoint_agent_move n m clear) = n2" 
      unfolding checkpoint_agent_move_def st_checkpoint(1) option.case if_not_P [OF False] n2(1) by simp
    then show ?thesis using n2 by (intro good_moves [OF st_checkpoint(7)]) simp
  qed
next
  case (st_abort n cut_id now)
  have ok: "moves_ok n" using st_abort by (simp add: node_ok_def)
  have same: "step_good n n" using st_abort by (simp add: step_good_def moves_kept_same bindings_kept_same)
  show ?case
  proof (cases "load_move n cut_id")
    case None
    then show ?thesis using same by (simp add: request_agent_move_abort_def)
  next
    case (Some m)
    show ?thesis
    proof (cases rule: abort_result [OF ok Some, of now])
      case (4 n2)
      have "same_move m (aborting m now)" by (simp add: same_move_def) (simp add: aborting_def)
      then have "moves_kept n n2" by (rule moves_kept_replace [OF Some 4(4)])
      moreover have "nd_sessions n2 = nd_sessions n" "nd_history n2 = nd_history n" "nd_origin n2 = nd_origin n" by (simp_all add: 4(5))
      ultimately show ?thesis using 4(1,2) st_abort by (intro good_moves) simp_all
    qed (use same in simp_all)
  qed
next
  case (st_retry n cut_id)
  show ?case by (rule good_moves [OF st_retry(1) retry_kept [OF node_okD(2) [OF st_retry(1)] refl]])
next
  case (st_accept n cut_id accept now)
  have "nd_sessions (set_move_cut_accept n cut_id accept now) = nd_sessions n" "nd_history (set_move_cut_accept n cut_id accept now) = nd_history n"
    "nd_origin (set_move_cut_accept n cut_id accept now) = nd_origin n" by (simp_all add: set_move_cut_accept_def)
  then show ?case using accept_kept [OF node_okD(2) [OF st_accept]] by (intro good_moves [OF st_accept]) simp
next
  case (st_release n cut_id rel n')
  have ok: "moves_ok n" using st_release by (simp add: node_ok_def)
  obtain m where m: "load_move n cut_id = Some m" "map_option fst (update_move n (m\<lparr>am_plan := jset (am_plan m) ''_cut_release'' rel\<rparr>)) = Some n'"
    using st_release(1) by (auto simp: set_move_cut_release_def split: option.splits)
  have c: "am_cut_id m = cut_id" using load_move_Some [OF m(1)] by simp
  obtain n2 where n2: "update_move n (m\<lparr>am_plan := jset (am_plan m) ''_cut_release'' rel\<rparr>) = Some (n2, True)" "moves_ok n2" "moves_kept n n2"
    "nd_sessions n2 = nd_sessions n" "nd_history n2 = nd_history n" "nd_origin n2 = nd_origin n"
    by (rule update_kept [OF ok, of "m\<lparr>am_plan := jset (am_plan m) ''_cut_release'' rel\<rparr>" m]) (use m c in \<open>simp_all add: is_open_def plan_refs_release\<close>)
  then show ?case using m(2) st_release(2) by (intro good_moves) simp_all
next
  case (st_activate n m current refs cs)
  then show ?case using activate_kept [OF st_activate(5,1,2,3,4) refl] by (simp add: step_good_def)
next
  case (st_other n c a t d)
  then show ?case by (simp add: step_good_def node_ok_def moves_kept_same bindings_kept_same moves_ok_def sessions_ok_def network_history_def)
qed

text \<open>C1. The tables of a machine stay well formed. From a well-formed node, after any sequence of the operations on
  sessions, network histories and moves, references and cuts are unique, at most four moves are open, and
  every network history has increasing times, at most the allowed length and a binding it belongs to.\<close>

theorem node_invariant:
  assumes "node_step\<^sup>*\<^sup>* n n'" "node_ok n"
  shows "node_ok n' \<and> distinct (map sr_key (nd_sessions n')) \<and> distinct (map am_cut_id (nd_moves n')) \<and> length (filter is_open (nd_moves n')) \<le> 4
    \<and> (\<forall>k. sorted_wrt (<) (map ne_since (network_history n' k)) \<and> length (network_history n' k) \<le> history_max
         \<and> (network_history n' k = [] \<or> find_ref n' k \<noteq> None))"
proof -
  have ok: "node_ok n'" using assms by (induction rule: rtranclp_induct) (auto dest!: step_is_good simp: step_good_def)
  then have s: "sessions_ok n'" and m: "moves_ok n'" by (simp_all add: node_ok_def)
  have "sorted_wrt (<) (map ne_since (network_history n' k))" for k using s by (intro history_rising) (simp add: sessions_ok_def)
  moreover have "length (network_history n' k) \<le> history_max" for k by (cases k) (use s in \<open>simp add: sessions_ok_def\<close>)
  moreover have "network_history n' k = [] \<or> find_ref n' k \<noteq> None" for k
  proof (cases "network_history n' k")
    case (Cons e es)
    then have "e \<in> set (network_history n' k)" by simp
    then have "(k, e) \<in> set (nd_history n')" by (simp only: set_network_history)
    then have "k \<in> sr_key ` set (nd_sessions n')" using s by (fastforce simp: sessions_ok_def list_all_iff)
    then show ?thesis using find_ref_None [of n' k] by blast
  qed simp
  ultimately show ?thesis using ok s m by (auto simp: sessions_ok_def moves_ok_def ss.free_iff mv.free_iff)
qed

text \<open>What a source move was admitted with stays what it can export.\<close>

definition exportable :: "node \<Rightarrow> string \<Rightarrow> string \<Rightarrow> bool" where
  "exportable n cut_id agent \<longleftrightarrow> (\<exists>m. load_move n cut_id = Some m \<and> am_agent_id m = agent \<and> am_side m = Source
     \<and> (is_open m \<longrightarrow> set (plan_binding_refs (am_plan m)) \<subseteq> keys_of n agent \<and> live_of n agent \<subseteq> set (plan_binding_refs (am_plan m))))"

lemma exportable_step:
  assumes "step_good n n'" "exportable n cut_id agent"
  shows "exportable n' cut_id agent"
proof -
  obtain m where m: "load_move n cut_id = Some m" "am_agent_id m = agent" "am_side m = Source"
    "is_open m \<Longrightarrow> set (plan_binding_refs (am_plan m)) \<subseteq> keys_of n agent \<and> live_of n agent \<subseteq> set (plan_binding_refs (am_plan m))"
    using assms(2) by (auto simp: exportable_def)
  obtain m' where m': "load_move n' cut_id = Some m'" "same_move m m'"
    using assms(1) m(1,3) unfolding step_good_def moves_kept_def by blast
  have "set (plan_binding_refs (am_plan m')) \<subseteq> keys_of n' agent \<and> live_of n' agent \<subseteq> set (plan_binding_refs (am_plan m'))" if o: "is_open m'"
  proof -
    have om: "is_open m" using o m'(2) by (simp add: same_move_def)
    then have "frozen n agent" using load_move_Some [OF m(1)] m(2,3) by (auto simp: frozen_def)
    then have "keys_of n' agent = keys_of n agent \<and> live_of n' agent \<subseteq> live_of n agent"
      using assms(1) by (simp add: step_good_def bindings_kept_def)
    then show ?thesis using m(4) [OF om] m'(2) by (auto simp: same_move_def)
  qed
  then show ?thesis using m' m(2,3) by (auto simp: exportable_def same_move_def)
qed

lemma export_when:
  assumes "exportable n cut_id agent" "load_move n cut_id = Some m" "freezing m agent" "nd_origin n \<noteq> None"
  shows "is_ok (export_session_bindings n cut_id agent)"
proof -
  have o: "is_open m" using assms(3) by (auto simp: freezing_def is_open_def is_terminal_def)
  then have e: "set (plan_binding_refs (am_plan m)) \<subseteq> keys_of n agent" "live_of n agent \<subseteq> set (plan_binding_refs (am_plan m))"
    using assms(1,2) by (auto simp: exportable_def)
  have "set (map cb_key (carried_rows n agent)) = keys_of n agent" by (simp add: carried_rows_def keys_of_def image_image)
  moreover have "\<not> list_ex (\<lambda>c. cb_ended_at c = None \<and> cb_key c \<notin> set (plan_binding_refs (am_plan m))) (carried_rows n agent)"
  proof
    assume "list_ex (\<lambda>c. cb_ended_at c = None \<and> cb_key c \<notin> set (plan_binding_refs (am_plan m))) (carried_rows n agent)"
    then obtain r where r: "r \<in> set (nd_sessions n)" "sr_agent_id r = agent" "cb_ended_at (carried_row n r) = None" "sr_key r \<notin> set (plan_binding_refs (am_plan m))"
      by (auto simp: list_ex_iff carried_rows_def)
    then have "sr_key r \<in> live_of n agent" by (auto simp: live_of_def carried_row_def)
    then show False using e(2) r(4) by blast
  qed
  ultimately show ?thesis using assms(2,3,4) e(1) by (simp add: export_session_bindings_def Let_def)
qed

lemma exportable_stays:
  assumes "node_ok n" "nd_origin n \<noteq> None" "exportable n cut_id agent" "node_step\<^sup>*\<^sup>* n n'"
  shows "node_ok n' \<and> exportable n' cut_id agent \<and> nd_origin n' = nd_origin n"
  using assms(4)
proof (induction rule: rtranclp_induct)
  case (step y z)
  then have g: "step_good y z" by (intro step_is_good) simp_all
  then show ?case using step exportable_step [OF g] by (simp add: step_good_def)
qed (use assms(1,3) in simp)

definition ref_key :: "move_ref \<Rightarrow> session_key" where
  "ref_key r = (case r of MoveRef kind name \<Rightarrow> (kind, name))"

lemma bound_refs_live: "set (map ref_key (bound_refs n agent)) = live_of n agent"
  by (force simp: bound_refs_def live_of_def ref_key_def sr_key_def)

lemma admitted_exportable:
  assumes "node_ok n" "admit_agent_move n m refs = (n1, Inr x)" "nd_moves n1 \<noteq> nd_moves n"
    and "set (plan_binding_refs (am_plan m)) = set (map ref_key refs)"
  shows "node_ok n1 \<and> exportable n1 (am_cut_id m) (am_agent_id m) \<and> nd_origin n1 = nd_origin n"
proof -
  have kept: "moves_ok n1" "nd_sessions n1 = nd_sessions n" "nd_history n1 = nd_history n" "nd_origin n1 = nd_origin n"
    using admit_kept [OF node_okD(2) [OF assms(1)] refl, of m refs] assms(2) by simp_all
  have side: "am_side m = Source" using assms(2) by (auto simp: admit_agent_move_def split: if_splits)
  have placed: "bound_refs n (am_agent_id m) = refs \<and> nd_moves n1 = nd_moves n @ [m]"
    by (cases rule: admit_agent_move_cases [OF assms(2)]) (use assms(3) in \<open>auto simp: insert_move_Some\<close>)
  have "load_move n1 (am_cut_id m) = Some m" using placed kept(1) by (intro load_move_in) simp_all
  moreover have "live_of n1 (am_agent_id m) = set (map ref_key refs)"
    using bound_refs_live [of n "am_agent_id m"] placed kept(2) by (simp add: live_of_def)
  moreover have "live_of n1 (am_agent_id m) \<subseteq> keys_of n1 (am_agent_id m)" by (auto simp: live_of_def keys_of_def)
  ultimately have "exportable n1 (am_cut_id m) (am_agent_id m)" using side assms(4) by (simp add: exportable_def)
  then show ?thesis using kept node_okD(1) [OF assms(1)] sessions_ok_cong [OF kept(2,3)] by (simp add: node_ok_def)
qed

text \<open>C2. The bindings a source move was admitted with stay frozen until they are exported. When a move is
  newly admitted and its plan names the references it was admitted with, then after any sequence of
  registrations, ends, prunings, checkpoints, aborts, other admissions and activations the move is still
  there, and while it is in a step that exports, the export succeeds.\<close>

theorem admitted_stays_exportable:
  assumes "node_ok n" "nd_origin n \<noteq> None" "admit_agent_move n m refs = (n1, Inr x)" "nd_moves n1 \<noteq> nd_moves n"
    and "set (plan_binding_refs (am_plan m)) = set (map ref_key refs)" and "node_step\<^sup>*\<^sup>* n1 n'"
  shows "case load_move n' (am_cut_id m) of None \<Rightarrow> False
     | Some y \<Rightarrow> freezing y (am_agent_id m) \<longrightarrow> is_ok (export_session_bindings n' (am_cut_id m) (am_agent_id m))"
proof -
  have "node_ok n' \<and> exportable n' (am_cut_id m) (am_agent_id m) \<and> nd_origin n' = nd_origin n"
    using admitted_exportable [OF assms(1,3,4,5)] assms(2)
      exportable_stays [OF _ _ _ assms(6), of "am_cut_id m" "am_agent_id m"] by (metis (no_types, lifting))
  then have e: "exportable n' (am_cut_id m) (am_agent_id m)" "nd_origin n' \<noteq> None" using assms(2) by simp_all
  then obtain y where y: "load_move n' (am_cut_id m) = Some y" by (auto simp: exportable_def)
  then show ?thesis using export_when [OF e(1) y _ e(2)] by simp
qed

section \<open>Examples\<close>

lemma bound_node_good: "node_ok (bound_node since)"
  using bound_node_ok by (simp add: node_ok_def) (simp add: moves_ok_def pairwise_free_def bound_node_def example_node_def)

lemma moving_admitted: "admit_agent_move (bound_node 5) planned_move [MoveRef ''k'' ''r1''] = (moving_node, Inr planned_move)"
proof -
  have "snd (admit_agent_move (bound_node 5) planned_move [MoveRef ''k'' ''r1'']) = Inr planned_move" by code_simp
  then show ?thesis by (metis moving_node_def prod.collapse)
qed

lemma node_invariant_witness:
  "distinct (map sr_key (nd_sessions (fst (end_session (bound_node 5) ''h'' ''s'' None 9))))"
proof -
  have "node_step\<^sup>*\<^sup>* (bound_node 5) (fst (end_session (bound_node 5) ''h'' ''s'' None 9))" by (intro r_into_rtranclp st_end)
  from node_invariant [OF this bound_node_good] show ?thesis by (elim conjE) assumption
qed

lemma admitted_stays_exportable_witness:
  "is_ok (export_session_bindings (fst (end_session moving_node ''h'' ''s'' None 9)) ''c1'' ''a1'')"
proof -
  have steps: "node_step\<^sup>*\<^sup>* moving_node (fst (end_session moving_node ''h'' ''s'' None 9))" by (intro r_into_rtranclp st_end)
  have o: "nd_origin (bound_node 5) \<noteq> None" by (simp add: bound_node_def example_node_def)
  have "length (nd_moves moving_node) \<noteq> length (nd_moves (bound_node 5))" unfolding moving_node_def by code_simp
  then have new: "nd_moves moving_node \<noteq> nd_moves (bound_node 5)" by auto
  have plan: "set (plan_binding_refs (am_plan planned_move)) = set (map ref_key [MoveRef ''k'' ''r1''])" by code_simp
  have load: "map_option (\<lambda>y. freezing y ''a1'') (load_move (fst (end_session moving_node ''h'' ''s'' None 9)) ''c1'') = Some True"
    unfolding moving_node_def by code_simp
  have c: "am_cut_id planned_move = ''c1''" "am_agent_id planned_move = ''a1''" by (simp_all add: planned_move_def example_move_def)
  from admitted_stays_exportable [OF bound_node_good o moving_admitted new plan steps, unfolded c] load show ?thesis
    by (auto split: option.splits)
qed

end
