(* ===== verification/Residence.thy ===== *)
theory Residence
  imports Sessions
begin

text \<open>
  Where a session may be restored (\<open>crates/entorhinal-core/src/session_residence.rs\<close>): the answer of one
  read over the binding, the open moves and the cached claim, and that it agrees with the checks of a
  registration.
\<close>

section \<open>Where a session may be restored\<close>

record residence =
  rs_state :: string
  rs_agent :: "string option"
  rs_held_on :: "string option"
  rs_holder :: "string option"
  rs_holder_name :: "string option"
  rs_epoch :: "int option"
  rs_cut_id :: "string option"
  rs_read_at :: "int option"

definition residence_state :: "string \<Rightarrow> residence" where
  "residence_state state = \<lparr>rs_state = state, rs_agent = None, rs_held_on = None, rs_holder = None, rs_holder_name = None,
     rs_epoch = None, rs_cut_id = None, rs_read_at = None\<rparr>"

definition agent_moves_now :: "node \<Rightarrow> string \<Rightarrow> bool" where
  "agent_moves_now n agent \<longleftrightarrow> list_ex (\<lambda>m. am_agent_id m = agent \<and> is_open m) (nd_moves n)"

definition unusable_claim :: "claim_view \<Rightarrow> bool" where
  "unusable_claim v \<longleftrightarrow> \<not> cv_known v \<or> cc_stale (cv_claim v) \<or> cc_failed (cv_claim v)
     \<or> (1 \<le> cc_epoch (cv_claim v) \<and> cv_own v = None)"

definition claimed_residence :: "node \<Rightarrow> string \<Rightarrow> bool \<Rightarrow> residence" where
  "claimed_residence n agent foreign =
    (let v = load_claim_view (nd_claims n) agent foreign in
     \<lparr>rs_state = (if unusable_claim v then ''unknown''
        else if view_status v = ''held_here'' then ''here''
        else if view_status v = ''held_elsewhere'' then ''elsewhere'' else ''unclaimed''),
      rs_agent = Some agent, rs_held_on = None, rs_holder = cc_holder (cv_claim v),
      rs_holder_name = view_holder_name (nd_claims n) v,
      rs_epoch = (if cv_known v then Some (cc_epoch (cv_claim v)) else None),
      rs_cut_id = cc_cut_id (cv_claim v), rs_read_at = cv_read_at v\<rparr>)"

definition session_residence :: "node \<Rightarrow> bool \<Rightarrow> string \<Rightarrow> string \<Rightarrow> residence" where
  "session_residence n foreign runner session =
    (case runner_session_owner n runner session of None \<Rightarrow> residence_state ''not_registered''
     | Some r \<Rightarrow> (case sr_held_on r of
         Some machine \<Rightarrow> (residence_state ''elsewhere'')\<lparr>rs_agent := Some (sr_agent_id r), rs_held_on := Some machine\<rparr>
       | None \<Rightarrow> if agent_moves_now n (sr_agent_id r) then (residence_state ''moving'')\<lparr>rs_agent := Some (sr_agent_id r)\<rparr>
           else claimed_residence n (sr_agent_id r) foreign))"

text \<open>A claim this machine may decide by: a cached one read afresh and verified, whose holder it can tell from itself, or
  none at all while sharing was never turned on. A foreign store has none.\<close>

definition vouched :: "node \<Rightarrow> string \<Rightarrow> bool \<Rightarrow> cached_claim \<Rightarrow> bool" where
  "vouched n agent foreign c \<longleftrightarrow> \<not> foreign \<and> (case load_claim (nd_claims n) agent of
     Some k \<Rightarrow> c = k \<and> \<not> cc_stale k \<and> \<not> cc_failed k \<and> (1 \<le> cc_epoch k \<longrightarrow> ct_self (nd_claims n) \<noteq> None)
   | None \<Rightarrow> ct_sharing (nd_claims n) \<in> {None, Some ''disabled''} \<and> c = unclaimed 0 False False)"

text \<open>A registration that another agent's incoming move refuses, because it reserves the reference.\<close>

definition reserved_for :: "node \<Rightarrow> registration \<Rightarrow> bool" where
  "reserved_for n q \<longleftrightarrow> (\<exists>m\<in>set (open_moves n). reserves_ref m q \<and> check_agent n q = Inl (refuse ''agent_moving'' (Some (move_detail m))))"

lemma claimed_state:
  "rs_state (claimed_residence n agent foreign) = ''here'' \<Longrightarrow> check_registration_claim (nd_claims n) agent = Inr ()"
  "rs_state (claimed_residence n agent foreign) = ''unclaimed'' \<Longrightarrow> check_registration_claim (nd_claims n) agent = Inr ()"
  "rs_state (claimed_residence n agent foreign) = ''elsewhere'' \<Longrightarrow> rs_epoch (claimed_residence n agent foreign) = Some e \<Longrightarrow> 1 \<le> e \<Longrightarrow>
     check_registration_claim (nd_claims n) agent = Inl (HeldElsewhere (rs_holder (claimed_residence n agent foreign))
       (rs_holder_name (claimed_residence n agent foreign)) e)"
  by (auto simp: claimed_residence_def Let_def unusable_claim_def view_status_def load_claim_view_def check_registration_claim_def
      unclaimed_def is_some_def view_holder_name_def split: option.splits if_splits)

lemma claimed_kinds:
  "rs_state (claimed_residence n agent foreign) = ''here'' \<longleftrightarrow> (\<exists>c. vouched n agent foreign c \<and> cc_epoch c \<noteq> 0
     \<and> cc_holder c \<noteq> None \<and> cc_holder c = ct_self (nd_claims n))"
  "rs_state (claimed_residence n agent foreign) = ''unclaimed'' \<longleftrightarrow> (\<exists>c. vouched n agent foreign c \<and> cc_epoch c = 0)"
  "rs_state (claimed_residence n agent foreign) = ''elsewhere'' \<longleftrightarrow> (\<exists>c. vouched n agent foreign c \<and> cc_epoch c \<noteq> 0
     \<and> \<not> (cc_holder c \<noteq> None \<and> cc_holder c = ct_self (nd_claims n)))"
  "rs_state (claimed_residence n agent foreign) = ''unknown'' \<longleftrightarrow> (\<nexists>c. vouched n agent foreign c)"
  "rs_state (claimed_residence n agent foreign) \<noteq> ''moving''"
  by (auto simp: claimed_residence_def Let_def unusable_claim_def view_status_def load_claim_view_def vouched_def
      unclaimed_def is_some_def split: option.splits if_splits)

lemma claimed_refused:
  assumes "rs_state (claimed_residence n agent foreign) = ''elsewhere''" "\<And>c. load_claim (nd_claims n) agent = Some c \<Longrightarrow> 0 \<le> cc_epoch c"
  shows "\<exists>e. rs_epoch (claimed_residence n agent foreign) = Some e \<and> 1 \<le> e"
  using assms by (auto simp: claimed_residence_def Let_def unusable_claim_def view_status_def load_claim_view_def
      unclaimed_def is_some_def split: option.splits if_splits)

lemma find_held:
  assumes "sessions_ok n" "r \<in> set (nd_sessions n)" "rg_key q = sr_key r" "host_key r = Some (rg_harness q, rg_session q)"
  shows "find (\<lambda>x. sr_held_on x \<noteq> None \<and> (sr_key x = rg_key q \<or> host_key x = Some (rg_harness q, rg_session q))) (nd_sessions n)
    = (if sr_held_on r = None then None else Some r)"
proof -
  have one: "x = r" if "x \<in> set (nd_sessions n)" "sr_key x = rg_key q \<or> host_key x = Some (rg_harness q, rg_session q)" for x
  proof (rule ccontr)
    assume d: "x \<noteq> r"
    have free: "pairwise_free session_clash (nd_sessions n)" using assms(1) by (simp add: sessions_ok_def)
    then have k: "sr_key x \<noteq> sr_key r" using same_session [OF free that(1) assms(2)] d by blast
    then show False using that(2) ss.free_pair [OF free that(1) assms(2) k] assms(3,4) by (auto simp: session_clash_def)
  qed
  show ?thesis
  proof (cases "sr_held_on r")
    case None
    then show ?thesis using one by (auto simp: find_None_iff)
  next
    case (Some m)
    then have "find (\<lambda>x. sr_held_on x \<noteq> None \<and> (sr_key x = rg_key q \<or> host_key x = Some (rg_harness q, rg_session q))) (nd_sessions n) \<noteq> None"
      using assms(2-4) by (auto simp: find_None_iff)
    then obtain y where y: "find (\<lambda>x. sr_held_on x \<noteq> None \<and> (sr_key x = rg_key q \<or> host_key x = Some (rg_harness q, rg_session q))) (nd_sessions n) = Some y"
      by blast
    then have "y = r" using one [of y] find_SomeD [OF y] by blast
    then show ?thesis using y Some by simp
  qed
qed

text \<open>C20. Restoring follows the same rules as registering. The answer is \<open>elsewhere\<close> for data held on another machine and
  \<open>moving\<close> for an agent in an open move; otherwise it is decided by the claim, and by a claim this machine may decide by
  only: \<open>here\<close> when this machine holds it, \<open>unclaimed\<close> at epoch 0, \<open>elsewhere\<close> when another holder does, and \<open>unknown\<close>
  exactly when there is no such claim. Where the answer is neither \<open>unknown\<close> nor \<open>moving\<close>, the session is said to be here
  or unclaimed if registering it again passes every check of who may register, and only if it passes all but a reference
  that another agent's incoming move reserves; a session said to be elsewhere is refused with the machine, or with the
  holder, its name and the epoch that the answer shows, short of such a reservation.\<close>

theorem residence_agrees:
  assumes "sessions_ok n" "nd_cut_over n" "runner_session_owner n runner session = Some r" "nd_agents n (sr_agent_id r) = Some None"
    and "rg_agent q = sr_agent_id r" "rg_key q = sr_key r" "host_key r = Some (rg_harness q, rg_session q)"
    and "\<And>c. load_claim (nd_claims n) (sr_agent_id r) = Some c \<Longrightarrow> 0 \<le> cc_epoch c"
    and "session_residence n foreign runner session = x"
  shows "rs_agent x = Some (rg_agent q)
    \<and> (rs_state x = ''moving'' \<longleftrightarrow> sr_held_on r = None \<and> agent_moves_now n (rg_agent q))
    \<and> (rs_state x = ''unknown'' \<longleftrightarrow> sr_held_on r = None \<and> \<not> agent_moves_now n (rg_agent q) \<and> (\<nexists>c. vouched n (rg_agent q) foreign c))
    \<and> (rs_state x = ''here'' \<longleftrightarrow> sr_held_on r = None \<and> \<not> agent_moves_now n (rg_agent q)
        \<and> (\<exists>c. vouched n (rg_agent q) foreign c \<and> cc_epoch c \<noteq> 0 \<and> cc_holder c \<noteq> None \<and> cc_holder c = ct_self (nd_claims n)))
    \<and> (rs_state x = ''unclaimed'' \<longleftrightarrow> sr_held_on r = None \<and> \<not> agent_moves_now n (rg_agent q)
        \<and> (\<exists>c. vouched n (rg_agent q) foreign c \<and> cc_epoch c = 0))
    \<and> (rs_state x \<notin> {''unknown'', ''moving''} \<longrightarrow>
        (check_agent n q = Inr () \<longrightarrow> rs_state x \<in> {''here'', ''unclaimed''})
        \<and> (rs_state x \<in> {''here'', ''unclaimed''} \<longrightarrow> check_agent n q = Inr () \<or> reserved_for n q)
        \<and> (rs_state x \<notin> {''here'', ''unclaimed''} \<longrightarrow> rs_state x = ''elsewhere'' \<and> (case rs_held_on x of
             Some machine \<Rightarrow> check_agent n q = Inl (on_other_machine machine)
           | None \<Rightarrow> reserved_for n q \<or> (\<exists>e\<ge>1. rs_epoch x = Some e
               \<and> check_agent n q = Inl (claim_error (HeldElsewhere (rs_holder x) (rs_holder_name x) e))))))"
proof -
  have r: "r \<in> set (nd_sessions n)" using assms(3) by (auto simp: runner_session_owner_def dest: find_SomeD)
  note held = find_held [OF assms(1) r assms(6,7)]
  have gate: "check_agent n q = (case sr_held_on r of Some machine \<Rightarrow> Inl (on_other_machine machine)
      | None \<Rightarrow> bind_res (check_moving_registration n q) (\<lambda>_. map_err claim_error (check_registration_claim (nd_claims n) (rg_agent q))))"
    using assms(2) unfolding check_agent_def assms(4,5) held by (simp split: option.split)
  show ?thesis
  proof (cases "sr_held_on r")
    case (Some machine)
    then have "x = (residence_state ''elsewhere'')\<lparr>rs_agent := Some (sr_agent_id r), rs_held_on := Some machine\<rparr>"
      using assms(3,9) by (simp add: session_residence_def)
    then show ?thesis using Some gate assms(5) by (simp add: residence_state_def)
  next
    case None
    show ?thesis
    proof (cases "agent_moves_now n (sr_agent_id r)")
      case True
      then have "x = (residence_state ''moving'')\<lparr>rs_agent := Some (sr_agent_id r)\<rparr>" using None assms(3,9) by (simp add: session_residence_def)
      then show ?thesis using assms(5) None True by (simp add: residence_state_def)
    next
      case False
      then have x: "x = claimed_residence n (rg_agent q) foreign" using None assms(3,5,9) by (simp add: session_residence_def)
      have free: "\<not> blocks_agent m (rg_agent q)" if "m \<in> set (open_moves n)" for m
        using False that assms(5) by (auto simp: agent_moves_now_def open_moves_def blocks_agent_def list_ex_iff)
      have "check_moving_registration n q = Inr () \<or> (\<exists>m\<in>set (open_moves n). reserves_ref m q
          \<and> check_moving_registration n q = Inl (refuse ''agent_moving'' (Some (move_detail m))))"
        using free by (auto simp: check_moving_registration_def split: option.split dest!: find_SomeD)
      then have check: "check_agent n q = map_err claim_error (check_registration_claim (nd_claims n) (rg_agent q)) \<or> reserved_for n q"
        using gate None by (auto simp: reserved_for_def)
      have stops: "\<not> reserved_for n q" if "check_agent n q = Inr ()" using that by (auto simp: reserved_for_def)
      note state = claimed_kinds [of n "rg_agent q" foreign, folded x] and verdict = claimed_state [of n "rg_agent q" foreign, folded x]
      have refused: "\<exists>e\<ge>1. rs_epoch x = Some e" if "rs_state x = ''elsewhere''"
        using claimed_refused [of n "rg_agent q" foreign] that assms(5,8) x by auto
      have four: "rs_state x \<in> {''unknown'', ''here'', ''unclaimed'', ''elsewhere''}" using state by blast
      have basic: "rs_agent x = Some (rg_agent q)" "rs_held_on x = None" by (simp_all add: x claimed_residence_def Let_def)
      have elsewhere: "reserved_for n q \<or> (\<exists>e\<ge>1. rs_epoch x = Some e
          \<and> check_agent n q = Inl (claim_error (HeldElsewhere (rs_holder x) (rs_holder_name x) e)))" if away: "rs_state x = ''elsewhere''"
      proof -
        obtain e where e: "1 \<le> e" "rs_epoch x = Some e" using refused [OF away] by blast
        have "check_agent n q = Inl (claim_error (HeldElsewhere (rs_holder x) (rs_holder_name x) e)) \<or> reserved_for n q"
          using check unfolding verdict(3) [OF away e(2,1)] by simp
        then show ?thesis using e by blast
      qed
      have passes: "check_agent n q = Inr () \<or> reserved_for n q" if "rs_state x \<in> {''here'', ''unclaimed''}"
        using that verdict(1,2) check by auto
      have only: "rs_state x \<noteq> ''elsewhere''" if "check_agent n q = Inr ()" using elsewhere stops [OF that] that by auto
      show ?thesis using basic state(1,2,4,5) four None False assms(5) elsewhere passes only by auto
    qed
  qed
qed

definition claimed_node :: node where
  "claimed_node = (bound_node 5)\<lparr>nd_claims := enabled_tables\<lparr>ct_self := Some ''m1'',
     ct_claims := [''a1'' \<mapsto> \<lparr>cc_holder = Some ''m2'', cc_epoch = 3, cc_cut_id = None, cc_version = 1, cc_read_at = 5,
       cc_stale = False, cc_failed = False\<rparr>]\<rparr>\<rparr>"

definition again_request :: registration where
  "again_request = rekey_request\<lparr>rg_ref := ''r1''\<rparr>"

lemma residence_agrees_witness:
  "rs_state (session_residence claimed_node False ''broca'' ''s'') = ''elsewhere''
   \<and> check_agent claimed_node again_request = Inl (claim_error (HeldElsewhere (Some ''m2'') None 3))"
proof -
  have o: "runner_session_owner claimed_node ''broca'' ''s'' = Some example_row"
    by (simp add: runner_session_owner_def claimed_node_def bound_node_def example_row_def runner_key_def)
  have ok: "sessions_ok claimed_node" using bound_node_ok [of 5] sessions_ok_cong [of claimed_node "bound_node 5"] by (simp add: claimed_node_def)
  have a: "nd_cut_over claimed_node" "nd_agents claimed_node (sr_agent_id example_row) = Some None"
    "rg_agent again_request = sr_agent_id example_row" "rg_key again_request = sr_key example_row"
    "host_key example_row = Some (rg_harness again_request, rg_session again_request)" "open_moves claimed_node = []"
    by (simp_all add: claimed_node_def bound_node_def example_node_def example_row_def again_request_def rekey_request_def
        rg_key_def sr_key_def host_key_def open_moves_def)
  have s: "rs_state (session_residence claimed_node False ''broca'' ''s'') = ''elsewhere''"
    "rs_held_on (session_residence claimed_node False ''broca'' ''s'') = None"
    "rs_epoch (session_residence claimed_node False ''broca'' ''s'') = Some 3"
    "rs_holder (session_residence claimed_node False ''broca'' ''s'') = Some ''m2''"
    "rs_holder_name (session_residence claimed_node False ''broca'' ''s'') = None" by code_simp+
  have e: "0 \<le> cc_epoch c" if "load_claim (nd_claims claimed_node) (sr_agent_id example_row) = Some c" for c
    using that by (auto simp: claimed_node_def load_claim_def split: if_splits)
  from residence_agrees [OF ok a(1) o a(2-5) e refl, of False] s a(6) show ?thesis by (simp add: reserved_for_def)
qed

end
