(* ===== verification/Spec2Isabelle.thy ===== *)
theory Spec2Isabelle
  imports Prelude BTree Semver Json Catalog Names Capability Status Statements Archive Packages Resolver Bundle Publish MoveRecord MoveDriver RecordClient MoveWire Claims Roles Node Sessions Carry NodeSteps Residence
begin

text \<open>
  \<^bold>\<open>Entorhinal\<close> keeps the identities of agents on a machine: their sessions, the log that several machines
  share, the moves of an agent from one machine to another, and a catalog of signed packages. This
  development models the logic of three crates: \<open>entorhinal-catalog\<close> (documents, archives, resolution),
  \<open>entorhinal-core\<close> (the store of a machine) and the drivers of \<open>entorhinal-module\<close>.

  \<^bold>\<open>Conventions.\<close> A \<open>String\<close> is the list of its UTF-8 bytes and a byte is a \<open>char\<close>, so that Rust's byte
  order is the lexicographic order of lists. A \<open>Result\<close> is a sum with the error on the left (\<open>bind_res\<close> is
  the \<open>?\<close> operator), a panic of the code does not occur in a modelled function. A \<open>BTreeMap\<close> is an ordered
  association list (\<open>BTree\<close>). Numbers of JSON keep the three cases of \<open>serde_json::Number\<close>; a 64-bit value
  that arithmetic could push over its range has the saturation or the check of the code written out.
  Third-party code is a parameter: \<open>ext\<close> holds SHA-256, Ed25519 and the tokenizer of \<open>serde_json\<close> for the catalog,
  \<open>serde\<close> its reader and writer for records, and \<open>net\<close> the transport to the record service, a function of an
  abstract state of the world; what a theorem needs of them is a named hypothesis, and its witness
  instantiates them with a concrete function.

  \<^bold>\<open>The catalog\<close> (\<open>crates/entorhinal-catalog/src\<close>), pure functions in the order they build on each other:
  \<^item> \<open>Prelude\<close>, \<open>BTree\<close>: results, bytes, numerals; ordered maps, with the canonical-list laws as a locale
    interpreted for the maps of the code.
  \<^item> \<open>Semver\<close> (\<open>semver.rs\<close>): versions, precedence, ranges; \<open>Json\<close> (\<open>jcs.rs\<close>): strict JSON and RFC 8785 text;
    \<open>Catalog\<close> (\<open>lib.rs\<close>): refusals, hexadecimal, signatures, the shape of documents; \<open>Names\<close> (\<open>names.rs\<close>);
    \<open>Capability\<close> (\<open>resolver.rs\<close>, first part).
  \<^item> \<open>Status\<close> (\<open>status.rs\<close>): a status applies only forward in sequence and along the permitted states, and
    a feed keeps what it has when it refuses. \<open>Statements\<close> (\<open>statements.rs\<close>): key rotations and the registry
    key chain, which only grows. \<open>Archive\<close> (\<open>archive.rs\<close>): the ustar writer's output reads back, and what the
    reader accepts holds only safe paths. \<open>Packages\<close> (\<open>record.rs\<close>): a verified package is the recorded one, and
    the text that was signed spells every field of the record.
  \<^item> \<open>Resolver\<close> (\<open>resolver.rs\<close>): rounds of picks with accumulated ranges. The loop ends (each round adds a
    range or stops, and there are finitely many), its result is closed and satisfies every recorded range;
    with several roots, exactly the pins that roots outside the subjects reach are kept. \<open>Bundle\<close> (\<open>bundle.rs\<close>) and
    \<open>Publish\<close> (\<open>publish.rs\<close>): starter bundles, and the publisher's check with the exact condition under which it asks
    for the record of a package that verifies.

  \<^bold>\<open>Moves between machines.\<close>
  \<^item> \<open>MoveRecord\<close> (\<open>move_record.rs\<close>): the wire codec of the shared record and of the inboxes, and its
    bounds. \<open>RecordClient\<close> (\<open>record_client.rs\<close>): reads, conditional writes and the settling of a write whose
    answer was lost. \<open>MoveWire\<close>: how the two drivers (\<open>move_source.rs\<close>, \<open>move_receiver.rs\<close>) use them.
  \<^item> \<open>MoveDriver\<close>: the steps of both drivers with crashes, lost answers, operator aborts and the race for
    the record as the step relation \<open>world_step\<close> over one record and two machines. Calls of participants, of the door and of
    the claim are abstracted to success, the end of the tick, or a hold: a broken contract or a forked activation stops a
    driver for good (\<open>w_src_stopped\<close>, \<open>w_rcv_stopped\<close>), an abort that a participant withholds pauses it until an
    operator's retry or a restart. The order of checkpoint and effect is the code's. At most one side runs, a decided
    record is never undone, both drivers refine the abstract record, a stopped driver waits and writes nothing, and from every
    reachable state in which none is stopped a settled one can be reached.
  \<^item> \<open>Claims\<close> (\<open>claim_cache.rs\<close>, \<open>claim_codec.rs\<close>, \<open>claims.rs\<close>) and \<open>Roles\<close> (\<open>role_cache.rs\<close>, \<open>roles.rs\<close>): local
    observations of records, which go backwards only where the theorem of the finding shows it, and taking a role. A refresh
    pass reads the clock (a function of the world) once per page and is a run of exchanges with the service.

  \<^bold>\<open>The machine's own tables\<close> (\<open>crates/entorhinal-core/src\<close>). The state is the record \<open>node\<close> of \<open>Node\<close>: a table
  is the list of its rows, a unique index is a relation of clashing rows, and a statement that an index or a check
  refuses makes the operation a storage error that leaves the node as it was (the transaction rolls back).
  The locale \<open>unique_table\<close> of \<open>Node\<close> carries the laws of lookup, insertion and update for any
  table, interpreted for moves (\<open>mv\<close>), bindings (\<open>ss\<close>) and history entries.
  \<^item> \<open>Node\<close> (\<open>move_store.rs\<close>): admission, checkpoints, aborts and notices. A stored checkpoint refines the one
    \<open>MoveDriver\<close> is verified over, which ties the driver's model to the store.
  \<^item> \<open>Sessions\<close> (\<open>session_network.rs\<close>, \<open>session_lifecycle.rs\<close>, \<open>register_session\<close> of \<open>lib.rs\<close>): registration with
    its takeovers, network histories, ends, retention (batches end because each deletes a row) and paging.
  \<^item> \<open>Carry\<close> (\<open>session_carry.rs\<close>, activation of \<open>move_store.rs\<close>): bindings survive a move with their histories.
  \<^item> \<open>NodeSteps\<close>: every operation above as one step relation; \<open>node_ok\<close> holds in each reachable state, and what
    a source move was admitted with stays exportable, because registration, retention and other moves
    all respect an open move. \<open>Residence\<close> (\<open>session_residence.rs\<close>): its answer agrees with registration.

  \<^bold>\<open>Bounds.\<close> \<open>clock_left\<close> (no history ends at the largest 64-bit time) is the one bound a registration needs; a
  theorem of \<open>Sessions\<close> shows what happens without it. Fuel appears only in \<open>all_pages\<close>, where the number of rows is enough, and
  where a reader follows pages of the service.

  \<^bold>\<open>Not modelled.\<close> The SQL text, its migrations and failures of the disk; the catalog of agents itself
  (\<open>mutations.rs\<close>, \<open>binding.rs\<close>, \<open>agent/\<close>) and the application of remote entries (\<open>remote_apply.rs\<close>), whose logic
  is in statements over some thirty tables; the process, its command line and wire clients (\<open>main.rs\<close>, \<open>cli.rs\<close>,
  \<open>door_client.rs\<close>, \<open>participant_client.rs\<close>); retry times, diagnostics and public views of moves. Tests are not code of
  the program.
\<close>

end
